(* ===== verification/Prelude.thy ===== *)
theory Prelude
  imports Main "HOL-Library.Word"
begin

text \<open>
  Shared library of the development.

  Kernel code is embedded as a state monad whose results distinguish a normal
  return, a call of \<^verbatim>\<open>panic()\<close> (console.c), which never returns, and a call of
  \<^verbatim>\<open>sleep(chan, lk)\<close> (proc.c), at which the running process gives up the CPU.
  On top of it there is a weakest-precondition calculus: \<open>wp m Q s\<close> says that
  \<open>m\<close> started in \<open>s\<close> returns normally (it neither panics nor sleeps) and its
  result satisfies \<open>Q\<close>; \<open>wlp\<close> is the partial-correctness variant. The rules of
  the calculus are collected in \<open>wp_simps\<close>.

  The second half holds what the components share about byte arrays: \<open>blit\<close>, the
  effect of \<^verbatim>\<open>memmove(buf + off, src, n)\<close> on a buffer, and the little-endian
  encodings by which the x86 lays out C integers in memory.
\<close>

section \<open>Machine types\<close>

type_synonym byte = "8 word"
type_synonym uint32 = "32 word"
type_synonym block = "byte list"

text \<open>The string literals of the code as bytes.\<close>

definition cstr :: "string \<Rightarrow> byte list" where
  "cstr s = map (\<lambda>c. of_nat (of_char c)) s"

text \<open>The modes of \<^verbatim>\<open>open\<close> (fcntl.h).\<close>

abbreviation O_RDONLY :: uint32 where "O_RDONLY \<equiv> 0"
abbreviation O_WRONLY :: uint32 where "O_WRONLY \<equiv> 1"
abbreviation O_RDWR :: uint32 where "O_RDWR \<equiv> 2"
abbreviation O_CREATE :: uint32 where "O_CREATE \<equiv> 0x200"

section \<open>Kernel computations\<close>

text \<open>A sleep channel: the object whose address the code sleeps on.\<close>

datatype chan =
    ChanBuf nat | ChanInode nat | ChanLog | ChanTicks | ChanProc nat
  | ChanPipeRead nat | ChanPipeWrite nat | ChanInput

datatype ('a, 's) result =
    Ok 'a 's
  | Panic string
  | Sleep chan 's

type_synonym ('s, 'a) kop = "'s \<Rightarrow> ('a, 's) result"

definition return :: "'a \<Rightarrow> ('s, 'a) kop" where
  "return x = (\<lambda>s. Ok x s)"

definition bind :: "('s, 'a) kop \<Rightarrow> ('a \<Rightarrow> ('s, 'b) kop) \<Rightarrow> ('s, 'b) kop" where
  "bind m f = (\<lambda>s. case m s of Ok x s' \<Rightarrow> f x s' | Panic e \<Rightarrow> Panic e | Sleep c s' \<Rightarrow> Sleep c s')"

definition gets :: "('s \<Rightarrow> 'a) \<Rightarrow> ('s, 'a) kop" where
  "gets f = (\<lambda>s. Ok (f s) s)"

definition modify :: "('s \<Rightarrow> 's) \<Rightarrow> ('s, unit) kop" where
  "modify f = (\<lambda>s. Ok () (f s))"

definition panic :: "string \<Rightarrow> ('s, 'a) kop" where
  "panic msg = (\<lambda>s. Panic msg)"

definition sleep_on :: "chan \<Rightarrow> ('s, 'a) kop" where
  "sleep_on c = (\<lambda>s. Sleep c s)"

definition panic_if :: "bool \<Rightarrow> string \<Rightarrow> ('s, unit) kop" where
  "panic_if b msg = (if b then panic msg else return ())"

definition whenk :: "bool \<Rightarrow> ('s, unit) kop \<Rightarrow> ('s, unit) kop" where
  "whenk b m = (if b then m else return ())"

text \<open>A counted loop whose body runs once for every element of a list of indices.\<close>

fun for_each :: "'i list \<Rightarrow> ('i \<Rightarrow> ('s, unit) kop) \<Rightarrow> ('s, unit) kop" where
  "for_each [] body = return ()"
| "for_each (i # is) body = bind (body i) (\<lambda>_. for_each is body)"

section \<open>Weakest preconditions\<close>

named_theorems wp_simps \<open>equations of the weakest-precondition calculus\<close>

definition wp :: "('s, 'a) kop \<Rightarrow> ('a \<Rightarrow> 's \<Rightarrow> bool) \<Rightarrow> 's \<Rightarrow> bool" where
  "wp m Q s = (case m s of Ok x s' \<Rightarrow> Q x s' | Panic e \<Rightarrow> False | Sleep c s' \<Rightarrow> False)"

definition wlp :: "('s, 'a) kop \<Rightarrow> ('a \<Rightarrow> 's \<Rightarrow> bool) \<Rightarrow> 's \<Rightarrow> bool" where
  "wlp m Q s = (case m s of Ok x s' \<Rightarrow> Q x s' | Panic e \<Rightarrow> True | Sleep c s' \<Rightarrow> True)"

lemma wp_return [wp_simps]: "wp (return x) Q s = Q x s"
  by (simp add: wp_def return_def)

lemma wp_bind [wp_simps]: "wp (bind m f) Q s = wp m (\<lambda>x. wp (f x) Q) s"
  by (simp add: wp_def bind_def split: result.split)

lemma wp_gets [wp_simps]: "wp (gets f) Q s = Q (f s) s"
  by (simp add: wp_def gets_def)

lemma wp_modify [wp_simps]: "wp (modify f) Q s = Q () (f s)"
  by (simp add: wp_def modify_def)

lemma wp_panic [wp_simps]: "wp (panic e) Q s = False"
  by (simp add: wp_def panic_def)

lemma wp_sleep_on [wp_simps]: "wp (sleep_on c) Q s = False"
  by (simp add: wp_def sleep_on_def)

lemma wp_panic_if [wp_simps]: "wp (panic_if b e) Q s = (\<not> b \<and> Q () s)"
  by (simp add: panic_if_def wp_simps)

lemma wp_whenk [wp_simps]: "wp (whenk b m) Q s = (if b then wp m Q s else Q () s)"
  by (simp add: whenk_def wp_simps)

lemma wp_if [wp_simps]: "wp (if b then m else n) Q s = (if b then wp m Q s else wp n Q s)"
  by simp

lemma wp_mono: "wp m Q s \<Longrightarrow> (\<And>x s'. Q x s' \<Longrightarrow> R x s') \<Longrightarrow> wp m R s"
  by (auto simp: wp_def split: result.splits)

lemma wp_Ok: "wp m Q s \<longleftrightarrow> (\<exists>x s'. m s = Ok x s' \<and> Q x s')"
  by (auto simp: wp_def split: result.splits)

lemma wpE:
  assumes "wp m Q s"
  obtains x s' where "m s = Ok x s'" and "Q x s'"
  using assms by (auto simp: wp_Ok)

lemma wp_OkD: "wp m Q s \<Longrightarrow> m s = Ok x s' \<Longrightarrow> Q x s'"
  by (simp add: wp_def)

text \<open>The same equations for postconditions nested under a binder.\<close>

lemma wp_bind_fun: "wp (bind m f) Q = wp m (\<lambda>x. wp (f x) Q)"
  by (rule ext) (rule wp_bind)

lemma wp_gets_fun: "wp (gets f) Q = (\<lambda>s. Q (f s) s)"
  by (rule ext) (rule wp_gets)

lemma wp_modify_fun: "wp (modify f) Q = (\<lambda>s. Q () (f s))"
  by (rule ext) (rule wp_modify)

lemma wp_panic_if_fun: "wp (panic_if b e) Q = (\<lambda>s. \<not> b \<and> Q () s)"
  by (rule ext) (rule wp_panic_if)

lemma wp_return_fun: "wp (return x) Q = Q x"
  by (rule ext) (rule wp_return)

lemmas wp_funs = wp_bind_fun wp_gets_fun wp_modify_fun wp_panic_if_fun wp_return_fun

lemma wp_mono2:
  assumes "wp m (\<lambda>a. wp (n a) (Q a)) s" and "\<And>a b t. Q a b t \<Longrightarrow> R a b t"
  shows "wp m (\<lambda>a. wp (n a) (R a)) s"
  by (rule wp_mono [OF assms(1)]) (erule wp_mono, rule assms(2))

lemma wlp_return [wp_simps]: "wlp (return x) Q s = Q x s"
  by (simp add: wlp_def return_def)

lemma wlp_bind [wp_simps]: "wlp (bind m f) Q s = wlp m (\<lambda>x. wlp (f x) Q) s"
  by (simp add: wlp_def bind_def split: result.split)

lemma wlp_gets [wp_simps]: "wlp (gets f) Q s = Q (f s) s"
  by (simp add: wlp_def gets_def)

lemma wlp_modify [wp_simps]: "wlp (modify f) Q s = Q () (f s)"
  by (simp add: wlp_def modify_def)

lemma wlp_panic [wp_simps]: "wlp (panic e) Q s"
  by (simp add: wlp_def panic_def)

lemma wlp_sleep_on [wp_simps]: "wlp (sleep_on c) Q s"
  by (simp add: wlp_def sleep_on_def)

lemma wlp_panic_if [wp_simps]: "wlp (panic_if b e) Q s = (b \<or> Q () s)"
  by (simp add: panic_if_def wp_simps)

lemma wlp_whenk [wp_simps]: "wlp (whenk b m) Q s = (if b then wlp m Q s else Q () s)"
  by (simp add: whenk_def wp_simps)

lemma wlp_if [wp_simps]: "wlp (if b then m else n) Q s = (if b then wlp m Q s else wlp n Q s)"
  by simp

lemma wlp_mono: "wlp m Q s \<Longrightarrow> (\<And>x s'. Q x s' \<Longrightarrow> R x s') \<Longrightarrow> wlp m R s"
  by (auto simp: wlp_def split: result.splits)

lemma wlp_Ok: "wlp m Q s \<longleftrightarrow> (\<forall>x s'. m s = Ok x s' \<longrightarrow> Q x s')"
  by (auto simp: wlp_def split: result.splits)

lemma wlp_conj: "wlp m Q s \<Longrightarrow> wlp m R s \<Longrightarrow> wlp m (\<lambda>x s'. Q x s' \<and> R x s') s"
  by (auto simp: wlp_Ok)

lemma wp_imp_wlp: "wp m Q s \<Longrightarrow> wlp m Q s"
  by (auto simp: wp_Ok wlp_Ok)

lemma wp_wlp: "wp m Q s \<Longrightarrow> wlp m R s \<Longrightarrow> wp m (\<lambda>x s'. Q x s' \<and> R x s') s"
  by (auto simp: wp_Ok wlp_Ok)

text \<open>Loop rule: an invariant indexed by what is left of the iteration.\<close>

lemma wp_for_each:
  assumes "I is s"
    and "\<And>i js t. I (i # js) t \<Longrightarrow> set (i # js) \<subseteq> set is \<Longrightarrow> wp (body i) (\<lambda>_. I js) t"
    and "\<And>t. I [] t \<Longrightarrow> Q () t"
  shows "wp (for_each is body) Q s"
  using assms
proof (induction "is" arbitrary: s)
  case Nil
  then show ?case by (simp add: wp_simps)
next
  case (Cons i js)
  have "wp (body i) (\<lambda>_. I js) s"
    by (rule Cons.prems(2)) (use Cons.prems(1) in auto)
  then have "wp (body i) (\<lambda>_. wp (for_each js body) Q) s"
  proof (rule wp_mono)
    fix x t
    assume "I js t"
    then show "wp (for_each js body) Q t"
    proof (rule Cons.IH)
      fix k ks u
      assume "I (k # ks) u" and "set (k # ks) \<subseteq> set js"
      then show "wp (body k) (\<lambda>_. I ks) u"
        by (intro Cons.prems(2)) auto
    qed (rule Cons.prems(3))
  qed
  then show ?case by (simp add: wp_simps)
qed

text \<open>The same for a loop over \<^verbatim>\<open>0 .. n-1\<close>, with an invariant indexed by the iterations done.\<close>

lemma wp_for_upt:
  assumes "I 0 s" and "\<And>i t. i < n \<Longrightarrow> I i t \<Longrightarrow> wp (body i) (\<lambda>_. I (Suc i)) t"
  shows "wp (for_each [0..<n] body) (\<lambda>_. I n) s"
proof -
  have "wp (for_each [k..<n] body) (\<lambda>_. I n) s" if "I k s" "k \<le> n" for k s
    using that
  proof (induction "n - k" arbitrary: k s)
    case 0
    then show ?case by (simp add: wp_simps)
  next
    case (Suc m)
    then have "k < n" by simp
    with assms(2) Suc.prems have "wp (body k) (\<lambda>_. I (Suc k)) s" by blast
    then have "wp (body k) (\<lambda>_. wp (for_each [Suc k..<n] body) (\<lambda>_. I n)) s"
      by (rule wp_mono) (use Suc \<open>k < n\<close> in auto)
    with \<open>k < n\<close> show ?case by (simp add: upt_conv_Cons wp_simps)
  qed
  then show ?thesis using assms(1) by blast
qed

lemma wlp_for_each:
  assumes "I s" and "\<And>i t. i \<in> set is \<Longrightarrow> I t \<Longrightarrow> wlp (body i) (\<lambda>_. I) t"
  shows "wlp (for_each is body) (\<lambda>_. I) s"
  using assms
proof (induction "is" arbitrary: s)
  case Nil
  then show ?case by (simp add: wp_simps)
next
  case (Cons i js)
  then have "wlp (body i) (\<lambda>_. I) s" by simp
  then have "wlp (body i) (\<lambda>_. wlp (for_each js body) (\<lambda>_. I)) s"
    by (rule wlp_mono) (use Cons in auto)
  then show ?case by (simp add: wp_simps)
qed

section \<open>Arithmetic\<close>

lemma div_mod_within:
  fixes b i off :: nat
  assumes "off mod b + i < b"
  shows "(off + i) div b = off div b" "(off + i) mod b = off mod b + i"
proof -
  define x q where "x = off mod b + i" and "q = off div b"
  have e: "off + i = x + q * b" by (simp add: x_def q_def)
  have "x < b" "b \<noteq> 0" using assms by (auto simp: x_def)
  then show "(off + i) div b = off div b" "(off + i) mod b = off mod b + i"
    unfolding e x_def [symmetric] q_def [symmetric] by simp_all
qed

section \<open>List searches\<close>

lemma find_SomeD: "find P xs = Some x \<Longrightarrow> x \<in> set xs \<and> P x"
  by (induction xs) (auto split: if_splits)

lemma find_NoneD: "find P xs = None \<Longrightarrow> x \<in> set xs \<Longrightarrow> \<not> P x"
  by (induction xs) (auto split: if_splits)

section \<open>Byte arrays\<close>

named_theorems block_simps \<open>rewriting of buffer reads after buffer writes\<close>

text \<open>\<open>blit off src buf\<close> is \<open>buf\<close> after \<^verbatim>\<open>memmove(buf + off, src, |src|)\<close>.\<close>

definition blit :: "nat \<Rightarrow> 'a list \<Rightarrow> 'a list \<Rightarrow> 'a list" where
  "blit off src buf = take off buf @ src @ drop (off + length src) buf"

text \<open>\<open>slice off n buf\<close> is the run of \<open>n\<close> elements at \<open>buf + off\<close>.\<close>

definition slice :: "nat \<Rightarrow> nat \<Rightarrow> 'a list \<Rightarrow> 'a list" where
  "slice off n buf = take n (drop off buf)"

lemma length_blit [simp]:
  "off + length src \<le> length buf \<Longrightarrow> length (blit off src buf) = length buf"
  by (simp add: blit_def)

lemma length_slice [simp]: "off + n \<le> length buf \<Longrightarrow> length (slice off n buf) = n"
  by (simp add: slice_def)

lemma slice_blit_same [block_simps]:
  "off + length src \<le> length buf \<Longrightarrow> n = length src \<Longrightarrow> slice off n (blit off src buf) = src"
  by (simp add: slice_def blit_def)

lemma nth_blit:
  assumes "off + length src \<le> length buf" and "i < length buf"
  shows "blit off src buf ! i =
    (if off \<le> i \<and> i < off + length src then src ! (i - off) else buf ! i)"
  using assms by (auto simp: blit_def nth_append)

lemma nth_slice: "off + n \<le> length buf \<Longrightarrow> i < n \<Longrightarrow> slice off n buf ! i = buf ! (off + i)"
  by (simp add: slice_def)

lemma slice_blit_other [block_simps]:
  assumes "off + length src \<le> length buf" and "off' + n \<le> length buf"
    and "off' + n \<le> off \<or> off + length src \<le> off'"
  shows "slice off' n (blit off src buf) = slice off' n buf"
proof (rule nth_equalityI)
  show "length (slice off' n (blit off src buf)) = length (slice off' n buf)"
    using assms by simp
  fix i
  assume "i < length (slice off' n (blit off src buf))"
  then have "i < n" using assms by simp
  then show "slice off' n (blit off src buf) ! i = slice off' n buf ! i"
    using assms by (auto simp: nth_slice nth_blit)
qed

lemma blit_whole [simp]: "length src = length buf \<Longrightarrow> blit 0 src buf = src"
  by (simp add: blit_def)

section \<open>Little-endian integers\<close>

text \<open>The four bytes of a \<^verbatim>\<open>uint\<close> and the two of a \<^verbatim>\<open>ushort\<close>, least significant first.\<close>

definition le32 :: "nat \<Rightarrow> byte list" where
  "le32 v = map (\<lambda>i. of_nat (v div 256 ^ i mod 256)) [0..<4]"

definition le16 :: "nat \<Rightarrow> byte list" where
  "le16 v = map (\<lambda>i. of_nat (v div 256 ^ i mod 256)) [0..<2]"

text \<open>Reading a run of bytes as a little-endian unsigned integer.\<close>

fun le_nat :: "byte list \<Rightarrow> nat" where
  "le_nat [] = 0"
| "le_nat (b # bs) = unat b + 256 * le_nat bs"

lemma length_le32 [simp]: "length (le32 v) = 4"
  by (simp add: le32_def)

lemma length_le16 [simp]: "length (le16 v) = 2"
  by (simp add: le16_def)

lemma unat_byte [simp]: "unat (of_nat (v mod 256) :: byte) = v mod 256"
  by (simp add: unat_of_nat take_bit_eq_mod)

lemma le_nat_le32: "le_nat (le32 v) = v mod 2 ^ 32"
proof -
  have "le_nat (le32 v) = v mod 256 + 256 * (v div 256 mod 256 +
      256 * (v div 65536 mod 256 + 256 * (v div 16777216 mod 256)))"
    by (simp add: le32_def upt_rec)
  also have "\<dots> = v mod (256 * (256 * (256 * 256)))"
    by (simp only: mod_mult2_eq div_mult2_eq [symmetric] mult.assoc add.commute) simp
  finally show ?thesis by simp
qed

lemma le_nat_le16: "le_nat (le16 v) = v mod 2 ^ 16"
proof -
  have "le_nat (le16 v) = v mod 256 + 256 * (v div 256 mod 256)"
    by (simp add: le16_def upt_rec)
  also have "\<dots> = v mod (256 * 256)"
    by (simp only: mod_mult2_eq add.commute)
  finally show ?thesis by simp
qed

lemma le32_roundtrip [block_simps]: "v < 2 ^ 32 \<Longrightarrow> le_nat (le32 v) = v"
  by (simp add: le_nat_le32)

lemma le16_roundtrip [block_simps]: "v < 2 ^ 16 \<Longrightarrow> le_nat (le16 v) = v"
  by (simp add: le_nat_le16)

lemma le_nat_zeros [simp]: "le_nat (replicate n 0) = 0"
  by (induction n) simp_all

lemma le_nat_bound: "le_nat bs < 256 ^ length bs"
proof (induction bs)
  case Nil
  then show ?case by simp
next
  case (Cons b bs)
  have "unat b < 256" using unsigned_less [of b] by simp
  with Cons show ?case by simp
qed

end
