(* ===== verification/Fs_Layout.thy ===== *)
theory Fs_Layout
  imports Prelude
begin

text \<open>
  Geometry of the disk (fs.h, param.h and the superblock mkfs.c writes), in the
  block-group configuration the Makefile builds (\<^verbatim>\<open>xv6ffs\<close> is not defined):
  \<^verbatim>\<open>[boot | super | log] [bitmap | inode blocks | data blocks]+\<close>.
  Block numbers and sizes are \<^verbatim>\<open>uint\<close>s of the C code; all of them stay far below
  \<open>2 ^ 32\<close> for the image mkfs builds, so they are naturals here.

  The lemmas show where each inode, bitmap, statistics record and data block lies,
  which of them are disjoint, and where the layout macros disagree with each other.
\<close>

section \<open>Constants\<close>

abbreviation MAXOPBLOCKS :: nat where "MAXOPBLOCKS \<equiv> 10"
abbreviation LOGSIZE :: nat where "LOGSIZE \<equiv> MAXOPBLOCKS * 3"
abbreviation NBUF :: nat where "NBUF \<equiv> MAXOPBLOCKS * 3"
abbreviation NINODE :: nat where "NINODE \<equiv> 50"
abbreviation NDEV :: nat where "NDEV \<equiv> 10"
abbreviation ROOTDEV :: nat where "ROOTDEV \<equiv> 1"
abbreviation ROOTINO :: nat where "ROOTINO \<equiv> 1"
abbreviation BSIZE :: nat where "BSIZE \<equiv> 512"
abbreviation NDIRECT :: nat where "NDIRECT \<equiv> 12"
abbreviation sizeof_uint :: nat where "sizeof_uint \<equiv> 4"
abbreviation sizeof_dinode :: nat where "sizeof_dinode \<equiv> 64"
abbreviation BLOCKGROUPS :: nat where "BLOCKGROUPS \<equiv> 25"

definition NINDIRECT :: nat where "NINDIRECT = BSIZE div sizeof_uint"
definition MAXFILE :: nat where "MAXFILE = NDIRECT + NINDIRECT"
definition IPB :: nat where "IPB = BSIZE div sizeof_dinode"
definition BITSPERBLOCK :: nat where "BITSPERBLOCK = BSIZE * 8"
definition NDATABLOCKS :: nat where "NDATABLOCKS = BITSPERBLOCK - (BITSPERBLOCK mod MAXFILE)"
definition BPB :: nat where "BPB = NDATABLOCKS"
definition IPBG :: nat where "IPBG = NDATABLOCKS div MAXFILE"
definition NINODEBLOCKS :: nat where "NINODEBLOCKS = IPBG div IPB + 1"
definition BPBG :: nat where "BPBG = NINODEBLOCKS + NDATABLOCKS + 1"
definition FSSIZE :: nat where "FSSIZE = BLOCKGROUPS * BPBG + LOGSIZE + 2"

lemma layout_vals [simp]:
  "NINDIRECT = 128" "MAXFILE = 140" "IPB = 8" "BITSPERBLOCK = 4096" "NDATABLOCKS = 4060"
  "BPB = 4060" "IPBG = 29" "NINODEBLOCKS = 4" "BPBG = 4065" "FSSIZE = 101657"
  by (simp_all add: NINDIRECT_def MAXFILE_def IPB_def BITSPERBLOCK_def NDATABLOCKS_def
      BPB_def IPBG_def NINODEBLOCKS_def BPBG_def FSSIZE_def)

section \<open>The superblock\<close>

record superblock =
  sb_size :: nat
  sb_nblocks :: nat
  sb_ninodes :: nat
  sb_nlog :: nat
  sb_logstart :: nat
  sb_bgstart :: nat
  sb_nblockgroups :: nat
  sb_bpbg :: nat
  sb_ipbg :: nat

text \<open>The superblock as mkfs.c fills it in (\<^verbatim>\<open>main\<close>, the block-group branch).\<close>

definition mkfs_ninodeblocks :: nat where "mkfs_ninodeblocks = NINODEBLOCKS * BLOCKGROUPS"
definition mkfs_nbitmap :: nat where "mkfs_nbitmap = BLOCKGROUPS"
definition mkfs_nmeta :: nat where
  "mkfs_nmeta = 2 + LOGSIZE + mkfs_ninodeblocks + mkfs_nbitmap"

definition mkfs_sb :: superblock where
  "mkfs_sb = \<lparr>
     sb_size = NDATABLOCKS * BLOCKGROUPS,
     sb_nblocks = FSSIZE - mkfs_nmeta,
     sb_ninodes = IPBG * BLOCKGROUPS,
     sb_nlog = LOGSIZE,
     sb_logstart = 2,
     sb_bgstart = 2 + LOGSIZE,
     sb_nblockgroups = BLOCKGROUPS,
     sb_bpbg = BPBG,
     sb_ipbg = IPBG \<rparr>"

section \<open>Layout macros\<close>

definition BGROUP :: "nat \<Rightarrow> superblock \<Rightarrow> nat" where
  "BGROUP i sb = i div sb_ipbg sb"

definition iNODE_HEAD :: "nat \<Rightarrow> superblock \<Rightarrow> nat" where
  "iNODE_HEAD i sb = (i div sb_ipbg sb) * sb_ipbg sb"

definition BMAP_HEAD :: "nat \<Rightarrow> superblock \<Rightarrow> nat" where
  "BMAP_HEAD piNode sb = (piNode div sb_ipbg sb) * sb_bpbg sb + sb_bgstart sb"

definition DINODEOFFSET :: "nat \<Rightarrow> superblock \<Rightarrow> nat" where
  "DINODEOFFSET inum sb = (inum mod sb_ipbg sb) mod IPB"

definition IBLOCK :: "nat \<Rightarrow> superblock \<Rightarrow> nat" where
  "IBLOCK i sb =
     (i div sb_ipbg sb) * sb_bpbg sb + (i mod sb_ipbg sb) div IPB + 1 + sb_bgstart sb"

definition BBLOCK :: "nat \<Rightarrow> superblock \<Rightarrow> nat" where
  "BBLOCK b sb = (b div BPB) * sb_bpbg sb + sb_bgstart sb"

definition DBLOCK :: "nat \<Rightarrow> superblock \<Rightarrow> nat" where
  "DBLOCK b sb = (b div BPB) * sb_bpbg sb + b mod BPB + NINODEBLOCKS + sb_bgstart sb"

definition STATBLOCK :: "nat \<Rightarrow> superblock \<Rightarrow> nat" where
  "STATBLOCK m sb = sb_bgstart sb + m * sb_bpbg sb + NINODEBLOCKS"

text \<open>Byte offset, inside its block, of the statistics record (\<^verbatim>\<open>STATOFF\<close>).\<close>

abbreviation sizeof_ff_stats :: nat where "sizeof_ff_stats \<equiv> 8"

definition STATOFF :: nat where "STATOFF = BSIZE - sizeof_ff_stats"

definition STAT_PERCENTAGE_ABS :: "nat \<Rightarrow> superblock \<Rightarrow> nat" where
  "STAT_PERCENTAGE_ABS totalBlocks sb = totalBlocks * 100 div sb_ipbg sb"

lemmas layout_defs = BGROUP_def iNODE_HEAD_def BMAP_HEAD_def DINODEOFFSET_def IBLOCK_def
  BBLOCK_def DBLOCK_def STATBLOCK_def STATOFF_def STAT_PERCENTAGE_ABS_def

section \<open>Well-formed geometry\<close>

text \<open>What the macros rely on in a superblock, whatever the number of block groups.\<close>

definition geometry :: "superblock \<Rightarrow> bool" where
  "geometry sb \<longleftrightarrow>
     sb_ipbg sb = IPBG \<and> sb_bpbg sb = BPBG \<and>
     sb_ninodes sb = IPBG * sb_nblockgroups sb \<and>
     sb_size sb = NDATABLOCKS * sb_nblockgroups sb \<and>
     sb_logstart sb = 2 \<and> sb_bgstart sb = 2 + sb_nlog sb \<and>
     0 < sb_nlog sb \<and> 0 < sb_nblockgroups sb"

lemma mkfs_sb_geometry: "geometry mkfs_sb"
  by (simp add: geometry_def mkfs_sb_def)

lemma geometryD:
  assumes "geometry sb"
  shows "sb_ipbg sb = 29" "sb_bpbg sb = 4065" "sb_ninodes sb = 29 * sb_nblockgroups sb"
    "sb_size sb = 4060 * sb_nblockgroups sb" "sb_logstart sb = 2"
    "sb_bgstart sb = 2 + sb_nlog sb" "0 < sb_nlog sb" "0 < sb_nblockgroups sb"
  using assms by (simp_all add: geometry_def)

text \<open>A number is determined by its quotient and its remainder.\<close>

lemma row_column_inj:
  fixes a b q r n :: nat
  assumes "a * n + q = b * n + r" and "q < n" and "r < n"
  shows "a = b \<and> q = r"
proof -
  have "(a * n + q) div n = a" "(a * n + q) mod n = q"
    using assms(2) by simp_all
  moreover have "(b * n + r) div n = b" "(b * n + r) mod n = r"
    using assms(3) by simp_all
  ultimately show ?thesis using assms(1) by metis
qed

lemma IBLOCK_group:
  assumes "geometry sb"
  shows "IBLOCK i sb = sb_bgstart sb + i div 29 * 4065 + (1 + i mod 29 div 8)"
    and "1 + i mod 29 div 8 \<le> 4"
proof -
  show "IBLOCK i sb = sb_bgstart sb + i div 29 * 4065 + (1 + i mod 29 div 8)"
    using assms by (simp add: IBLOCK_def geometryD)
  have "i mod 29 \<le> 28" using mod_less_divisor [of 29 i] by simp
  then have "i mod 29 div 8 \<le> 28 div 8" by (rule div_le_mono)
  then show "1 + i mod 29 div 8 \<le> 4" by simp
qed

lemma group_member_eq:
  fixes a b q r :: nat
  assumes "s + a * 4065 + q = s + b * 4065 + r" and "q < 4065" and "r < 4065"
  shows "a = b \<and> q = r"
  using row_column_inj [of a 4065 q b r] assms by simp

section \<open>Properties\<close>

lemma inode_slot_inj:
  assumes g: "geometry sb"
    and "IBLOCK i sb = IBLOCK j sb" and off: "DINODEOFFSET i sb = DINODEOFFSET j sb"
  shows "i = j"
proof -
  have "i div 29 = j div 29 \<and> 1 + i mod 29 div 8 = 1 + j mod 29 div 8"
    using assms(2) IBLOCK_group [OF g, of i] IBLOCK_group [OF g, of j]
    by (intro group_member_eq [of "sb_bgstart sb"]) simp_all
  moreover have "i mod 29 mod 8 = j mod 29 mod 8"
    using off g by (simp add: DINODEOFFSET_def geometryD)
  ultimately have "i mod 29 = j mod 29"
    by (metis add_left_cancel div_mult_mod_eq)
  with \<open>i div 29 = j div 29 \<and> _\<close> show ?thesis
    by (metis div_mult_mod_eq)
qed

lemma IBLOCK_not_BBLOCK:
  assumes g: "geometry sb"
  shows "IBLOCK i sb \<noteq> BBLOCK b sb"
proof
  assume "IBLOCK i sb = BBLOCK b sb"
  then have "i div 29 = b div 4060 \<and> 1 + i mod 29 div 8 = 0"
    using IBLOCK_group [OF g, of i] g
    by (intro group_member_eq [of "sb_bgstart sb"]) (simp_all add: BBLOCK_def geometryD)
  then show False by simp
qed

lemma IBLOCK_range:
  assumes g: "geometry sb" and "i < sb_ninodes sb"
  shows "sb_bgstart sb \<le> IBLOCK i sb"
    and "IBLOCK i sb < sb_bgstart sb + sb_nblockgroups sb * sb_bpbg sb"
proof -
  have "i div 29 < sb_nblockgroups sb"
    using assms by (simp add: geometryD less_mult_imp_div_less mult.commute)
  then have "i div 29 * 4065 + 4065 \<le> sb_nblockgroups sb * 4065"
    by simp
  then show "IBLOCK i sb < sb_bgstart sb + sb_nblockgroups sb * sb_bpbg sb"
    using IBLOCK_group [OF g, of i] g by (simp add: geometryD)
  show "sb_bgstart sb \<le> IBLOCK i sb"
    using IBLOCK_group [OF g, of i] by simp
qed

lemma DBLOCK_inj:
  assumes g: "geometry sb" and "DBLOCK b sb = DBLOCK c sb"
  shows "b = c"
proof -
  have lt: "b mod 4060 < 4060" "c mod 4060 < 4060" by simp_all
  have "b div 4060 = c div 4060 \<and> b mod 4060 + 4 = c mod 4060 + 4"
    using assms(2) g
    by (intro group_member_eq [of "sb_bgstart sb"])
      (use lt in \<open>simp_all add: DBLOCK_def geometryD\<close>)
  then show ?thesis by (metis add_right_cancel div_mult_mod_eq)
qed

lemma DBLOCK_not_BBLOCK:
  assumes g: "geometry sb"
  shows "DBLOCK b sb \<noteq> BBLOCK c sb"
proof
  assume "DBLOCK b sb = BBLOCK c sb"
  then have "b div 4060 = c div 4060 \<and> b mod 4060 + 4 = 0"
    using g mod_less_divisor [of 4060 b]
    by (intro group_member_eq [of "sb_bgstart sb"]) (simp_all add: DBLOCK_def BBLOCK_def geometryD)
  then show False by simp
qed

lemma DBLOCK_IBLOCK_iff:
  assumes g: "geometry sb"
  shows "DBLOCK b sb = IBLOCK i sb \<longleftrightarrow>
    b mod BPB = 0 \<and> b div BPB = BGROUP i sb \<and> 24 \<le> i mod sb_ipbg sb"
proof -
  have lt: "b mod 4060 < 4060" "i mod 29 < 29" by simp_all
  have "DBLOCK b sb = IBLOCK i sb \<longleftrightarrow>
      b div 4060 = i div 29 \<and> b mod 4060 + 4 = 1 + i mod 29 div 8"
    using group_member_eq [of "sb_bgstart sb" "b div 4060" "b mod 4060 + 4" "i div 29"
        "1 + i mod 29 div 8"] IBLOCK_group [OF g, of i] g lt
    by (auto simp: DBLOCK_def geometryD)
  also have "\<dots> \<longleftrightarrow> b div 4060 = i div 29 \<and> b mod 4060 = 0 \<and> 24 \<le> i mod 29"
    using IBLOCK_group(2) [OF g, of i] lt(2) by auto
  finally show ?thesis using g by (auto simp: BGROUP_def geometryD)
qed

text \<open>The inodes of the last inode block of a group stay clear of the statistics record.\<close>

lemma inode_clear_of_stats:
  assumes "geometry sb" and "IBLOCK i sb = STATBLOCK g sb"
  shows "(DINODEOFFSET i sb + 1) * sizeof_dinode \<le> STATOFF"
proof -
  have "i div 29 = g \<and> 1 + i mod 29 div 8 = 4"
    using assms(2) IBLOCK_group [OF assms(1), of i] assms(1)
    by (intro group_member_eq [of "sb_bgstart sb"]) (simp_all add: STATBLOCK_def geometryD)
  then have "i mod 29 div 8 = 3" by simp
  moreover have "i mod 29 < 29" by simp
  ultimately have "i mod 29 mod 8 \<le> 4"
    using div_mult_mod_eq [of "i mod 29" 8] by linarith
  then show ?thesis using assms(1) by (simp add: DINODEOFFSET_def STATOFF_def geometryD)
qed

end
