(* ===== verification/Bio.thy ===== *)
theory Bio
  imports Fs_Layout
begin

text \<open>
  The buffer cache (bio.c, buf.h) over the in-memory disk of memide.c.

  State: the array \<^verbatim>\<open>bcache.buf\<close> together with \<^verbatim>\<open>bcache.head\<close> is one map from buffer
  numbers to buffers, \<open>HEAD\<close> being the number of \<^verbatim>\<open>bcache.head\<close>; pointers between buffers
  are buffer numbers. The three bits of \<^verbatim>\<open>b->flags\<close> are three booleans. The disk is the
  array of blocks of memide.c. \<open>dwrites\<close> is a history variable: the writes the driver has
  sent to the disk so far, oldest first; no code reads it. \<open>wakes\<close> is another one: the channels
  on which \<^verbatim>\<open>wakeup\<close> was called (its effect on the process table is modelled with proc.c).

  Each function runs between the \<^verbatim>\<open>acquire\<close> and \<^verbatim>\<open>release\<close> of \<^verbatim>\<open>bcache.lock\<close>, so it is one
  step; \<^verbatim>\<open>sleep(b, &bcache.lock)\<close> is the result \<open>Sleep\<close>, after which the code starts over.

  The first part shows that the doubly linked list of buffers, updated pointer by pointer,
  is at any time a list of all buffers in order of use, and that the two search loops of
  \<^verbatim>\<open>bget\<close> find what the corresponding list searches find (so they end). The second part
  gives the cache invariant and the logical content of the disk as seen through the cache.
\<close>

section \<open>State\<close>

record buf =
  b_busy :: bool
  b_valid :: bool
  b_dirty :: bool
  b_dev :: nat
  b_blockno :: nat
  b_prev :: nat
  b_next :: nat
  b_data :: block

abbreviation HEAD :: nat where "HEAD \<equiv> NBUF"

text \<open>\<^verbatim>\<open>b->dev = -1\<close>: the device of a buffer that caches nothing.\<close>

abbreviation NODEV :: nat where "NODEV \<equiv> 4294967295"

record bio =
  bufs :: "nat \<Rightarrow> buf"
  disk :: "nat \<Rightarrow> block"
  disksize :: nat
  dwrites :: "(nat \<times> block) list"
  wakes :: "chan list"

definition upd_buf :: "nat \<Rightarrow> (buf \<Rightarrow> buf) \<Rightarrow> 'z bio_scheme \<Rightarrow> 'z bio_scheme" where
  "upd_buf b g s = s\<lparr>bufs := (bufs s)(b := g (bufs s b))\<rparr>"

text \<open>\<^verbatim>\<open>b->data\<close> of a buffer, and a store through that pointer.\<close>

abbreviation bdata :: "nat \<Rightarrow> ('z bio_scheme, block) kop" where
  "bdata b \<equiv> gets (\<lambda>s. b_data (bufs s b))"

abbreviation set_bdata :: "nat \<Rightarrow> block \<Rightarrow> ('z bio_scheme, unit) kop" where
  "set_bdata b d \<equiv> modify (upd_buf b (b_data_update (\<lambda>_. d)))"

text \<open>\<^verbatim>\<open>wakeup(chan)\<close>, as far as this layer is concerned.\<close>

abbreviation wakeup_on :: "chan \<Rightarrow> ('z bio_scheme, unit) kop" where
  "wakeup_on c \<equiv> modify (wakes_update (\<lambda>w. w @ [c]))"

section \<open>Operations\<close>

text \<open>One iteration of the loop of \<^verbatim>\<open>binit\<close>.\<close>

definition binit_link :: "nat \<Rightarrow> (nat \<Rightarrow> buf) \<Rightarrow> (nat \<Rightarrow> buf)" where
  "binit_link b f =
     (let f1 = f(b := (f b)\<lparr>b_next := b_next (f HEAD)\<rparr>);
          f2 = f1(b := (f1 b)\<lparr>b_prev := HEAD\<rparr>);
          f3 = f2(b := (f2 b)\<lparr>b_dev := NODEV\<rparr>);
          n = b_next (f3 HEAD);
          f4 = f3(n := (f3 n)\<lparr>b_prev := b\<rparr>)
      in f4(HEAD := (f4 HEAD)\<lparr>b_next := b\<rparr>))"

definition binit :: "('z bio_scheme, unit) kop" where
  "binit = bind (modify (upd_buf HEAD (\<lambda>h. h\<lparr>b_prev := HEAD, b_next := HEAD\<rparr>)))
     (\<lambda>_. for_each [0..<NBUF] (\<lambda>b. modify (bufs_update (binit_link b))))"

text \<open>
  The search loops of \<^verbatim>\<open>bget\<close>: follow \<open>nxt\<close> from buffer \<open>b\<close> until a buffer satisfies \<open>P\<close>
  or the list head is reached. \<open>fuel\<close> bounds the number of iterations.
\<close>

fun bwalk :: "nat \<Rightarrow> (buf \<Rightarrow> bool) \<Rightarrow> (buf \<Rightarrow> nat) \<Rightarrow> (nat \<Rightarrow> buf) \<Rightarrow> nat \<Rightarrow> nat option" where
  "bwalk 0 P nxt f b = None"
| "bwalk (Suc fuel) P nxt f b =
     (if b = HEAD then None else if P (f b) then Some b else bwalk fuel P nxt f (nxt (f b)))"

definition bget :: "nat \<Rightarrow> nat \<Rightarrow> ('z bio_scheme, nat) kop" where
  "bget dev blockno = (\<lambda>s.
     case bwalk (NBUF + 1) (\<lambda>b. b_dev b = dev \<and> b_blockno b = blockno) b_next (bufs s)
            (b_next (bufs s HEAD)) of
       Some b \<Rightarrow>
         if \<not> b_busy (bufs s b) then Ok b (upd_buf b (b_busy_update (\<lambda>_. True)) s)
         else Sleep (ChanBuf b) s
     | None \<Rightarrow>
         (case bwalk (NBUF + 1) (\<lambda>b. \<not> b_busy b \<and> \<not> b_dirty b) b_prev (bufs s)
                 (b_prev (bufs s HEAD)) of
            Some b \<Rightarrow>
              Ok b (upd_buf b (\<lambda>x. x\<lparr>b_dev := dev, b_blockno := blockno,
                                     b_busy := True, b_valid := False, b_dirty := False\<rparr>) s)
          | None \<Rightarrow> Panic ''bget: no buffers''))"

text \<open>\<^verbatim>\<open>iderw\<close> of memide.c: synchronise a buffer with the disk.\<close>

definition iderw :: "nat \<Rightarrow> ('z bio_scheme, unit) kop" where
  "iderw b =
     bind (gets (\<lambda>s. bufs s b)) (\<lambda>x.
     bind (panic_if (\<not> b_busy x) ''iderw: buf not busy'') (\<lambda>_.
     bind (panic_if (b_valid x \<and> \<not> b_dirty x) ''iderw: nothing to do'') (\<lambda>_.
     bind (panic_if (b_dev x \<noteq> 1) ''iderw: request not for disk 1'') (\<lambda>_.
     bind (gets disksize) (\<lambda>n.
     bind (panic_if (n \<le> b_blockno x) ''iderw: block out of range'') (\<lambda>_.
     bind (if b_dirty x
           then bind (modify (upd_buf b (b_dirty_update (\<lambda>_. False)))) (\<lambda>_.
                modify (\<lambda>s. s\<lparr>disk := (disk s)(b_blockno x := b_data x),
                              dwrites := dwrites s @ [(b_blockno x, b_data x)]\<rparr>))
           else modify (\<lambda>s. upd_buf b (b_data_update (\<lambda>_. disk s (b_blockno x))) s)) (\<lambda>_.
     modify (upd_buf b (b_valid_update (\<lambda>_. True))))))))))"

definition bread :: "nat \<Rightarrow> nat \<Rightarrow> ('z bio_scheme, nat) kop" where
  "bread dev blockno =
     bind (bget dev blockno) (\<lambda>b.
     bind (gets (\<lambda>s. b_valid (bufs s b))) (\<lambda>valid.
     bind (whenk (\<not> valid) (iderw b)) (\<lambda>_.
     return b)))"

definition bwrite :: "nat \<Rightarrow> ('z bio_scheme, unit) kop" where
  "bwrite b =
     bind (gets (\<lambda>s. b_busy (bufs s b))) (\<lambda>busy.
     bind (panic_if (\<not> busy) ''bwrite'') (\<lambda>_.
     bind (modify (upd_buf b (b_dirty_update (\<lambda>_. True)))) (\<lambda>_.
     iderw b)))"

text \<open>The pointer assignments of \<^verbatim>\<open>brelse\<close>, in the order of the code.\<close>

definition brelse_link :: "nat \<Rightarrow> (nat \<Rightarrow> buf) \<Rightarrow> (nat \<Rightarrow> buf)" where
  "brelse_link b f =
     (let n = b_next (f b);
          f1 = f(n := (f n)\<lparr>b_prev := b_prev (f b)\<rparr>);
          p = b_prev (f1 b);
          f2 = f1(p := (f1 p)\<lparr>b_next := b_next (f1 b)\<rparr>);
          f3 = f2(b := (f2 b)\<lparr>b_next := b_next (f2 HEAD)\<rparr>);
          f4 = f3(b := (f3 b)\<lparr>b_prev := HEAD\<rparr>);
          h = b_next (f4 HEAD);
          f5 = f4(h := (f4 h)\<lparr>b_prev := b\<rparr>)
      in f5(HEAD := (f5 HEAD)\<lparr>b_next := b\<rparr>))"

definition brelse :: "nat \<Rightarrow> ('z bio_scheme, unit) kop" where
  "brelse b =
     bind (gets (\<lambda>s. b_busy (bufs s b))) (\<lambda>busy.
     bind (panic_if (\<not> busy) ''brelse'') (\<lambda>_.
     bind (modify (bufs_update (brelse_link b))) (\<lambda>_.
     bind (modify (upd_buf b (b_busy_update (\<lambda>_. False)))) (\<lambda>_.
     wakeup_on (ChanBuf b)))))"

section \<open>The list of buffers\<close>

text \<open>
  \<open>dseg nx pv p xs q\<close>: following \<open>nx\<close> from \<open>p\<close> visits \<open>xs\<close> and then \<open>q\<close>, and following
  \<open>pv\<close> from \<open>q\<close> visits the same nodes backwards and then \<open>p\<close>.
\<close>

fun dseg :: "(nat \<Rightarrow> nat) \<Rightarrow> (nat \<Rightarrow> nat) \<Rightarrow> nat \<Rightarrow> nat list \<Rightarrow> nat \<Rightarrow> bool" where
  "dseg nx pv p [] q = (nx p = q \<and> pv q = p)"
| "dseg nx pv p (x # xs) q = (nx p = x \<and> pv x = p \<and> dseg nx pv x xs q)"

lemma dseg_append: "dseg nx pv p (xs @ x # ys) q \<longleftrightarrow> dseg nx pv p xs x \<and> dseg nx pv x ys q"
  by (induction xs arbitrary: p) auto

lemma dseg_cong:
  assumes "\<And>u. u \<in> set (p # xs) \<Longrightarrow> nx u = nx' u" and "\<And>u. u \<in> set (xs @ [q]) \<Longrightarrow> pv u = pv' u"
  shows "dseg nx pv p xs q = dseg nx' pv' p xs q"
  using assms by (induction xs arbitrary: p) auto

lemma dseg_nx_first: "dseg nx pv p xs q \<Longrightarrow> nx p = hd (xs @ [q])"
  by (cases xs) auto

lemma dseg_pv_last: "dseg nx pv p xs q \<Longrightarrow> pv q = last (p # xs)"
  by (induction xs arbitrary: p) auto

lemma dseg_join:
  assumes "dseg nx pv p xs b" and "dseg nx pv b ys q"
    and "distinct (xs @ b # ys)" and "p \<notin> set (xs @ b # ys)" and "q \<notin> set (xs @ b # ys)"
    and nx': "\<And>u. u \<in> set (p # xs @ ys) \<Longrightarrow> nx' u = (if u = pv b then nx b else nx u)"
    and pv': "\<And>u. u \<in> set (xs @ ys @ [q]) \<Longrightarrow> pv' u = (if u = nx b then pv b else pv u)"
  shows "dseg nx' pv' p (xs @ ys) q"
  using assms
proof (induction xs arbitrary: p)
  case Nil
  show ?case
  proof (cases ys)
    case Nil
    with Nil.prems show ?thesis by simp
  next
    case (Cons y zs)
    have "dseg nx' pv' y zs q = dseg nx pv y zs q"
      by (rule dseg_cong) (use Nil.prems Cons in auto)
    with Nil.prems Cons show ?thesis by simp
  qed
next
  case (Cons x xs)
  have last: "pv b = last (x # xs)" and first: "nx b = hd (ys @ [q])"
    using Cons.prems by (auto dest: dseg_pv_last dseg_nx_first)
  have "pv b \<in> set (x # xs)" by (subst last, rule last_in_set, simp)
  with Cons.prems have "p \<noteq> pv b" by auto
  moreover have "nx b \<in> set (ys @ [q])" by (subst first, rule hd_in_set, simp)
  with Cons.prems have "x \<noteq> nx b" by auto
  moreover have "dseg nx' pv' x (xs @ ys) q"
    by (rule Cons.IH) (use Cons.prems in \<open>auto\<close>)
  ultimately show ?case using Cons.prems by auto
qed

text \<open>The ring of buffers through \<^verbatim>\<open>bcache.head\<close>, most recently used first.\<close>

definition ring :: "(nat \<Rightarrow> buf) \<Rightarrow> nat list \<Rightarrow> bool" where
  "ring f xs \<longleftrightarrow>
     dseg (\<lambda>i. b_next (f i)) (\<lambda>i. b_prev (f i)) HEAD xs HEAD \<and>
     distinct xs \<and> set xs \<subseteq> {..<NBUF}"

lemma ring_head_notin: "ring f xs \<Longrightarrow> HEAD \<notin> set xs"
  by (auto simp: ring_def)

text \<open>The two halves of the pointer surgery: taking a buffer out and putting it in front.\<close>

definition unlink_buf :: "nat \<Rightarrow> (nat \<Rightarrow> buf) \<Rightarrow> (nat \<Rightarrow> buf)" where
  "unlink_buf b f =
     (let n = b_next (f b);
          f1 = f(n := (f n)\<lparr>b_prev := b_prev (f b)\<rparr>);
          p = b_prev (f1 b)
      in f1(p := (f1 p)\<lparr>b_next := b_next (f1 b)\<rparr>))"

definition link_front :: "nat \<Rightarrow> (nat \<Rightarrow> buf) \<Rightarrow> (nat \<Rightarrow> buf)" where
  "link_front b f =
     (let f1 = f(b := (f b)\<lparr>b_next := b_next (f HEAD)\<rparr>);
          f2 = f1(b := (f1 b)\<lparr>b_prev := HEAD\<rparr>);
          h = b_next (f2 HEAD);
          f3 = f2(h := (f2 h)\<lparr>b_prev := b\<rparr>)
      in f3(HEAD := (f3 HEAD)\<lparr>b_next := b\<rparr>))"

lemma brelse_link_eq: "brelse_link b f = link_front b (unlink_buf b f)"
  by (simp only: brelse_link_def unlink_buf_def link_front_def Let_def)

lemma ring_link_front:
  assumes "ring f xs" and "b \<notin> set xs" and "b < NBUF"
  shows "ring (link_front b f) (b # xs)"
proof (cases xs)
  case Nil
  with assms show ?thesis by (auto simp: ring_def link_front_def Let_def)
next
  case (Cons x ys)
  let ?g = "link_front b f"
  have "x \<notin> set ys" "x \<noteq> HEAD" "x \<noteq> b" "b \<noteq> HEAD" "HEAD \<notin> set ys" "b_next (f HEAD) = x"
    using assms Cons by (auto simp: ring_def)
  moreover have "dseg (\<lambda>i. b_next (?g i)) (\<lambda>i. b_prev (?g i)) x ys HEAD =
      dseg (\<lambda>i. b_next (f i)) (\<lambda>i. b_prev (f i)) x ys HEAD"
    by (rule dseg_cong) (use assms Cons calculation in \<open>auto simp: link_front_def Let_def\<close>)
  ultimately show ?thesis
    using assms Cons by (auto simp: ring_def link_front_def Let_def)
qed

lemma unlink_buf_links:
  assumes "b_next (f b) \<noteq> b" and "b_prev (f b) \<noteq> b"
  shows "b_next (unlink_buf b f u) = (if u = b_prev (f b) then b_next (f b) else b_next (f u))"
    and "b_prev (unlink_buf b f u) = (if u = b_next (f b) then b_prev (f b) else b_prev (f u))"
  using assms by (auto simp: unlink_buf_def Let_def)

lemma ring_unlink:
  assumes "ring f (xs @ b # ys)"
  shows "ring (unlink_buf b f) (xs @ ys)"
proof -
  let ?nx = "\<lambda>i. b_next (f i)" and ?pv = "\<lambda>i. b_prev (f i)"
  have d: "dseg ?nx ?pv HEAD xs b" "dseg ?nx ?pv b ys HEAD"
    and dist: "distinct (xs @ b # ys)" and nohead: "HEAD \<notin> set (xs @ b # ys)"
    using assms ring_head_notin [OF assms] by (auto simp: ring_def dseg_append)
  have "?nx b \<in> set (ys @ [HEAD])"
    using dseg_nx_first [OF d(2)] by (cases ys) auto
  moreover have "?pv b \<in> set (HEAD # xs)"
    using dseg_pv_last [OF d(1)] by (metis last_in_set list.distinct(1))
  ultimately have ne: "?nx b \<noteq> b" "?pv b \<noteq> b"
    using dist nohead by auto
  have "dseg (\<lambda>i. b_next (unlink_buf b f i)) (\<lambda>i. b_prev (unlink_buf b f i)) HEAD (xs @ ys) HEAD"
    by (rule dseg_join [OF d dist nohead nohead]) (simp_all add: unlink_buf_links [of f b, OF ne])
  then show ?thesis using assms by (auto simp: ring_def)
qed

lemma ring_brelse_link:
  assumes "ring f (xs @ b # ys)"
  shows "ring (brelse_link b f) (b # xs @ ys)"
proof -
  have "b \<notin> set (xs @ ys)" and "b < NBUF" using assms by (auto simp: ring_def)
  with ring_unlink [OF assms] show ?thesis
    unfolding brelse_link_eq by (intro ring_link_front)
qed

text \<open>What the search loops of \<^verbatim>\<open>bget\<close> compute; their fuel is enough.\<close>

lemma bwalk_next:
  assumes "dseg (\<lambda>i. b_next (f i)) pv p xs HEAD" and "HEAD \<notin> set xs" and "length xs < fuel"
  shows "bwalk fuel P b_next f (b_next (f p)) = find (\<lambda>i. P (f i)) xs"
  using assms
proof (induction xs arbitrary: p fuel)
  case Nil
  then show ?case by (cases fuel) auto
next
  case (Cons x xs)
  then obtain k where "fuel = Suc k" by (cases fuel) auto
  with Cons show ?case by simp
qed

lemma bwalk_prev:
  assumes "dseg nx (\<lambda>i. b_prev (f i)) HEAD xs q" and "HEAD \<notin> set xs" and "length xs < fuel"
  shows "bwalk fuel P b_prev f (b_prev (f q)) = find (\<lambda>i. P (f i)) (rev xs)"
  using assms
proof (induction xs arbitrary: q fuel rule: rev_induct)
  case Nil
  then show ?case by (cases fuel) auto
next
  case (snoc x xs)
  then obtain k where "fuel = Suc k" by (cases fuel) auto
  with snoc show ?case by (auto simp: dseg_append)
qed

lemma ring_length: "ring f xs \<Longrightarrow> length xs \<le> NBUF"
proof -
  assume r: "ring f xs"
  then have "length xs = card (set xs)" by (simp add: ring_def distinct_card)
  also have "\<dots> \<le> card {..<NBUF}" by (rule card_mono) (use r in \<open>auto simp: ring_def\<close>)
  finally show ?thesis by simp
qed

lemma bget_list:
  assumes "ring (bufs s) xs"
  shows "bget dev blockno s =
    (case find (\<lambda>i. b_dev (bufs s i) = dev \<and> b_blockno (bufs s i) = blockno) xs of
       Some b \<Rightarrow>
         if \<not> b_busy (bufs s b) then Ok b (upd_buf b (b_busy_update (\<lambda>_. True)) s)
         else Sleep (ChanBuf b) s
     | None \<Rightarrow>
         (case find (\<lambda>i. \<not> b_busy (bufs s i) \<and> \<not> b_dirty (bufs s i)) (rev xs) of
            Some b \<Rightarrow>
              Ok b (upd_buf b (\<lambda>x. x\<lparr>b_dev := dev, b_blockno := blockno,
                                     b_busy := True, b_valid := False, b_dirty := False\<rparr>) s)
          | None \<Rightarrow> Panic ''bget: no buffers''))"
proof -
  have d: "dseg (\<lambda>i. b_next (bufs s i)) (\<lambda>i. b_prev (bufs s i)) HEAD xs HEAD"
    and h: "HEAD \<notin> set xs" and l: "length xs < NBUF + 1"
    using assms ring_head_notin ring_length [OF assms] by (auto simp: ring_def)
  show ?thesis
    by (simp only: bget_def bwalk_next [OF d h l] bwalk_prev [OF d h l])
qed

section \<open>The cache invariant\<close>

text \<open>Buffer \<open>b\<close> caches block \<open>blk\<close>.\<close>

definition holds :: "'z bio_scheme \<Rightarrow> nat \<Rightarrow> nat \<Rightarrow> bool" where
  "holds s b blk \<longleftrightarrow> b < NBUF \<and> b_valid (bufs s b) \<and> b_blockno (bufs s b) = blk"

text \<open>The caller owns buffer \<open>b\<close> for block \<open>blk\<close>: what \<^verbatim>\<open>bread\<close> promises until \<^verbatim>\<open>brelse\<close>.\<close>

definition locked :: "'z bio_scheme \<Rightarrow> nat \<Rightarrow> nat \<Rightarrow> bool" where
  "locked s b blk \<longleftrightarrow> holds s b blk \<and> b_busy (bufs s b)"

text \<open>The content of a block as the kernel sees it: cached if it is cached, else on disk.\<close>

definition view :: "'z bio_scheme \<Rightarrow> nat \<Rightarrow> block" where
  "view s blk =
     (case find (\<lambda>i. b_valid (bufs s i) \<and> b_blockno (bufs s i) = blk) [0..<NBUF] of
        Some i \<Rightarrow> b_data (bufs s i)
      | None \<Rightarrow> disk s blk)"

definition busyb :: "'z bio_scheme \<Rightarrow> nat set" where
  "busyb s = {blk. \<exists>b. locked s b blk}"

definition dirtyb :: "'z bio_scheme \<Rightarrow> nat set" where
  "dirtyb s = {blk. \<exists>b. holds s b blk \<and> b_dirty (bufs s b)}"

definition buf_ok :: "'z bio_scheme \<Rightarrow> buf \<Rightarrow> bool" where
  "buf_ok s x \<longleftrightarrow>
     (if b_valid x
      then b_dev x = 1 \<and> b_blockno x < disksize s \<and> length (b_data x) = BSIZE \<and>
           (b_busy x \<or> b_dirty x \<or> b_data x = disk s (b_blockno x))
      else b_dev x = NODEV \<and> \<not> b_busy x \<and> \<not> b_dirty x)"

definition uniq :: "'z bio_scheme \<Rightarrow> bool" where
  "uniq s \<longleftrightarrow> (\<forall>i j blk. holds s i blk \<longrightarrow> holds s j blk \<longrightarrow> i = j)"

definition cache_inv :: "'z bio_scheme \<Rightarrow> bool" where
  "cache_inv s \<longleftrightarrow>
     (\<exists>xs. ring (bufs s) xs \<and> set xs = {..<NBUF}) \<and>
     (\<forall>i<NBUF. buf_ok s (bufs s i)) \<and> uniq s \<and>
     (\<forall>k<disksize s. length (disk s k) = BSIZE)"

lemma upd_buf_simps [simp]:
  "bufs (upd_buf b g s) = (bufs s)(b := g (bufs s b))"
  "disk (upd_buf b g s) = disk s" "disksize (upd_buf b g s) = disksize s"
  "dwrites (upd_buf b g s) = dwrites s" "bio.more (upd_buf b g s) = bio.more s"
  by (simp_all add: upd_buf_def)

text \<open>The cache predicates only look at the cache and the disk, whatever extends the state.\<close>

lemma bio_cong:
  assumes "bufs s = bufs t" and "disk s = disk t" and "disksize s = disksize t"
  shows "holds s = holds t" "locked s = locked t" "view s = view t" "busyb s = busyb t"
    "dirtyb s = dirtyb t" "cache_inv s = cache_inv t"
proof -
  show h: "holds s = holds t" using assms by (simp add: holds_def fun_eq_iff)
  show l: "locked s = locked t" using assms h by (simp add: locked_def fun_eq_iff)
  show "view s = view t" by (rule ext) (simp add: view_def assms split: option.split)
  show "busyb s = busyb t" by (simp add: busyb_def l)
  show "dirtyb s = dirtyb t" using assms by (simp add: dirtyb_def h)
  show "cache_inv s = cache_inv t"
    using assms by (simp add: cache_inv_def buf_ok_def uniq_def h)
qed

lemma buf_ok_cong:
  "disk s = disk t \<Longrightarrow> disksize s = disksize t \<Longrightarrow> buf_ok s x = buf_ok t x"
  by (simp add: buf_ok_def)

lemma ring_cong:
  assumes "\<And>i. i \<le> NBUF \<Longrightarrow> b_next (f i) = b_next (g i) \<and> b_prev (f i) = b_prev (g i)"
  shows "ring f xs = ring g xs"
proof -
  have "dseg (\<lambda>i. b_next (f i)) (\<lambda>i. b_prev (f i)) HEAD xs HEAD =
      dseg (\<lambda>i. b_next (g i)) (\<lambda>i. b_prev (g i)) HEAD xs HEAD" if "set xs \<subseteq> {..<NBUF}"
    by (rule dseg_cong) (use that assms in auto)
  then show ?thesis by (auto simp: ring_def)
qed

lemma view_holds:
  assumes "cache_inv s" and "holds s i blk"
  shows "view s blk = b_data (bufs s i)"
proof -
  let ?P = "\<lambda>i. b_valid (bufs s i) \<and> b_blockno (bufs s i) = blk"
  have "find ?P [0..<NBUF] \<noteq> None"
    using assms by (auto simp: find_None_iff holds_def)
  then obtain j where j: "find ?P [0..<NBUF] = Some j" by blast
  then have "holds s j blk"
    by (auto simp: find_Some_iff holds_def)
  with assms have "j = i" by (auto simp: cache_inv_def uniq_def)
  with j show ?thesis by (simp add: view_def)
qed

lemma view_none:
  assumes "\<And>i. \<not> holds s i blk"
  shows "view s blk = disk s blk"
proof -
  have "find (\<lambda>i. b_valid (bufs s i) \<and> b_blockno (bufs s i) = blk) [0..<NBUF] = None"
    using assms by (auto simp: find_None_iff holds_def)
  then show ?thesis by (simp add: view_def)
qed

lemma view_length:
  assumes "cache_inv s" and "blk < disksize s"
  shows "length (view s blk) = BSIZE"
proof (cases "\<exists>i. holds s i blk")
  case True
  then obtain i where i: "holds s i blk" by blast
  with assms show ?thesis
    by (auto simp: view_holds [OF assms(1) i] cache_inv_def buf_ok_def holds_def)
next
  case False
  with assms show ?thesis by (simp add: view_none cache_inv_def)
qed

lemma view_clean:
  assumes "cache_inv s" and "blk \<notin> busyb s" and "blk \<notin> dirtyb s"
  shows "view s blk = disk s blk"
proof (cases "\<exists>i. holds s i blk")
  case True
  then obtain i where i: "holds s i blk" by blast
  with assms have "\<not> b_busy (bufs s i)" "\<not> b_dirty (bufs s i)"
    by (auto simp: busyb_def dirtyb_def locked_def)
  with assms(1) i show ?thesis
    unfolding view_holds [OF assms(1) i] by (auto simp: cache_inv_def buf_ok_def holds_def)
next
  case False
  then show ?thesis by (simp add: view_none)
qed

lemma locked_data: "cache_inv s \<Longrightarrow> locked s b blk \<Longrightarrow> b_data (bufs s b) = view s blk"
  by (auto simp: locked_def dest: view_holds)

lemma holds_unique: "cache_inv s \<Longrightarrow> holds s i blk \<Longrightarrow> holds s j blk \<Longrightarrow> i = j"
  by (auto simp: cache_inv_def uniq_def)

lemma locked_unique: "cache_inv s \<Longrightarrow> locked s b blk \<Longrightarrow> locked s c blk \<Longrightarrow> b = c"
  by (auto simp: locked_def cache_inv_def uniq_def)

lemma locked_busy: "locked s b blk \<Longrightarrow> b_busy (bufs s b)"
  by (simp add: locked_def)

lemma locked_busyb: "locked s b blk \<Longrightarrow> blk \<in> busyb s"
  by (auto simp: busyb_def)

lemma locked_disksize: "cache_inv s \<Longrightarrow> locked s b blk \<Longrightarrow> blk < disksize s"
  by (auto simp: cache_inv_def locked_def holds_def buf_ok_def)

lemma dirtyb_holds: "cache_inv s \<Longrightarrow> holds s b blk \<Longrightarrow> blk \<in> dirtyb s \<longleftrightarrow> b_dirty (bufs s b)"
  by (auto simp: dirtyb_def dest: holds_unique)

text \<open>A buffer that is neither locked nor dirty exists unless every buffer holds such a block.\<close>

lemma clean_buffer_exists:
  assumes inv: "cache_inv s" and card: "card (busyb s \<union> dirtyb s) < NBUF"
  shows "\<exists>i<NBUF. \<not> b_busy (bufs s i) \<and> \<not> b_dirty (bufs s i)"
proof (rule ccontr)
  assume "\<not> ?thesis"
  then have used: "b_busy (bufs s i) \<or> b_dirty (bufs s i)" if "i < NBUF" for i
    using that by blast
  have valid: "holds s i (b_blockno (bufs s i))" if "i < NBUF" for i
    using inv used [OF that] that by (auto simp: cache_inv_def buf_ok_def holds_def split: if_splits)
  have "inj_on (\<lambda>i. b_blockno (bufs s i)) {..<NBUF}"
  proof (rule inj_onI)
    fix i j assume "i \<in> {..<NBUF}" "j \<in> {..<NBUF}" "b_blockno (bufs s i) = b_blockno (bufs s j)"
    with valid [of i] valid [of j] inv show "i = j" by (auto simp: cache_inv_def uniq_def)
  qed
  then have "card ((\<lambda>i. b_blockno (bufs s i)) ` {..<NBUF}) = NBUF"
    by (simp add: card_image)
  moreover have "(\<lambda>i. b_blockno (bufs s i)) ` {..<NBUF} \<subseteq> busyb s \<union> dirtyb s"
    using used valid by (auto simp: busyb_def dirtyb_def locked_def)
  moreover have "finite (busyb s \<union> dirtyb s)"
  proof (rule finite_subset)
    show "busyb s \<union> dirtyb s \<subseteq> (\<lambda>i. b_blockno (bufs s i)) ` {..<NBUF}"
      by (auto simp: busyb_def dirtyb_def locked_def holds_def)
  qed simp
  ultimately show False using card card_mono by (metis not_less)
qed

lemma finite_busyb [simp]: "finite (busyb s)"
  by (rule finite_subset [of _ "(\<lambda>i. b_blockno (bufs s i)) ` {..<NBUF}"])
    (auto simp: busyb_def locked_def holds_def)

lemma finite_dirtyb [simp]: "finite (dirtyb s)"
  by (rule finite_subset [of _ "(\<lambda>i. b_blockno (bufs s i)) ` {..<NBUF}"])
    (auto simp: dirtyb_def holds_def)

end
