(* ===== verification/Bio_Spec.thy ===== *)
theory Bio_Spec
  imports Bio
begin

text \<open>
  What the operations of the buffer cache do, as weakest-precondition rules over the abstract
  content \<open>view\<close> of the blocks, the set \<open>busyb\<close> of blocks held by some process and the set
  \<open>dirtyb\<close> of blocks pinned in the cache: the contract the log and the file system rely on.
\<close>

section \<open>What the operations do\<close>

text \<open>
  A store that keeps the links and the identity of a buffer keeps the cache invariant if the
  new buffer is acceptable.
\<close>

lemma cache_inv_upd:
  assumes inv: "cache_inv s" and "b < NBUF" and valid: "b_valid (bufs s b)"
    and g: "b_next (g (bufs s b)) = b_next (bufs s b)" "b_prev (g (bufs s b)) = b_prev (bufs s b)"
      "b_blockno (g (bufs s b)) = b_blockno (bufs s b)"
    and ok: "buf_ok s (g (bufs s b))"
  shows "cache_inv (upd_buf b g s)"
proof -
  let ?t = "upd_buf b g s"
  obtain xs where xs: "ring (bufs s) xs" "set xs = {..<NBUF}"
    using inv by (auto simp: cache_inv_def)
  have "ring (bufs ?t) xs"
    using xs(1) by (subst ring_cong [of _ "bufs s"]) (use g in auto)
  moreover have "\<forall>i<NBUF. buf_ok ?t (bufs ?t i)"
    using inv ok by (auto simp: cache_inv_def buf_ok_cong [of ?t s])
  moreover have "holds ?t i blk \<Longrightarrow> holds s i blk" for i blk
    using valid g(3) by (auto simp: holds_def split: if_splits)
  then have "uniq ?t"
    using holds_unique [OF inv] unfolding uniq_def by blast
  ultimately show ?thesis
    using inv xs by (auto simp: cache_inv_def)
qed

text \<open>Nothing outside the buffers changed: no disk traffic, no other part of the kernel state.\<close>

definition same_disk :: "'z bio_scheme \<Rightarrow> 'z bio_scheme \<Rightarrow> bool" where
  "same_disk s t \<longleftrightarrow>
     disk t = disk s \<and> dwrites t = dwrites s \<and> disksize t = disksize s \<and> bio.more t = bio.more s"

lemma same_disk_refl [simp]: "same_disk s s"
  by (simp add: same_disk_def)

lemma same_disk_trans: "same_disk s t \<Longrightarrow> same_disk t u \<Longrightarrow> same_disk s u"
  by (simp add: same_disk_def)

lemma set_bdata_wp:
  assumes inv: "cache_inv s" and l: "locked s b blk" and len: "length d = BSIZE"
  shows "wp (set_bdata b d) (\<lambda>_ t. cache_inv t \<and> view t = (view s)(blk := d) \<and>
    (\<forall>c k. locked t c k = locked s c k) \<and> busyb t = busyb s \<and> dirtyb t = dirtyb s \<and>
    same_disk s t) s"
proof -
  let ?t = "upd_buf b (b_data_update (\<lambda>_. d)) s"
  have b: "b < NBUF" "b_valid (bufs s b)" "b_busy (bufs s b)" "b_blockno (bufs s b) = blk"
    using l by (auto simp: locked_def holds_def)
  have inv': "cache_inv ?t"
    by (rule cache_inv_upd) (use inv b len in \<open>auto simp: cache_inv_def buf_ok_def\<close>)
  have h: "holds ?t i k = holds s i k" for i k
    by (auto simp: holds_def)
  have lk: "locked ?t i k = locked s i k" for i k
    by (auto simp: locked_def h)
  have "view ?t k = ((view s)(blk := d)) k" for k
  proof (cases "k = blk")
    case True
    then show ?thesis using l h by (simp add: view_holds [OF inv', of b] locked_def)
  next
    case False
    show ?thesis
    proof (cases "\<exists>i. holds s i k")
      case True
      then obtain i where i: "holds s i k" by blast
      with False b have "i \<noteq> b" by (auto simp: holds_def)
      with False h i show ?thesis
        by (simp add: view_holds [OF inv', of i] view_holds [OF inv, of i])
    next
      case none: False
      with False h show ?thesis by (simp add: view_none)
    qed
  qed
  moreover have "dirtyb ?t = dirtyb s" by (auto simp: dirtyb_def h)
  moreover have "busyb ?t = busyb s" by (simp add: busyb_def lk)
  ultimately show ?thesis using inv' lk by (simp add: wp_simps fun_eq_iff same_disk_def)
qed

lemma set_dirty_wp:
  assumes inv: "cache_inv s" and l: "locked s b blk"
  shows "wp (modify (upd_buf b (b_dirty_update (\<lambda>_. True)))) (\<lambda>_ t. cache_inv t \<and> view t = view s \<and>
    (\<forall>c k. locked t c k = locked s c k) \<and> busyb t = busyb s \<and> dirtyb t = insert blk (dirtyb s) \<and>
    same_disk s t) s"
proof -
  let ?t = "upd_buf b (b_dirty_update (\<lambda>_. True)) s"
  have b: "b < NBUF" "b_valid (bufs s b)" "b_busy (bufs s b)" "b_blockno (bufs s b) = blk"
    using l by (auto simp: locked_def holds_def)
  have inv': "cache_inv ?t"
    by (rule cache_inv_upd) (use inv b in \<open>auto simp: cache_inv_def buf_ok_def\<close>)
  have h: "holds ?t i k = holds s i k" for i k
    by (auto simp: holds_def)
  have lk: "locked ?t i k = locked s i k" for i k
    by (auto simp: locked_def h)
  have "view ?t = view s"
  proof
    fix k
    show "view ?t k = view s k"
    proof (cases "\<exists>i. holds s i k")
      case True
      then obtain i where i: "holds s i k" by blast
      with h show ?thesis
        by (simp add: view_holds [OF inv', of i] view_holds [OF inv, of i])
    next
      case False
      with h show ?thesis by (simp add: view_none)
    qed
  qed
  moreover have "dirtyb ?t = insert blk (dirtyb s)"
    using l by (auto simp: dirtyb_def h locked_def holds_def split: if_splits)
  moreover have "busyb ?t = busyb s" by (simp add: busyb_def lk)
  ultimately show ?thesis using inv' lk by (simp add: wp_simps same_disk_def)
qed

text \<open>\<^verbatim>\<open>bread\<close> of a block that is cached: the buffer is locked and nothing else changes.\<close>

lemma lock_cached:
  assumes inv: "cache_inv s" and h: "holds s b blk" and free: "blk \<notin> busyb s"
  defines "t \<equiv> upd_buf b (b_busy_update (\<lambda>_. True)) s"
  shows "cache_inv t \<and> locked t b blk \<and> view t = view s \<and>
    (\<forall>c k. locked s c k \<longrightarrow> locked t c k) \<and> busyb t = insert blk (busyb s) \<and>
    dirtyb t = dirtyb s \<and> same_disk s t"
proof -
  have b: "b < NBUF" "b_valid (bufs s b)" "b_blockno (bufs s b) = blk"
    using h by (auto simp: holds_def)
  have inv': "cache_inv t"
    unfolding t_def by (rule cache_inv_upd) (use inv b in \<open>auto simp: cache_inv_def buf_ok_def\<close>)
  have hh: "holds t i k = holds s i k" for i k
    by (auto simp: holds_def t_def)
  have lk: "locked t i k = (locked s i k \<or> i = b \<and> k = blk)" for i k
    using b by (auto simp: locked_def hh t_def holds_def)
  have "view t k = view s k" for k
  proof (cases "\<exists>i. holds s i k")
    case True
    then obtain i where i: "holds s i k" by blast
    with hh show ?thesis
      by (simp add: view_holds [OF inv', of i] view_holds [OF inv, of i]) (simp add: t_def)
  next
    case False
    with hh show ?thesis by (simp add: view_none) (simp add: t_def)
  qed
  moreover have "b_dirty (bufs t i) = b_dirty (bufs s i)" for i by (simp add: t_def)
  then have "dirtyb t = dirtyb s" by (simp add: dirtyb_def hh)
  moreover have "busyb t = insert blk (busyb s)" by (auto simp: busyb_def lk)
  ultimately show ?thesis using inv' lk by (auto simp: same_disk_def t_def)
qed

text \<open>\<^verbatim>\<open>bread\<close> of a block that is not cached: a clean buffer is recycled and filled from the disk.\<close>

lemma recycle_clean:
  assumes inv: "cache_inv s" and none: "\<And>i. \<not> holds s i blk" and blk: "blk < disksize s"
    and b: "b < NBUF" "\<not> b_busy (bufs s b)" "\<not> b_dirty (bufs s b)"
  defines "t \<equiv> upd_buf b (\<lambda>x. x\<lparr>b_dev := 1, b_blockno := blk, b_busy := True, b_dirty := False,
      b_data := disk s blk, b_valid := True\<rparr>) s"
  shows "cache_inv t \<and> locked t b blk \<and> view t = view s \<and>
    (\<forall>c k. locked s c k \<longrightarrow> locked t c k) \<and> busyb t = insert blk (busyb s) \<and>
    dirtyb t = dirtyb s \<and> same_disk s t"
proof -
  have hh: "holds t i k = (if i = b then k = blk else holds s i k)" for i k
    using b by (auto simp: holds_def t_def)
  obtain xs where xs: "ring (bufs s) xs" "set xs = {..<NBUF}"
    using inv by (auto simp: cache_inv_def)
  have "ring (bufs t) xs"
    using xs(1) by (subst ring_cong [of _ "bufs s"]) (auto simp: t_def)
  moreover have "buf_ok t (bufs t i)" if "i < NBUF" for i
    using inv that blk buf_ok_cong [of t s] by (auto simp: cache_inv_def t_def buf_ok_def)
  moreover have "uniq t"
    using holds_unique [OF inv] none unfolding uniq_def hh by metis
  ultimately have inv': "cache_inv t"
    using inv xs by (auto simp: cache_inv_def t_def)
  have lk: "locked t i k = (locked s i k \<or> i = b \<and> k = blk)" for i k
    using b by (auto simp: locked_def hh) (auto simp: t_def)
  have "view t k = view s k" for k
  proof (cases "k = blk")
    case True
    then show ?thesis using none hh by (simp add: view_holds [OF inv', of b] view_none) (simp add: t_def)
  next
    case False
    show ?thesis
    proof (cases "\<exists>i. i \<noteq> b \<and> holds s i k")
      case True
      then obtain i where i: "i \<noteq> b" "holds s i k" by blast
      with hh show ?thesis
        by (simp add: view_holds [OF inv', of i] view_holds [OF inv, of i]) (simp add: t_def)
    next
      case none': False
      then have "\<not> holds t i k" for i using False hh by auto
      then have "view t k = disk s k" by (simp add: view_none) (simp add: t_def)
      moreover have "k \<notin> busyb s" "k \<notin> dirtyb s"
        using none' b by (auto simp: busyb_def dirtyb_def locked_def)
      ultimately show ?thesis by (simp add: view_clean [OF inv])
    qed
  qed
  moreover have "b_dirty (bufs t i) = b_dirty (bufs s i)" for i using b by (simp add: t_def)
  then have "holds t i k \<and> b_dirty (bufs t i) \<longleftrightarrow> holds s i k \<and> b_dirty (bufs s i)" for i k
    using b by (auto simp: hh)
  then have "dirtyb t = dirtyb s" by (simp add: dirtyb_def)
  moreover have "busyb t = insert blk (busyb s)" by (auto simp: busyb_def lk)
  ultimately show ?thesis using inv' lk by (auto simp: same_disk_def t_def)
qed

text \<open>
  \<^verbatim>\<open>bread\<close> returns a locked buffer with the current content of the block. It neither sleeps nor
  panics if nobody holds the block and the blocks that are locked or dirty leave a buffer free.
\<close>

lemma bread_wp:
  assumes inv: "cache_inv s" and blk: "blk < disksize s" and free: "blk \<notin> busyb s"
    and room: "card (insert blk (busyb s \<union> dirtyb s)) \<le> NBUF"
  shows "wp (bread 1 blk) (\<lambda>b t. cache_inv t \<and> locked t b blk \<and> view t = view s \<and>
    (\<forall>c k. locked s c k \<longrightarrow> locked t c k) \<and> busyb t = insert blk (busyb s) \<and>
    dirtyb t = dirtyb s \<and> same_disk s t) s"
proof -
  obtain xs where xs: "ring (bufs s) xs" "set xs = {..<NBUF}"
    using inv by (auto simp: cache_inv_def)
  let ?P = "\<lambda>i. b_dev (bufs s i) = 1 \<and> b_blockno (bufs s i) = blk"
  have P: "?P i \<longleftrightarrow> holds s i blk" if "i < NBUF" for i
    using inv that by (auto simp: cache_inv_def buf_ok_def holds_def split: if_splits)
  show ?thesis
  proof (cases "find ?P xs")
    case (Some b)
    then have "?P b" "b < NBUF" using xs(2) by (auto dest: find_SomeD)
    then have h: "holds s b blk" using P by blast
    then have "\<not> b_busy (bufs s b)" using free by (auto simp: busyb_def locked_def)
    with Some have "bget 1 blk s = Ok b (upd_buf b (b_busy_update (\<lambda>_. True)) s)"
      by (simp add: bget_list [OF xs(1)])
    with h have "bread 1 blk s = Ok b (upd_buf b (b_busy_update (\<lambda>_. True)) s)"
      by (simp add: bread_def bind_def gets_def whenk_def return_def holds_def)
    with lock_cached [OF inv h free] show ?thesis by (simp add: wp_def)
  next
    case None
    then have none: "\<not> holds s i blk" for i
      using P [of i] xs(2) by (cases "i < NBUF") (auto dest: find_NoneD simp: holds_def)
    then have "blk \<notin> busyb s \<union> dirtyb s" by (auto simp: busyb_def dirtyb_def locked_def)
    with room have "card (busyb s \<union> dirtyb s) < NBUF" by simp
    then obtain i where "i < NBUF" "\<not> b_busy (bufs s i) \<and> \<not> b_dirty (bufs s i)"
      using clean_buffer_exists [OF inv] by blast
    then have "find (\<lambda>i. \<not> b_busy (bufs s i) \<and> \<not> b_dirty (bufs s i)) (rev xs) \<noteq> None"
      using xs(2) unfolding find_None_iff by auto
    then obtain b where b: "find (\<lambda>i. \<not> b_busy (bufs s i) \<and> \<not> b_dirty (bufs s i)) (rev xs) = Some b"
      unfolding not_None_eq by blast
    have bb: "b < NBUF" "\<not> b_busy (bufs s b)" "\<not> b_dirty (bufs s b)"
      using find_SomeD [OF b] xs(2) by simp_all
    have "bread 1 blk s = Ok b (upd_buf b (\<lambda>x. x\<lparr>b_dev := 1, b_blockno := blk, b_busy := True,
        b_dirty := False, b_data := disk s blk, b_valid := True\<rparr>) s)"
      using None b blk
      by (simp add: bread_def bget_list [OF xs(1)] iderw_def bind_def gets_def whenk_def return_def
          panic_if_def modify_def upd_buf_def)
    with recycle_clean [OF inv none blk bb] show ?thesis by (simp add: wp_def)
  qed
qed

text \<open>\<^verbatim>\<open>bwrite\<close> writes the buffer through to the disk.\<close>

lemma bwrite_wp:
  assumes inv: "cache_inv s" and l: "locked s b blk"
  shows "wp (bwrite b) (\<lambda>_ t. cache_inv t \<and> view t = view s \<and>
    (\<forall>c k. locked t c k = locked s c k) \<and> busyb t = busyb s \<and> dirtyb t = dirtyb s - {blk} \<and>
    disk t = (disk s)(blk := view s blk) \<and> dwrites t = dwrites s @ [(blk, view s blk)] \<and>
    disksize t = disksize s \<and> bio.more t = bio.more s) s"
proof -
  let ?d = "view s blk"
  let ?u = "upd_buf b (\<lambda>x. x\<lparr>b_dirty := False, b_valid := True\<rparr>) s"
  define t where "t = ?u\<lparr>disk := (disk s)(blk := ?d), dwrites := dwrites s @ [(blk, ?d)]\<rparr>"
  have b: "b < NBUF" "b_valid (bufs s b)" "b_busy (bufs s b)" "b_blockno (bufs s b) = blk"
    using l by (auto simp: locked_def holds_def)
  have ok: "buf_ok s (bufs s i)" if "i < NBUF" for i using inv that by (simp add: cache_inv_def)
  have d: "b_data (bufs s b) = ?d" and len: "length ?d = BSIZE" and blk: "blk < disksize s"
    and dev: "b_dev (bufs s b) = 1"
    using locked_data [OF inv l] ok [OF b(1)] b by (auto simp: buf_ok_def)
  have run: "bwrite b s = Ok () t"
    using b d dev blk
    by (simp add: bwrite_def iderw_def bind_def gets_def return_def panic_if_def modify_def upd_buf_def t_def)
  have bt: "b_busy (bufs t i) = b_busy (bufs s i)" "b_dev (bufs t i) = b_dev (bufs s i)"
    "b_blockno (bufs t i) = b_blockno (bufs s i)" "b_data (bufs t i) = b_data (bufs s i)"
    "b_next (bufs t i) = b_next (bufs s i)" "b_prev (bufs t i) = b_prev (bufs s i)"
    "b_valid (bufs t i) = b_valid (bufs s i)" "b_dirty (bufs t i) = (b_dirty (bufs s i) \<and> i \<noteq> b)" for i
    using b(2) by (simp_all add: t_def)
  have st: "disk t = (disk s)(blk := ?d)" "dwrites t = dwrites s @ [(blk, ?d)]"
    "disksize t = disksize s" "bio.more t = bio.more s"
    by (simp_all add: t_def upd_buf_def)
  have h: "holds t i k = holds s i k" for i k
    using b by (auto simp: holds_def bt)
  have lk: "locked t i k = locked s i k" for i k
    by (auto simp: locked_def h bt)
  have inv': "cache_inv t"
    unfolding cache_inv_def
  proof (intro conjI)
    obtain xs where xs: "ring (bufs s) xs" "set xs = {..<NBUF}"
      using inv by (auto simp: cache_inv_def)
    have "ring (bufs t) xs"
      using xs(1) by (subst ring_cong [of _ "bufs s"]) (auto simp: bt)
    with xs show "\<exists>xs. ring (bufs t) xs \<and> set xs = {..<NBUF}" by blast
    have other: "b_blockno (bufs s i) \<noteq> blk" if "i < NBUF" "b_valid (bufs s i)" "i \<noteq> b" for i
      using holds_unique [OF inv, of i blk b] that b by (auto simp: holds_def)
    have "buf_ok t (bufs t i)" if "i < NBUF" for i
      using ok [OF that] other [OF that] b d
      by (cases "i = b") (auto simp: buf_ok_def bt st split: if_splits)
    then show "\<forall>i<NBUF. buf_ok t (bufs t i)" by blast
    show "uniq t" using holds_unique [OF inv] unfolding uniq_def h by blast
    show "\<forall>k<disksize t. length (disk t k) = BSIZE"
      using inv len by (auto simp: cache_inv_def st)
  qed
  have "view t k = view s k" for k
  proof (cases "\<exists>i. holds s i k")
    case True
    then obtain i where i: "holds s i k" by blast
    with h show ?thesis
      by (simp add: view_holds [OF inv', of i] view_holds [OF inv, of i]) (simp add: bt st)
  next
    case False
    moreover have "k \<noteq> blk" using False l by (auto simp: locked_def)
    ultimately show ?thesis using h by (simp add: view_none) (simp add: bt st)
  qed
  then have "view t = view s" by (rule ext)
  moreover have dt: "b_dirty (bufs t i) = (b_dirty (bufs s i) \<and> i \<noteq> b)" for i by (simp add: bt st)
  have hb: "holds s b blk" using l by (simp add: locked_def)
  have "holds s i k \<and> b_dirty (bufs t i) \<longleftrightarrow> holds s i k \<and> b_dirty (bufs s i) \<and> k \<noteq> blk" for i k
    unfolding dt using holds_unique [OF inv, of i blk b] hb b(4) by (auto simp: holds_def)
  then have "dirtyb t = dirtyb s - {blk}" unfolding dirtyb_def h by blast
  moreover have "busyb t = busyb s" by (simp only: busyb_def lk)
  ultimately show ?thesis using inv' lk by (simp add: wp_def run st)
qed

text \<open>The pointer updates of \<^verbatim>\<open>brelse\<close> keep everything else of the buffers.\<close>

definition payload :: "buf \<Rightarrow> bool \<times> bool \<times> bool \<times> nat \<times> nat \<times> block" where
  "payload x = (b_busy x, b_valid x, b_dirty x, b_dev x, b_blockno x, b_data x)"

lemma payload_link:
  "payload ((f(n := (f n)\<lparr>b_prev := v\<rparr>)) i) = payload (f i)"
  "payload ((f(n := (f n)\<lparr>b_next := v\<rparr>)) i) = payload (f i)"
  by (simp_all add: payload_def)

lemma payload_brelse_link: "payload (brelse_link b f i) = payload (f i)"
  by (simp only: brelse_link_def Let_def payload_link)

text \<open>
  \<^verbatim>\<open>brelse\<close> gives the buffer back and makes it the most recently used one. The caller must
  have logged (or written) what it changed, otherwise the change would be lost at eviction.
\<close>

lemma brelse_wp:
  assumes inv: "cache_inv s" and l: "locked s b blk"
    and clean: "blk \<in> dirtyb s \<or> view s blk = disk s blk"
  shows "wp (brelse b) (\<lambda>_ t. cache_inv t \<and> view t = view s \<and>
    (\<forall>c k. k \<noteq> blk \<longrightarrow> locked t c k = locked s c k) \<and> busyb t = busyb s - {blk} \<and>
    dirtyb t = dirtyb s \<and> same_disk s t) s"
proof -
  let ?g = "brelse_link b (bufs s)"
  define t where "t = (upd_buf b (b_busy_update (\<lambda>_. False)) (s\<lparr>bufs := ?g\<rparr>))
    \<lparr>wakes := wakes s @ [ChanBuf b]\<rparr>"
  have b: "b < NBUF" "b_valid (bufs s b)" "b_busy (bufs s b)" "b_blockno (bufs s b) = blk"
    using l by (auto simp: locked_def holds_def)
  have run: "brelse b s = Ok () t"
    using b by (simp add: brelse_def bind_def gets_def return_def panic_if_def modify_def t_def upd_buf_def)
  have fields: "b_busy (?g i) = b_busy (bufs s i)" "b_valid (?g i) = b_valid (bufs s i)"
    "b_dirty (?g i) = b_dirty (bufs s i)" "b_dev (?g i) = b_dev (bufs s i)"
    "b_blockno (?g i) = b_blockno (bufs s i)" "b_data (?g i) = b_data (bufs s i)" for i
    using payload_brelse_link [of b "bufs s" i] unfolding payload_def by simp_all
  have bt: "b_busy (bufs t i) = (b_busy (bufs s i) \<and> i \<noteq> b)" "b_dev (bufs t i) = b_dev (bufs s i)"
    "b_blockno (bufs t i) = b_blockno (bufs s i)" "b_data (bufs t i) = b_data (bufs s i)"
    "b_valid (bufs t i) = b_valid (bufs s i)" "b_dirty (bufs t i) = b_dirty (bufs s i)"
    "b_next (bufs t i) = b_next (?g i)" "b_prev (bufs t i) = b_prev (?g i)" for i
    by (simp_all add: t_def fields)
  have st: "disk t = disk s" "dwrites t = dwrites s" "disksize t = disksize s" "bio.more t = bio.more s"
    by (simp_all add: t_def upd_buf_def)
  have h: "holds t i k = holds s i k" for i k
    using b by (auto simp: holds_def bt)
  have lk: "locked t i k = (locked s i k \<and> i \<noteq> b)" for i k
    by (auto simp: locked_def h bt)
  have inv': "cache_inv t"
    unfolding cache_inv_def
  proof (intro conjI)
    obtain xs where xs: "ring (bufs s) xs" "set xs = {..<NBUF}"
      using inv by (auto simp: cache_inv_def)
    then obtain ys zs where split: "xs = ys @ b # zs"
      using b(1) by (metis in_set_conv_decomp lessThan_iff)
    have "ring ?g (b # ys @ zs)" using xs(1) unfolding split by (rule ring_brelse_link)
    then have "ring (bufs t) (b # ys @ zs)"
      by (subst ring_cong [of _ ?g]) (auto simp: bt)
    with xs split show "\<exists>xs. ring (bufs t) xs \<and> set xs = {..<NBUF}" by fastforce
    have "b_dirty (bufs s b) \<or> b_data (bufs s b) = disk s blk"
      using clean l locked_data [OF inv l] dirtyb_holds [OF inv] by (auto simp: locked_def)
    then show "\<forall>i<NBUF. buf_ok t (bufs t i)"
      using inv b by (auto simp: cache_inv_def buf_ok_def bt st)
    show "uniq t" using holds_unique [OF inv] unfolding uniq_def h by blast
    show "\<forall>k<disksize t. length (disk t k) = BSIZE"
      using inv by (auto simp: cache_inv_def st)
  qed
  have "view t k = view s k" for k
  proof (cases "\<exists>i. holds s i k")
    case True
    then obtain i where i: "holds s i k" by blast
    with h show ?thesis
      by (simp only: view_holds [OF inv', of i] view_holds [OF inv, of i] bt)
  next
    case False
    with h show ?thesis by (simp add: view_none) (simp add: bt st)
  qed
  then have "view t = view s" by (rule ext)
  moreover have "dirtyb t = dirtyb s" by (simp only: dirtyb_def h bt)
  moreover have bk: "locked s i k \<and> i \<noteq> b \<longleftrightarrow> locked s i k \<and> k \<noteq> blk" for i k
    using holds_unique [OF inv, of i blk b] l b(4) unfolding locked_def holds_def by blast
  have "busyb t = busyb s - {blk}" unfolding busyb_def lk bk by blast
  moreover have "locked t c k = locked s c k" if "k \<noteq> blk" for c k
    unfolding lk bk using that by simp
  moreover have "same_disk s t" by (simp add: same_disk_def st)
  ultimately show ?thesis using inv' by (simp add: wp_def run)
qed

section \<open>Booting\<close>

text \<open>
  \<^verbatim>\<open>binit\<close> runs on a kernel image whose static data is zero, so no flag of a buffer is set. It
  builds the list of all buffers, and the cache then shows what the disk holds.
\<close>

definition zeroed_bufs :: "'z bio_scheme \<Rightarrow> bool" where
  "zeroed_bufs s \<longleftrightarrow> (\<forall>i<NBUF. \<not> b_busy (bufs s i) \<and> \<not> b_valid (bufs s i) \<and> \<not> b_dirty (bufs s i))"

lemma binit_link_fields:
  "b_next (binit_link b f i) = b_next (link_front b f i)"
  "b_prev (binit_link b f i) = b_prev (link_front b f i)"
  "b_busy (binit_link b f i) = b_busy (f i)" "b_valid (binit_link b f i) = b_valid (f i)"
  "b_dirty (binit_link b f i) = b_dirty (f i)"
  "b_dev (binit_link b f i) = (if i = b then NODEV else b_dev (f i))"
  by (simp_all add: binit_link_def link_front_def Let_def)

lemma binit_loop:
  assumes "ring f []" and "n \<le> NBUF"
  shows "ring (fold binit_link [0..<n] f) (rev [0..<n]) \<and>
    (\<forall>i. b_busy (fold binit_link [0..<n] f i) = b_busy (f i) \<and>
         b_valid (fold binit_link [0..<n] f i) = b_valid (f i) \<and>
         b_dirty (fold binit_link [0..<n] f i) = b_dirty (f i) \<and>
         (i < n \<longrightarrow> b_dev (fold binit_link [0..<n] f i) = NODEV))"
  using assms(2)
proof (induction n)
  case 0
  then show ?case using assms(1) by simp
next
  case (Suc n)
  let ?f = "fold binit_link [0..<n] f"
  have IH: "ring ?f (rev [0..<n])" using Suc by simp
  have "ring (link_front n ?f) (n # rev [0..<n])"
    by (rule ring_link_front [OF IH]) (use Suc in auto)
  then have "ring (binit_link n ?f) (n # rev [0..<n])"
    by (subst ring_cong [of _ "link_front n ?f"]) (simp_all add: binit_link_fields)
  then show ?case using Suc by (auto simp: binit_link_fields)
qed

lemma for_each_modify: "for_each xs (\<lambda>i. modify (f i)) = modify (fold f xs)"
  by (induction xs) (simp_all add: return_def modify_def bind_def fun_eq_iff)

lemma fold_bufs_update: "fold (\<lambda>b. bufs_update (g b)) xs s = s\<lparr>bufs := fold g xs (bufs s)\<rparr>"
  by (induction xs arbitrary: s) simp_all

lemma binit_wp:
  assumes z: "zeroed_bufs s" and d: "\<forall>k<disksize s. length (disk s k) = BSIZE"
  shows "wp binit (\<lambda>_ t. cache_inv t \<and> view t = disk s \<and> busyb t = {} \<and> dirtyb t = {} \<and>
    same_disk s t) s"
proof -
  let ?start = "(bufs s)(HEAD := (bufs s HEAD)\<lparr>b_prev := HEAD, b_next := HEAD\<rparr>)"
  let ?f = "fold binit_link [0..<NBUF] ?start"
  define t where "t = s\<lparr>bufs := ?f\<rparr>"
  have run: "binit s = Ok () t"
    unfolding binit_def for_each_modify
    by (simp add: bind_def modify_def fold_bufs_update t_def upd_buf_def
        del: upt_conv_Cons upt_rec_numeral upt_Suc)
  have "ring ?start []" by (simp add: ring_def)
  from binit_loop [OF this order_refl] z
  have r: "ring ?f (rev [0..<NBUF])"
    and fl: "\<And>i. i < NBUF \<Longrightarrow> \<not> b_busy (?f i) \<and> \<not> b_valid (?f i) \<and> \<not> b_dirty (?f i) \<and> b_dev (?f i) = NODEV"
    unfolding zeroed_bufs_def by (simp_all del: upt_conv_Cons upt_rec_numeral upt_Suc)
  have bt: "bufs t = ?f" and st: "disk t = disk s" "dwrites t = dwrites s" "disksize t = disksize s"
    "bio.more t = bio.more s"
    by (simp_all add: t_def del: upt_conv_Cons upt_rec_numeral upt_Suc)
  have h: "\<not> holds t i k" for i k unfolding holds_def bt using fl by blast
  have "cache_inv t"
    unfolding cache_inv_def
  proof (intro conjI)
    show "\<exists>xs. ring (bufs t) xs \<and> set xs = {..<NBUF}"
      by (rule exI [of _ "rev [0..<NBUF]"]) (use r in \<open>simp add: bt atLeast0LessThan del: upt_rec_numeral\<close>)
    show "\<forall>i<NBUF. buf_ok t (bufs t i)" unfolding buf_ok_def bt using fl by simp
    show "uniq t" unfolding uniq_def using h by blast
    show "\<forall>k<disksize t. length (disk t k) = BSIZE" using d by (simp add: st)
  qed
  moreover have "view t = disk s" by (rule ext) (simp add: view_none h st)
  moreover have "busyb t = {}" "dirtyb t = {}" by (simp_all add: busyb_def dirtyb_def locked_def h)
  ultimately show ?thesis by (simp add: wp_def run same_disk_def st)
qed

end
