(* ===== verification/Log.thy ===== *)
theory Log
  imports Bio_Spec
begin

text \<open>
  The write-ahead log (log.c): group commit of the blocks that system calls modify.

  The state extends that of the buffer cache by \<^verbatim>\<open>struct log\<close>. \<^verbatim>\<open>log.lh.n\<close>, \<^verbatim>\<open>log.size\<close> and
  \<^verbatim>\<open>log.outstanding\<close> are C \<^verbatim>\<open>int\<close>s; the block numbers in \<^verbatim>\<open>log.lh.block\<close> are used as \<^verbatim>\<open>uint\<close>s.
  C leaves an access behind the end of \<^verbatim>\<open>lh.block\<close> undefined; here it is the result
  \<open>Panic oob\<close>, so that no theorem can rely on what would happen.

  \<open>apply_writes\<close> is the effect of a sequence of disk writes. The commit protocol is shown to
  issue exactly four phases of writes (log blocks, header, home blocks, cleared header); what
  recovery makes of every prefix of that sequence is proved in the theory \<open>Crash\<close>.
\<close>

section \<open>State\<close>

record logst = bio +
  lstart :: nat
  lsize :: int
  outstanding :: int
  committing :: bool
  ldev :: nat
  lh_n :: int
  lh_block :: "nat \<Rightarrow> nat"

definition oob :: string where
  "oob = ''undefined behaviour: array index out of range''"

text \<open>The 32-bit pattern \<open>v\<close> as an \<^verbatim>\<open>int\<close>, and an \<^verbatim>\<open>int\<close> as its pattern.\<close>

definition as_int :: "nat \<Rightarrow> int" where
  "as_int v = (if v < 2 ^ 31 then int v else int v - 2 ^ 32)"

definition as_uint :: "int \<Rightarrow> nat" where
  "as_uint n = nat (n mod 2 ^ 32)"

section \<open>On-disk structures\<close>

abbreviation sizeof_superblock :: nat where "sizeof_superblock \<equiv> 36"

definition decode_sb :: "byte list \<Rightarrow> superblock" where
  "decode_sb d = \<lparr>
     sb_size = le_nat (slice 0 4 d),
     sb_nblocks = le_nat (slice 4 4 d),
     sb_ninodes = le_nat (slice 8 4 d),
     sb_nlog = le_nat (slice 12 4 d),
     sb_logstart = le_nat (slice 16 4 d),
     sb_bgstart = le_nat (slice 20 4 d),
     sb_nblockgroups = le_nat (slice 24 4 d),
     sb_bpbg = le_nat (slice 28 4 d),
     sb_ipbg = le_nat (slice 32 4 d) \<rparr>"

definition encode_sb :: "superblock \<Rightarrow> byte list" where
  "encode_sb sb =
     le32 (sb_size sb) @ le32 (sb_nblocks sb) @ le32 (sb_ninodes sb) @ le32 (sb_nlog sb) @
     le32 (sb_logstart sb) @ le32 (sb_bgstart sb) @ le32 (sb_nblockgroups sb) @
     le32 (sb_bpbg sb) @ le32 (sb_ipbg sb)"

text \<open>The header block: \<^verbatim>\<open>n\<close>, then \<^verbatim>\<open>block[0]\<close>, \<^verbatim>\<open>block[1]\<close>, ...\<close>

definition head_n :: "block \<Rightarrow> int" where
  "head_n d = as_int (le_nat (slice 0 4 d))"

definition head_block :: "block \<Rightarrow> nat \<Rightarrow> nat" where
  "head_block d i = le_nat (slice (4 + 4 * i) 4 d)"

definition put_head :: "int \<Rightarrow> (nat \<Rightarrow> nat) \<Rightarrow> block \<Rightarrow> block" where
  "put_head n f d =
     fold (\<lambda>i d. blit (4 + 4 * i) (le32 (f i)) d) [0..<nat n] (blit 0 (le32 (as_uint n)) d)"

section \<open>Operations\<close>

definition readsb :: "nat \<Rightarrow> ('z bio_scheme, superblock) kop" where
  "readsb dev =
     bind (bread dev 1) (\<lambda>bp.
     bind (bdata bp) (\<lambda>d.
     bind (brelse bp) (\<lambda>_.
     return (decode_sb (slice 0 sizeof_superblock d)))))"

definition read_head :: "('z logst_scheme, unit) kop" where
  "read_head =
     bind (gets ldev) (\<lambda>dev.
     bind (gets lstart) (\<lambda>start.
     bind (bread dev start) (\<lambda>buf.
     bind (bdata buf) (\<lambda>d.
     bind (modify (\<lambda>s. s\<lparr>lh_n := head_n d\<rparr>)) (\<lambda>_.
     bind (panic_if (int LOGSIZE < head_n d) oob) (\<lambda>_.
     bind (for_each [0..<nat (head_n d)] (\<lambda>i.
             modify (\<lambda>s. s\<lparr>lh_block := (lh_block s)(i := head_block d i)\<rparr>))) (\<lambda>_.
     brelse buf)))))))"

definition write_head :: "('z logst_scheme, unit) kop" where
  "write_head =
     bind (gets ldev) (\<lambda>dev.
     bind (gets lstart) (\<lambda>start.
     bind (bread dev start) (\<lambda>buf.
     bind (gets lh_n) (\<lambda>n.
     bind (gets lh_block) (\<lambda>f.
     bind (panic_if (int LOGSIZE < n) oob) (\<lambda>_.
     bind (bdata buf) (\<lambda>d.
     bind (set_bdata buf (put_head n f d)) (\<lambda>_.
     bind (bwrite buf) (\<lambda>_.
     brelse buf)))))))))"

definition install_trans :: "('z logst_scheme, unit) kop" where
  "install_trans =
     bind (gets ldev) (\<lambda>dev.
     bind (gets lstart) (\<lambda>start.
     bind (gets lh_n) (\<lambda>n.
     bind (gets lh_block) (\<lambda>f.
     for_each [0..<nat n] (\<lambda>tail.
       bind (panic_if (LOGSIZE \<le> tail) oob) (\<lambda>_.
       bind (bread dev (start + tail + 1)) (\<lambda>lbuf.
       bind (bread dev (f tail)) (\<lambda>dbuf.
       bind (bdata lbuf) (\<lambda>d.
       bind (set_bdata dbuf d) (\<lambda>_.
       bind (bwrite dbuf) (\<lambda>_.
       bind (brelse lbuf) (\<lambda>_.
       brelse dbuf))))))))))))"

definition write_log :: "('z logst_scheme, unit) kop" where
  "write_log =
     bind (gets ldev) (\<lambda>dev.
     bind (gets lstart) (\<lambda>start.
     bind (gets lh_n) (\<lambda>n.
     bind (gets lh_block) (\<lambda>f.
     for_each [0..<nat n] (\<lambda>tail.
       bind (panic_if (LOGSIZE \<le> tail) oob) (\<lambda>_.
       bind (bread dev (start + tail + 1)) (\<lambda>to_buf.
       bind (bread dev (f tail)) (\<lambda>from_buf.
       bind (bdata from_buf) (\<lambda>d.
       bind (set_bdata to_buf d) (\<lambda>_.
       bind (bwrite to_buf) (\<lambda>_.
       bind (brelse from_buf) (\<lambda>_.
       brelse to_buf))))))))))))"

definition recover_from_log :: "('z logst_scheme, unit) kop" where
  "recover_from_log =
     bind read_head (\<lambda>_.
     bind install_trans (\<lambda>_.
     bind (modify (\<lambda>s. s\<lparr>lh_n := 0\<rparr>)) (\<lambda>_.
     write_head)))"

text \<open>\<^verbatim>\<open>sizeof(struct logheader)\<close> is \<^verbatim>\<open>4 + 4 * LOGSIZE\<close>.\<close>

definition initlog :: "nat \<Rightarrow> ('z logst_scheme, unit) kop" where
  "initlog dev =
     bind (panic_if (BSIZE \<le> 4 + 4 * LOGSIZE) ''initlog: too big logheader'') (\<lambda>_.
     bind (readsb dev) (\<lambda>sb.
     bind (modify (\<lambda>s. s\<lparr>lstart := sb_logstart sb\<rparr>)) (\<lambda>_.
     bind (modify (\<lambda>s. s\<lparr>lsize := as_int (sb_nlog sb)\<rparr>)) (\<lambda>_.
     bind (modify (\<lambda>s. s\<lparr>ldev := dev\<rparr>)) (\<lambda>_.
     recover_from_log)))))"

definition commit :: "('z logst_scheme, unit) kop" where
  "commit =
     bind (gets lh_n) (\<lambda>n.
     whenk (0 < n)
       (bind write_log (\<lambda>_.
        bind write_head (\<lambda>_.
        bind install_trans (\<lambda>_.
        bind (modify (\<lambda>s. s\<lparr>lh_n := 0\<rparr>)) (\<lambda>_.
        write_head))))))"

definition begin_op :: "('z logst_scheme, unit) kop" where
  "begin_op =
     bind (gets committing) (\<lambda>c.
     bind (gets lh_n) (\<lambda>n.
     bind (gets outstanding) (\<lambda>k.
     if c then sleep_on ChanLog
     else if n + (k + 1) * int MAXOPBLOCKS > int LOGSIZE then sleep_on ChanLog
     else modify (\<lambda>s. s\<lparr>outstanding := k + 1\<rparr>))))"

definition end_op :: "('z logst_scheme, unit) kop" where
  "end_op =
     bind (modify (\<lambda>s. s\<lparr>outstanding := outstanding s - 1\<rparr>)) (\<lambda>_.
     bind (gets committing) (\<lambda>c.
     bind (panic_if c ''log.committing'') (\<lambda>_.
     bind (gets outstanding) (\<lambda>k.
     if k = 0 then
       bind (modify (\<lambda>s. s\<lparr>committing := True\<rparr>)) (\<lambda>_.
       bind commit (\<lambda>_.
       bind (modify (\<lambda>s. s\<lparr>committing := False\<rparr>)) (\<lambda>_.
       wakeup_on ChanLog)))
     else wakeup_on ChanLog))))"

text \<open>The absorption loop of \<^verbatim>\<open>log_write\<close>: the first index below \<open>n\<close> that logs the block, or \<open>n\<close>.\<close>

fun absorb :: "(nat \<Rightarrow> nat) \<Rightarrow> nat \<Rightarrow> nat list \<Rightarrow> nat \<Rightarrow> nat" where
  "absorb f blk [] n = n"
| "absorb f blk (i # is) n = (if f i = blk then i else absorb f blk is n)"

definition log_write :: "nat \<Rightarrow> ('z logst_scheme, unit) kop" where
  "log_write b =
     bind (gets lh_n) (\<lambda>n.
     bind (gets lsize) (\<lambda>size.
     bind (panic_if (int LOGSIZE \<le> n \<or> size - 1 \<le> n) ''too big a transaction'') (\<lambda>_.
     bind (gets outstanding) (\<lambda>k.
     bind (panic_if (k < 1) ''log_write outside of trans'') (\<lambda>_.
     bind (gets (\<lambda>s. b_blockno (bufs s b))) (\<lambda>blk.
     bind (gets lh_block) (\<lambda>f.
     bind (return (absorb f blk [0..<nat n] (nat n))) (\<lambda>i.
     bind (modify (\<lambda>s. s\<lparr>lh_block := (lh_block s)(i := blk)\<rparr>)) (\<lambda>_.
     bind (whenk (int i = n) (modify (\<lambda>s. s\<lparr>lh_n := lh_n s + 1\<rparr>))) (\<lambda>_.
     modify (upd_buf b (b_dirty_update (\<lambda>_. True)))))))))))))"

end
