(* ===== verification/Log_Spec.thy ===== *)
theory Log_Spec
  imports Log
begin

text \<open>
  What the functions of log.c do: each one as a weakest-precondition rule that names the exact
  sequence of disk writes it issues.
\<close>

section \<open>Sequences of disk writes\<close>

definition apply_writes :: "(nat \<times> block) list \<Rightarrow> (nat \<Rightarrow> block) \<Rightarrow> nat \<Rightarrow> block" where
  "apply_writes ws d = fold (\<lambda>(b, x) d. d(b := x)) ws d"

lemma apply_writes_Nil [simp]: "apply_writes [] d = d"
  by (simp add: apply_writes_def)

lemma apply_writes_append [simp]: "apply_writes (xs @ ys) d = apply_writes ys (apply_writes xs d)"
  by (simp add: apply_writes_def)

lemma apply_writes_Cons [simp]: "apply_writes (w # ws) d = apply_writes ws (d(fst w := snd w))"
  by (simp add: apply_writes_def split: prod.split)

lemma apply_writes_other: "k \<notin> fst ` set ws \<Longrightarrow> apply_writes ws d k = d k"
  by (induction ws arbitrary: d) auto

lemma apply_writes_nth:
  assumes "distinct (map fst ws)" and "i < length ws"
  shows "apply_writes ws d (fst (ws ! i)) = snd (ws ! i)"
  using assms
proof (induction ws arbitrary: d i)
  case Nil
  then show ?case by simp
next
  case (Cons w ws)
  show ?case
  proof (cases i)
    case 0
    with Cons.prems show ?thesis by (simp add: apply_writes_other)
  next
    case (Suc j)
    with Cons show ?thesis by simp
  qed
qed

text \<open>\<open>t\<close> results from \<open>s\<close> by the disk writes \<open>ws\<close>; the rest of the kernel state is as before.\<close>

definition wrote :: "'z bio_scheme \<Rightarrow> 'z bio_scheme \<Rightarrow> (nat \<times> block) list \<Rightarrow> bool" where
  "wrote s t ws \<longleftrightarrow> disk t = apply_writes ws (disk s) \<and> dwrites t = dwrites s @ ws \<and>
     disksize t = disksize s \<and> bio.more t = bio.more s"

lemma wrote_Nil [simp]: "wrote s s []"
  by (simp add: wrote_def)

lemma wrote_trans: "wrote s t xs \<Longrightarrow> wrote t u ys \<Longrightarrow> wrote s u (xs @ ys)"
  by (simp add: wrote_def)

lemma same_disk_wrote: "same_disk s t \<longleftrightarrow> wrote s t []"
  by (auto simp: same_disk_def wrote_def)

lemma more_fields:
  fixes s t :: "'z logst_scheme"
  assumes "bio.more t = bio.more s"
  shows "lstart t = lstart s" "lsize t = lsize s" "outstanding t = outstanding s"
    "committing t = committing s" "ldev t = ldev s" "lh_n t = lh_n s" "lh_block t = lh_block s"
    "logst.more t = logst.more s"
  using assms by (cases s; cases t; simp)+

section \<open>Copying a block\<close>

text \<open>
  The cache keeps its invariant and what it shows; nobody's buffers are touched. \<open>quiet s t\<close>
  relates the states before and after a piece of code that gives back every buffer it took.
\<close>

definition quiet :: "'z bio_scheme \<Rightarrow> 'z bio_scheme \<Rightarrow> bool" where
  "quiet s t \<longleftrightarrow> cache_inv t \<and> busyb t = busyb s \<and> (\<forall>c k. locked s c k \<longrightarrow> locked t c k)"

lemma quiet_refl [simp]: "cache_inv s \<Longrightarrow> quiet s s"
  by (simp add: quiet_def)

lemma quiet_trans: "quiet s t \<Longrightarrow> quiet t u \<Longrightarrow> quiet s u"
  by (simp add: quiet_def)

text \<open>Two blocks read, the second one stored over: the common start of the two copy loops.\<close>

lemma bread2_wp:
  assumes inv: "cache_inv s" and ne: "x \<noteq> y" and lt: "x < disksize s" "y < disksize s"
    and free: "x \<notin> busyb s" "y \<notin> busyb s"
    and room: "card (busyb s \<union> dirtyb s \<union> {x, y}) \<le> NBUF"
  shows "wp (bread 1 x) (\<lambda>a. wp (bread 1 y) (\<lambda>b t. cache_inv t \<and> locked t a x \<and> locked t b y \<and>
    view t = view s \<and> (\<forall>c k. locked s c k \<longrightarrow> locked t c k) \<and>
    busyb t = {x, y} \<union> busyb s \<and> dirtyb t = dirtyb s \<and> same_disk s t)) s"
proof (rule wp_mono [OF bread_wp [OF inv lt(1) free(1)]])
  have "card (insert x (busyb s \<union> dirtyb s)) \<le> card (busyb s \<union> dirtyb s \<union> {x, y})"
    by (rule card_mono) auto
  with room show "card (insert x (busyb s \<union> dirtyb s)) \<le> NBUF" by simp
next
  fix a t
  assume t: "cache_inv t \<and> locked t a x \<and> view t = view s \<and> (\<forall>c k. locked s c k \<longrightarrow> locked t c k) \<and>
    busyb t = insert x (busyb s) \<and> dirtyb t = dirtyb s \<and> same_disk s t"
  have "insert y (busyb t \<union> dirtyb t) = busyb s \<union> dirtyb s \<union> {x, y}" using t by auto
  then show "wp (bread 1 y) (\<lambda>b t. cache_inv t \<and> locked t a x \<and> locked t b y \<and>
    view t = view s \<and> (\<forall>c k. locked s c k \<longrightarrow> locked t c k) \<and>
    busyb t = {x, y} \<union> busyb s \<and> dirtyb t = dirtyb s \<and> same_disk s t) t"
    using t ne lt free room
    by (intro wp_mono [OF bread_wp [of t y]]) (auto simp: same_disk_def)
qed

text \<open>A held buffer is stored over and written to the disk.\<close>

lemma store_bwrite_wp:
  assumes inv: "cache_inv s" and l: "locked s b blk" and len: "length d = BSIZE"
  shows "wp (bind (set_bdata b d) (\<lambda>_. bwrite b)) (\<lambda>_ t. cache_inv t \<and>
    view t = (view s)(blk := d) \<and> (\<forall>c k. locked t c k = locked s c k) \<and> busyb t = busyb s \<and>
    dirtyb t = dirtyb s - {blk} \<and> wrote s t [(blk, d)]) s"
  unfolding wp_bind
proof (rule wp_mono [OF set_bdata_wp [OF inv l len]])
  fix x t
  assume t: "cache_inv t \<and> view t = (view s)(blk := d) \<and> (\<forall>c k. locked t c k = locked s c k) \<and>
    busyb t = busyb s \<and> dirtyb t = dirtyb s \<and> same_disk s t"
  then have "locked t b blk" using l by simp
  with t show "wp (bwrite b) (\<lambda>_ t. cache_inv t \<and> view t = (view s)(blk := d) \<and>
    (\<forall>c k. locked t c k = locked s c k) \<and> busyb t = busyb s \<and>
    dirtyb t = dirtyb s - {blk} \<and> wrote s t [(blk, d)]) t"
    by (intro wp_mono [OF bwrite_wp [of t b blk]]) (auto simp: same_disk_def wrote_def)
qed

text \<open>Two buffers given back.\<close>

lemma brelse2_wp:
  assumes inv: "cache_inv s" and l: "locked s a x" "locked s b y" and ne: "x \<noteq> y"
    and clean: "x \<in> dirtyb s \<or> view s x = disk s x" "y \<in> dirtyb s \<or> view s y = disk s y"
  shows "wp (bind (brelse a) (\<lambda>_. brelse b)) (\<lambda>_ t. cache_inv t \<and> view t = view s \<and>
    (\<forall>c k. k \<noteq> x \<longrightarrow> k \<noteq> y \<longrightarrow> locked t c k = locked s c k) \<and> busyb t = busyb s - {x, y} \<and>
    dirtyb t = dirtyb s \<and> same_disk s t) s"
  unfolding wp_bind
proof (rule wp_mono [OF brelse_wp [OF inv l(1) clean(1)]])
  fix u t
  assume t: "cache_inv t \<and> view t = view s \<and> (\<forall>c k. k \<noteq> x \<longrightarrow> locked t c k = locked s c k) \<and>
    busyb t = busyb s - {x} \<and> dirtyb t = dirtyb s \<and> same_disk s t"
  with ne l have "locked t b y" by auto
  moreover have "y \<in> dirtyb t \<or> view t y = disk t y" using clean t by (auto simp: same_disk_def)
  ultimately show "wp (brelse b) (\<lambda>_ t. cache_inv t \<and> view t = view s \<and>
    (\<forall>c k. k \<noteq> x \<longrightarrow> k \<noteq> y \<longrightarrow> locked t c k = locked s c k) \<and> busyb t = busyb s - {x, y} \<and>
    dirtyb t = dirtyb s \<and> same_disk s t) t"
    using t by (intro wp_mono [OF brelse_wp [of t b y]]) (auto simp: same_disk_def)
qed

text \<open>
  One iteration of \<^verbatim>\<open>write_log\<close> and of \<^verbatim>\<open>install_trans\<close>: the content of \<open>src\<close>, as the kernel sees
  it, is written to block \<open>dst\<close> of the disk. The two loops take and give back the two buffers
  in different orders.
\<close>

definition can_copy :: "'z bio_scheme \<Rightarrow> nat \<Rightarrow> nat \<Rightarrow> bool" where
  "can_copy s src dst \<longleftrightarrow> cache_inv s \<and> src \<noteq> dst \<and> src < disksize s \<and> dst < disksize s \<and>
     src \<notin> busyb s \<and> dst \<notin> busyb s \<and> card (busyb s \<union> dirtyb s \<union> {src, dst}) \<le> NBUF"

definition copied :: "'z bio_scheme \<Rightarrow> 'z bio_scheme \<Rightarrow> nat \<Rightarrow> nat \<Rightarrow> bool" where
  "copied s t src dst \<longleftrightarrow> quiet s t \<and> view t = (view s)(dst := view s src) \<and>
     dirtyb t = dirtyb s - {dst} \<and> wrote s t [(dst, view s src)]"

lemma copy_release_wp:
  assumes c: "can_copy s src dst"
    and t: "cache_inv t" "locked t a src" "locked t b dst" "view t = view s"
      "\<forall>c k. locked s c k \<longrightarrow> locked t c k" "busyb t = {src, dst} \<union> busyb s" "dirtyb t = dirtyb s"
      "same_disk s t"
    and rel: "rel = bind (brelse a) (\<lambda>_. brelse b) \<or> rel = bind (brelse b) (\<lambda>_. brelse a)"
  shows "wp (bind (bind (set_bdata b (b_data (bufs t a))) (\<lambda>_. bwrite b)) (\<lambda>_. rel))
    (\<lambda>_ u. copied s u src dst) t"
  unfolding wp_bind [of "bind _ _"]
proof (rule wp_mono [OF store_bwrite_wp])
  show "cache_inv t" "locked t b dst" by fact+
  have d: "b_data (bufs t a) = view s src" using locked_data [OF t(1,2)] t(4) by simp
  have inv: "cache_inv s" using c by (simp add: can_copy_def)
  show len: "length (b_data (bufs t a)) = BSIZE"
    using view_length [OF inv] c by (simp add: d can_copy_def)
  fix x u
  assume u: "cache_inv u \<and> view u = (view t)(dst := b_data (bufs t a)) \<and>
    (\<forall>c k. locked u c k = locked t c k) \<and> busyb u = busyb t \<and>
    dirtyb u = dirtyb t - {dst} \<and> wrote t u [(dst, b_data (bufs t a))]"
  have ne: "src \<noteq> dst" "src \<notin> busyb s" "dst \<notin> busyb s" using c by (auto simp: can_copy_def)
  have l: "locked u a src" "locked u b dst" using u t by simp_all
  have "src \<in> dirtyb s \<or> view s src = disk s src"
    using view_clean [OF inv ne(2)] by blast
  then have cl: "src \<in> dirtyb u \<or> view u src = disk u src" "dst \<in> dirtyb u \<or> view u dst = disk u dst"
    using u t ne by (auto simp: wrote_def same_disk_def)
  have sd: "wrote s u [(dst, view s src)]" using u t(8) by (auto simp: d wrote_def same_disk_def)
  define P where "P v \<longleftrightarrow> cache_inv v \<and> view v = view u \<and>
    (\<forall>c k. k \<noteq> src \<longrightarrow> k \<noteq> dst \<longrightarrow> locked v c k = locked u c k) \<and>
    busyb v = busyb u - {src, dst} \<and> dirtyb v = dirtyb u \<and> same_disk u v" for v
  have fin: "copied s v src dst" if "P v" for v
  proof -
    have v: "cache_inv v" "view v = view u" "busyb v = busyb u - {src, dst}" "dirtyb v = dirtyb u"
      "same_disk u v" and lv: "\<And>c k. k \<noteq> src \<Longrightarrow> k \<noteq> dst \<Longrightarrow> locked v c k = locked u c k"
      using that by (auto simp: P_def)
    have "busyb v = busyb s" using v(3) u t(6) ne by auto
    moreover have "locked v c k" if "locked s c k" for c k
    proof -
      have "k \<in> busyb s" using that by (auto simp: busyb_def)
      then have "k \<noteq> src" "k \<noteq> dst" using ne by auto
      moreover have "locked t c k" using t(5) that by blast
      then have "locked u c k" using u by simp
      ultimately show ?thesis using lv by simp
    qed
    ultimately have "quiet s v" using v(1) by (simp add: quiet_def)
    moreover have "wrote s v [(dst, view s src)]"
      using v(5) sd by (auto simp: same_disk_wrote dest: wrote_trans)
    ultimately show ?thesis using v u t by (simp add: copied_def d)
  qed
  have "wp rel (\<lambda>_ v. P v) u"
    using rel
  proof
    assume r: "rel = bind (brelse a) (\<lambda>_. brelse b)"
    show ?thesis unfolding r P_def by (rule brelse2_wp) (use u l ne(1) cl in auto)
  next
    assume r: "rel = bind (brelse b) (\<lambda>_. brelse a)"
    have P': "P v \<longleftrightarrow> cache_inv v \<and> view v = view u \<and>
      (\<forall>c k. k \<noteq> dst \<longrightarrow> k \<noteq> src \<longrightarrow> locked v c k = locked u c k) \<and>
      busyb v = busyb u - {dst, src} \<and> dirtyb v = dirtyb u \<and> same_disk u v" for v
      unfolding P_def insert_commute [of src] by blast
    show ?thesis unfolding r P' by (rule brelse2_wp) (use u l ne(1) cl in auto)
  qed
  then show "wp rel (\<lambda>_ u. copied s u src dst) u" by (rule wp_mono) (rule fin)
qed

lemma write_log_step:
  assumes c: "can_copy s src dst"
  shows "wp (bind (bread 1 dst) (\<lambda>to_buf.
       bind (bread 1 src) (\<lambda>from_buf.
       bind (bdata from_buf) (\<lambda>d.
       bind (set_bdata to_buf d) (\<lambda>_.
       bind (bwrite to_buf) (\<lambda>_.
       bind (brelse from_buf) (\<lambda>_.
       brelse to_buf)))))))
    (\<lambda>_ u. copied s u src dst) s"
proof -
  have "wp (bread 1 dst) (\<lambda>b. wp (bread 1 src) (\<lambda>a t.
      wp (bind (bind (set_bdata b (b_data (bufs t a))) (\<lambda>_. bwrite b))
         (\<lambda>_. bind (brelse a) (\<lambda>_. brelse b))) (\<lambda>_ u. copied s u src dst) t)) s"
    by (rule wp_mono2 [OF bread2_wp]; (elim conjE, rule copy_release_wp [OF c])?)
      (use c in \<open>auto simp: can_copy_def insert_commute\<close>)
  then show ?thesis by (simp only: wp_bind_fun wp_gets_fun)
qed

lemma install_trans_step:
  assumes c: "can_copy s src dst"
  shows "wp (bind (bread 1 src) (\<lambda>lbuf.
       bind (bread 1 dst) (\<lambda>dbuf.
       bind (bdata lbuf) (\<lambda>d.
       bind (set_bdata dbuf d) (\<lambda>_.
       bind (bwrite dbuf) (\<lambda>_.
       bind (brelse lbuf) (\<lambda>_.
       brelse dbuf)))))))
    (\<lambda>_ u. copied s u src dst) s"
proof -
  have "wp (bread 1 src) (\<lambda>a. wp (bread 1 dst) (\<lambda>b t.
      wp (bind (bind (set_bdata b (b_data (bufs t a))) (\<lambda>_. bwrite b))
         (\<lambda>_. bind (brelse a) (\<lambda>_. brelse b))) (\<lambda>_ u. copied s u src dst) t)) s"
    by (rule wp_mono2 [OF bread2_wp]; (elim conjE, rule copy_release_wp [OF c])?)
      (use c in \<open>auto simp: can_copy_def\<close>)
  then show ?thesis by (simp only: wp_bind_fun wp_gets_fun)
qed

section \<open>The copy loops\<close>

definition log_blocks :: "'z logst_scheme \<Rightarrow> nat list" where
  "log_blocks s = map (lh_block s) [0..<nat (lh_n s)]"

text \<open>
  A transaction that can be committed or installed: its blocks are distinct home blocks (behind
  the log area), nothing else is pinned in the cache, nobody else holds the blocks concerned, and
  the cache has room for one more block.
\<close>

definition home :: "'z logst_scheme \<Rightarrow> nat \<Rightarrow> bool" where
  "home s k \<longleftrightarrow> lstart s + nat (lsize s) \<le> k \<and> k < disksize s"

definition txn_ok :: "'z logst_scheme \<Rightarrow> bool" where
  "txn_ok s \<longleftrightarrow> cache_inv s \<and> ldev s = 1 \<and> 0 \<le> lh_n s \<and> lh_n s < int LOGSIZE \<and> lh_n s < lsize s \<and>
     distinct (log_blocks s) \<and> (\<forall>b\<in>set (log_blocks s). home s b \<and> b \<notin> busyb s) \<and>
     lstart s + nat (lsize s) \<le> disksize s \<and> dirtyb s \<subseteq> set (log_blocks s) \<and>
     busyb s \<inter> {lstart s..<lstart s + nat (lsize s)} = {} \<and>
     card (busyb s \<union> set (log_blocks s)) < NBUF"

definition log_copies :: "'z logst_scheme \<Rightarrow> nat \<Rightarrow> (nat \<times> block) list" where
  "log_copies s n = map (\<lambda>i. (lstart s + i + 1, view s (lh_block s i))) [0..<n]"

definition home_copies :: "'z logst_scheme \<Rightarrow> nat \<Rightarrow> (nat \<times> block) list" where
  "home_copies s n = map (\<lambda>i. (lh_block s i, view s (lstart s + i + 1))) [0..<n]"

lemma copies_Suc:
  "log_copies s (Suc i) = log_copies s i @ [(lstart s + i + 1, view s (lh_block s i))]"
  "home_copies s (Suc i) = home_copies s i @ [(lh_block s i, view s (lstart s + i + 1))]"
  by (simp_all add: log_copies_def home_copies_def)

lemma copies_0 [simp]: "log_copies s 0 = []" "home_copies s 0 = []"
  by (simp_all add: log_copies_def home_copies_def)

lemma fst_copies:
  "fst ` set (log_copies s i) = {lstart s + 1..<lstart s + 1 + i}"
  "fst ` set (home_copies s i) = lh_block s ` {0..<i}"
proof -
  have "x - Suc (lstart s) \<in> {0..<i}" "x = Suc (lstart s + (x - Suc (lstart s)))"
    if "Suc (lstart s) \<le> x" "x < Suc (lstart s + i)" for x
    using that by auto
  then have "\<exists>j\<in>{0..<i}. x = Suc (lstart s + j)" if "Suc (lstart s) \<le> x" "x < Suc (lstart s + i)" for x
    using that by blast
  then show "fst ` set (log_copies s i) = {lstart s + 1..<lstart s + 1 + i}"
    by (auto simp: log_copies_def image_image image_iff)
  show "fst ` set (home_copies s i) = lh_block s ` {0..<i}"
    by (auto simp: home_copies_def image_image)
qed

lemma txn_entry:
  assumes "txn_ok s" and "i < nat (lh_n s)"
  shows "lh_block s i \<in> set (log_blocks s)" "home s (lh_block s i)" "lh_block s i \<notin> busyb s"
    "lstart s + i + 1 < lstart s + nat (lsize s)" "lstart s + i + 1 \<notin> busyb s"
    "lstart s + i + 1 < disksize s" "i < LOGSIZE"
proof -
  show e: "lh_block s i \<in> set (log_blocks s)" using assms by (simp add: log_blocks_def)
  show "home s (lh_block s i)" "lh_block s i \<notin> busyb s"
    using assms e by (auto simp: txn_ok_def)
  show lt: "lstart s + i + 1 < lstart s + nat (lsize s)" using assms by (auto simp: txn_ok_def)
  then have "lstart s + i + 1 \<in> {lstart s..<lstart s + nat (lsize s)}" by simp
  then show "lstart s + i + 1 \<notin> busyb s"
    using assms(1) unfolding txn_ok_def by blast
  show "lstart s + i + 1 < disksize s" "i < LOGSIZE" using assms lt by (auto simp: txn_ok_def)
qed

lemma txn_dirty_home: "txn_ok s \<Longrightarrow> k \<in> dirtyb s \<Longrightarrow> home s k"
  unfolding txn_ok_def by blast

lemma txn_can_copy:
  assumes s: "txn_ok s" and i: "i < nat (lh_n s)" and t: "quiet s t" "wrote s t ws"
    and d: "dirtyb t \<subseteq> dirtyb s"
  shows "can_copy t (lh_block s i) (lstart s + i + 1)" "can_copy t (lstart s + i + 1) (lh_block s i)"
proof -
  note e = txn_entry [OF s i]
  have "busyb t \<union> dirtyb t \<union> {lh_block s i, lstart s + i + 1} \<subseteq>
      insert (lstart s + i + 1) (busyb s \<union> set (log_blocks s))"
    using s t d e(1) by (auto simp: txn_ok_def quiet_def)
  then have "card (busyb t \<union> dirtyb t \<union> {lh_block s i, lstart s + i + 1}) \<le>
      card (insert (lstart s + i + 1) (busyb s \<union> set (log_blocks s)))"
    by (rule card_mono [rotated]) simp
  also have "\<dots> \<le> Suc (card (busyb s \<union> set (log_blocks s)))"
    by (rule card_insert_le_m1) simp_all
  also have "\<dots> \<le> NBUF" using s by (simp add: txn_ok_def)
  finally have room: "card (busyb t \<union> dirtyb t \<union> {lh_block s i, lstart s + i + 1}) \<le> NBUF" .
  have "lh_block s i \<noteq> lstart s + i + 1" "lh_block s i < disksize s" using e(2,4) by (auto simp: home_def)
  with e room t show "can_copy t (lh_block s i) (lstart s + i + 1)"
    by (simp add: can_copy_def quiet_def wrote_def)
  with room show "can_copy t (lstart s + i + 1) (lh_block s i)"
    by (auto simp: can_copy_def insert_commute)
qed

lemma write_log_wp:
  assumes s: "txn_ok s"
  shows "wp write_log (\<lambda>_ t. quiet s t \<and> view t = apply_writes (log_copies s (nat (lh_n s))) (view s) \<and>
    dirtyb t = dirtyb s \<and> wrote s t (log_copies s (nat (lh_n s)))) s"
proof -
  let ?I = "\<lambda>i t. quiet s t \<and> view t = apply_writes (log_copies s i) (view s) \<and>
    dirtyb t = dirtyb s \<and> wrote s t (log_copies s i)"
  have dev: "ldev s = 1" and inv: "cache_inv s" using s by (auto simp: txn_ok_def)
  show ?thesis
    unfolding write_log_def wp_bind_fun wp_gets_fun dev
  proof (rule wp_for_upt [where I = ?I])
    show "?I 0 s" using inv by simp
    fix i t
    assume i: "i < nat (lh_n s)" and I: "?I i t"
    note e = txn_entry [OF s i]
    have t: "quiet s t" "wrote s t (log_copies s i)" "dirtyb t \<subseteq> dirtyb s" using I by auto
    have "lh_block s i \<notin> fst ` set (log_copies s i)"
      using e(2,4) by (auto simp: fst_copies home_def)
    then have src: "view t (lh_block s i) = view s (lh_block s i)"
      using I by (simp add: apply_writes_other)
    have nd: "lstart s + i + 1 \<notin> dirtyb s"
      using txn_dirty_home [OF s] e(4) by (fastforce simp: home_def)
    have "copied t u (lh_block s i) (lstart s + i + 1) \<Longrightarrow> ?I (Suc i) u" for u
      using I nd src unfolding copies_Suc copied_def by (auto intro: quiet_trans wrote_trans)
    with write_log_step [OF txn_can_copy(1) [OF s i t]]
    show "wp (bind (panic_if (LOGSIZE \<le> i) oob) (\<lambda>_. bind (bread 1 (lstart s + i + 1)) (\<lambda>to_buf.
       bind (bread 1 (lh_block s i)) (\<lambda>from_buf. bind (bdata from_buf) (\<lambda>d.
       bind (set_bdata to_buf d) (\<lambda>_. bind (bwrite to_buf) (\<lambda>_. bind (brelse from_buf) (\<lambda>_.
       brelse to_buf)))))))) (\<lambda>_. ?I (Suc i)) t"
      unfolding wp_bind [of "panic_if _ _"] wp_panic_if using e(7) by (auto elim: wp_mono)
  qed
qed

lemma install_trans_wp:
  assumes s: "txn_ok s"
  shows "wp install_trans (\<lambda>_ t. quiet s t \<and>
    view t = apply_writes (home_copies s (nat (lh_n s))) (view s) \<and>
    dirtyb t = dirtyb s - set (log_blocks s) \<and> wrote s t (home_copies s (nat (lh_n s)))) s"
proof -
  let ?I = "\<lambda>i t. quiet s t \<and> view t = apply_writes (home_copies s i) (view s) \<and>
    dirtyb t = dirtyb s - lh_block s ` {0..<i} \<and> wrote s t (home_copies s i)"
  have dev: "ldev s = 1" and inv: "cache_inv s" using s by (auto simp: txn_ok_def)
  have lb: "set (log_blocks s) = lh_block s ` {0..<nat (lh_n s)}" by (simp add: log_blocks_def)
  show ?thesis
    unfolding install_trans_def wp_bind_fun wp_gets_fun dev lb
  proof (rule wp_for_upt [where I = ?I])
    show "?I 0 s" using inv by simp
    fix i t
    assume i: "i < nat (lh_n s)" and I: "?I i t"
    note e = txn_entry [OF s i]
    have t: "quiet s t" "wrote s t (home_copies s i)" "dirtyb t \<subseteq> dirtyb s" using I by auto
    have "lstart s + i + 1 \<noteq> lh_block s j" if "j < i" for j
      using txn_entry(2) [OF s, of j] that i e(4) by (simp add: home_def)
    then have "lstart s + i + 1 \<notin> fst ` set (home_copies s i)"
      unfolding fst_copies by (metis atLeastLessThan_iff imageE)
    then have src: "view t (lstart s + i + 1) = view s (lstart s + i + 1)"
      using I by (simp add: apply_writes_other)
    have "lh_block s ` {0..<Suc i} = insert (lh_block s i) (lh_block s ` {0..<i})"
      by (simp add: atLeast0_lessThan_Suc)
    then have "copied t u (lstart s + i + 1) (lh_block s i) \<Longrightarrow> ?I (Suc i) u" for u
      using I src unfolding copies_Suc copied_def by (auto intro: quiet_trans wrote_trans)
    with install_trans_step [OF txn_can_copy(2) [OF s i t]]
    show "wp (bind (panic_if (LOGSIZE \<le> i) oob) (\<lambda>_. bind (bread 1 (lstart s + i + 1)) (\<lambda>lbuf.
       bind (bread 1 (lh_block s i)) (\<lambda>dbuf. bind (bdata lbuf) (\<lambda>d.
       bind (set_bdata dbuf d) (\<lambda>_. bind (bwrite dbuf) (\<lambda>_. bind (brelse lbuf) (\<lambda>_.
       brelse dbuf)))))))) (\<lambda>_. ?I (Suc i)) t"
      unfolding wp_bind [of "panic_if _ _"] wp_panic_if using e(7) by (auto elim: wp_mono)
  qed
qed

section \<open>The header block\<close>

lemma as_int_as_uint: "0 \<le> n \<Longrightarrow> n < 2 ^ 31 \<Longrightarrow> as_int (as_uint n) = n"
  by (simp add: as_int_def as_uint_def nat_less_iff)

lemma as_uint_bound: "as_uint n < 2 ^ 32"
  by (simp add: as_uint_def nat_less_iff)

lemma put_entries:
  fixes f :: "nat \<Rightarrow> nat"
  assumes "length d = BSIZE" and "m < NINDIRECT"
  defines "e \<equiv> fold (\<lambda>i d. blit (4 + 4 * i) (le32 (f i)) d) [0..<m] d"
  shows "length e = BSIZE \<and> slice 0 4 e = slice 0 4 d \<and>
    (\<forall>i<m. slice (4 + 4 * i) 4 e = le32 (f i))"
  using assms(2) unfolding e_def
proof (induction m)
  case 0
  then show ?case using assms(1) by simp
next
  case (Suc m)
  let ?e = "fold (\<lambda>i d. blit (4 + 4 * i) (le32 (f i)) d) [0..<m] d"
  have IH: "length ?e = BSIZE" "slice 0 4 ?e = slice 0 4 d"
    "\<And>i. i < m \<Longrightarrow> slice (4 + 4 * i) 4 ?e = le32 (f i)"
    using Suc by simp_all
  have "slice (4 + 4 * i) 4 (blit (4 + 4 * m) (le32 (f m)) ?e) = le32 (f i)" if "i < Suc m" for i
    using that IH Suc.prems by (cases "i = m") (auto simp: block_simps)
  then show ?case using IH Suc.prems by (simp add: block_simps)
qed

lemma put_head_props:
  assumes "length d = BSIZE" and "0 \<le> n" and "n \<le> int LOGSIZE" and "\<And>i. i < nat n \<Longrightarrow> f i < 2 ^ 32"
  shows "length (put_head n f d) = BSIZE" "head_n (put_head n f d) = n"
    "\<And>i. i < nat n \<Longrightarrow> head_block (put_head n f d) i = f i"
proof -
  let ?d = "blit 0 (le32 (as_uint n)) d"
  have "length ?d = BSIZE" using assms(1) by simp
  moreover have "nat n < NINDIRECT" using assms(2,3) by simp
  ultimately have e: "length (put_head n f d) = BSIZE" "slice 0 4 (put_head n f d) = slice 0 4 ?d"
    "\<And>i. i < nat n \<Longrightarrow> slice (4 + 4 * i) 4 (put_head n f d) = le32 (f i)"
    using put_entries [of ?d "nat n" f] by (simp_all add: put_head_def)
  show "length (put_head n f d) = BSIZE" by (rule e(1))
  show "head_n (put_head n f d) = n"
    using assms(1-3) as_uint_bound [of n] by (simp add: head_n_def e(2) block_simps as_int_as_uint)
  show "head_block (put_head n f d) i = f i" if "i < nat n" for i
    using e(3) [OF that] assms(4) [OF that] by (simp add: head_block_def block_simps)
qed

lemma put_head_0: "length d = BSIZE \<Longrightarrow> length (put_head 0 f d) = BSIZE \<and> head_n (put_head 0 f d) = 0"
  using put_head_props [of d 0 f] by simp

lemma write_head_wp:
  fixes s :: "'z logst_scheme"
  assumes inv: "cache_inv s" and dev: "ldev s = 1" and lt: "lstart s < disksize s"
    and free: "lstart s \<notin> busyb s" and room: "card (insert (lstart s) (busyb s \<union> dirtyb s)) \<le> NBUF"
    and n: "0 \<le> lh_n s" "lh_n s \<le> int LOGSIZE"
  defines "h \<equiv> put_head (lh_n s) (lh_block s) (view s (lstart s))"
  shows "wp write_head (\<lambda>_ t. quiet s t \<and> view t = (view s)(lstart s := h) \<and>
    dirtyb t = dirtyb s - {lstart s} \<and> wrote s t [(lstart s, h)]) s"
  unfolding write_head_def wp_bind_fun wp_gets_fun dev
proof (rule wp_mono [OF bread_wp [OF inv lt free room]])
  let ?Q = "\<lambda>t. quiet s t \<and> view t = (view s)(lstart s := h) \<and>
    dirtyb t = dirtyb s - {lstart s} \<and> wrote s t [(lstart s, h)]"
  fix b t
  assume t: "cache_inv t \<and> locked t b (lstart s) \<and> view t = view s \<and>
    (\<forall>c k. locked s c k \<longrightarrow> locked t c k) \<and> busyb t = insert (lstart s) (busyb s) \<and>
    dirtyb t = dirtyb s \<and> same_disk s t"
  then have f: "lh_n t = lh_n s" "lh_block t = lh_block s"
    using more_fields [of t s] by (auto simp: same_disk_def)
  have d: "b_data (bufs t b) = view s (lstart s)" using locked_data [of t b] t by auto
  have len: "length (view s (lstart s)) = BSIZE" using view_length [OF inv lt] .
  then have lh: "length h = BSIZE"
    unfolding h_def put_head_def using put_entries [of "blit 0 (le32 (as_uint (lh_n s))) (view s (lstart s))" "nat (lh_n s)" "lh_block s"] n
    by simp
  have "wp (bind (set_bdata b h) (\<lambda>_. bwrite b)) (\<lambda>_. wp (brelse b) (\<lambda>_. ?Q)) t"
  proof (rule wp_mono [OF store_bwrite_wp])
    show "cache_inv t" "locked t b (lstart s)" "length h = BSIZE" using t lh by auto
    fix x u
    assume u: "cache_inv u \<and> view u = (view t)(lstart s := h) \<and>
      (\<forall>c k. locked u c k = locked t c k) \<and> busyb u = busyb t \<and>
      dirtyb u = dirtyb t - {lstart s} \<and> wrote t u [(lstart s, h)]"
    have "wp (brelse b) (\<lambda>_ v. cache_inv v \<and> view v = view u \<and>
      (\<forall>c k. k \<noteq> lstart s \<longrightarrow> locked v c k = locked u c k) \<and> busyb v = busyb u - {lstart s} \<and>
      dirtyb v = dirtyb u \<and> same_disk u v) u"
      by (rule brelse_wp) (use u t in \<open>auto simp: wrote_def\<close>)
    then show "wp (brelse b) (\<lambda>_. ?Q) u"
    proof (rule wp_mono)
      fix x v
      assume v: "cache_inv v \<and> view v = view u \<and>
        (\<forall>c k. k \<noteq> lstart s \<longrightarrow> locked v c k = locked u c k) \<and> busyb v = busyb u - {lstart s} \<and>
        dirtyb v = dirtyb u \<and> same_disk u v"
      have "locked v c k" if "locked s c k" for c k
      proof -
        have "k \<noteq> lstart s" using that free by (auto simp: busyb_def)
        with v u t that show ?thesis by simp
      qed
      moreover have "busyb v = busyb s" using v u t free by auto
      ultimately have "quiet s v" using v by (simp add: quiet_def)
      moreover have "wrote s v [(lstart s, h)]" using v u t by (auto simp: same_disk_def wrote_def)
      ultimately show "?Q v" using v u t by simp
    qed
  qed
  then show "wp (panic_if (int LOGSIZE < lh_n t) oob) (\<lambda>x v.
     wp (set_bdata b (put_head (lh_n t) (lh_block t) (b_data (bufs v b))))
     (\<lambda>x. wp (bwrite b) (\<lambda>x. wp (brelse b) (\<lambda>_. ?Q))) v) t"
    unfolding wp_panic_if f d h_def [symmetric] wp_bind_fun using n by simp
qed

section \<open>Commit\<close>

lemma log_upd_simps [simp]:
  fixes s :: "'z logst_scheme"
  shows "holds (s\<lparr>lh_n := n\<rparr>) = holds s" "locked (s\<lparr>lh_n := n\<rparr>) = locked s"
    "view (s\<lparr>lh_n := n\<rparr>) = view s" "busyb (s\<lparr>lh_n := n\<rparr>) = busyb s"
    "dirtyb (s\<lparr>lh_n := n\<rparr>) = dirtyb s" "cache_inv (s\<lparr>lh_n := n\<rparr>) = cache_inv s"
  by (rule bio_cong; simp)+

lemma wrote_lh_n:
  fixes s t :: "'z logst_scheme"
  assumes "wrote s t ws"
  shows "wrote (s\<lparr>lh_n := n\<rparr>) (t\<lparr>lh_n := n\<rparr>) ws"
  using assms by (cases s; cases t) (simp add: wrote_def)

lemma wrote_fields:
  fixes s t :: "'z logst_scheme"
  assumes "wrote s t ws"
  shows "lstart t = lstart s" "lsize t = lsize s" "outstanding t = outstanding s"
    "committing t = committing s" "ldev t = ldev s" "lh_n t = lh_n s" "lh_block t = lh_block s"
    "disksize t = disksize s"
  using assms more_fields [of t s] by (simp_all add: wrote_def)

lemma txn_ok_stable:
  fixes s t :: "'z logst_scheme"
  assumes "txn_ok s" and "quiet s t" and "wrote s t ws" and "dirtyb t \<subseteq> dirtyb s"
  shows "txn_ok t"
proof -
  note f = wrote_fields [OF assms(3)]
  have "log_blocks t = log_blocks s" by (simp add: log_blocks_def f)
  with assms show ?thesis unfolding txn_ok_def home_def f by (auto simp: quiet_def)
qed

lemma txn_head:
  assumes "txn_ok s"
  shows "cache_inv s" "ldev s = 1" "lstart s < disksize s" "lstart s \<notin> busyb s"
    "card (insert (lstart s) (busyb s \<union> dirtyb s)) \<le> NBUF" "0 \<le> lh_n s" "lh_n s \<le> int LOGSIZE"
proof -
  show "cache_inv s" "ldev s = 1" "0 \<le> lh_n s" "lh_n s \<le> int LOGSIZE" "lstart s < disksize s"
    using assms by (auto simp: txn_ok_def)
  have "lstart s \<in> {lstart s..<lstart s + nat (lsize s)}" using assms by (auto simp: txn_ok_def)
  then show "lstart s \<notin> busyb s" using assms unfolding txn_ok_def by blast
  have "card (insert (lstart s) (busyb s \<union> dirtyb s)) \<le>
      card (insert (lstart s) (busyb s \<union> set (log_blocks s)))"
    by (rule card_mono) (use assms in \<open>auto simp: txn_ok_def\<close>)
  also have "\<dots> \<le> Suc (card (busyb s \<union> set (log_blocks s)))"
    by (rule card_insert_le_m1) simp_all
  also have "\<dots> \<le> NBUF" using assms by (simp add: txn_ok_def)
  finally show "card (insert (lstart s) (busyb s \<union> dirtyb s)) \<le> NBUF" .
qed

text \<open>The four phases of \<^verbatim>\<open>commit\<close>.\<close>

definition commit_head :: "'z logst_scheme \<Rightarrow> block" where
  "commit_head s = put_head (lh_n s) (lh_block s) (view s (lstart s))"

definition home_writes :: "'z logst_scheme \<Rightarrow> (nat \<times> block) list" where
  "home_writes s = map (\<lambda>b. (b, view s b)) (log_blocks s)"

definition commit_writes :: "'z logst_scheme \<Rightarrow> (nat \<times> block) list" where
  "commit_writes s = log_copies s (nat (lh_n s)) @ [(lstart s, commit_head s)] @
     home_writes s @ [(lstart s, put_head 0 (lh_block s) (commit_head s))]"

lemma log_copies_nth:
  "i < n \<Longrightarrow> apply_writes (log_copies s n) d (lstart s + i + 1) = view s (lh_block s i)"
  using apply_writes_nth [of "log_copies s n" i d]
  by (simp add: log_copies_def distinct_map o_def inj_on_def)

lemma home_copies_log:
  assumes t: "wrote s t ws" and v: "view t = (apply_writes (log_copies s (nat (lh_n s))) (view s))(lstart s := h)"
  shows "home_copies t (nat (lh_n s)) = home_writes s"
proof -
  have "view t (lstart s + i + 1) = view s (lh_block s i)" if "i < nat (lh_n s)" for i
    using log_copies_nth [OF that, of s "view s"] by (simp add: v)
  then show ?thesis
    by (simp add: home_copies_def home_writes_def log_blocks_def wrote_fields [OF t])
qed

lemma write_log_head_wp:
  assumes s: "txn_ok s"
  shows "wp write_log (\<lambda>_. wp write_head (\<lambda>_ t. quiet s t \<and> dirtyb t = dirtyb s \<and>
    view t = (apply_writes (log_copies s (nat (lh_n s))) (view s))(lstart s := commit_head s) \<and>
    wrote s t (log_copies s (nat (lh_n s)) @ [(lstart s, commit_head s)]))) s"
proof (rule wp_mono [OF write_log_wp [OF s]])
  let ?n = "nat (lh_n s)"
  fix x t
  assume t: "quiet s t \<and> view t = apply_writes (log_copies s ?n) (view s) \<and>
    dirtyb t = dirtyb s \<and> wrote s t (log_copies s ?n)"
  then have ok: "txn_ok t" using txn_ok_stable [OF s] by blast
  have w: "wrote s t (log_copies s ?n)" using t by blast
  note f = wrote_fields [OF w]
  have "lstart s \<notin> fst ` set (log_copies s ?n)" by (simp add: fst_copies)
  then have h: "put_head (lh_n t) (lh_block t) (view t (lstart t)) = commit_head s"
    using t by (simp add: commit_head_def f apply_writes_other)
  have "lstart s \<notin> dirtyb s"
    using txn_dirty_home [OF s] s by (fastforce simp: home_def txn_ok_def)
  then have d: "dirtyb s - {lstart s} = dirtyb s" by simp
  show "wp write_head (\<lambda>_ u. quiet s u \<and> dirtyb u = dirtyb s \<and>
    view u = (apply_writes (log_copies s ?n) (view s))(lstart s := commit_head s) \<and>
    wrote s u (log_copies s ?n @ [(lstart s, commit_head s)])) t"
  proof (rule wp_mono [OF write_head_wp [OF txn_head [OF ok], unfolded h]])
    fix x u
    assume "quiet t u \<and> view u = (view t)(lstart t := commit_head s) \<and>
      dirtyb u = dirtyb t - {lstart t} \<and> wrote t u [(lstart t, commit_head s)]"
    with t d f show "quiet s u \<and> dirtyb u = dirtyb s \<and>
      view u = (apply_writes (log_copies s ?n) (view s))(lstart s := commit_head s) \<and>
      wrote s u (log_copies s ?n @ [(lstart s, commit_head s)])"
      by (auto intro: quiet_trans wrote_trans)
  qed
qed

text \<open>Installing the logged blocks and clearing the header: the end of commit and of recovery.\<close>

definition cleared :: "'z logst_scheme \<Rightarrow> block" where
  "cleared s = put_head 0 (lh_block s) (view s (lstart s))"

lemma install_clear_wp:
  fixes s :: "'z logst_scheme"
  assumes s: "txn_ok s"
  shows "wp install_trans (\<lambda>_. wp (modify (\<lambda>s. s\<lparr>lh_n := 0\<rparr>)) (\<lambda>_. wp write_head (\<lambda>_ t.
    quiet s t \<and> dirtyb t = {} \<and>
    view t = (apply_writes (home_copies s (nat (lh_n s))) (view s))(lstart s := cleared s) \<and>
    wrote (s\<lparr>lh_n := 0\<rparr>) t (home_copies s (nat (lh_n s)) @ [(lstart s, cleared s)])))) s"
proof (rule wp_mono [OF install_trans_wp [OF s]])
  let ?n = "nat (lh_n s)"
  fix x t
  assume t: "quiet s t \<and> view t = apply_writes (home_copies s ?n) (view s) \<and>
    dirtyb t = dirtyb s - set (log_blocks s) \<and> wrote s t (home_copies s ?n)"
  then have w: "wrote s t (home_copies s ?n)" by blast
  note f = wrote_fields [OF w]
  have d: "dirtyb t = {}" using t s by (auto simp: txn_ok_def)
  have ok: "txn_ok t" using txn_ok_stable [OF s, of t] t by blast
  have "home s (lh_block s j)" if "j < ?n" for j using txn_entry(2) [OF s that] .
  then have "lstart s \<noteq> lh_block s j" if "j < ?n" for j
    using that s by (force simp: home_def txn_ok_def)
  then have "lstart s \<notin> fst ` set (home_copies s ?n)"
    unfolding fst_copies by (metis atLeastLessThan_iff imageE)
  then have h: "put_head 0 (lh_block s) (view t (lstart s)) = cleared s"
    using t by (simp add: cleared_def apply_writes_other)
  let ?Q = "\<lambda>u. quiet s u \<and> dirtyb u = {} \<and>
    view u = (apply_writes (home_copies s ?n) (view s))(lstart s := cleared s) \<and>
    wrote (s\<lparr>lh_n := 0\<rparr>) u (home_copies s ?n @ [(lstart s, cleared s)])"
  define t0 where "t0 = t\<lparr>lh_n := 0\<rparr>"
  have f0: "ldev t0 = ldev t" "lstart t0 = lstart t" "lh_n t0 = 0" "lh_block t0 = lh_block t"
    "disksize t0 = disksize t" "busyb t0 = busyb t" "dirtyb t0 = dirtyb t" "view t0 = view t"
    "cache_inv t0 = cache_inv t" "quiet s t0 = quiet s t"
    by (simp_all add: t0_def quiet_def)
  have w0: "wrote (s\<lparr>lh_n := 0\<rparr>) t0 (home_copies s ?n)" unfolding t0_def by (rule wrote_lh_n [OF w])
  note hd = txn_head [OF ok]
  have "wp write_head (\<lambda>_ u. quiet t0 u \<and> view u = (view t0)(lstart t0 := cleared s) \<and>
    dirtyb u = dirtyb t0 - {lstart t0} \<and> wrote t0 u [(lstart t0, cleared s)]) t0"
    using write_head_wp [of t0, unfolded f0 f h] hd by (simp add: f f0)
  then have "wp write_head (\<lambda>_. ?Q) t0"
  proof (rule wp_mono)
    fix x u
    assume "quiet t0 u \<and> view u = (view t0)(lstart t0 := cleared s) \<and>
      dirtyb u = dirtyb t0 - {lstart t0} \<and> wrote t0 u [(lstart t0, cleared s)]"
    with t d f f0 w0 show "?Q u" by (auto intro: quiet_trans wrote_trans)
  qed
  then show "wp (modify (\<lambda>s. s\<lparr>lh_n := 0\<rparr>)) (\<lambda>_. wp write_head (\<lambda>_. ?Q)) t"
    by (simp add: wp_modify t0_def)
qed

lemma commit_wp:
  fixes s :: "'z logst_scheme"
  assumes s: "txn_ok s" and n: "0 < lh_n s"
  shows "wp commit (\<lambda>_ t. quiet s t \<and> dirtyb t = {} \<and> view t = apply_writes (commit_writes s) (view s) \<and>
    wrote (s\<lparr>lh_n := 0\<rparr>) t (commit_writes s)) s"
proof -
  let ?n = "nat (lh_n s)"
  let ?Q = "\<lambda>t. quiet s t \<and> dirtyb t = {} \<and> view t = apply_writes (commit_writes s) (view s) \<and>
    wrote (s\<lparr>lh_n := 0\<rparr>) t (commit_writes s)"
  have "wp write_log (\<lambda>_. wp write_head (\<lambda>_. wp install_trans (\<lambda>_.
      wp (modify (\<lambda>s. s\<lparr>lh_n := 0\<rparr>)) (\<lambda>_. wp write_head (\<lambda>_. ?Q))))) s"
  proof (rule wp_mono2 [OF write_log_head_wp [OF s]])
    fix x y t
    assume t: "quiet s t \<and> dirtyb t = dirtyb s \<and>
      view t = (apply_writes (log_copies s ?n) (view s))(lstart s := commit_head s) \<and>
      wrote s t (log_copies s ?n @ [(lstart s, commit_head s)])"
    let ?ws = "log_copies s ?n @ [(lstart s, commit_head s)]"
    have w: "wrote s t ?ws" using t by blast
    note f = wrote_fields [OF w]
    have ok: "txn_ok t" using txn_ok_stable [OF s, of t] t by blast
    have hc: "home_copies t ?n = home_writes s" using home_copies_log [OF w] t by blast
    have c: "cleared t = put_head 0 (lh_block s) (commit_head s)" using t by (simp add: cleared_def f)
    have fin: "?Q u" if "quiet t u \<and> dirtyb u = {} \<and>
        view u = (apply_writes (home_copies t (nat (lh_n t))) (view t))(lstart t := cleared t) \<and>
        wrote (t\<lparr>lh_n := 0\<rparr>) u (home_copies t (nat (lh_n t)) @ [(lstart t, cleared t)])" for u
    proof -
      have "wrote (s\<lparr>lh_n := 0\<rparr>) (t\<lparr>lh_n := 0\<rparr>) ?ws" by (rule wrote_lh_n [OF w])
      then have "wrote (s\<lparr>lh_n := 0\<rparr>) u (?ws @ home_writes s @ [(lstart s, cleared t)])"
        using that f hc by (auto dest: wrote_trans)
      then have "wrote (s\<lparr>lh_n := 0\<rparr>) u (commit_writes s)" by (simp add: commit_writes_def c)
      moreover have "view u = apply_writes (commit_writes s) (view s)"
        using that t f hc c by (simp add: commit_writes_def)
      ultimately show ?thesis using that t by (auto intro: quiet_trans)
    qed
    show "wp install_trans (\<lambda>_. wp (modify (\<lambda>s. s\<lparr>lh_n := 0\<rparr>)) (\<lambda>_. wp write_head (\<lambda>_. ?Q))) t"
      by (rule wp_mono [OF install_clear_wp [OF ok]]) (erule wp_mono, erule wp_mono, erule fin)
  qed
  with n show ?thesis
    unfolding commit_def wp_bind_fun wp_gets_fun wp_whenk by simp
qed

end
