(* ===== verification/Demo.thy ===== *)
theory Demo
  imports Log_Spec
begin

text \<open>
  A concrete machine on which the properties of the file system are instantiated: an empty cache
  over a disk of the size mkfs.c builds, with its superblock and otherwise zero blocks.
\<close>

definition demo_ring :: "(nat \<Rightarrow> buf) \<Rightarrow> nat \<Rightarrow> buf" where
  "demo_ring f i = (f i)\<lparr>b_prev := (if i = 0 then HEAD else i - 1), b_next := (if i = HEAD then 0 else i + 1)\<rparr>"

definition demo_buf :: buf where
  "demo_buf = \<lparr>b_busy = False, b_valid = False, b_dirty = False, b_dev = NODEV, b_blockno = 0,
     b_prev = 0, b_next = 0, b_data = []\<rparr>"

definition demo_disk :: "nat \<Rightarrow> block" where
  "demo_disk k = (if k = 1 then blit 0 (encode_sb mkfs_sb) (replicate BSIZE 0) else replicate BSIZE 0)"

lemma demo_ring_ring: "ring (demo_ring f) [0..<NBUF]"
  by (simp add: ring_def demo_ring_def upt_rec)

lemma decode_demo: "decode_sb (slice 0 sizeof_superblock (demo_disk 1)) = mkfs_sb"
proof -
  have "length (encode_sb mkfs_sb) = sizeof_superblock" by (simp add: encode_sb_def)
  then have "slice 0 sizeof_superblock (demo_disk 1) = encode_sb mkfs_sb"
    by (simp add: demo_disk_def slice_blit_same)
  then show ?thesis
    by (simp add: decode_sb_def encode_sb_def slice_def mkfs_sb_def mkfs_nmeta_def mkfs_ninodeblocks_def
        mkfs_nbitmap_def le32_roundtrip)
qed

text \<open>The cache of a state that has just been initialised over that disk.\<close>

lemma demo_cache:
  assumes b: "bufs s = demo_ring (\<lambda>_. demo_buf)" and d: "disksize s = FSSIZE" "\<forall>k. length (disk s k) = BSIZE"
  shows "cache_inv s" "busyb s = {}" "dirtyb s = {}" "view s = disk s"
proof -
  have h: "\<not> holds s i k" for i k by (simp add: holds_def b demo_ring_def demo_buf_def)
  show "busyb s = {}" "dirtyb s = {}" by (simp_all add: busyb_def dirtyb_def locked_def h)
  show "view s = disk s" by (rule ext) (simp add: view_none h)
  show "cache_inv s"
    unfolding cache_inv_def
  proof (intro conjI exI)
    show "ring (bufs s) [0..<NBUF]" unfolding b by (rule demo_ring_ring)
    show "set [0..<NBUF] = {..<NBUF}" by (simp add: atLeast0LessThan del: upt_rec_numeral)
    show "\<forall>i<NBUF. buf_ok s (bufs s i)" by (simp add: buf_ok_def b demo_ring_def demo_buf_def)
    show "uniq s" by (simp add: uniq_def h)
    show "\<forall>k<disksize s. length (disk s k) = BSIZE" using d by simp
  qed
qed

lemma length_demo_disk [simp]: "length (demo_disk k) = BSIZE"
  by (simp add: demo_disk_def encode_sb_def)

end
