(* ===== verification/Crash.thy ===== *)
theory Crash
  imports Log_Spec Demo
begin

text \<open>
  Recovery (\<^verbatim>\<open>initlog\<close>, \<^verbatim>\<open>recover_from_log\<close> in log.c) and crash safety of the log.

  A crash cuts the sequence of disk writes at an arbitrary point; memory is lost, and the next
  boot runs \<^verbatim>\<open>binit\<close> and \<^verbatim>\<open>initlog\<close> on what the disk holds. Writes of single blocks are atomic,
  as the code assumes.
\<close>

section \<open>Recovery\<close>

text \<open>A log on disk that recovery can process.\<close>

definition valid_log :: "nat \<Rightarrow> int \<Rightarrow> nat \<Rightarrow> (nat \<Rightarrow> block) \<Rightarrow> bool" where
  "valid_log start sz dsz d \<longleftrightarrow>
     (let n = head_n (d start); bs = map (head_block (d start)) [0..<nat n] in
      0 \<le> n \<and> n < int LOGSIZE \<and> n < sz \<and> distinct bs \<and>
      (\<forall>b\<in>set bs. start + nat sz \<le> b \<and> b < dsz) \<and> start + nat sz \<le> dsz)"

definition rec_writes :: "nat \<Rightarrow> (nat \<Rightarrow> block) \<Rightarrow> (nat \<times> block) list" where
  "rec_writes start d =
     map (\<lambda>i. (head_block (d start) i, d (start + i + 1))) [0..<nat (head_n (d start))] @
     [(start, put_head 0 (\<lambda>_. 0) (d start))]"

lemma put_head_0_any: "put_head 0 f d = put_head 0 g d"
  by (simp add: put_head_def)

text \<open>A block read and its buffer given back; the state may change outside the cache meanwhile.\<close>

lemma bread_brelse_wp:
  fixes s :: "'z bio_scheme"
  assumes inv: "cache_inv s" and lt: "blk < disksize s" and free: "blk \<notin> busyb s"
    and room: "card (insert blk (busyb s \<union> dirtyb s)) \<le> NBUF"
    and upd: "\<And>t. bufs (g t) = bufs t \<and> disk (g t) = disk t \<and> disksize (g t) = disksize t \<and> dwrites (g t) = dwrites t"
    and more: "\<And>t. bio.more t = bio.more s \<Longrightarrow> bio.more (g t) = bio.more (g s)"
  shows "wp (bread 1 blk) (\<lambda>b t. b_data (bufs t b) = view s blk \<and>
    wp (brelse b) (\<lambda>_ u. quiet s u \<and> view u = view s \<and> dirtyb u = dirtyb s \<and> same_disk (g s) u) (g t)) s"
proof (rule wp_mono [OF bread_wp [OF inv lt free room]])
  fix b t
  assume t: "cache_inv t \<and> locked t b blk \<and> view t = view s \<and> (\<forall>c k. locked s c k \<longrightarrow> locked t c k) \<and>
    busyb t = insert blk (busyb s) \<and> dirtyb t = dirtyb s \<and> same_disk s t"
  have c: "locked (g t) = locked t" "view (g t) = view t" "busyb (g t) = busyb t"
    "dirtyb (g t) = dirtyb t" "cache_inv (g t) = cache_inv t"
    by (rule bio_cong; use upd in simp)+
  have sd: "same_disk (g s) (g t)" using t upd more [of t] by (simp add: same_disk_def)
  have d: "b_data (bufs t b) = view s blk" using locked_data [of t b] t by auto
  have "blk \<in> dirtyb (g t) \<or> view (g t) blk = disk (g t) blk"
    using view_clean [OF inv free] t upd unfolding c by (auto simp: same_disk_def)
  then have "wp (brelse b) (\<lambda>_ u. cache_inv u \<and> view u = view (g t) \<and>
    (\<forall>c k. k \<noteq> blk \<longrightarrow> locked u c k = locked (g t) c k) \<and> busyb u = busyb (g t) - {blk} \<and>
    dirtyb u = dirtyb (g t) \<and> same_disk (g t) u) (g t)"
    by (intro brelse_wp) (use t c in auto)
  then have "wp (brelse b) (\<lambda>_ u. quiet s u \<and> view u = view s \<and> dirtyb u = dirtyb s \<and> same_disk (g s) u) (g t)"
  proof (rule wp_mono)
    fix x u
    assume u: "cache_inv u \<and> view u = view (g t) \<and>
      (\<forall>c k. k \<noteq> blk \<longrightarrow> locked u c k = locked (g t) c k) \<and> busyb u = busyb (g t) - {blk} \<and>
      dirtyb u = dirtyb (g t) \<and> same_disk (g t) u"
    have "locked u c' k" if "locked s c' k" for c' k
    proof -
      have "k \<noteq> blk" using that free by (auto simp: busyb_def)
      with u t c that show ?thesis by simp
    qed
    moreover have "busyb u = busyb s" using u t c free by auto
    ultimately have "quiet s u" using u by (simp add: quiet_def)
    then show "quiet s u \<and> view u = view s \<and> dirtyb u = dirtyb s \<and> same_disk (g s) u"
      using u t c sd by (auto dest: same_disk_trans)
  qed
  with d show "b_data (bufs t b) = view s blk \<and>
    wp (brelse b) (\<lambda>_ u. quiet s u \<and> view u = view s \<and> dirtyb u = dirtyb s \<and> same_disk (g s) u) (g t)"
    by simp
qed

lemma readsb_wp:
  assumes inv: "cache_inv s" and lt: "1 < disksize s" and free: "1 \<notin> busyb s"
    and room: "card (insert 1 (busyb s \<union> dirtyb s)) \<le> NBUF"
  shows "wp (readsb 1) (\<lambda>sb t. sb = decode_sb (slice 0 sizeof_superblock (view s 1)) \<and>
    quiet s t \<and> view t = view s \<and> dirtyb t = dirtyb s \<and> same_disk s t) s"
  unfolding readsb_def wp_bind_fun wp_gets_fun
  using bread_brelse_wp [OF inv lt free room, of "\<lambda>t. t"]
  by (rule wp_mono) (auto elim!: wp_mono simp: wp_return)

text \<open>What \<^verbatim>\<open>read_head\<close> loads into memory.\<close>

definition load_head :: "block \<Rightarrow> 'z logst_scheme \<Rightarrow> 'z logst_scheme" where
  "load_head h s = s\<lparr>lh_n := head_n h,
     lh_block := fold (\<lambda>i f. f(i := head_block h i)) [0..<nat (head_n h)] (lh_block s)\<rparr>"

lemma fold_lh_block:
  "fold (\<lambda>i s. s\<lparr>lh_block := (lh_block s)(i := g i)\<rparr>) is s =
   s\<lparr>lh_block := fold (\<lambda>i f. f(i := g i)) is (lh_block s)\<rparr>"
  by (induction "is" arbitrary: s) simp_all

lemma load_head_block: "i < nat (head_n h) \<Longrightarrow> lh_block (load_head h s) i = head_block h i"
proof -
  have "i < n \<Longrightarrow> fold (\<lambda>i f. f(i := head_block h i)) [0..<n] f0 i = head_block h i" for n f0
    by (induction n) auto
  then show "i < nat (head_n h) \<Longrightarrow> lh_block (load_head h s) i = head_block h i"
    by (simp add: load_head_def)
qed

lemma read_head_wp:
  fixes s :: "'z logst_scheme"
  assumes inv: "cache_inv s" and dev: "ldev s = 1" and lt: "lstart s < disksize s"
    and free: "lstart s \<notin> busyb s" and room: "card (insert (lstart s) (busyb s \<union> dirtyb s)) \<le> NBUF"
    and n: "head_n (view s (lstart s)) \<le> int LOGSIZE"
  shows "wp read_head (\<lambda>_ t. quiet s t \<and> view t = view s \<and> dirtyb t = dirtyb s \<and>
    same_disk (load_head (view s (lstart s)) s) t) s"
proof -
  let ?h = "view s (lstart s)"
  have "wp (bread 1 (lstart s)) (\<lambda>b t. b_data (bufs t b) = ?h \<and> wp (brelse b) (\<lambda>_ u. quiet s u \<and>
      view u = view s \<and> dirtyb u = dirtyb s \<and> same_disk (load_head ?h s) u) (load_head ?h t)) s"
  proof (rule bread_brelse_wp [OF inv lt free room])
    fix t :: "'z logst_scheme"
    show "bufs (load_head ?h t) = bufs t \<and> disk (load_head ?h t) = disk t \<and>
      disksize (load_head ?h t) = disksize t \<and> dwrites (load_head ?h t) = dwrites t"
      by (simp add: load_head_def)
    show "bio.more t = bio.more s \<Longrightarrow> bio.more (load_head ?h t) = bio.more (load_head ?h s)"
      by (cases s; cases t) (simp add: load_head_def)
  qed
  then show ?thesis
    unfolding read_head_def wp_bind_fun wp_gets_fun dev
  proof (rule wp_mono)
    fix b t
    assume t: "b_data (bufs t b) = ?h \<and> wp (brelse b) (\<lambda>_ u. quiet s u \<and>
      view u = view s \<and> dirtyb u = dirtyb s \<and> same_disk (load_head ?h s) u) (load_head ?h t)"
    then show "wp (modify (\<lambda>s. s\<lparr>lh_n := head_n (b_data (bufs t b))\<rparr>))
      (\<lambda>x. wp (panic_if (int LOGSIZE < head_n (b_data (bufs t b))) oob)
      (\<lambda>x. wp (for_each [0..<nat (head_n (b_data (bufs t b)))]
         (\<lambda>i. modify (\<lambda>s. s\<lparr>lh_block := (lh_block s)(i := head_block (b_data (bufs t b)) i)\<rparr>)))
      (\<lambda>x. wp (brelse b) (\<lambda>_ t. quiet s t \<and> view t = view s \<and> dirtyb t = dirtyb s \<and>
        same_disk (load_head ?h s) t)))) t"
      using n by (simp add: wp_simps for_each_modify fold_lh_block load_head_def)
  qed
qed

lemma load_head_txn:
  fixes s t :: "'z logst_scheme"
  assumes s: "busyb s = {}" "dirtyb s = {}" "ldev s = 1"
      "valid_log (lstart s) (lsize s) (disksize s) (disk s)"
    and t: "quiet s t" "dirtyb t = dirtyb s" "same_disk (load_head (disk s (lstart s)) s) t"
  shows "txn_ok t" "lh_n t = head_n (disk s (lstart s))" "lstart t = lstart s" "lsize t = lsize s"
    "disk t = disk s" "dwrites t = dwrites s" "disksize t = disksize s" "ldev t = 1"
    "log_blocks t = map (head_block (disk s (lstart s))) [0..<nat (head_n (disk s (lstart s)))]"
    "outstanding t = outstanding s" "committing t = committing s"
proof -
  let ?h = "disk s (lstart s)"
  note f = more_fields [of t "load_head ?h s"]
  have m: "bio.more t = bio.more (load_head ?h s)" using t(3) by (simp add: same_disk_def)
  show g: "lh_n t = head_n ?h" "lstart t = lstart s" "lsize t = lsize s" "disk t = disk s"
    "dwrites t = dwrites s" "disksize t = disksize s" "ldev t = 1"
    "outstanding t = outstanding s" "committing t = committing s"
    using f m t(3) s by (simp_all add: load_head_def same_disk_def)
  have "lh_block t i = head_block ?h i" if "i < nat (head_n ?h)" for i
    using load_head_block [OF that, of s] f(7) [OF m] by simp
  then show b: "log_blocks t = map (head_block ?h) [0..<nat (head_n ?h)]"
    by (simp add: log_blocks_def g)
  have "card (set (log_blocks t)) \<le> nat (head_n ?h)"
    using card_length [of "log_blocks t"] by (simp add: b)
  moreover have "nat (head_n ?h) < NBUF" using s(4) by (auto simp: valid_log_def Let_def)
  ultimately have "card (set (log_blocks t)) < NBUF" by linarith
  then show "txn_ok t"
    using s t unfolding txn_ok_def home_def g valid_log_def Let_def b
    by (simp add: quiet_def)
qed

definition recovered :: "'z logst_scheme \<Rightarrow> 'z logst_scheme \<Rightarrow> bool" where
  "recovered s t \<longleftrightarrow> cache_inv t \<and> busyb t = {} \<and> dirtyb t = {} \<and> lh_n t = 0 \<and>
     disk t = apply_writes (rec_writes (lstart t) (disk s)) (disk s) \<and>
     dwrites t = dwrites s @ rec_writes (lstart t) (disk s) \<and>
     disksize t = disksize s \<and> ldev t = 1 \<and> outstanding t = outstanding s \<and> committing t = committing s \<and>
     logst.more t = logst.more s"

lemma recover_from_log_wp:
  fixes s :: "'z logst_scheme"
  assumes inv: "cache_inv s" and s: "busyb s = {}" "dirtyb s = {}" "ldev s = 1"
    and ok: "valid_log (lstart s) (lsize s) (disksize s) (disk s)"
  shows "wp recover_from_log (\<lambda>_ t. recovered s t \<and> lstart t = lstart s \<and> lsize t = lsize s) s"
proof -
  let ?h = "disk s (lstart s)" and ?Q = "\<lambda>t. recovered s t \<and> lstart t = lstart s \<and> lsize t = lsize s"
  have v: "view s k = disk s k" for k using view_clean [OF inv] s by simp
  have n: "0 \<le> head_n ?h" "head_n ?h < int LOGSIZE" "lstart s < disksize s"
    using ok by (auto simp: valid_log_def Let_def)
  have "wp read_head (\<lambda>_. wp install_trans (\<lambda>_. wp (modify (\<lambda>s. s\<lparr>lh_n := 0\<rparr>)) (\<lambda>_.
      wp write_head (\<lambda>_. ?Q)))) s"
  proof (rule wp_mono [OF read_head_wp])
    fix x t
    assume t: "quiet s t \<and> view t = view s \<and> dirtyb t = dirtyb s \<and>
      same_disk (load_head (view s (lstart s)) s) t"
    then have t': "quiet s t" "dirtyb t = dirtyb s" "same_disk (load_head ?h s) t" using v by auto
    note g = load_head_txn [OF s ok t']
    have "home_copies t (nat (lh_n t)) = map (\<lambda>i. (head_block ?h i, disk s (lstart s + i + 1))) [0..<nat (head_n ?h)]"
    proof -
      have "\<forall>i<nat (head_n ?h). lh_block t i = head_block ?h i"
        using g(9) unfolding log_blocks_def g by (simp add: list_eq_iff_nth_eq)
      then show ?thesis using t v by (simp add: home_copies_def g)
    qed
    moreover have "cleared t = put_head 0 (\<lambda>_. 0) ?h"
      using t v by (simp add: cleared_def g put_head_0_any [of "lh_block t" _ "\<lambda>_. 0"])
    ultimately have ws: "home_copies t (nat (lh_n t)) @ [(lstart t, cleared t)] = rec_writes (lstart s) (disk s)"
      by (simp add: rec_writes_def g)
    have fin: "?Q u" if u: "quiet t u \<and> dirtyb u = {} \<and>
        view u = (apply_writes (home_copies t (nat (lh_n t))) (view t))(lstart t := cleared t) \<and>
        wrote (t\<lparr>lh_n := 0\<rparr>) u (home_copies t (nat (lh_n t)) @ [(lstart t, cleared t)])" for u
    proof -
      have w: "wrote (t\<lparr>lh_n := 0\<rparr>) u (rec_writes (lstart s) (disk s))" using u ws by simp
      note f = wrote_fields [OF w]
      have "bio.more u = bio.more (t\<lparr>lh_n := 0\<rparr>)" "bio.more t = bio.more (load_head ?h s)"
        using w t'(3) by (simp_all add: wrote_def same_disk_def)
      then have "logst.more u = logst.more s" using more_fields(8) [of u] more_fields(8) [of t] by (simp add: load_head_def)
      moreover note f
      ultimately show ?thesis
        using u w t' s g by (simp add: recovered_def quiet_def wrote_def)
    qed
    show "wp install_trans (\<lambda>_. wp (modify (\<lambda>s. s\<lparr>lh_n := 0\<rparr>)) (\<lambda>_. wp write_head (\<lambda>_. ?Q))) t"
      by (rule wp_mono [OF install_clear_wp [OF g(1)]]) (erule wp_mono, erule wp_mono, erule fin)
  qed (use inv s n v in auto)
  then show ?thesis unfolding recover_from_log_def wp_bind_fun .
qed

text \<open>The superblock says where the log is.\<close>

definition log_at :: "nat \<Rightarrow> int \<Rightarrow> (nat \<Rightarrow> block) \<Rightarrow> bool" where
  "log_at start sz d \<longleftrightarrow> (let sb = decode_sb (slice 0 sizeof_superblock (d 1)) in
     sb_logstart sb = start \<and> as_int (sb_nlog sb) = sz)"

lemma initlog_wp:
  fixes s :: "'z logst_scheme"
  assumes inv: "cache_inv s" and s: "busyb s = {}" "dirtyb s = {}" and sb: "1 < disksize s" "log_at start sz (disk s)"
    and ok: "valid_log start sz (disksize s) (disk s)"
  shows "wp (initlog 1) (\<lambda>_ t. recovered s t \<and> lstart t = start \<and> lsize t = sz) s"
proof -
  have v: "view s k = disk s k" for k using view_clean [OF inv] s by simp
  have "wp (readsb 1) (\<lambda>sb t. wp recover_from_log (\<lambda>_ t. recovered s t \<and> lstart t = start \<and> lsize t = sz)
      (t\<lparr>lstart := sb_logstart sb, lsize := as_int (sb_nlog sb), ldev := 1\<rparr>)) s"
  proof (rule wp_mono [OF readsb_wp [OF inv sb(1)]])
    fix b t
    assume t: "b = decode_sb (slice 0 sizeof_superblock (view s 1)) \<and> quiet s t \<and> view t = view s \<and>
      dirtyb t = dirtyb s \<and> same_disk s t"
    define u where "u = t\<lparr>lstart := sb_logstart b, lsize := as_int (sb_nlog b), ldev := 1\<rparr>"
    have b: "sb_logstart b = start" "as_int (sb_nlog b) = sz" using t sb v by (auto simp: log_at_def Let_def)
    have c: "busyb u = busyb t" "dirtyb u = dirtyb t" "cache_inv u = cache_inv t"
      by (rule bio_cong; simp add: u_def)+
    have f: "lstart u = start" "lsize u = sz" "ldev u = 1" "disk u = disk s" "disksize u = disksize s"
      "dwrites u = dwrites s" "outstanding u = outstanding s" "committing u = committing s" "logst.more u = logst.more s"
      using t b more_fields [of t s] by (simp_all add: u_def same_disk_def)
    have "wp recover_from_log (\<lambda>_ t. recovered u t \<and> lstart t = lstart u \<and> lsize t = lsize u) u"
      by (rule recover_from_log_wp) (use t c f s ok in \<open>auto simp: quiet_def\<close>)
    then show "wp recover_from_log (\<lambda>_ t. recovered s t \<and> lstart t = start \<and> lsize t = sz)
        (t\<lparr>lstart := sb_logstart b, lsize := as_int (sb_nlog b), ldev := 1\<rparr>)"
      unfolding u_def [symmetric] by (rule wp_mono) (simp add: recovered_def f)
  qed (use s in auto)
  then show ?thesis
    unfolding initlog_def wp_funs by simp
qed

section \<open>Crash safety of commit\<close>

text \<open>What the home blocks hold once the transaction in memory is durable.\<close>

definition new_disk :: "'z logst_scheme \<Rightarrow> nat \<Rightarrow> block" where
  "new_disk s x = (if x \<in> set (log_blocks s) then view s x else disk s x)"

definition recover_disk :: "nat \<Rightarrow> (nat \<Rightarrow> block) \<Rightarrow> nat \<Rightarrow> block" where
  "recover_disk start d = apply_writes (rec_writes start d) d"

text \<open>A transaction ready to commit: the log on disk is empty and lies between the superblock and
  the home blocks.\<close>

definition commit_ready :: "'z logst_scheme \<Rightarrow> bool" where
  "commit_ready s \<longleftrightarrow> txn_ok s \<and> 0 < lh_n s \<and> 1 < lstart s \<and> disksize s \<le> 2 ^ 32 \<and>
     head_n (disk s (lstart s)) = 0 \<and> log_at (lstart s) (lsize s) (disk s)"

lemma recover_disk_empty:
  assumes "head_n (d start) = 0"
  shows "x \<noteq> start \<Longrightarrow> recover_disk start d x = d x"
  using assms by (simp add: recover_disk_def rec_writes_def)

lemma commit_head_props:
  assumes "commit_ready s"
  shows "head_n (commit_head s) = lh_n s" "length (commit_head s) = BSIZE"
    "\<And>i. i < nat (lh_n s) \<Longrightarrow> head_block (commit_head s) i = lh_block s i"
proof -
  have s: "txn_ok s" "disksize s \<le> 2 ^ 32" using assms by (auto simp: commit_ready_def)
  have "length (view s (lstart s)) = BSIZE" using txn_head [OF s(1)] by (simp add: view_length)
  moreover have "lh_block s i < 2 ^ 32" if "i < nat (lh_n s)" for i
    using txn_entry(2) [OF s(1) that] s(2) by (simp add: home_def)
  ultimately show "head_n (commit_head s) = lh_n s" "length (commit_head s) = BSIZE"
    "\<And>i. i < nat (lh_n s) \<Longrightarrow> head_block (commit_head s) i = lh_block s i"
    using put_head_props [of "view s (lstart s)" "lh_n s" "lh_block s"] txn_head(6,7) [OF s(1)]
    by (simp_all add: commit_head_def)
qed

lemma home_not_log:
  assumes "commit_ready s" and "home s x"
  shows "x \<noteq> lstart s" "x \<noteq> 1" "x \<notin> {lstart s + 1..<lstart s + 1 + nat (lh_n s)}"
  using assms by (auto simp: commit_ready_def txn_ok_def home_def)

text \<open>Once the header is on disk, recovery installs the logged blocks, however many of them had been
  installed before the crash.\<close>

lemma recover_disk_committed:
  assumes s: "commit_ready s" and hd: "d (lstart s) = commit_head s"
    and lg: "\<And>i. i < nat (lh_n s) \<Longrightarrow> d (lstart s + i + 1) = view s (lh_block s i)"
  shows "valid_log (lstart s) (lsize s) (disksize s) d"
    and "home s x \<Longrightarrow> recover_disk (lstart s) d x = (if x \<in> set (log_blocks s) then view s x else d x)"
    and "head_n (recover_disk (lstart s) d (lstart s)) = 0"
proof -
  note h = commit_head_props [OF s]
  have ok: "txn_ok s" using s by (simp add: commit_ready_def)
  have bs: "map (head_block (commit_head s)) [0..<nat (lh_n s)] = log_blocks s"
    by (simp add: log_blocks_def h)
  show "valid_log (lstart s) (lsize s) (disksize s) d"
    using ok unfolding valid_log_def hd h(1) Let_def bs by (simp add: txn_ok_def home_def)
  have rw: "rec_writes (lstart s) d = home_writes s @ [(lstart s, put_head 0 (\<lambda>_. 0) (commit_head s))]"
    using lg by (simp add: rec_writes_def hd h home_writes_def log_blocks_def)
  then have r: "recover_disk (lstart s) d =
      (apply_writes (home_writes s) d)(lstart s := put_head 0 (\<lambda>_. 0) (commit_head s))"
    by (simp add: recover_disk_def)
  show "head_n (recover_disk (lstart s) d (lstart s)) = 0"
    using put_head_0 [OF h(2)] by (simp add: r)
  show "recover_disk (lstart s) d x = (if x \<in> set (log_blocks s) then view s x else d x)" if "home s x"
  proof (cases "x \<in> set (log_blocks s)")
    case True
    then obtain i where i: "i < length (log_blocks s)" "log_blocks s ! i = x"
      by (auto simp: in_set_conv_nth)
    have "distinct (map fst (home_writes s))"
      using ok by (simp add: home_writes_def o_def txn_ok_def)
    from apply_writes_nth [OF this, of i d] i have "apply_writes (home_writes s) d x = view s x"
      by (simp add: home_writes_def)
    with True home_not_log [OF s that] show ?thesis by (simp add: r)
  next
    case False
    then have "x \<notin> fst ` set (home_writes s)" by (auto simp: home_writes_def)
    with False home_not_log [OF s that] show ?thesis by (simp add: r apply_writes_other)
  qed
qed

lemma apply_home_writes:
  assumes "x \<in> fst ` set (take j (home_writes s)) \<Longrightarrow> x \<in> set (log_blocks s)"
    and "x \<notin> set (log_blocks s)"
  shows "apply_writes (take j (home_writes s)) d x = d x"
  using assms by (intro apply_writes_other) blast

lemma take_home_writes: "x \<in> fst ` set (take j (home_writes s)) \<Longrightarrow> x \<in> set (log_blocks s)"
  by (auto simp: home_writes_def take_map dest: in_set_takeD)

text \<open>The disk after a prefix of the writes of \<^verbatim>\<open>commit\<close>.\<close>

definition crash_disk :: "'z logst_scheme \<Rightarrow> nat \<Rightarrow> nat \<Rightarrow> block" where
  "crash_disk s k = apply_writes (take k (commit_writes s)) (disk s)"

lemma crash_before_head:
  assumes s: "commit_ready s" and k: "k \<le> nat (lh_n s)"
    and x: "x \<notin> {lstart s + 1..<lstart s + 1 + nat (lh_n s)}"
  shows "crash_disk s k x = disk s x"
proof -
  have "take k (commit_writes s) = take k (log_copies s (nat (lh_n s)))"
    using k by (simp add: commit_writes_def log_copies_def)
  moreover have "x \<notin> fst ` set (take k (log_copies s (nat (lh_n s))))"
    using x set_take_subset [of k "log_copies s (nat (lh_n s))"] unfolding fst_copies [symmetric] by blast
  ultimately show ?thesis by (simp add: crash_disk_def apply_writes_other)
qed

lemma crash_after_head:
  assumes s: "commit_ready s" and j: "j \<le> nat (lh_n s)"
  defines "d \<equiv> crash_disk s (nat (lh_n s) + 1 + j)"
  shows "d (lstart s) = commit_head s"
    and "i < nat (lh_n s) \<Longrightarrow> d (lstart s + i + 1) = view s (lh_block s i)"
    and "x \<notin> {lstart s..<lstart s + 1 + nat (lh_n s)} \<Longrightarrow> x \<notin> set (log_blocks s) \<Longrightarrow> d x = disk s x"
proof -
  let ?n = "nat (lh_n s)"
  have ok: "txn_ok s" using s by (simp add: commit_ready_def)
  have "take (?n + 1 + j) (commit_writes s) = log_copies s ?n @ [(lstart s, commit_head s)] @ take j (home_writes s)"
    using j by (simp add: commit_writes_def log_copies_def home_writes_def log_blocks_def)
  then have d: "d = apply_writes (take j (home_writes s))
      ((apply_writes (log_copies s ?n) (disk s))(lstart s := commit_head s))"
    by (simp add: d_def crash_disk_def)
  have hm: "home s x" if "x \<in> set (log_blocks s)" for x using ok that by (simp add: txn_ok_def)
  have e: "d x = ((apply_writes (log_copies s ?n) (disk s))(lstart s := commit_head s)) x"
    if "x \<notin> set (log_blocks s)" for x
    unfolding d by (rule apply_home_writes [OF take_home_writes that])
  show "d (lstart s) = commit_head s"
    using e [of "lstart s"] hm home_not_log [OF s] by fastforce
  show "d (lstart s + i + 1) = view s (lh_block s i)" if "i < ?n" for i
  proof -
    have "lstart s + i + 1 \<notin> set (log_blocks s)" using hm home_not_log(3) [OF s] that by fastforce
    from e [OF this] log_copies_nth [OF that, of s "disk s"] show ?thesis by simp
  qed
  show "d x = disk s x" if "x \<notin> {lstart s..<lstart s + 1 + ?n}" "x \<notin> set (log_blocks s)" for x
  proof -
    have "x \<noteq> lstart s" "x \<notin> fst ` set (log_copies s ?n)" using that by (auto simp: fst_copies)
    with e [OF that(2)] show ?thesis by (simp add: apply_writes_other)
  qed
qed

lemma apply_writes_length:
  assumes "\<And>w. w \<in> set ws \<Longrightarrow> length (snd w) = BSIZE" and "length (d x) = BSIZE"
  shows "length (apply_writes ws d x) = BSIZE"
  using assms by (induction ws arbitrary: d) auto

lemma crash_length:
  assumes s: "commit_ready s" and x: "x < disksize s"
  shows "length (crash_disk s k x) = BSIZE"
proof -
  have ok: "txn_ok s" using s by (simp add: commit_ready_def)
  have inv: "cache_inv s" by (rule txn_head(1) [OF ok])
  have v: "length (view s b) = BSIZE" if "b \<in> set (log_blocks s)" for b
    using ok that view_length [OF inv] by (auto simp: txn_ok_def home_def)
  have "length (snd w) = BSIZE" if "w \<in> set (commit_writes s)" for w
    using that v txn_entry(1) [OF ok] commit_head_props(2) [OF s] put_head_0
    by (auto simp: commit_writes_def log_copies_def home_writes_def)
  moreover have "length (disk s x) = BSIZE" using inv x by (simp add: cache_inv_def)
  ultimately show ?thesis
    unfolding crash_disk_def by (intro apply_writes_length) (auto dest: in_set_takeD)
qed

lemma length_commit_writes:
  "0 \<le> lh_n s \<Longrightarrow> length (commit_writes s) = 2 * nat (lh_n s) + 2"
  by (simp add: commit_writes_def log_copies_def home_writes_def log_blocks_def)

lemma log_at_cong: "d 1 = e 1 \<Longrightarrow> log_at start sz d = log_at start sz e"
  by (simp add: log_at_def)

lemma crash_all:
  assumes s: "commit_ready s"
  defines "d \<equiv> crash_disk s (2 * nat (lh_n s) + 2)"
  shows "head_n (d (lstart s)) = 0" "d 1 = disk s 1" "home s x \<Longrightarrow> d x = new_disk s x"
proof -
  let ?n = "nat (lh_n s)" and ?c = "crash_disk s (nat (lh_n s) + 1 + nat (lh_n s))"
  have ok: "txn_ok s" using s by (simp add: commit_ready_def)
  have l: "length (commit_writes s) = 2 * ?n + 2" using ok by (simp add: length_commit_writes txn_ok_def)
  have "commit_writes s = take (2 * ?n + 1) (commit_writes s) @ [(lstart s, put_head 0 (lh_block s) (commit_head s))]"
    using ok by (simp add: commit_writes_def log_copies_def home_writes_def log_blocks_def)
  then have "apply_writes (commit_writes s) (disk s) =
      (apply_writes (take (2 * ?n + 1) (commit_writes s)) (disk s))
      (lstart s := put_head 0 (lh_block s) (commit_head s))"
    by (metis apply_writes_append apply_writes_Cons apply_writes_Nil fst_conv snd_conv)
  moreover have n2: "?n + 1 + ?n = 2 * ?n + 1" by simp
  ultimately have d: "d = ?c(lstart s := put_head 0 (lh_block s) (commit_head s))"
    unfolding d_def crash_disk_def n2 using l by simp
  show "head_n (d (lstart s)) = 0"
    using put_head_0 [OF commit_head_props(2) [OF s]] by (simp add: d)
  note c = crash_after_head [OF s order_refl]
  have "1 \<notin> {lstart s..<lstart s + 1 + ?n}" "1 \<notin> set (log_blocks s)" "1 \<noteq> lstart s"
    using s ok home_not_log(2) [OF s] by (auto simp: commit_ready_def txn_ok_def)
  with c(3) show "d 1 = disk s 1" by (simp add: d)
  show "d x = new_disk s x" if x: "home s x"
  proof (cases "x \<in> set (log_blocks s)")
    case True
    then obtain i where i: "i < length (log_blocks s)" "log_blocks s ! i = x"
      by (auto simp: in_set_conv_nth)
    have "distinct (map fst (home_writes s))"
      using ok by (simp add: home_writes_def o_def txn_ok_def)
    from apply_writes_nth [OF this, of i] i have w: "apply_writes (home_writes s) e x = view s x" for e
      by (simp add: home_writes_def)
    have "take (?n + 1 + ?n) (commit_writes s) = log_copies s ?n @ [(lstart s, commit_head s)] @ home_writes s"
      by (simp add: commit_writes_def log_copies_def home_writes_def log_blocks_def)
    with True w home_not_log [OF s x] show ?thesis by (simp add: d crash_disk_def new_disk_def)
  next
    case False
    with c(3) [of x] home_not_log [OF s x] show ?thesis by (auto simp: d new_disk_def)
  qed
qed

text \<open>The heart of the matter, on the level of disks.\<close>

lemma crash_recovers:
  assumes s: "commit_ready s" and k: "k \<le> length (commit_writes s)"
  defines "d \<equiv> crash_disk s k"
  shows "valid_log (lstart s) (lsize s) (disksize s) d" "log_at (lstart s) (lsize s) d"
    and "home s x \<Longrightarrow> recover_disk (lstart s) d x =
      (if k \<le> nat (lh_n s) then disk s x else new_disk s x)"
    and "head_n (recover_disk (lstart s) d (lstart s)) = 0"
proof -
  let ?n = "nat (lh_n s)"
  have ok: "txn_ok s" "0 \<le> lh_n s" "log_at (lstart s) (lsize s) (disk s)" "head_n (disk s (lstart s)) = 0"
    using s by (auto simp: commit_ready_def txn_ok_def)
  have len: "length (disk s (lstart s)) = BSIZE" using txn_head(1,3) [OF ok(1)] by (simp add: cache_inv_def)
  have one: "1 \<notin> {lstart s..<lstart s + 1 + ?n}" "1 \<notin> set (log_blocks s)"
    using s ok home_not_log(2) [OF s] by (auto simp: commit_ready_def txn_ok_def)
  have hm: "x \<notin> {lstart s..<lstart s + 1 + ?n}" if "home s x" for x
    using home_not_log [OF s that] by auto
  consider "k \<le> ?n" | j where "k = ?n + 1 + j" "j \<le> ?n" | "k = 2 * ?n + 2"
  proof -
    have "k \<le> 2 * ?n + 2" using k length_commit_writes [OF ok(2)] by simp
    then have "k \<le> ?n \<or> k = ?n + 1 + (k - ?n - 1) \<and> k - ?n - 1 \<le> ?n \<or> k = 2 * ?n + 2" by linarith
    then show thesis using that by blast
  qed
  then have "valid_log (lstart s) (lsize s) (disksize s) d \<and> log_at (lstart s) (lsize s) d \<and>
    (\<forall>x. home s x \<longrightarrow> recover_disk (lstart s) d x = (if k \<le> ?n then disk s x else new_disk s x)) \<and>
    head_n (recover_disk (lstart s) d (lstart s)) = 0"
  proof cases
    case 1
    note c = crash_before_head [OF s 1, folded d_def]
    have h: "head_n (d (lstart s)) = 0" "d (lstart s) = disk s (lstart s)" "d 1 = disk s 1" using c ok one by auto
    have "valid_log (lstart s) (lsize s) (disksize s) d"
      using h ok by (simp add: valid_log_def txn_ok_def)
    moreover have "recover_disk (lstart s) d x = disk s x" if "home s x" for x
      using recover_disk_empty [of d, OF h(1)] home_not_log [OF s that] c by auto
    moreover have "head_n (recover_disk (lstart s) d (lstart s)) = 0"
      using h len put_head_0 by (simp add: recover_disk_def rec_writes_def)
    ultimately show ?thesis using 1 ok h log_at_cong [of d "disk s"] by simp
  next
    case (2 j)
    note c = crash_after_head [OF s 2(2), folded 2(1), folded d_def]
    note r = recover_disk_committed [OF s c(1,2)]
    have "recover_disk (lstart s) d x = new_disk s x" if "home s x" for x
      using r(2) [OF _ that] c(3) [OF hm [OF that]] by (auto simp: new_disk_def)
    moreover have "d 1 = disk s 1" using c(3) one by blast
    ultimately show ?thesis using 2 ok r(1,3) log_at_cong [of d "disk s"] by simp
  next
    case 3
    note c = crash_all [OF s, folded 3, folded d_def]
    have "valid_log (lstart s) (lsize s) (disksize s) d"
      using c ok by (simp add: valid_log_def txn_ok_def)
    moreover have "recover_disk (lstart s) d x = new_disk s x" if "home s x" for x
      using recover_disk_empty [of d, OF c(1)] home_not_log [OF s that] c(3) [OF that] by auto
    moreover have "length (d (lstart s)) = BSIZE"
      unfolding d_def by (rule crash_length [OF s]) (rule txn_head(3) [OF ok(1)])
    then have "head_n (recover_disk (lstart s) d (lstart s)) = 0"
      using c(1) put_head_0 by (simp add: recover_disk_def rec_writes_def)
    ultimately show ?thesis using 3 ok c log_at_cong [of d "disk s"] by simp
  qed
  then show "valid_log (lstart s) (lsize s) (disksize s) d" "log_at (lstart s) (lsize s) d"
    "home s x \<Longrightarrow> recover_disk (lstart s) d x =
      (if k \<le> nat (lh_n s) then disk s x else new_disk s x)"
    "head_n (recover_disk (lstart s) d (lstart s)) = 0" by blast+
qed

section \<open>Booting after a crash\<close>

text \<open>The part of the boot sequence that concerns the disk: \<^verbatim>\<open>binit\<close> (main.c) and \<^verbatim>\<open>initlog(ROOTDEV)\<close>
  (first run of \<^verbatim>\<open>forkret\<close>, proc.c).\<close>

definition boot_fs :: "('z logst_scheme, unit) kop" where
  "boot_fs = bind binit (\<lambda>_. initlog ROOTDEV)"

lemma boot_fs_wp:
  fixes b :: "'z logst_scheme"
  assumes z: "zeroed_bufs b" and len: "\<forall>x<disksize b. length (disk b x) = BSIZE"
    and sb: "1 < disksize b" "log_at start sz (disk b)" and ok: "valid_log start sz (disksize b) (disk b)"
  shows "wp boot_fs (\<lambda>_ u. cache_inv u \<and> busyb u = {} \<and> dirtyb u = {} \<and> lh_n u = 0 \<and> lstart u = start \<and>
    lsize u = sz \<and> disk u = recover_disk start (disk b) \<and>
    dwrites u = dwrites b @ rec_writes start (disk b) \<and> disksize u = disksize b) b"
  unfolding boot_fs_def wp_bind_fun
proof (rule wp_mono [OF binit_wp [OF z len]])
  fix x t
  assume t: "cache_inv t \<and> view t = disk b \<and> busyb t = {} \<and> dirtyb t = {} \<and> same_disk b t"
  then have d: "disk t = disk b" "dwrites t = dwrites b" "disksize t = disksize b" by (auto simp: same_disk_def)
  have "wp (initlog 1) (\<lambda>_ u. recovered t u \<and> lstart u = start \<and> lsize u = sz) t"
    by (rule initlog_wp) (use t sb ok d in auto)
  then show "wp (initlog ROOTDEV) (\<lambda>_ u. cache_inv u \<and> busyb u = {} \<and> dirtyb u = {} \<and> lh_n u = 0 \<and>
    lstart u = start \<and> lsize u = sz \<and> disk u = recover_disk start (disk b) \<and>
    dwrites u = dwrites b @ rec_writes start (disk b) \<and> disksize u = disksize b) t"
    by (rule wp_mono) (auto simp: recovered_def recover_disk_def d)
qed


text \<open>A concrete transaction of one block: block 40 is pinned in buffer 0.\<close>

definition demo_state :: logst where
  "demo_state = \<lparr>
     bufs = demo_ring ((\<lambda>_. demo_buf)(0 := demo_buf\<lparr>b_valid := True, b_dirty := True, b_dev := 1,
       b_blockno := 40, b_data := replicate BSIZE 1\<rparr>)),
     disk = demo_disk, disksize = FSSIZE, dwrites = [], wakes = [],
     lstart = 2, lsize = 30, outstanding = 0, committing = True, ldev = 1, lh_n = 1, lh_block = (\<lambda>_. 40)\<rparr>"

lemma demo_ready: "commit_ready demo_state"
proof -
  have b: "bufs demo_state = demo_ring ((\<lambda>_. demo_buf)(0 := demo_buf\<lparr>b_valid := True, b_dirty := True,
      b_dev := 1, b_blockno := 40, b_data := replicate BSIZE 1\<rparr>))"
    by (simp add: demo_state_def)
  have h: "holds demo_state i k \<longleftrightarrow> i = 0 \<and> k = 40" for i k
    by (auto simp: holds_def b demo_ring_def demo_buf_def split: if_splits)
  have busy: "busyb demo_state = {}" by (auto simp: busyb_def locked_def h b demo_ring_def demo_buf_def)
  have dirty: "dirtyb demo_state = {40}" by (auto simp: dirtyb_def h b demo_ring_def demo_buf_def)
  have "cache_inv demo_state"
    unfolding cache_inv_def
  proof (intro conjI exI)
    show "ring (bufs demo_state) [0..<NBUF]" unfolding b by (rule demo_ring_ring)
    show "set [0..<NBUF] = {..<NBUF}" by (simp add: atLeast0LessThan del: upt_rec_numeral)
    show "\<forall>i<NBUF. buf_ok demo_state (bufs demo_state i)"
      by (auto simp: buf_ok_def b demo_ring_def demo_buf_def demo_state_def)
    show "uniq demo_state" by (simp add: uniq_def h)
    show "\<forall>k<disksize demo_state. length (disk demo_state k) = BSIZE"
      by (simp add: demo_state_def demo_disk_def encode_sb_def)
  qed
  moreover have "log_blocks demo_state = [40]" by (simp add: log_blocks_def demo_state_def)
  ultimately have "txn_ok demo_state"
    using busy dirty by (simp add: txn_ok_def home_def) (simp add: demo_state_def)
  moreover have "head_n (replicate BSIZE 0) = 0"
    by (simp add: head_n_def slice_def as_int_def)
  moreover have "log_at 2 30 demo_disk"
    using decode_demo by (simp add: log_at_def mkfs_sb_def as_int_def)
  ultimately show ?thesis
    by (simp add: commit_ready_def) (simp add: demo_state_def demo_disk_def)
qed


section \<open>Crashes during recovery\<close>

lemma apply_writes_cong:
  assumes "\<And>x. x \<notin> fst ` set ws \<Longrightarrow> d x = e x"
  shows "apply_writes ws d = apply_writes ws e"
  using assms
proof (induction ws arbitrary: d e)
  case Nil
  then show ?case by (simp add: fun_eq_iff)
next
  case (Cons w ws)
  show ?case unfolding apply_writes_Cons
    by (rule Cons.IH) (use Cons.prems in auto)
qed

text \<open>A disk image from which the file system can boot.\<close>

definition bootable :: "nat \<Rightarrow> int \<Rightarrow> nat \<Rightarrow> (nat \<Rightarrow> block) \<Rightarrow> bool" where
  "bootable start sz dsz d \<longleftrightarrow> 1 < start \<and> valid_log start sz dsz d \<and> log_at start sz d \<and>
     (\<forall>x<dsz. length (d x) = BSIZE)"

lemma bootable_entries:
  assumes "bootable start sz dsz d" and "i < nat (head_n (d start))"
  shows "start + nat sz \<le> head_block (d start) i" "head_block (d start) i < dsz" "start + i + 1 < start + nat sz"
  using assms by (auto simp: bootable_def valid_log_def Let_def)

lemma bootable_start: "bootable start sz dsz d \<Longrightarrow> start < start + nat sz \<and> start + nat sz \<le> dsz"
  by (auto simp: bootable_def valid_log_def Let_def)

lemma recover_disk_length:
  assumes "bootable start sz dsz d" and "x < dsz"
  shows "length (apply_writes (take k (rec_writes start d)) d x) = BSIZE"
proof (rule apply_writes_length)
  have len: "length (d y) = BSIZE" if "y < dsz" for y using assms that by (simp add: bootable_def)
  have b: "start + i + 1 < dsz" if "i < nat (head_n (d start))" for i
    using bootable_entries(3) [OF assms(1) that] bootable_start [OF assms(1)] by linarith
  have "start < dsz" using bootable_start [OF assms(1)] by linarith
  then show "length (snd w) = BSIZE" if "w \<in> set (take k (rec_writes start d))" for w
    using in_set_takeD [OF that] len b put_head_0 by (auto simp: rec_writes_def)
  show "length (d x) = BSIZE" using len assms(2) .
qed

lemma recovery_prefix:
  assumes d: "bootable start sz dsz d" and k: "k \<le> length (rec_writes start d)"
  defines "e \<equiv> apply_writes (take k (rec_writes start d)) d"
  shows "bootable start sz dsz e" "start + nat sz \<le> x \<Longrightarrow> recover_disk start e x = recover_disk start d x"
proof -
  let ?n = "nat (head_n (d start))"
  let ?hw = "map (\<lambda>i. (head_block (d start) i, d (start + i + 1))) [0..<?n]"
  have len: "\<forall>x<dsz. length (e x) = BSIZE" using recover_disk_length [OF d] by (simp add: e_def)
  have start: "1 < start" "start < start + nat sz" using d bootable_start [OF d] by (auto simp: bootable_def)
  have hw: "start + nat sz \<le> y" if "y \<in> fst ` set ?hw" for y
    using that bootable_entries(1) [OF d] by auto
  have "bootable start sz dsz e \<and> (\<forall>x. start + nat sz \<le> x \<longrightarrow> recover_disk start e x = recover_disk start d x)"
  proof (cases "k \<le> ?n")
    case True
    then have "e = apply_writes (take k ?hw) d" by (simp add: e_def rec_writes_def)
    moreover have sub: "fst ` set (take k ?hw) \<subseteq> fst ` set ?hw" by (intro image_mono set_take_subset)
    have "y \<notin> fst ` set (take k ?hw)" if "y < start + nat sz" for y
      using hw [of y] that subsetD [OF sub, of y] by linarith
    ultimately have e: "e y = d y" if "y < start + nat sz" for y using that by (simp add: apply_writes_other)
    have "e (start + i + 1) = d (start + i + 1)" if "i < ?n" for i
      using e bootable_entries(3) [OF d that] by blast
    then have rw: "rec_writes start e = rec_writes start d"
      using e start by (simp add: rec_writes_def)
    have "recover_disk start e = recover_disk start d"
      unfolding recover_disk_def rw
    proof (rule apply_writes_cong)
      fix y assume "y \<notin> fst ` set (rec_writes start d)"
      moreover have "fst ` set (take k (rec_writes start d)) \<subseteq> fst ` set (rec_writes start d)"
        by (intro image_mono set_take_subset)
      ultimately have "y \<notin> fst ` set (take k (rec_writes start d))" by blast
      then show "e y = d y" by (simp add: e_def apply_writes_other)
    qed
    moreover have "bootable start sz dsz e"
      using d e [of start] e [of 1] start len log_at_cong [of e d] by (simp add: bootable_def valid_log_def)
    ultimately show ?thesis by simp
  next
    case False
    then have "take k (rec_writes start d) = rec_writes start d" by (simp add: rec_writes_def)
    then have r: "e = recover_disk start d" by (simp add: e_def recover_disk_def)
    then have e: "e = (apply_writes ?hw d)(start := put_head 0 (\<lambda>_. 0) (d start))"
      by (simp add: recover_disk_def rec_writes_def)
    have "start < dsz" using bootable_start [OF d] by linarith
    then have "length (d start) = BSIZE" using d by (simp add: bootable_def)
    then have h: "head_n (e start) = 0" using put_head_0 by (simp add: e)
    have "1 \<notin> fst ` set ?hw" using hw [of 1] start by linarith
    then have "e 1 = d 1" using start by (simp add: e apply_writes_other)
    then have "bootable start sz dsz e"
      using d h len start bootable_start [OF d] log_at_cong [of e d] by (simp add: bootable_def valid_log_def)
    moreover have "recover_disk start e x = e x" if "start + nat sz \<le> x" for x
      by (rule recover_disk_empty [of e, OF h]) (use that start in linarith)
    ultimately show ?thesis using r by simp
  qed
  then show "bootable start sz dsz e" "start + nat sz \<le> x \<Longrightarrow> recover_disk start e x = recover_disk start d x"
    by blast+
qed

lemma boot_fs_image:
  fixes c :: "'z logst_scheme"
  assumes "zeroed_bufs c" and "bootable start sz (disksize c) (disk c)"
  obtains v where "boot_fs c = Ok () v" "disk v = recover_disk start (disk c)"
    "dwrites v = dwrites c @ rec_writes start (disk c)"
proof -
  have "1 < disksize c" using assms(2) bootable_start [OF assms(2)] by (simp add: bootable_def)
  then have "wp boot_fs (\<lambda>_ u. cache_inv u \<and> busyb u = {} \<and> dirtyb u = {} \<and> lh_n u = 0 \<and>
      lstart u = start \<and> lsize u = sz \<and> disk u = recover_disk start (disk c) \<and>
      dwrites u = dwrites c @ rec_writes start (disk c) \<and> disksize u = disksize c) c"
    by (intro boot_fs_wp) (use assms in \<open>auto simp: bootable_def\<close>)
  then show ?thesis using that by (auto simp: wp_Ok)
qed

text \<open>A machine that is switched on with one committed transaction in the log of its disk.\<close>

definition demo_boot :: logst where
  "demo_boot = demo_state\<lparr>bufs := \<lambda>_. demo_buf, disk := demo_disk(2 := put_head 1 (\<lambda>_. 40) (replicate BSIZE 0))\<rparr>"

lemma demo_boot_ok: "zeroed_bufs demo_boot" "bootable 2 30 (disksize demo_boot) (disk demo_boot)"
proof -
  show "zeroed_bufs demo_boot" by (simp add: zeroed_bufs_def demo_boot_def demo_buf_def)
  have h: "length (put_head 1 (\<lambda>_. 40) (replicate BSIZE 0)) = BSIZE"
    "head_n (put_head 1 (\<lambda>_. 40) (replicate BSIZE 0)) = 1"
    "head_block (put_head 1 (\<lambda>_. 40) (replicate BSIZE 0)) 0 = 40"
    using put_head_props [of "replicate BSIZE 0" 1 "\<lambda>_. 40"] by simp_all
  have "log_at 2 30 demo_disk"
    using decode_demo by (simp add: log_at_def mkfs_sb_def as_int_def)
  then show "bootable 2 30 (disksize demo_boot) (disk demo_boot)"
    using h log_at_cong [of "disk demo_boot" demo_disk]
    by (simp add: bootable_def valid_log_def demo_boot_def demo_state_def demo_disk_def encode_sb_def)
qed



end
