(* ===== verification/Txn.thy ===== *)
theory Txn
  imports Log_Spec
begin

text \<open>
  Code inside a transaction: the contract of \<^verbatim>\<open>bread\<close>, \<^verbatim>\<open>log_write\<close> and \<^verbatim>\<open>brelse\<close> that fs.c
  relies on, over the content \<open>view\<close> of the blocks.

  \<open>txn s\<close> is the invariant between \<^verbatim>\<open>begin_op\<close> and \<^verbatim>\<open>end_op\<close>: exactly the logged blocks are
  pinned in the cache. \<open>room s\<close> says that one more block can be logged and held.
  \<open>read_block_wp\<close> and \<open>update_block_wp\<close> are the two patterns fs.c consists of: read a block and
  give it back, and read a block, change it, log it and give it back.
\<close>

section \<open>The transaction invariant\<close>

definition txn :: "'z logst_scheme \<Rightarrow> bool" where
  "txn s \<longleftrightarrow> cache_inv s \<and> ldev s = 1 \<and> 0 \<le> lh_n s \<and> lh_n s < int LOGSIZE \<and> distinct (log_blocks s) \<and>
     dirtyb s = set (log_blocks s) \<and> (\<forall>b\<in>set (log_blocks s). home s b) \<and>
     lsize s = int LOGSIZE \<and> lstart s + LOGSIZE \<le> disksize s \<and> 1 < lstart s \<and> 1 \<le> outstanding s"

definition room :: "'z logst_scheme \<Rightarrow> bool" where
  "room s \<longleftrightarrow> int (card (busyb s)) + lh_n s \<le> 28"

text \<open>
  What a piece of code inside a transaction leaves alone: the disk, the place of the log and
  everything that extends the log state (\<open>logst.more\<close>: the inode cache and so on).
\<close>

definition frame :: "'z logst_scheme \<Rightarrow> 'z logst_scheme \<Rightarrow> bool" where
  "frame s t \<longleftrightarrow> disk t = disk s \<and> dwrites t = dwrites s \<and> disksize t = disksize s \<and>
     lstart t = lstart s \<and> lsize t = lsize s \<and> outstanding t = outstanding s \<and>
     committing t = committing s \<and> ldev t = ldev s \<and> logst.more t = logst.more s"

lemma frame_refl [simp]: "frame s s"
  by (simp add: frame_def)

lemma frame_trans: "frame s t \<Longrightarrow> frame t u \<Longrightarrow> frame s u"
  by (simp add: frame_def)

lemma same_disk_frame:
  fixes s t :: "'z logst_scheme"
  shows "same_disk s t \<Longrightarrow> frame s t \<and> lh_n t = lh_n s \<and> lh_block t = lh_block s \<and> log_blocks t = log_blocks s"
  using more_fields [of t s] by (simp add: frame_def same_disk_def log_blocks_def)

lemma home_frame: "frame s t \<Longrightarrow> home t = home s"
  by (simp add: frame_def home_def fun_eq_iff)

lemma card_dirty:
  assumes "txn s"
  shows "int (card (dirtyb s)) = lh_n s"
proof -
  have "card (set (log_blocks s)) = length (log_blocks s)" using assms by (intro distinct_card) (simp add: txn_def)
  also have "\<dots> = nat (lh_n s)" by (simp add: log_blocks_def)
  finally show ?thesis using assms by (simp add: txn_def)
qed

lemma room_bread:
  assumes "txn s" and "room s"
  shows "card (insert blk (busyb s \<union> dirtyb s)) \<le> NBUF"
proof -
  have "card (insert blk (busyb s \<union> dirtyb s)) \<le> Suc (card (busyb s \<union> dirtyb s))"
    by (rule card_insert_le_m1) simp_all
  also have "\<dots> \<le> Suc (card (busyb s) + card (dirtyb s))" using card_Un_le by simp
  also have "\<dots> \<le> NBUF" using assms card_dirty [OF assms(1)] by (simp add: room_def)
  finally show ?thesis .
qed

section \<open>Reading a block\<close>

lemma bread_txn:
  assumes s: "txn s" "room s" and blk: "blk < disksize s" "blk \<notin> busyb s"
  shows "wp (bread 1 blk) (\<lambda>b t. txn t \<and> locked t b blk \<and> b_data (bufs t b) = view s blk \<and> view t = view s \<and>
    (\<forall>c k. locked s c k \<longrightarrow> locked t c k) \<and> busyb t = insert blk (busyb s) \<and>
    dirtyb t = dirtyb s \<and> same_disk s t) s"
proof (rule wp_mono [OF bread_wp [OF _ blk room_bread [OF s]]])
  show "cache_inv s" using s by (simp add: txn_def)
  fix b t
  assume t: "cache_inv t \<and> locked t b blk \<and> view t = view s \<and> (\<forall>c k. locked s c k \<longrightarrow> locked t c k) \<and>
    busyb t = insert blk (busyb s) \<and> dirtyb t = dirtyb s \<and> same_disk s t"
  have "b_data (bufs t b) = view s blk" using locked_data [of t b] t by auto
  moreover have "txn t"
    using s t same_disk_frame [of s t] home_frame [of s t] by (auto simp: txn_def frame_def)
  ultimately show "txn t \<and> locked t b blk \<and> b_data (bufs t b) = view s blk \<and> view t = view s \<and>
    (\<forall>c k. locked s c k \<longrightarrow> locked t c k) \<and> busyb t = insert blk (busyb s) \<and>
    dirtyb t = dirtyb s \<and> same_disk s t" using t by blast
qed

text \<open>The buffer of a block that was not changed, or that was logged, can be given back.\<close>

lemma brelse_txn:
  assumes s: "txn s" "locked s b blk" and clean: "blk \<in> dirtyb s \<or> view s blk = disk s blk"
  shows "wp (brelse b) (\<lambda>_ t. txn t \<and> view t = view s \<and>
    (\<forall>c k. k \<noteq> blk \<longrightarrow> locked t c k = locked s c k) \<and> busyb t = busyb s - {blk} \<and>
    dirtyb t = dirtyb s \<and> same_disk s t) s"
proof (rule wp_mono [OF brelse_wp [OF _ s(2) clean]])
  show "cache_inv s" using s by (simp add: txn_def)
  fix x t
  assume t: "cache_inv t \<and> view t = view s \<and> (\<forall>c k. k \<noteq> blk \<longrightarrow> locked t c k = locked s c k) \<and>
    busyb t = busyb s - {blk} \<and> dirtyb t = dirtyb s \<and> same_disk s t"
  then have "txn t"
    using s same_disk_frame [of s t] home_frame [of s t] by (auto simp: txn_def frame_def)
  with t show "txn t \<and> view t = view s \<and> (\<forall>c k. k \<noteq> blk \<longrightarrow> locked t c k = locked s c k) \<and>
    busyb t = busyb s - {blk} \<and> dirtyb t = dirtyb s \<and> same_disk s t" by blast
qed

section \<open>Logging a block\<close>

lemma absorb_found: "blk \<in> f ` set is \<Longrightarrow> absorb f blk is n \<in> set is \<and> f (absorb f blk is n) = blk"
  by (induction "is") auto

lemma absorb_new: "blk \<notin> f ` set is \<Longrightarrow> absorb f blk is n = n"
  by (induction "is") auto

definition add_block :: "nat \<Rightarrow> nat list \<Rightarrow> nat list" where
  "add_block blk bs = (if blk \<in> set bs then bs else bs @ [blk])"

lemma set_add_block [simp]: "set (add_block blk bs) = insert blk (set bs)"
  by (auto simp: add_block_def)

lemma distinct_add_block [simp]: "distinct bs \<Longrightarrow> distinct (add_block blk bs)"
  by (simp add: add_block_def)

definition note_block :: "nat \<Rightarrow> 'z logst_scheme \<Rightarrow> 'z logst_scheme" where
  "note_block blk s =
     (let i = absorb (lh_block s) blk [0..<nat (lh_n s)] (nat (lh_n s)) in
      s\<lparr>lh_block := (lh_block s)(i := blk), lh_n := (if int i = lh_n s then lh_n s + 1 else lh_n s)\<rparr>)"

lemma note_block_simps:
  fixes s :: "'z logst_scheme"
  assumes "0 \<le> lh_n s"
  shows "log_blocks (note_block blk s) = add_block blk (log_blocks s)"
    and "lh_n (note_block blk s) = (if blk \<in> set (log_blocks s) then lh_n s else lh_n s + 1)"
    and "frame s (note_block blk s)"
    and "bufs (note_block blk s) = bufs s" "disk (note_block blk s) = disk s"
      "disksize (note_block blk s) = disksize s"
proof -
  let ?n = "nat (lh_n s)"
  let ?i = "absorb (lh_block s) blk [0..<?n] ?n"
  have set: "set (log_blocks s) = lh_block s ` set [0..<?n]" by (simp add: log_blocks_def)
  have "log_blocks (note_block blk s) = add_block blk (log_blocks s) \<and>
    lh_n (note_block blk s) = (if blk \<in> set (log_blocks s) then lh_n s else lh_n s + 1)"
  proof (cases "blk \<in> set (log_blocks s)")
    case True
    then have a: "?i \<in> set [0..<?n]" "lh_block s ?i = blk"
      using absorb_found [of blk "lh_block s" "[0..<?n]" ?n] set by auto
    then have "(lh_block s)(?i := blk) = lh_block s" "int ?i \<noteq> lh_n s" by auto
    with True show ?thesis by (simp add: note_block_def Let_def add_block_def log_blocks_def)
  next
    case False
    then have "?i = ?n" using absorb_new [of blk "lh_block s" "[0..<?n]" ?n] set by simp
    moreover have "nat (lh_n s + 1) = Suc ?n" using assms by simp
    ultimately show ?thesis
      using False assms by (simp add: note_block_def Let_def add_block_def log_blocks_def)
  qed
  then show "log_blocks (note_block blk s) = add_block blk (log_blocks s)"
    "lh_n (note_block blk s) = (if blk \<in> set (log_blocks s) then lh_n s else lh_n s + 1)" by blast+
  show "frame s (note_block blk s)" "bufs (note_block blk s) = bufs s" "disk (note_block blk s) = disk s"
    "disksize (note_block blk s) = disksize s"
    by (simp_all add: frame_def note_block_def Let_def)
qed

lemma log_write_unfold:
  fixes s :: "'z logst_scheme"
  assumes "lh_n s < int LOGSIZE" and "lh_n s < lsize s - 1" and "1 \<le> outstanding s"
  shows "log_write b s = modify (upd_buf b (b_dirty_update (\<lambda>_. True))) (note_block (b_blockno (bufs s b)) s)"
  using assms
  by (simp add: log_write_def bind_def gets_def return_def panic_if_def modify_def whenk_def note_block_def
      Let_def)

text \<open>
  \<^verbatim>\<open>log_write\<close> enters the block in the log (once) and pins its buffer.
\<close>

lemma log_write_txn:
  fixes s :: "'z logst_scheme"
  assumes s: "txn s" "locked s b blk" "home s blk" "lh_n s \<le> 28"
  shows "wp (log_write b) (\<lambda>_ t. txn t \<and> view t = view s \<and> (\<forall>c k. locked t c k = locked s c k) \<and>
    busyb t = busyb s \<and> dirtyb t = insert blk (dirtyb s) \<and> log_blocks t = add_block blk (log_blocks s) \<and>
    lh_n s \<le> lh_n t \<and> lh_n t \<le> lh_n s + 1 \<and> frame s t) s"
proof -
  define u where "u = note_block blk s"
  have n: "0 \<le> lh_n s" and inv: "cache_inv s" using s by (auto simp: txn_def)
  note nb = note_block_simps [OF n, of blk, folded u_def]
  have c: "locked u = locked s" "view u = view s" "busyb u = busyb s" "dirtyb u = dirtyb s"
    "cache_inv u = cache_inv s"
    by (rule bio_cong; simp add: nb)+
  have blk: "b_blockno (bufs s b) = blk" using s(2) by (auto simp: locked_def holds_def)
  have run: "log_write b s = modify (upd_buf b (b_dirty_update (\<lambda>_. True))) u"
    using s by (simp add: log_write_unfold txn_def u_def blk)
  have "wp (modify (upd_buf b (b_dirty_update (\<lambda>_. True)))) (\<lambda>_ t. cache_inv t \<and> view t = view u \<and>
    (\<forall>c k. locked t c k = locked u c k) \<and> busyb t = busyb u \<and> dirtyb t = insert blk (dirtyb u) \<and>
    same_disk u t) u"
    by (rule set_dirty_wp) (use inv s c in auto)
  then have "wp (modify (upd_buf b (b_dirty_update (\<lambda>_. True)))) (\<lambda>_ t. txn t \<and> view t = view s \<and>
    (\<forall>c k. locked t c k = locked s c k) \<and>
    busyb t = busyb s \<and> dirtyb t = insert blk (dirtyb s) \<and> log_blocks t = add_block blk (log_blocks s) \<and>
    lh_n s \<le> lh_n t \<and> lh_n t \<le> lh_n s + 1 \<and> frame s t) u"
  proof (rule wp_mono)
    fix x t
    assume t: "cache_inv t \<and> view t = view u \<and> (\<forall>c k. locked t c k = locked u c k) \<and> busyb t = busyb u \<and>
      dirtyb t = insert blk (dirtyb u) \<and> same_disk u t"
    then have f: "frame u t" "lh_n t = lh_n u" "log_blocks t = log_blocks u" using same_disk_frame [of u t] by auto
    have ft: "frame s t" by (rule frame_trans [OF nb(3) f(1)])
    have lb: "log_blocks t = add_block blk (log_blocks s)" by (simp add: f nb)
    have "txn t"
      using s t lb f nb c home_frame [OF ft] ft by (auto simp: txn_def frame_def)
    then show "txn t \<and> view t = view s \<and> (\<forall>c k. locked t c k = locked s c k) \<and>
      busyb t = busyb s \<and> dirtyb t = insert blk (dirtyb s) \<and> log_blocks t = add_block blk (log_blocks s) \<and>
      lh_n s \<le> lh_n t \<and> lh_n t \<le> lh_n s + 1 \<and> frame s t"
      using t c lb ft f nb by simp
  qed
  then show ?thesis by (simp add: wp_def run)
qed

section \<open>The two patterns\<close>

text \<open>\<open>same_txn s t\<close>: only the cache bookkeeping changed. \<open>updated s t blk d\<close>: block \<open>blk\<close> was logged
  with the new content \<open>d\<close>.\<close>

definition same_txn :: "'z logst_scheme \<Rightarrow> 'z logst_scheme \<Rightarrow> bool" where
  "same_txn s t \<longleftrightarrow> txn t \<and> quiet s t \<and> frame s t \<and> view t = view s \<and> log_blocks t = log_blocks s \<and> lh_n t = lh_n s"

definition updated :: "'z logst_scheme \<Rightarrow> 'z logst_scheme \<Rightarrow> nat \<Rightarrow> block \<Rightarrow> bool" where
  "updated s t blk d \<longleftrightarrow> txn t \<and> quiet s t \<and> frame s t \<and> view t = (view s)(blk := d) \<and>
     log_blocks t = add_block blk (log_blocks s) \<and> lh_n s \<le> lh_n t \<and> lh_n t \<le> lh_n s + 1"

lemma same_txn_refl: "txn s \<Longrightarrow> same_txn s s"
  by (simp add: same_txn_def txn_def)

lemma same_txn_trans: "same_txn s t \<Longrightarrow> same_txn t u \<Longrightarrow> same_txn s u"
  by (auto simp: same_txn_def intro: quiet_trans frame_trans)

lemma same_txn_room: "same_txn s t \<Longrightarrow> room t = room s"
  by (simp add: same_txn_def room_def quiet_def)

lemma quiet_release:
  assumes free: "blk \<notin> busyb s" and t: "\<forall>c k. locked s c k \<longrightarrow> locked t c k" "busyb t = insert blk (busyb s)"
    and u: "\<forall>c k. locked u c k = locked t c k" "busyb u = busyb t"
    and v: "cache_inv v" "\<forall>c k. k \<noteq> blk \<longrightarrow> locked v c k = locked u c k" "busyb v = busyb u - {blk}"
  shows "quiet s v"
proof -
  have "locked v c k" if "locked s c k" for c k
  proof -
    have "k \<noteq> blk" using that free by (auto simp: busyb_def)
    moreover have "locked u c k" using t(1) u(1) that by blast
    ultimately show ?thesis using v(2) by simp
  qed
  moreover have "busyb v = busyb s" using v(3) u(2) t(2) free by auto
  ultimately show ?thesis using v(1) by (simp add: quiet_def)
qed

lemma read_block_wp:
  assumes s: "txn s" "room s" and blk: "blk < disksize s" "blk \<notin> busyb s"
  shows "wp (bread 1 blk) (\<lambda>b t. b_data (bufs t b) = view s blk \<and> wp (brelse b) (\<lambda>_ u. same_txn s u) t) s"
proof (rule wp_mono [OF bread_txn [OF s blk]])
  fix b t
  assume t: "txn t \<and> locked t b blk \<and> b_data (bufs t b) = view s blk \<and> view t = view s \<and>
    (\<forall>c k. locked s c k \<longrightarrow> locked t c k) \<and> busyb t = insert blk (busyb s) \<and>
    dirtyb t = dirtyb s \<and> same_disk s t"
  have ft: "frame s t" "lh_n t = lh_n s" "log_blocks t = log_blocks s" using t same_disk_frame [of s t] by auto
  have "blk \<in> dirtyb t \<or> view t blk = disk t blk"
    using view_clean [of s blk] s blk t by (auto simp: txn_def same_disk_def)
  then have "wp (brelse b) (\<lambda>_ u. txn u \<and> view u = view t \<and>
    (\<forall>c k. k \<noteq> blk \<longrightarrow> locked u c k = locked t c k) \<and> busyb u = busyb t - {blk} \<and>
    dirtyb u = dirtyb t \<and> same_disk t u) t"
    using t by (intro brelse_txn) auto
  then have "wp (brelse b) (\<lambda>_ u. same_txn s u) t"
  proof (rule wp_mono)
    fix x u
    assume u: "txn u \<and> view u = view t \<and> (\<forall>c k. k \<noteq> blk \<longrightarrow> locked u c k = locked t c k) \<and>
      busyb u = busyb t - {blk} \<and> dirtyb u = dirtyb t \<and> same_disk t u"
    have "quiet s u"
      by (rule quiet_release [OF blk(2), of t t]) (use t u in \<open>auto simp: txn_def\<close>)
    moreover have "frame t u" "lh_n u = lh_n t" "log_blocks u = log_blocks t" using u same_disk_frame [of t u] by auto
    ultimately show "same_txn s u" using u t ft by (auto simp: same_txn_def intro: frame_trans)
  qed
  with t show "b_data (bufs t b) = view s blk \<and> wp (brelse b) (\<lambda>_ u. same_txn s u) t" by simp
qed

lemma store_log_release_wp:
  fixes s :: "'z logst_scheme"
  assumes s: "txn s" "lh_n s \<le> 28" "home s blk" "blk \<notin> busyb s"
    and t: "txn t" "locked t b blk" "view t = view s" "\<forall>c k. locked s c k \<longrightarrow> locked t c k"
      "busyb t = insert blk (busyb s)" "same_disk s t" and d: "length d = BSIZE"
  shows "wp (bind (set_bdata b d) (\<lambda>_. bind (log_write b) (\<lambda>_. brelse b))) (\<lambda>_ u. updated s u blk d) t"
  unfolding wp_bind_fun
proof (rule wp_mono [OF set_bdata_wp [OF _ t(2) d]])
  have inv: "cache_inv t" using t by (simp add: txn_def)
  then show "cache_inv t" .
  have ft: "frame s t" "lh_n t = lh_n s" "log_blocks t = log_blocks s" using t(6) same_disk_frame [of s t] by auto
  fix x u
  assume u: "cache_inv u \<and> view u = (view t)(blk := d) \<and> (\<forall>c k. locked u c k = locked t c k) \<and>
    busyb u = busyb t \<and> dirtyb u = dirtyb t \<and> same_disk t u"
  then have fu: "frame t u" "lh_n u = lh_n t" "log_blocks u = log_blocks t" using same_disk_frame [of t u] by auto
  have tu: "txn u" using t(1) u fu home_frame [OF fu(1)] by (auto simp: txn_def frame_def)
  have hu: "home u blk" using s(3) home_frame [OF ft(1)] home_frame [OF fu(1)] by simp
  have lu: "locked u b blk" "lh_n u \<le> 28" using u t(2) s(2) ft fu by auto
  show "wp (log_write b) (\<lambda>_. wp (brelse b) (\<lambda>_ v. updated s v blk d)) u"
  proof (rule wp_mono [OF log_write_txn [OF tu lu(1) hu lu(2)]])
    fix x v
    assume v: "txn v \<and> view v = view u \<and> (\<forall>c k. locked v c k = locked u c k) \<and>
      busyb v = busyb u \<and> dirtyb v = insert blk (dirtyb u) \<and> log_blocks v = add_block blk (log_blocks u) \<and>
      lh_n u \<le> lh_n v \<and> lh_n v \<le> lh_n u + 1 \<and> frame u v"
    have "wp (brelse b) (\<lambda>_ w. txn w \<and> view w = view v \<and>
      (\<forall>c k. k \<noteq> blk \<longrightarrow> locked w c k = locked v c k) \<and> busyb w = busyb v - {blk} \<and>
      dirtyb w = dirtyb v \<and> same_disk v w) v"
      by (rule brelse_txn) (use v lu in auto)
    then show "wp (brelse b) (\<lambda>_ w. updated s w blk d) v"
    proof (rule wp_mono)
      fix x w
      assume w: "txn w \<and> view w = view v \<and> (\<forall>c k. k \<noteq> blk \<longrightarrow> locked w c k = locked v c k) \<and>
        busyb w = busyb v - {blk} \<and> dirtyb w = dirtyb v \<and> same_disk v w"
      then have fw: "frame v w" "lh_n w = lh_n v" "log_blocks w = log_blocks v" using same_disk_frame [of v w] by auto
      have "quiet s w"
        by (rule quiet_release [OF s(4) t(4,5), of v]) (use u v w in \<open>auto simp: txn_def\<close>)
      moreover have "frame s w" using ft fu v fw by (blast intro: frame_trans)
      ultimately show "updated s w blk d"
        using w v u t(3) ft fu fw by (simp add: updated_def)
    qed
  qed
qed

lemma update_block_wp:
  fixes s :: "'z logst_scheme"
  assumes s: "txn s" "room s" and blk: "home s blk" "blk \<notin> busyb s"
  shows "wp (bread 1 blk) (\<lambda>b t. b_data (bufs t b) = view s blk \<and>
    (\<forall>d. length d = BSIZE \<longrightarrow>
      wp (bind (set_bdata b d) (\<lambda>_. bind (log_write b) (\<lambda>_. brelse b))) (\<lambda>_ u. updated s u blk d) t) \<and>
    wp (brelse b) (\<lambda>_ u. same_txn s u) t) s"
proof -
  have lt: "blk < disksize s" using blk by (simp add: home_def)
  have n: "lh_n s \<le> 28" using s by (simp add: room_def)
  have r: "wlp (bread 1 blk) (\<lambda>b t. b_data (bufs t b) = view s blk \<and> wp (brelse b) (\<lambda>_ u. same_txn s u) t) s"
    by (rule wp_imp_wlp [OF read_block_wp [OF s lt blk(2)]])
  from wp_wlp [OF bread_txn [OF s lt blk(2)] r] show ?thesis
  proof (rule wp_mono)
    fix b t
    assume t: "(txn t \<and> locked t b blk \<and> b_data (bufs t b) = view s blk \<and> view t = view s \<and>
      (\<forall>c k. locked s c k \<longrightarrow> locked t c k) \<and> busyb t = insert blk (busyb s) \<and> dirtyb t = dirtyb s \<and> same_disk s t) \<and>
      b_data (bufs t b) = view s blk \<and> wp (brelse b) (\<lambda>_ u. same_txn s u) t"
    then show "b_data (bufs t b) = view s blk \<and> (\<forall>d. length d = BSIZE \<longrightarrow>
        wp (bind (set_bdata b d) (\<lambda>_. bind (log_write b) (\<lambda>_. brelse b))) (\<lambda>_ u. updated s u blk d) t) \<and>
      wp (brelse b) (\<lambda>_ u. same_txn s u) t"
      using store_log_release_wp [OF s(1) n blk, of t b] by blast
  qed
qed

text \<open>The two patterns as rules for code in continuation style.\<close>

lemma read_then:
  fixes s :: "'z logst_scheme"
  assumes s: "txn s" "room s" and blk: "blk < disksize s" "blk \<notin> busyb s"
    and Q: "\<And>t. same_txn s t \<Longrightarrow> K (view s blk) t"
  shows "wp (bread 1 blk) (\<lambda>bp. wp (bdata bp) (\<lambda>d. wp (brelse bp) (\<lambda>_. K d))) s"
proof (rule wp_mono [OF read_block_wp [OF s blk]])
  fix b t
  assume t: "b_data (bufs t b) = view s blk \<and> wp (brelse b) (\<lambda>_ u. same_txn s u) t"
  then have "wp (brelse b) (\<lambda>_. K (view s blk)) t" by (blast intro: wp_mono Q)
  with t show "wp (bdata b) (\<lambda>d. wp (brelse b) (\<lambda>_. K d)) t" by (simp add: wp_gets)
qed

lemma rmw_then:
  fixes s :: "'z logst_scheme"
  assumes s: "txn s" "room s" and blk: "home s blk" "blk \<notin> busyb s"
    and len: "length (g (view s blk)) = BSIZE"
    and Q: "\<And>x t. updated s t blk (g (view s blk)) \<Longrightarrow> Q x t"
  shows "wp (bread 1 blk) (\<lambda>bp. wp (bdata bp) (\<lambda>d. wp (set_bdata bp (g d)) (\<lambda>_. wp (log_write bp) (\<lambda>_.
    wp (brelse bp) Q)))) s"
proof (rule wp_mono [OF update_block_wp [OF s blk]])
  fix b t
  assume t: "b_data (bufs t b) = view s blk \<and> (\<forall>d. length d = BSIZE \<longrightarrow>
      wp (bind (set_bdata b d) (\<lambda>_. bind (log_write b) (\<lambda>_. brelse b))) (\<lambda>_ u. updated s u blk d) t) \<and>
    wp (brelse b) (\<lambda>_ u. same_txn s u) t"
  then have "wp (bind (set_bdata b (g (view s blk))) (\<lambda>_. bind (log_write b) (\<lambda>_. brelse b)))
    (\<lambda>_ u. updated s u blk (g (view s blk))) t" using len by blast
  then have "wp (bind (set_bdata b (g (view s blk))) (\<lambda>_. bind (log_write b) (\<lambda>_. brelse b))) Q t"
    by (rule wp_mono) (rule Q)
  with t show "wp (bdata b) (\<lambda>d. wp (set_bdata b (g d)) (\<lambda>_. wp (log_write b) (\<lambda>_. wp (brelse b) Q))) t"
    by (simp add: wp_gets wp_bind_fun)
qed

end
