(* ===== verification/Fs.thy ===== *)
theory Fs
  imports Txn
begin

unbundle bit_operations_syntax

text \<open>
  The file system below directories (fs.c, in the block-group configuration): block and inode
  allocation, the inode cache, and reading and writing the content of an inode.

  The state extends that of the log by the global \<^verbatim>\<open>sb\<close>, the array \<^verbatim>\<open>icache.inode\<close> and the
  current directory \<^verbatim>\<open>proc->cwd\<close> of the running process; an inode pointer is an index of the
  array. \<^verbatim>\<open>short\<close> fields are integers. The loops over block groups, inode numbers and file offsets
  are recursive functions with termination proofs. The device functions in \<^verbatim>\<open>devsw\<close> are parameters
  of \<^verbatim>\<open>readi\<close> and \<^verbatim>\<open>writei\<close>. Debug output is left out.
\<close>

section \<open>State\<close>

record inode =
  i_dev :: nat
  i_inum :: nat
  i_bgn :: nat
  i_ref :: int
  i_busy :: bool
  i_valid :: bool
  i_type :: int
  i_major :: int
  i_minor :: int
  i_nlink :: int
  i_size :: nat
  i_addrs :: "nat list"

record fsst = logst +
  sb :: superblock
  icache :: "nat \<Rightarrow> inode"
  cwd :: nat

abbreviation T_DIR :: int where "T_DIR \<equiv> 1"
abbreviation T_FILE :: int where "T_FILE \<equiv> 2"
abbreviation T_DEV :: int where "T_DEV \<equiv> 3"

abbreviation ino :: "nat \<Rightarrow> ('z fsst_scheme, inode) kop" where
  "ino ip \<equiv> gets (\<lambda>s. icache s ip)"

definition upd_ino :: "nat \<Rightarrow> (inode \<Rightarrow> inode) \<Rightarrow> 'z fsst_scheme \<Rightarrow> 'z fsst_scheme" where
  "upd_ino ip g s = s\<lparr>icache := (icache s)(ip := g (icache s ip))\<rparr>"

section \<open>On-disk inodes\<close>

text \<open>A \<^verbatim>\<open>short\<close> as its 16-bit pattern and back.\<close>

definition as_ushort :: "int \<Rightarrow> nat" where
  "as_ushort n = nat (n mod 2 ^ 16)"

definition as_short :: "nat \<Rightarrow> int" where
  "as_short v = (if v < 2 ^ 15 then int v else int v - 2 ^ 16)"

abbreviation NADDRS :: nat where "NADDRS \<equiv> NDIRECT + 1"

text \<open>The bytes of \<^verbatim>\<open>struct dinode\<close> for an in-memory inode, and the fields read back from them.\<close>

definition encode_dinode :: "inode \<Rightarrow> byte list" where
  "encode_dinode i =
     le16 (as_ushort (i_type i)) @ le16 (as_ushort (i_major i)) @ le16 (as_ushort (i_minor i)) @
     le16 (as_ushort (i_nlink i)) @ le32 (i_size i) @ concat (map le32 (i_addrs i))"

definition load_dinode :: "byte list \<Rightarrow> inode \<Rightarrow> inode" where
  "load_dinode d i = i\<lparr>
     i_type := as_short (le_nat (slice 0 2 d)),
     i_major := as_short (le_nat (slice 2 2 d)),
     i_minor := as_short (le_nat (slice 4 2 d)),
     i_nlink := as_short (le_nat (slice 6 2 d)),
     i_size := le_nat (slice 8 4 d),
     i_addrs := map (\<lambda>j. le_nat (slice (12 + 4 * j) 4 d)) [0..<NADDRS]\<rparr>"

definition DINODE_AT :: "nat \<Rightarrow> superblock \<Rightarrow> nat" where
  "DINODE_AT inum b = DINODEOFFSET inum b * sizeof_dinode"

section \<open>Blocks\<close>

definition bzero :: "nat \<Rightarrow> nat \<Rightarrow> ('z logst_scheme, unit) kop" where
  "bzero dev bno =
     bind (bread dev bno) (\<lambda>bp.
     bind (set_bdata bp (replicate BSIZE 0)) (\<lambda>_.
     bind (log_write bp) (\<lambda>_.
     brelse bp)))"

text \<open>\<^verbatim>\<open>(bp->data[bi/8] & m) == 0\<close>, \<^verbatim>\<open>|= m\<close> and \<^verbatim>\<open>&= ~m\<close> with \<^verbatim>\<open>m = 1 << (bi % 8)\<close>.\<close>

definition bit_free :: "block \<Rightarrow> nat \<Rightarrow> bool" where
  "bit_free d bi \<longleftrightarrow> d ! (bi div 8) AND push_bit (bi mod 8) 1 = 0"

definition mark_bit :: "block \<Rightarrow> nat \<Rightarrow> block" where
  "mark_bit d bi = d[bi div 8 := d ! (bi div 8) OR push_bit (bi mod 8) 1]"

definition clear_bit :: "block \<Rightarrow> nat \<Rightarrow> block" where
  "clear_bit d bi = d[bi div 8 := d ! (bi div 8) AND NOT (push_bit (bi mod 8) 1)]"

text \<open>The search for a free bit in one bitmap, and the search through the block groups.\<close>

definition first_free :: "superblock \<Rightarrow> nat \<Rightarrow> block \<Rightarrow> nat option" where
  "first_free sbk b d = find (bit_free d) [0..<min BPB (sb_size sbk - b)]"

function balloc_scan :: "nat \<Rightarrow> superblock \<Rightarrow> nat \<Rightarrow> nat \<Rightarrow> ('z logst_scheme, nat option) kop" where
  "balloc_scan dev sbk head b =
     (if head < sb_size sbk \<and> b < sb_nblocks sbk then
        bind (bread dev (BBLOCK b sbk)) (\<lambda>bp.
        bind (bdata bp) (\<lambda>d.
        case first_free sbk b d of
          Some bi \<Rightarrow>
            bind (set_bdata bp (mark_bit d bi)) (\<lambda>_.
            bind (log_write bp) (\<lambda>_.
            bind (brelse bp) (\<lambda>_.
            bind (bzero dev (b + bi)) (\<lambda>_.
            return (Some (DBLOCK (bi + b) sbk))))))
        | None \<Rightarrow>
            bind (brelse bp) (\<lambda>_.
            balloc_scan dev sbk (head + BPBG) (b + BPB))))
      else return None)"
  by pat_completeness auto
termination
  by (relation "measure (\<lambda>(dev, sbk, head, b). sb_nblocks sbk - b)") auto

definition balloc :: "nat \<Rightarrow> ('z fsst_scheme, nat) kop" where
  "balloc dev =
     bind (gets (\<lambda>s. i_inum (icache s (cwd s)))) (\<lambda>inum.
     bind (gets sb) (\<lambda>sbk.
     bind (balloc_scan dev sbk (BMAP_HEAD inum sbk) (BGROUP inum sbk * BPB)) (\<lambda>r.
     case r of
       Some blk \<Rightarrow> return blk
     | None \<Rightarrow>
         bind (balloc_scan dev sbk 0 0) (\<lambda>r'.
         case r' of
           Some blk \<Rightarrow> return blk
         | None \<Rightarrow> panic ''balloc: out of blocks''))))"

definition bfree :: "nat \<Rightarrow> nat \<Rightarrow> ('z fsst_scheme, unit) kop" where
  "bfree dev b =
     bind (readsb dev) (\<lambda>x.
     bind (modify (\<lambda>s. s\<lparr>sb := x\<rparr>)) (\<lambda>_.
     bind (bread dev (BBLOCK b x)) (\<lambda>bp.
     bind (bdata bp) (\<lambda>d.
     bind (panic_if (bit_free d (b mod BPB)) ''freeing free block'') (\<lambda>_.
     bind (set_bdata bp (clear_bit d (b mod BPB))) (\<lambda>_.
     bind (log_write bp) (\<lambda>_.
     brelse bp)))))))"

section \<open>The inode cache\<close>

definition iupdate :: "nat \<Rightarrow> ('z fsst_scheme, unit) kop" where
  "iupdate ip =
     bind (ino ip) (\<lambda>i.
     bind (gets sb) (\<lambda>sbk.
     bind (bread (i_dev i) (IBLOCK (i_inum i) sbk)) (\<lambda>bp.
     bind (bdata bp) (\<lambda>d.
     bind (set_bdata bp (blit (DINODE_AT (i_inum i) sbk) (encode_dinode i) d)) (\<lambda>_.
     bind (log_write bp) (\<lambda>_.
     brelse bp))))))"

text \<open>The loop of \<^verbatim>\<open>iget\<close>: a cached entry, or else the first free slot seen.\<close>

fun iget_scan :: "(nat \<Rightarrow> inode) \<Rightarrow> nat \<Rightarrow> nat \<Rightarrow> nat list \<Rightarrow> nat option \<Rightarrow> nat option \<times> nat option" where
  "iget_scan f dev inum [] emp = (None, emp)"
| "iget_scan f dev inum (ip # ips) emp =
     (if 0 < i_ref (f ip) \<and> i_dev (f ip) = dev \<and> i_inum (f ip) = inum then (Some ip, emp)
      else iget_scan f dev inum ips (if emp = None \<and> i_ref (f ip) = 0 then Some ip else emp))"

definition iget :: "nat \<Rightarrow> nat \<Rightarrow> ('z fsst_scheme, nat) kop" where
  "iget dev inum =
     bind (gets icache) (\<lambda>f.
     case iget_scan f dev inum [0..<NINODE] None of
       (Some ip, _) \<Rightarrow>
         bind (modify (upd_ino ip (\<lambda>i. i\<lparr>i_ref := i_ref i + 1\<rparr>))) (\<lambda>_. return ip)
     | (None, Some ip) \<Rightarrow>
         bind (modify (upd_ino ip (\<lambda>i. i\<lparr>i_dev := dev, i_inum := inum, i_ref := 1,
                                        i_busy := False, i_valid := False\<rparr>))) (\<lambda>_. return ip)
     | (None, None) \<Rightarrow> panic ''iget: no inodes'')"

definition idup :: "nat \<Rightarrow> ('z fsst_scheme, nat) kop" where
  "idup ip = bind (modify (upd_ino ip (\<lambda>i. i\<lparr>i_ref := i_ref i + 1\<rparr>))) (\<lambda>_. return ip)"

definition ilock :: "nat \<Rightarrow> ('z fsst_scheme, unit) kop" where
  "ilock ip =
     bind (ino ip) (\<lambda>i.
     bind (panic_if (i_ref i < 1) ''ilock'') (\<lambda>_.
     if i_busy i then sleep_on (ChanInode ip)
     else
       bind (modify (upd_ino ip (i_busy_update (\<lambda>_. True)))) (\<lambda>_.
       whenk (\<not> i_valid i)
         (bind (gets sb) (\<lambda>sbk.
          bind (bread (i_dev i) (IBLOCK (i_inum i) sbk)) (\<lambda>bp.
          bind (bdata bp) (\<lambda>d.
          bind (modify (upd_ino ip (load_dinode (slice (DINODE_AT (i_inum i) sbk) sizeof_dinode d)))) (\<lambda>_.
          bind (brelse bp) (\<lambda>_.
          bind (modify (upd_ino ip (i_valid_update (\<lambda>_. True)))) (\<lambda>_.
          bind (ino ip) (\<lambda>i'.
          panic_if (i_type i' = 0) ''ilock: no type'')))))))))))"

definition iunlock :: "nat \<Rightarrow> ('z fsst_scheme, unit) kop" where
  "iunlock ip =
     bind (ino ip) (\<lambda>i.
     bind (panic_if (\<not> i_busy i \<or> i_ref i < 1) ''iunlock'') (\<lambda>_.
     bind (modify (upd_ino ip (i_busy_update (\<lambda>_. False)))) (\<lambda>_.
     wakeup_on (ChanInode ip))))"

section \<open>Inode content\<close>

definition bmap :: "nat \<Rightarrow> nat \<Rightarrow> ('z fsst_scheme, nat) kop" where
  "bmap ip bn =
     bind (ino ip) (\<lambda>i.
     if bn < NDIRECT then
       if i_addrs i ! bn = 0 then
         bind (balloc (i_dev i)) (\<lambda>addr.
         bind (modify (upd_ino ip (\<lambda>i. i\<lparr>i_addrs := (i_addrs i)[bn := addr]\<rparr>))) (\<lambda>_.
         return addr))
       else return (i_addrs i ! bn)
     else if bn - NDIRECT < NINDIRECT then
       bind (if i_addrs i ! NDIRECT = 0 then
               bind (balloc (i_dev i)) (\<lambda>addr.
               bind (modify (upd_ino ip (\<lambda>i. i\<lparr>i_addrs := (i_addrs i)[NDIRECT := addr]\<rparr>))) (\<lambda>_.
               return addr))
             else return (i_addrs i ! NDIRECT)) (\<lambda>ind.
       bind (bread (i_dev i) ind) (\<lambda>bp.
       bind (bdata bp) (\<lambda>d.
       bind (if le_nat (slice (4 * (bn - NDIRECT)) 4 d) = 0 then
               bind (balloc (i_dev i)) (\<lambda>addr.
               bind (bdata bp) (\<lambda>d'.
               bind (set_bdata bp (blit (4 * (bn - NDIRECT)) (le32 addr) d')) (\<lambda>_.
               bind (log_write bp) (\<lambda>_.
               return addr))))
             else return (le_nat (slice (4 * (bn - NDIRECT)) 4 d))) (\<lambda>addr.
       bind (brelse bp) (\<lambda>_.
       return addr)))))
     else panic ''bmap: out of range'')"

definition itrunc :: "nat \<Rightarrow> ('z fsst_scheme, unit) kop" where
  "itrunc ip =
     bind (for_each [0..<NDIRECT] (\<lambda>j.
       bind (ino ip) (\<lambda>i.
       whenk (i_addrs i ! j \<noteq> 0)
         (bind (bfree (i_dev i) (i_addrs i ! j)) (\<lambda>_.
          modify (upd_ino ip (\<lambda>i. i\<lparr>i_addrs := (i_addrs i)[j := 0]\<rparr>)))))) ) (\<lambda>_.
     bind (ino ip) (\<lambda>i.
     bind (whenk (i_addrs i ! NDIRECT \<noteq> 0)
       (bind (bread (i_dev i) (i_addrs i ! NDIRECT)) (\<lambda>bp.
        bind (for_each [0..<NINDIRECT] (\<lambda>j.
          bind (bdata bp) (\<lambda>d.
          whenk (le_nat (slice (4 * j) 4 d) \<noteq> 0) (bfree (i_dev i) (le_nat (slice (4 * j) 4 d)))))) (\<lambda>_.
        bind (brelse bp) (\<lambda>_.
        bind (bfree (i_dev i) (i_addrs i ! NDIRECT)) (\<lambda>_.
        modify (upd_ino ip (\<lambda>i. i\<lparr>i_addrs := (i_addrs i)[NDIRECT := 0]\<rparr>)))))))) (\<lambda>_.
     bind (modify (upd_ino ip (i_size_update (\<lambda>_. 0)))) (\<lambda>_.
     iupdate ip))))"

definition iput :: "nat \<Rightarrow> ('z fsst_scheme, unit) kop" where
  "iput ip =
     bind (ino ip) (\<lambda>i.
     bind (whenk (i_ref i = 1 \<and> i_valid i \<and> i_nlink i = 0)
       (bind (panic_if (i_busy i) ''iput busy'') (\<lambda>_.
        bind (modify (upd_ino ip (i_busy_update (\<lambda>_. True)))) (\<lambda>_.
        bind (itrunc ip) (\<lambda>_.
        bind (modify (upd_ino ip (i_type_update (\<lambda>_. 0)))) (\<lambda>_.
        bind (iupdate ip) (\<lambda>_.
        bind (modify (upd_ino ip (\<lambda>i. i\<lparr>i_busy := False, i_valid := False\<rparr>))) (\<lambda>_.
        wakeup_on (ChanInode ip))))))))) (\<lambda>_.
     modify (upd_ino ip (\<lambda>i. i\<lparr>i_ref := i_ref i - 1\<rparr>))))"

definition iunlockput :: "nat \<Rightarrow> ('z fsst_scheme, unit) kop" where
  "iunlockput ip = bind (iunlock ip) (\<lambda>_. iput ip)"

record stat =
  st_type :: int
  st_dev :: nat
  st_ino :: nat
  st_nlink :: int
  st_size :: nat

definition stati :: "nat \<Rightarrow> ('z fsst_scheme, stat) kop" where
  "stati ip = bind (ino ip) (\<lambda>i.
     return \<lparr>st_type = i_type i, st_dev = i_dev i, st_ino = i_inum i, st_nlink = i_nlink i, st_size = i_size i\<rparr>)"

section \<open>Reading and writing\<close>

text \<open>
  \<^verbatim>\<open>devsw[major].read\<close> and \<^verbatim>\<open>.write\<close>: \<open>None\<close> is a null pointer. A read returns its count and the
  bytes it stored.
\<close>

record 's devsw =
  dev_read :: "nat \<Rightarrow> (nat \<Rightarrow> nat \<Rightarrow> ('s, int \<times> byte list) kop) option"
  dev_write :: "nat \<Rightarrow> (nat \<Rightarrow> byte list \<Rightarrow> ('s, int) kop) option"

text \<open>The step of the copy loops: what is left of the request or of the block.\<close>

definition chunk :: "nat \<Rightarrow> nat \<Rightarrow> nat" where
  "chunk left off = min left (BSIZE - off mod BSIZE)"

lemma chunk_pos: "0 < left \<Longrightarrow> 0 < chunk left off"
  by (simp add: chunk_def)

function readi_loop :: "nat \<Rightarrow> nat \<Rightarrow> nat \<Rightarrow> ('z fsst_scheme, byte list) kop" where
  "readi_loop ip off left =
     (if left = 0 then return []
      else
        bind (ino ip) (\<lambda>i.
        bind (bmap ip (off div BSIZE)) (\<lambda>addr.
        bind (bread (i_dev i) addr) (\<lambda>bp.
        bind (bdata bp) (\<lambda>d.
        bind (brelse bp) (\<lambda>_.
        bind (readi_loop ip (off + chunk left off) (left - chunk left off)) (\<lambda>rest.
        return (slice (off mod BSIZE) (chunk left off) d @ rest))))))))"
  by pat_completeness auto
termination
  by (relation "measure (\<lambda>(ip, off, left). left)") (auto simp: chunk_pos)

definition readi :: "'z fsst_scheme devsw \<Rightarrow> nat \<Rightarrow> nat \<Rightarrow> nat \<Rightarrow> ('z fsst_scheme, int \<times> byte list) kop" where
  "readi dv ip off n =
     bind (ino ip) (\<lambda>i.
     if i_type i = T_DEV then
       if i_major i < 0 \<or> i_major i \<ge> int NDEV then return (-1, [])
       else (case dev_read dv (nat (i_major i)) of
               None \<Rightarrow> return (-1, [])
             | Some f \<Rightarrow> f ip n)
     else if off > i_size i \<or> (off + n) mod 2 ^ 32 < off then return (-1, [])
     else
       let n' = (if off + n > i_size i then i_size i - off else n) in
       bind (readi_loop ip off n') (\<lambda>d.
       return (int n', d)))"

function writei_loop :: "nat \<Rightarrow> byte list \<Rightarrow> nat \<Rightarrow> ('z fsst_scheme, unit) kop" where
  "writei_loop ip src off =
     (if src = [] then return ()
      else
        bind (ino ip) (\<lambda>i.
        bind (bmap ip (off div BSIZE)) (\<lambda>addr.
        bind (bread (i_dev i) addr) (\<lambda>bp.
        bind (bdata bp) (\<lambda>d.
        bind (set_bdata bp (blit (off mod BSIZE) (take (chunk (length src) off) src) d)) (\<lambda>_.
        bind (log_write bp) (\<lambda>_.
        bind (brelse bp) (\<lambda>_.
        writei_loop ip (drop (chunk (length src) off) src) (off + chunk (length src) off)))))))))"
  by pat_completeness auto
termination
  by (relation "measure (\<lambda>(ip, src, off). length src)") (auto simp: chunk_pos)

definition writei :: "'z fsst_scheme devsw \<Rightarrow> nat \<Rightarrow> byte list \<Rightarrow> nat \<Rightarrow> ('z fsst_scheme, int) kop" where
  "writei dv ip src off =
     bind (ino ip) (\<lambda>i.
     if i_type i = T_DEV then
       if i_major i < 0 \<or> i_major i \<ge> int NDEV then return (-1)
       else (case dev_write dv (nat (i_major i)) of
               None \<Rightarrow> return (-1)
             | Some f \<Rightarrow> f ip src)
     else if off > i_size i \<or> (off + length src) mod 2 ^ 32 < off then return (-1)
     else if off + length src > MAXFILE * BSIZE then return (-1)
     else
       bind (writei_loop ip src off) (\<lambda>_.
       bind (ino ip) (\<lambda>i'.
       bind (whenk (0 < length src \<and> off + length src > i_size i')
         (bind (modify (upd_ino ip (i_size_update (\<lambda>_. off + length src)))) (\<lambda>_. iupdate ip))) (\<lambda>_.
       return (int (length src))))))"

end
