(* ===== verification/Inode_Spec.thy ===== *)
theory Inode_Spec
  imports Fs Demo
begin

text \<open>
  The inode cache and the on-disk inodes: \<^verbatim>\<open>iget\<close>, \<^verbatim>\<open>ilock\<close> and \<^verbatim>\<open>iupdate\<close> of fs.c.

  Records of a fixed size at fixed places of the disk (the inodes of a block, the statistics
  records) are described by the locale \<open>disk_slots\<close>: its laws say that the places fit into their
  blocks and do not overlap, its lemmas that writing one record leaves the others alone. It is
  interpreted on the layout macros of fs.h.
\<close>

section \<open>Records on disk\<close>

locale disk_slots =
  fixes blkof :: "nat \<Rightarrow> nat" and offof :: "nat \<Rightarrow> nat" and len :: nat
  assumes fits: "offof i + len \<le> BSIZE"
    and apart: "i \<noteq> j \<Longrightarrow> blkof i = blkof j \<Longrightarrow> offof i + len \<le> offof j \<or> offof j + len \<le> offof i"
begin

lemma get_put_same:
  assumes "length r = len" and "length (v (blkof i)) = BSIZE"
  shows "slice (offof i) len ((v(blkof i := blit (offof i) r (v (blkof i)))) (blkof i)) = r"
  using assms fits [of i] by (simp add: slice_blit_same)

lemma get_put_other:
  assumes "i \<noteq> j" and "length r = len" and "length (v (blkof i)) = BSIZE"
  shows "slice (offof j) len ((v(blkof i := blit (offof i) r (v (blkof i)))) (blkof j)) =
    slice (offof j) len (v (blkof j))"
proof (cases "blkof i = blkof j")
  case True
  then show ?thesis
    using assms apart [OF assms(1) True] fits [of i] fits [of j] by (auto intro!: slice_blit_other)
next
  case False
  then show ?thesis by simp
qed

end

lemma dinode_slots: "geometry sbk \<Longrightarrow> disk_slots (\<lambda>i. IBLOCK i sbk) (\<lambda>i. DINODE_AT i sbk) sizeof_dinode"
proof
  assume g: "geometry sbk"
  fix i j
  have lt: "DINODEOFFSET k sbk < 8" for k by (simp add: DINODEOFFSET_def)
  show "DINODE_AT i sbk + sizeof_dinode \<le> BSIZE" using lt [of i] by (simp add: DINODE_AT_def)
  show "DINODE_AT i sbk + sizeof_dinode \<le> DINODE_AT j sbk \<or> DINODE_AT j sbk + sizeof_dinode \<le> DINODE_AT i sbk"
    if "i \<noteq> j" "IBLOCK i sbk = IBLOCK j sbk"
  proof -
    have "DINODEOFFSET i sbk \<noteq> DINODEOFFSET j sbk" using inode_slot_inj [OF g] that by blast
    then show ?thesis unfolding DINODE_AT_def by linarith
  qed
qed

lemma stat_slots: "geometry sbk \<Longrightarrow> disk_slots (\<lambda>g. STATBLOCK g sbk) (\<lambda>_. STATOFF) sizeof_ff_stats"
proof
  assume g: "geometry sbk"
  show "STATOFF + sizeof_ff_stats \<le> BSIZE" by (simp add: STATOFF_def)
  fix i j
  assume "i \<noteq> j" and "STATBLOCK i sbk = STATBLOCK j sbk"
  then show "STATOFF + sizeof_ff_stats \<le> STATOFF \<or> STATOFF + sizeof_ff_stats \<le> STATOFF"
    using g by (simp add: STATBLOCK_def geometryD)
qed

interpretation dinodes: disk_slots "\<lambda>i. IBLOCK i mkfs_sb" "\<lambda>i. DINODE_AT i mkfs_sb" sizeof_dinode
  by (rule dinode_slots [OF mkfs_sb_geometry])

interpretation bgstats: disk_slots "\<lambda>g. STATBLOCK g mkfs_sb" "\<lambda>_. STATOFF" sizeof_ff_stats
  by (rule stat_slots [OF mkfs_sb_geometry])

section \<open>Encoding of inodes\<close>

definition dinode_at :: "(nat \<Rightarrow> block) \<Rightarrow> superblock \<Rightarrow> nat \<Rightarrow> byte list" where
  "dinode_at v sbk inum = slice (DINODE_AT inum sbk) sizeof_dinode (v (IBLOCK inum sbk))"

text \<open>The fields of an inode are in the ranges of their C types.\<close>

definition short_range :: "int \<Rightarrow> bool" where
  "short_range n \<longleftrightarrow> - (2 ^ 15) \<le> n \<and> n < 2 ^ 15"

definition inode_ok :: "inode \<Rightarrow> bool" where
  "inode_ok i \<longleftrightarrow> short_range (i_type i) \<and> short_range (i_major i) \<and> short_range (i_minor i) \<and>
     short_range (i_nlink i) \<and> i_size i < 2 ^ 32 \<and> length (i_addrs i) = NADDRS \<and>
     (\<forall>a\<in>set (i_addrs i). a < 2 ^ 32)"

lemma as_short_as_ushort: "short_range n \<Longrightarrow> as_short (as_ushort n) = n"
proof -
  assume r: "short_range n"
  show ?thesis
  proof (cases "0 \<le> n")
    case True
    with r show ?thesis by (simp add: short_range_def as_short_def as_ushort_def nat_less_iff)
  next
    case False
    have "(n + 2 ^ 16) mod 2 ^ 16 = n + 2 ^ 16"
      using False r by (intro mod_pos_pos_trivial) (auto simp: short_range_def)
    then have "n mod 2 ^ 16 = n + 2 ^ 16" by simp
    with False r show ?thesis by (simp add: short_range_def as_short_def as_ushort_def nat_less_iff)
  qed
qed

lemma as_ushort_bound: "as_ushort n < 2 ^ 16"
  by (simp add: as_ushort_def nat_less_iff)

lemma length_concat_le32 [simp]: "length (concat (map le32 xs)) = 4 * length xs"
  by (induction xs) simp_all

lemma length_encode_dinode [simp]: "length (i_addrs i) = NADDRS \<Longrightarrow> length (encode_dinode i) = sizeof_dinode"
  by (simp add: encode_dinode_def)

lemma slice_concat_le32: "j < length xs \<Longrightarrow> slice (4 * j) 4 (concat (map le32 xs)) = le32 (xs ! j)"
proof (induction xs arbitrary: j)
  case Nil
  then show ?case by simp
next
  case (Cons x xs)
  then show ?case by (cases j) (auto simp: slice_def)
qed

lemma slice_append_right: "length xs = k \<Longrightarrow> slice (k + off) n (xs @ ys) = slice off n ys"
  by (simp add: slice_def)

lemma load_encode:
  assumes "inode_ok i"
  shows "load_dinode (encode_dinode i) j = j\<lparr>i_type := i_type i, i_major := i_major i, i_minor := i_minor i,
    i_nlink := i_nlink i, i_size := i_size i, i_addrs := i_addrs i\<rparr>"
proof -
  let ?e = "encode_dinode i" and ?as = "concat (map le32 (i_addrs i))"
  have sh: "as_short (le_nat (le16 (as_ushort n))) = n" if "short_range n" for n
    using that as_ushort_bound [of n] by (simp add: le16_roundtrip as_short_as_ushort)
  have f: "slice 0 2 ?e = le16 (as_ushort (i_type i))" "slice 2 2 ?e = le16 (as_ushort (i_major i))"
    "slice 4 2 ?e = le16 (as_ushort (i_minor i))" "slice 6 2 ?e = le16 (as_ushort (i_nlink i))"
    "slice 8 4 ?e = le32 (i_size i)"
    by (simp_all add: encode_dinode_def slice_def)
  have "slice (12 + 4 * k) 4 ?e = slice (4 * k) 4 ?as" for k
    by (simp add: encode_dinode_def slice_def)
  then have "le_nat (slice (12 + 4 * k) 4 ?e) = i_addrs i ! k" if "k < NADDRS" for k
    using that assms by (simp add: slice_concat_le32 inode_ok_def le32_roundtrip)
  then have "map (\<lambda>k. le_nat (slice (12 + 4 * k) 4 ?e)) [0..<NADDRS] = map ((!) (i_addrs i)) [0..<NADDRS]"
    by simp
  also have "\<dots> = i_addrs i" using assms by (metis inode_ok_def map_nth)
  finally have a: "map (\<lambda>k. le_nat (slice (12 + 4 * k) 4 ?e)) [0..<NADDRS] = i_addrs i" .
  show ?thesis
    unfolding load_dinode_def f a using assms by (simp add: sh inode_ok_def le32_roundtrip)
qed

section \<open>Writing an inode back and reading it in\<close>

lemma fs_more:
  fixes s t :: "'z fsst_scheme"
  assumes "logst.more t = logst.more s"
  shows "sb t = sb s" "icache t = icache s" "cwd t = cwd s" "fsst.more t = fsst.more s"
  using assms by (cases s; cases t; simp)+

lemma frame_fs: "frame s t \<Longrightarrow> sb t = sb s \<and> icache t = icache s \<and> cwd t = cwd s"
  for s t :: "'z fsst_scheme"
  using fs_more [of t s] by (simp add: frame_def)

text \<open>The state of a transaction in which inode \<open>inum\<close> can be read and written.\<close>

definition can_inode :: "'z fsst_scheme \<Rightarrow> nat \<Rightarrow> bool" where
  "can_inode s inum \<longleftrightarrow> txn s \<and> room s \<and> geometry (sb s) \<and> home s (IBLOCK inum (sb s)) \<and>
     IBLOCK inum (sb s) \<notin> busyb s"

lemma dinode_fits: "DINODE_AT inum sbk + sizeof_dinode \<le> BSIZE"
proof -
  have "DINODEOFFSET inum sbk < 8" by (simp add: DINODEOFFSET_def)
  then show ?thesis by (simp add: DINODE_AT_def)
qed

lemma iupdate_wp:
  fixes s :: "'z fsst_scheme"
  assumes c: "can_inode s (i_inum (icache s ip))" and dev: "i_dev (icache s ip) = 1"
    and len: "length (i_addrs (icache s ip)) = NADDRS"
  defines "i \<equiv> icache s ip"
  shows "wp (iupdate ip) (\<lambda>_ t. updated s t (IBLOCK (i_inum i) (sb s))
    (blit (DINODE_AT (i_inum i) (sb s)) (encode_dinode i) (view s (IBLOCK (i_inum i) (sb s))))) s"
proof -
  let ?b = "IBLOCK (i_inum i) (sb s)"
  let ?d = "blit (DINODE_AT (i_inum i) (sb s)) (encode_dinode i) (view s ?b)"
  have s: "txn s" "room s" "home s ?b" "?b \<notin> busyb s" using c by (auto simp: can_inode_def i_def)
  have "cache_inv s" "?b < disksize s" using s by (auto simp: txn_def home_def)
  then have vl: "length (view s ?b) = BSIZE" by (rule view_length)
  have l: "length ?d = BSIZE"
    using dinode_fits [of "i_inum i" "sb s"] vl len by (simp add: i_def)
  show ?thesis
    unfolding iupdate_def wp_bind_fun wp_gets [of "\<lambda>s. icache s ip"] wp_gets [of sb] i_def [symmetric] dev [folded i_def]
    by (rule rmw_then [OF s]) (rule l)
qed

lemma upd_ino_simps [simp]:
  fixes s :: "'z fsst_scheme"
  shows "icache (upd_ino ip g s) = (icache s)(ip := g (icache s ip))" "sb (upd_ino ip g s) = sb s"
    "cwd (upd_ino ip g s) = cwd s" "bufs (upd_ino ip g s) = bufs s" "disk (upd_ino ip g s) = disk s"
    "disksize (upd_ino ip g s) = disksize s" "dwrites (upd_ino ip g s) = dwrites s"
    "lstart (upd_ino ip g s) = lstart s" "lsize (upd_ino ip g s) = lsize s" "ldev (upd_ino ip g s) = ldev s"
    "outstanding (upd_ino ip g s) = outstanding s" "committing (upd_ino ip g s) = committing s"
    "lh_n (upd_ino ip g s) = lh_n s" "lh_block (upd_ino ip g s) = lh_block s"
  by (simp_all add: upd_ino_def)

lemma upd_ino_cache [simp]:
  fixes s :: "'z fsst_scheme"
  shows "locked (upd_ino ip g s) = locked s" "view (upd_ino ip g s) = view s"
    "busyb (upd_ino ip g s) = busyb s" "dirtyb (upd_ino ip g s) = dirtyb s"
    "cache_inv (upd_ino ip g s) = cache_inv s"
  by (rule bio_cong; simp)+

lemma upd_ino_txn [simp]:
  fixes s :: "'z fsst_scheme"
  shows "log_blocks (upd_ino ip g s) = log_blocks s" "home (upd_ino ip g s) = home s"
    "room (upd_ino ip g s) = room s" "txn (upd_ino ip g s) = txn s"
proof -
  show l: "log_blocks (upd_ino ip g s) = log_blocks s" by (simp add: log_blocks_def)
  show h: "home (upd_ino ip g s) = home s" by (simp add: home_def fun_eq_iff)
  show "room (upd_ino ip g s) = room s" by (simp add: room_def)
  show "txn (upd_ino ip g s) = txn s" by (simp add: txn_def l h)
qed

lemma upd_ino_frame:
  fixes s t :: "'z fsst_scheme"
  assumes "frame s t"
  shows "frame (upd_ino ip g s) (upd_ino ip g t)"
  using assms by (cases s; cases t) (simp add: frame_def upd_ino_def)

lemma read_upd_then:
  fixes s :: "'z fsst_scheme"
  assumes s: "txn s" "room s" and blk: "blk < disksize s" "blk \<notin> busyb s"
    and Q: "\<And>t. same_txn (upd_ino ip (g (view s blk)) s) t \<Longrightarrow> K (view s blk) t"
  shows "wp (bread 1 blk) (\<lambda>bp. wp (bdata bp) (\<lambda>d. wp (modify (upd_ino ip (g d))) (\<lambda>_. wp (brelse bp) (\<lambda>_. K d)))) s"
proof (rule wp_mono [OF bread_txn [OF s blk]])
  let ?d = "view s blk"
  fix b t
  assume t: "txn t \<and> locked t b blk \<and> b_data (bufs t b) = ?d \<and> view t = view s \<and>
    (\<forall>c k. locked s c k \<longrightarrow> locked t c k) \<and> busyb t = insert blk (busyb s) \<and> dirtyb t = dirtyb s \<and> same_disk s t"
  let ?u = "upd_ino ip (g ?d) t"
  have ft: "frame s t" "lh_n t = lh_n s" "log_blocks t = log_blocks s" using t same_disk_frame [of s t] by auto
  have fu: "frame (upd_ino ip (g ?d) s) ?u" by (rule upd_ino_frame [OF ft(1)])
  have "blk \<in> dirtyb t \<or> view t blk = disk t blk"
    using view_clean [of s blk] s blk t by (auto simp: txn_def same_disk_def)
  then have "wp (brelse b) (\<lambda>_ v. txn v \<and> view v = view ?u \<and> (\<forall>c k. k \<noteq> blk \<longrightarrow> locked v c k = locked ?u c k) \<and>
    busyb v = busyb ?u - {blk} \<and> dirtyb v = dirtyb ?u \<and> same_disk ?u v) ?u"
    using t by (intro brelse_txn) auto
  then have "wp (brelse b) (\<lambda>_. K ?d) ?u"
  proof (rule wp_mono)
    fix x v
    assume v: "txn v \<and> view v = view ?u \<and> (\<forall>c k. k \<noteq> blk \<longrightarrow> locked v c k = locked ?u c k) \<and>
      busyb v = busyb ?u - {blk} \<and> dirtyb v = dirtyb ?u \<and> same_disk ?u v"
    have "quiet s v"
      by (rule quiet_release [OF blk(2), of t t]) (use t v in \<open>auto simp: txn_def\<close>)
    moreover have "frame ?u v" "lh_n v = lh_n ?u" "log_blocks v = log_blocks ?u"
      using v same_disk_frame [of ?u v] by auto
    ultimately have "same_txn (upd_ino ip (g ?d) s) v"
      using v t ft fu by (auto simp: same_txn_def quiet_def intro: frame_trans)
    then show "K ?d v" by (rule Q)
  qed
  with t show "wp (bdata b) (\<lambda>d. wp (modify (upd_ino ip (g d))) (\<lambda>_. wp (brelse b) (\<lambda>_. K d))) t"
    by (simp add: wp_simps)
qed

text \<open>Reading an inode in: \<^verbatim>\<open>ilock\<close> on a cache entry that is not valid yet.\<close>

definition loaded :: "'z fsst_scheme \<Rightarrow> nat \<Rightarrow> inode" where
  "loaded s ip = (load_dinode (dinode_at (view s) (sb s) (i_inum (icache s ip))) (icache s ip))
     \<lparr>i_busy := True, i_valid := True\<rparr>"

lemma load_dinode_busy: "load_dinode d (i\<lparr>i_busy := b\<rparr>) = (load_dinode d i)\<lparr>i_busy := b\<rparr>"
  by (cases i) (simp add: load_dinode_def)

lemma same_txn_fs:
  fixes s t :: "'z fsst_scheme"
  shows "same_txn s t \<Longrightarrow> sb t = sb s \<and> icache t = icache s \<and> cwd t = cwd s"
  using frame_fs [of s t] by (simp add: same_txn_def)

lemma same_txn_upd:
  fixes s t :: "'z fsst_scheme"
  assumes "same_txn (upd_ino ip g s) t"
  shows "same_txn (upd_ino ip (h o g) s) (upd_ino ip h t)"
proof -
  have "frame (upd_ino ip h (upd_ino ip g s)) (upd_ino ip h t)"
    using assms by (intro upd_ino_frame) (simp add: same_txn_def)
  moreover have "upd_ino ip h (upd_ino ip g s) = upd_ino ip (h o g) s" by (simp add: upd_ino_def)
  ultimately show ?thesis using assms by (simp add: same_txn_def quiet_def)
qed

lemma ilock_wp:
  fixes s :: "'z fsst_scheme"
  assumes c: "can_inode s (i_inum (icache s ip))" and i: "i_dev (icache s ip) = 1" "1 \<le> i_ref (icache s ip)"
    "\<not> i_busy (icache s ip)" "\<not> i_valid (icache s ip)" and type: "i_type (loaded s ip) \<noteq> 0"
  shows "wp (ilock ip) (\<lambda>_ t. same_txn (upd_ino ip (\<lambda>_. loaded s ip) s) t) s"
proof -
  let ?i = "icache s ip" and ?b = "IBLOCK (i_inum (icache s ip)) (sb s)"
  let ?busy = "i_busy_update (\<lambda>_. True)" and ?valid = "i_valid_update (\<lambda>_. True)"
  let ?load = "\<lambda>d. load_dinode (slice (DINODE_AT (i_inum ?i) (sb s)) sizeof_dinode d)"
  let ?u = "upd_ino ip ?busy s"
  have s: "txn ?u" "room ?u" "?b < disksize ?u" "?b \<notin> busyb ?u"
    using c by (auto simp: can_inode_def home_def)
  have eq: "upd_ino ip (?valid o (?load (view s ?b))) ?u = upd_ino ip (\<lambda>_. loaded s ip) s"
    by (simp add: upd_ino_def loaded_def load_dinode_busy dinode_at_def)
  have "wp (bread 1 ?b) (\<lambda>bp. wp (bdata bp) (\<lambda>d. wp (modify (upd_ino ip (?load d))) (\<lambda>_. wp (brelse bp) (\<lambda>_.
      wp (modify (upd_ino ip ?valid)) (\<lambda>_. wp (ino ip) (\<lambda>i'. wp (panic_if (i_type i' = 0) ''ilock: no type'')
        (\<lambda>_ t. same_txn (upd_ino ip (\<lambda>_. loaded s ip) s) t))))))) ?u"
  proof (rule read_upd_then [OF s])
    fix t
    assume "same_txn (upd_ino ip (?load (view ?u ?b)) ?u) t"
    from same_txn_upd [OF this, of ?valid] eq
    have r: "same_txn (upd_ino ip (\<lambda>_. loaded s ip) s) (upd_ino ip ?valid t)" by simp
    then have "icache (upd_ino ip ?valid t) ip = loaded s ip" using same_txn_fs [OF r] by simp
    with r type show "wp (modify (upd_ino ip ?valid)) (\<lambda>_. wp (ino ip) (\<lambda>i'.
        wp (panic_if (i_type i' = 0) ''ilock: no type'')
        (\<lambda>_ t. same_txn (upd_ino ip (\<lambda>_. loaded s ip) s) t))) t"
      by (simp add: wp_simps)
  qed
  then show ?thesis
    using i by (simp add: ilock_def wp_simps wp_bind_fun wp_gets [of sb])
qed

section \<open>The round trip through the disk\<close>

lemma updated_fs:
  fixes s t :: "'z fsst_scheme"
  shows "updated s t blk d \<Longrightarrow> sb t = sb s \<and> icache t = icache s \<and> cwd t = cwd s"
  using frame_fs [of s t] by (simp add: updated_def)

lemma dinode_at_updated:
  assumes g: "geometry sbk" and len: "length (v (IBLOCK inum sbk)) = BSIZE" "length e = sizeof_dinode"
  shows "dinode_at (v(IBLOCK inum sbk := blit (DINODE_AT inum sbk) e (v (IBLOCK inum sbk)))) sbk k =
    (if k = inum then e else dinode_at v sbk k)"
proof (cases "k = inum")
  case True
  then show ?thesis using disk_slots.get_put_same [OF dinode_slots [OF g] len(2), of v inum] len
    by (simp add: dinode_at_def)
next
  case False
  then show ?thesis
    using disk_slots.get_put_other [OF dinode_slots [OF g] _ len(2), of inum k v] len
    by (simp add: dinode_at_def)
qed

text \<open>
  C5. An inode that \<^verbatim>\<open>iupdate\<close> wrote back is read in again unchanged by a later \<^verbatim>\<open>ilock\<close> through
  any cache entry for the same inode number, and a cache entry for any other inode number reads in
  what it would have read before: no inode is lost or damaged, whatever blocks they share.
\<close>

theorem iupdate_ilock_roundtrip:
  fixes s :: "'z fsst_scheme"
  assumes "can_inode s (i_inum (icache s ip))" and "can_inode s (i_inum (icache s jp))"
    and "int (card (busyb s)) + lh_n s \<le> 27"
    and "i_dev (icache s ip) = 1" and "inode_ok (icache s ip)" and "i_type (icache s ip) \<noteq> 0"
    and "i_dev (icache s jp) = 1" and "1 \<le> i_ref (icache s jp)" and "\<not> i_busy (icache s jp)"
    and "\<not> i_valid (icache s jp)" and "i_type (loaded s jp) \<noteq> 0"
  shows "wp (bind (iupdate ip) (\<lambda>_. ilock jp))
    (\<lambda>_ t. icache t jp =
       (if i_inum (icache s jp) = i_inum (icache s ip)
        then (icache s jp)\<lparr>i_type := i_type (icache s ip), i_major := i_major (icache s ip),
          i_minor := i_minor (icache s ip), i_nlink := i_nlink (icache s ip),
          i_size := i_size (icache s ip), i_addrs := i_addrs (icache s ip),
          i_busy := True, i_valid := True\<rparr>
        else loaded s jp)) s"
  unfolding wp_bind_fun
proof (rule wp_mono [OF iupdate_wp [OF assms(1,4)]])
  let ?i = "icache s ip" and ?b = "IBLOCK (i_inum (icache s ip)) (sb s)" and ?v = "view s"
  let ?e = "blit (DINODE_AT (i_inum ?i) (sb s)) (encode_dinode ?i) (?v ?b)"
  show len: "length (i_addrs ?i) = NADDRS" using assms(5) by (simp add: inode_ok_def)
  have g: "geometry (sb s)" and vl: "length (?v ?b) = BSIZE"
    using assms(1) view_length [of s ?b] by (auto simp: can_inode_def txn_def home_def)
  fix x t
  assume u: "updated s t ?b ?e"
  then have f: "sb t = sb s" "icache t = icache s" using updated_fs by auto
  have v: "view t = ?v(?b := ?e)" using u by (simp add: updated_def)
  have d: "dinode_at (view t) (sb s) k = (if k = i_inum ?i then encode_dinode ?i else dinode_at ?v (sb s) k)" for k
    unfolding v by (rule dinode_at_updated [OF g]) (simp_all add: len vl)
  have l: "loaded t jp = (if i_inum (icache s jp) = i_inum ?i
      then (icache s jp)\<lparr>i_type := i_type ?i, i_major := i_major ?i, i_minor := i_minor ?i,
        i_nlink := i_nlink ?i, i_size := i_size ?i, i_addrs := i_addrs ?i, i_busy := True, i_valid := True\<rparr>
      else loaded s jp)"
    by (simp add: loaded_def f d load_encode [OF assms(5)])
  have "home t = home s" "busyb t = busyb s" "lh_n t \<le> lh_n s + 1" "txn t"
    using u home_frame [of s t] by (auto simp: updated_def quiet_def)
  then have c: "can_inode t (i_inum (icache t jp))"
    using assms(2,3) by (simp add: can_inode_def f room_def)
  have ty: "i_type (loaded t jp) \<noteq> 0" using assms(6,11) by (simp add: l)
  have "wp (ilock jp) (\<lambda>_ w. same_txn (upd_ino jp (\<lambda>_. loaded t jp) t) w) t"
    by (rule ilock_wp [OF c]) (use assms f ty in auto)
  then show "wp (ilock jp) (\<lambda>_ t. icache t jp = (if i_inum (icache s jp) = i_inum ?i
      then (icache s jp)\<lparr>i_type := i_type ?i, i_major := i_major ?i, i_minor := i_minor ?i,
        i_nlink := i_nlink ?i, i_size := i_size ?i, i_addrs := i_addrs ?i, i_busy := True, i_valid := True\<rparr>
      else loaded s jp)) t"
    by (rule wp_mono) (use same_txn_fs l in fastforce)
qed

text \<open>A transaction with two cache entries for inode 5, one of them locked and one not read in.\<close>

definition demo_inode :: inode where
  "demo_inode = \<lparr>i_dev = 1, i_inum = 5, i_bgn = 0, i_ref = 1, i_busy = True, i_valid = True, i_type = T_FILE,
     i_major = 0, i_minor = 0, i_nlink = 1, i_size = 7, i_addrs = replicate NADDRS 0\<rparr>"

definition demo_fs :: fsst where
  "demo_fs = \<lparr>bufs = demo_ring (\<lambda>_. demo_buf),
     disk = demo_disk(IBLOCK 5 mkfs_sb := blit (DINODE_AT 5 mkfs_sb) (encode_dinode demo_inode) (replicate BSIZE 0)),
     disksize = FSSIZE, dwrites = [], wakes = [],
     lstart = 2, lsize = 30, outstanding = 1, committing = False, ldev = 1, lh_n = 0, lh_block = (\<lambda>_. 0),
     sb = mkfs_sb, icache = (\<lambda>_. demo_inode\<lparr>i_ref := 0\<rparr>)(0 := demo_inode,
       2 := demo_inode\<lparr>i_busy := False, i_valid := False, i_size := 0\<rparr>), cwd = 0\<rparr>"

lemma demo_fs_cache: "cache_inv demo_fs" "busyb demo_fs = {}" "dirtyb demo_fs = {}" "view demo_fs = disk demo_fs"
proof -
  have "length (encode_dinode demo_inode) = sizeof_dinode" by (simp add: demo_inode_def)
  then have "\<forall>k. length (disk demo_fs k) = BSIZE"
    using dinode_fits [of 5 mkfs_sb] by (simp add: demo_fs_def)
  then show "cache_inv demo_fs" "busyb demo_fs = {}" "dirtyb demo_fs = {}" "view demo_fs = disk demo_fs"
    by (rule demo_cache [rotated 2]; simp add: demo_fs_def)+
qed

lemma demo_fs_txn: "txn demo_fs" "room demo_fs" "geometry (sb demo_fs)" "home demo_fs (IBLOCK 5 mkfs_sb)"
proof -
  have "log_blocks demo_fs = []" by (simp add: log_blocks_def demo_fs_def)
  then show "txn demo_fs" using demo_fs_cache by (simp add: txn_def) (simp add: demo_fs_def)
  show "room demo_fs" using demo_fs_cache by (simp add: room_def) (simp add: demo_fs_def)
  show "geometry (sb demo_fs)" by (simp add: demo_fs_def mkfs_sb_geometry)
  show "home demo_fs (IBLOCK 5 mkfs_sb)"
    by (simp add: home_def demo_fs_def IBLOCK_def mkfs_sb_def)
qed

lemma demo_inode_simps [simp]:
  "i_dev demo_inode = 1" "i_inum demo_inode = 5" "i_ref demo_inode = 1" "i_type demo_inode = T_FILE"
  "i_major demo_inode = 0" "i_minor demo_inode = 0" "i_nlink demo_inode = 1" "i_size demo_inode = 7"
  "i_addrs demo_inode = replicate NADDRS 0" "i_valid demo_inode" "i_busy demo_inode"
  by (simp_all add: demo_inode_def)

lemma demo_inode_ok: "inode_ok demo_inode"
  by (simp add: inode_ok_def short_range_def demo_inode_def)

theorem iupdate_ilock_roundtrip_witness:
  "wp (bind (iupdate 0) (\<lambda>_. ilock 2)) (\<lambda>_ t. i_size (icache t 2) = 7) demo_fs"
proof -
  have c: "can_inode demo_fs 5"
    using demo_fs_txn demo_fs_cache by (simp add: can_inode_def) (simp add: demo_fs_def)
  have f: "icache demo_fs 0 = demo_inode" "icache demo_fs 2 = demo_inode\<lparr>i_busy := False, i_valid := False, i_size := 0\<rparr>"
    "lh_n demo_fs = 0" "sb demo_fs = mkfs_sb"
    by (simp_all add: demo_fs_def)
  have d: "dinode_at (view demo_fs) (sb demo_fs) 5 = encode_dinode demo_inode"
    using dinode_at_updated [OF mkfs_sb_geometry, of demo_disk 5 "encode_dinode demo_inode" 5]
    unfolding demo_fs_cache by (simp add: demo_fs_def demo_inode_def demo_disk_def IBLOCK_def mkfs_sb_def)
  have t: "i_type (loaded demo_fs 2) \<noteq> 0"
    using d by (simp add: loaded_def f load_encode [OF demo_inode_ok])
  have "wp (bind (iupdate 0) (\<lambda>_. ilock 2)) (\<lambda>_ t. icache t 2 = (icache demo_fs 2)\<lparr>i_type := 2, i_major := 0,
     i_minor := 0, i_nlink := 1, i_size := 7, i_addrs := replicate NADDRS 0, i_busy := True, i_valid := True\<rparr>) demo_fs"
    using iupdate_ilock_roundtrip [of demo_fs 0 2] c t demo_inode_ok demo_fs_cache(2) by (simp add: f)
  then show ?thesis by (rule wp_mono) simp
qed

section \<open>References to inodes\<close>

text \<open>An inode has at most one cache entry in use; the references to it are counted there.\<close>

definition icache_inv :: "(nat \<Rightarrow> inode) \<Rightarrow> bool" where
  "icache_inv f \<longleftrightarrow> (\<forall>i<NINODE. 0 \<le> i_ref (f i)) \<and>
     (\<forall>i<NINODE. \<forall>j<NINODE. 0 < i_ref (f i) \<longrightarrow> 0 < i_ref (f j) \<longrightarrow>
        i_dev (f i) = i_dev (f j) \<longrightarrow> i_inum (f i) = i_inum (f j) \<longrightarrow> i = j)"

definition refs :: "(nat \<Rightarrow> inode) \<Rightarrow> nat \<Rightarrow> nat \<Rightarrow> int" where
  "refs f dev inum = (\<Sum>i<NINODE. if i_dev (f i) = dev \<and> i_inum (f i) = inum then i_ref (f i) else 0)"

lemma iget_scan_find:
  "fst (iget_scan f dev inum ips emp) = find (\<lambda>ip. 0 < i_ref (f ip) \<and> i_dev (f ip) = dev \<and> i_inum (f ip) = inum) ips"
  "fst (iget_scan f dev inum ips emp) = None \<Longrightarrow>
   snd (iget_scan f dev inum ips emp) = (if emp = None then find (\<lambda>ip. i_ref (f ip) = 0) ips else emp)"
  by (induction ips arbitrary: emp) auto

lemma refs_upd:
  assumes "ip < NINODE"
  shows "refs (f(ip := x)) dev inum = refs f dev inum
    - (if i_dev (f ip) = dev \<and> i_inum (f ip) = inum then i_ref (f ip) else 0)
    + (if i_dev x = dev \<and> i_inum x = inum then i_ref x else 0)"
proof -
  let ?g = "\<lambda>f i. if i_dev (f i) = dev \<and> i_inum (f i) = inum then i_ref (f i) else 0"
  have "sum (?g (f(ip := x))) {..<NINODE} = ?g (f(ip := x)) ip + sum (?g (f(ip := x))) ({..<NINODE} - {ip})"
    by (rule sum.remove) (use assms in auto)
  moreover have "sum (?g f) {..<NINODE} = ?g f ip + sum (?g f) ({..<NINODE} - {ip})"
    by (rule sum.remove) (use assms in auto)
  moreover have "sum (?g (f(ip := x))) ({..<NINODE} - {ip}) = sum (?g f) ({..<NINODE} - {ip})"
    by (rule sum.cong) auto
  ultimately show ?thesis by (simp add: refs_def)
qed

lemma iget_cases:
  assumes "icache_inv (icache s)" and "iget dev inum s = Ok ip t"
  shows "ip < NINODE \<and>
    (0 < i_ref (icache s ip) \<and> i_dev (icache s ip) = dev \<and> i_inum (icache s ip) = inum \<and>
       t = upd_ino ip (\<lambda>i. i\<lparr>i_ref := i_ref i + 1\<rparr>) s \<or>
     i_ref (icache s ip) = 0 \<and>
       (\<forall>i<NINODE. \<not> (0 < i_ref (icache s i) \<and> i_dev (icache s i) = dev \<and> i_inum (icache s i) = inum)) \<and>
       t = upd_ino ip (\<lambda>i. i\<lparr>i_dev := dev, i_inum := inum, i_ref := 1, i_busy := False, i_valid := False\<rparr>) s)"
proof -
  let ?P = "\<lambda>ip. 0 < i_ref (icache s ip) \<and> i_dev (icache s ip) = dev \<and> i_inum (icache s ip) = inum"
  let ?r = "iget_scan (icache s) dev inum [0..<NINODE] None"
  have fst: "fst ?r = find ?P [0..<NINODE]" by (rule iget_scan_find)
  show ?thesis
  proof (cases "fst ?r")
    case (Some i)
    then have "find ?P [0..<NINODE] = Some i" unfolding fst .
    then have "i < NINODE" "?P i" using find_SomeD [of ?P "[0..<NINODE]" i] by auto
    moreover have "ip = i" "t = upd_ino i (\<lambda>i. i\<lparr>i_ref := i_ref i + 1\<rparr>) s"
      using assms(2) Some by (auto simp: iget_def bind_def gets_def modify_def return_def split: prod.splits)
    ultimately show ?thesis by blast
  next
    case None
    then have snd: "snd ?r = find (\<lambda>ip. i_ref (icache s ip) = 0) [0..<NINODE]" using iget_scan_find(2) by simp
    have none: "find ?P [0..<NINODE] = None" using None unfolding fst .
    have nP: "\<not> ?P i" if "i < NINODE" for i using find_NoneD [OF none, of i] that by simp
    show ?thesis
    proof (cases "snd ?r")
      case (Some i)
      then have "find (\<lambda>ip. i_ref (icache s ip) = 0) [0..<NINODE] = Some i" unfolding snd .
      then have "i < NINODE" "i_ref (icache s i) = 0"
        using find_SomeD [of "\<lambda>ip. i_ref (icache s ip) = 0" "[0..<NINODE]" i] by auto
      moreover have "ip = i"
        "t = upd_ino i (\<lambda>i. i\<lparr>i_dev := dev, i_inum := inum, i_ref := 1, i_busy := False, i_valid := False\<rparr>) s"
        using assms(2) Some None
        by (auto simp: iget_def bind_def gets_def modify_def return_def split: prod.splits option.splits)
      ultimately show ?thesis using nP by blast
    next
      case none': None
      then show ?thesis using assms(2) None
        by (auto simp: iget_def bind_def gets_def panic_def split: prod.splits option.splits)
    qed
  qed
qed

lemma iget_panics:
  fixes s :: "'z fsst_scheme"
  shows "(\<nexists>ip t. iget dev inum s = Ok ip t) \<longleftrightarrow>
    (\<forall>i<NINODE. i_ref (icache s i) \<noteq> 0 \<and>
       \<not> (0 < i_ref (icache s i) \<and> i_dev (icache s i) = dev \<and> i_inum (icache s i) = inum))"
proof -
  let ?P = "\<lambda>ip. 0 < i_ref (icache s ip) \<and> i_dev (icache s ip) = dev \<and> i_inum (icache s ip) = inum"
  let ?r = "iget_scan (icache s) dev inum [0..<NINODE] None"
  have "(\<nexists>ip t. iget dev inum s = Ok ip t) \<longleftrightarrow> fst ?r = None \<and> snd ?r = None"
    by (cases ?r) (auto simp: iget_def bind_def gets_def modify_def return_def panic_def split: option.splits)
  also have "\<dots> \<longleftrightarrow> find ?P [0..<NINODE] = None \<and> find (\<lambda>ip. i_ref (icache s ip) = 0) [0..<NINODE] = None"
    using iget_scan_find [of "icache s" dev inum "[0..<NINODE]" None] by auto
  finally show ?thesis unfolding find_None_iff by auto
qed

text \<open>
  C6. \<^verbatim>\<open>iget\<close> returns unless the inode is not cached and every cache entry is in use; it keeps at
  most one cache entry per inode and adds exactly one reference to the inode it was asked for and
  to no other.
\<close>

theorem iget_refcount:
  fixes s :: "'z fsst_scheme"
  assumes "icache_inv (icache s)" and "\<exists>i<NINODE. i_ref (icache s i) = 0 \<or>
    0 < i_ref (icache s i) \<and> i_dev (icache s i) = dev \<and> i_inum (icache s i) = inum"
  shows "wp (iget dev inum) (\<lambda>ip t. ip < NINODE \<and> icache_inv (icache t) \<and>
      i_dev (icache t ip) = dev \<and> i_inum (icache t ip) = inum \<and> 0 < i_ref (icache t ip) \<and>
      (\<forall>d n. refs (icache t) d n = refs (icache s) d n + (if d = dev \<and> n = inum then 1 else 0))) s"
proof -
  obtain ip t where ok: "iget dev inum s = Ok ip t" using iget_panics [of dev inum s] assms(2) by blast
  have inv: "\<And>i. i < NINODE \<Longrightarrow> 0 \<le> i_ref (icache s i)"
    "\<And>i j. \<lbrakk>i < NINODE; j < NINODE; 0 < i_ref (icache s i); 0 < i_ref (icache s j);
      i_dev (icache s i) = i_dev (icache s j); i_inum (icache s i) = i_inum (icache s j)\<rbrakk> \<Longrightarrow> i = j"
    using assms(1) by (auto simp: icache_inv_def)
  from iget_cases [OF assms(1) ok] have ip: "ip < NINODE" by blast
  from iget_cases [OF assms(1) ok]
  have "ip < NINODE \<and> icache_inv (icache t) \<and> i_dev (icache t ip) = dev \<and> i_inum (icache t ip) = inum \<and>
      0 < i_ref (icache t ip) \<and>
      (\<forall>d n. refs (icache t) d n = refs (icache s) d n + (if d = dev \<and> n = inum then 1 else 0))"
  proof (elim conjE disjE)
    assume "0 < i_ref (icache s ip)" "i_dev (icache s ip) = dev" "i_inum (icache s ip) = inum"
      and t: "t = upd_ino ip (\<lambda>i. i\<lparr>i_ref := i_ref i + 1\<rparr>) s"
    moreover have "icache_inv (icache t)"
      using inv calculation unfolding icache_inv_def t by (auto split: if_splits)
    ultimately show ?thesis using ip by (simp add: refs_upd)
  next
    assume "i_ref (icache s ip) = 0"
      and no: "\<forall>i<NINODE. \<not> (0 < i_ref (icache s i) \<and> i_dev (icache s i) = dev \<and> i_inum (icache s i) = inum)"
      and t: "t = upd_ino ip (\<lambda>i. i\<lparr>i_dev := dev, i_inum := inum, i_ref := 1, i_busy := False, i_valid := False\<rparr>) s"
    moreover have "icache_inv (icache t)"
      using inv calculation unfolding icache_inv_def t by (auto split: if_splits)
    ultimately show ?thesis using ip by (simp add: refs_upd)
  qed
  with ok show ?thesis by (simp add: wp_def)
qed

theorem iget_refcount_witness:
  "wp (iget 1 5) (\<lambda>ip t. refs (icache t) 1 5 = refs (icache (upd_ino 2 (i_ref_update (\<lambda>_. 0)) demo_fs)) 1 5 + 1)
    (upd_ino 2 (i_ref_update (\<lambda>_. 0)) demo_fs)"
proof -
  have "icache_inv (icache (upd_ino 2 (i_ref_update (\<lambda>_. 0)) demo_fs))"
    by (simp add: icache_inv_def demo_fs_def)
  moreover have "\<exists>i<NINODE. i_ref (icache (upd_ino 2 (i_ref_update (\<lambda>_. 0)) demo_fs) i) = 0"
    by (rule exI [of _ 2]) simp
  ultimately have "wp (iget 1 5) (\<lambda>ip t. ip < NINODE \<and> icache_inv (icache t) \<and>
      i_dev (icache t ip) = 1 \<and> i_inum (icache t ip) = 5 \<and> 0 < i_ref (icache t ip) \<and>
      (\<forall>d n. refs (icache t) d n = refs (icache (upd_ino 2 (i_ref_update (\<lambda>_. 0)) demo_fs)) d n +
         (if d = 1 \<and> n = 5 then 1 else 0))) (upd_ino 2 (i_ref_update (\<lambda>_. 0)) demo_fs)"
    by (intro iget_refcount) auto
  then show ?thesis by (rule wp_mono) simp
qed

end
