(* ===== verification/Content_Spec.thy ===== *)
theory Content_Spec
  imports Inode_Spec
begin

text \<open>
  Reading and writing the content of an inode (\<^verbatim>\<open>bmap\<close>, \<^verbatim>\<open>readi\<close>, \<^verbatim>\<open>writei\<close> of fs.c) where the blocks
  concerned are allocated. \<open>file_block s ip bn\<close> is the disk block of the \<open>bn\<close>-th block of the file,
  \<open>fbyte s ip k\<close> its \<open>k\<close>-th byte; \<open>file_ok\<close> says that the first \<open>nb\<close> blocks of the file are allocated
  and distinct from each other, from the indirect block and from the block of the inode itself.
\<close>

definition file_block :: "'z fsst_scheme \<Rightarrow> nat \<Rightarrow> nat \<Rightarrow> nat" where
  "file_block s ip bn =
     (if bn < NDIRECT then i_addrs (icache s ip) ! bn
      else le_nat (slice (4 * (bn - NDIRECT)) 4 (view s (i_addrs (icache s ip) ! NDIRECT))))"

definition fbyte :: "'z fsst_scheme \<Rightarrow> nat \<Rightarrow> nat \<Rightarrow> byte" where
  "fbyte s ip k = view s (file_block s ip (k div BSIZE)) ! (k mod BSIZE)"

definition usable :: "'z fsst_scheme \<Rightarrow> nat \<Rightarrow> nat \<Rightarrow> bool" where
  "usable s ip b \<longleftrightarrow> b \<noteq> 0 \<and> home s b \<and> b \<notin> busyb s \<and> b \<noteq> IBLOCK (i_inum (icache s ip)) (sb s)"

definition file_ok :: "'z fsst_scheme \<Rightarrow> nat \<Rightarrow> nat \<Rightarrow> bool" where
  "file_ok s ip nb \<longleftrightarrow> nb \<le> MAXFILE \<and>
     (\<forall>bn<nb. usable s ip (file_block s ip bn)) \<and> inj_on (file_block s ip) {..<nb} \<and>
     (NDIRECT < nb \<longrightarrow> usable s ip (i_addrs (icache s ip) ! NDIRECT) \<and>
        i_addrs (icache s ip) ! NDIRECT \<notin> file_block s ip ` {..<nb})"

lemma file_same:
  fixes s t :: "'z fsst_scheme"
  assumes "same_txn s t"
  shows "file_block t ip = file_block s ip" "fbyte t ip = fbyte s ip" "file_ok t ip nb = file_ok s ip nb"
proof -
  have f: "sb t = sb s" "icache t = icache s" "view t = view s" "busyb t = busyb s" "home t = home s"
    using assms same_txn_fs [OF assms] home_frame [of s t] by (auto simp: same_txn_def quiet_def)
  show b: "file_block t ip = file_block s ip" by (simp add: file_block_def f fun_eq_iff)
  show "fbyte t ip = fbyte s ip" by (simp add: fbyte_def b f fun_eq_iff)
  show "file_ok t ip nb = file_ok s ip nb" by (simp add: file_ok_def usable_def b f)
qed

lemma bmap_wp:
  fixes s :: "'z fsst_scheme"
  assumes s: "txn s" "room s" and dev: "i_dev (icache s ip) = 1" and ok: "file_ok s ip nb" and bn: "bn < nb"
  shows "wp (bmap ip bn) (\<lambda>a t. a = file_block s ip bn \<and> same_txn s t) s"
proof -
  let ?i = "icache s ip" and ?ind = "i_addrs (icache s ip) ! NDIRECT"
  have nz: "file_block s ip bn \<noteq> 0" and max: "bn < MAXFILE"
    using ok bn by (auto simp: file_ok_def usable_def)
  have refl: "same_txn s s" by (rule same_txn_refl [OF s(1)])
  show ?thesis
  proof (cases "bn < NDIRECT")
    case True
    then show ?thesis using nz refl by (simp add: bmap_def wp_simps file_block_def)
  next
    case False
    then have "usable s ip ?ind" using ok bn by (auto simp: file_ok_def)
    then have ind: "?ind \<noteq> 0" "?ind < disksize s" "?ind \<notin> busyb s" by (auto simp: usable_def home_def)
    let ?d = "view s ?ind" and ?k = "bn - NDIRECT"
    have a: "file_block s ip bn = le_nat (slice (4 * ?k) 4 ?d)" using False by (simp add: file_block_def)
    have "wp (bread 1 ?ind) (\<lambda>b t. b_data (bufs t b) = ?d \<and> wp (brelse b) (\<lambda>_ u. same_txn s u) t) s"
      by (rule read_block_wp [OF s ind(2,3)])
    then have "wp (bread 1 ?ind) (\<lambda>bp. wp (bind (bdata bp) (\<lambda>d.
       bind (if le_nat (slice (4 * ?k) 4 d) = 0 then
               bind (balloc (i_dev ?i)) (\<lambda>addr.
               bind (bdata bp) (\<lambda>d'.
               bind (set_bdata bp (blit (4 * ?k) (le32 addr) d')) (\<lambda>_.
               bind (log_write bp) (\<lambda>_.
               return addr))))
             else return (le_nat (slice (4 * ?k) 4 d))) (\<lambda>addr.
       bind (brelse bp) (\<lambda>_. return addr)))) (\<lambda>a t. a = file_block s ip bn \<and> same_txn s t)) s"
    proof (rule wp_mono)
      fix b t
      assume t: "b_data (bufs t b) = ?d \<and> wp (brelse b) (\<lambda>_ u. same_txn s u) t"
      then show "wp (bind (bdata b) (\<lambda>d.
       bind (if le_nat (slice (4 * ?k) 4 d) = 0 then
               bind (balloc (i_dev ?i)) (\<lambda>addr.
               bind (bdata b) (\<lambda>d'.
               bind (set_bdata b (blit (4 * ?k) (le32 addr) d')) (\<lambda>_.
               bind (log_write b) (\<lambda>_.
               return addr))))
             else return (le_nat (slice (4 * ?k) 4 d))) (\<lambda>addr.
       bind (brelse b) (\<lambda>_. return addr)))) (\<lambda>a t. a = file_block s ip bn \<and> same_txn s t) t"
        using nz by (auto simp: a wp_simps elim: wp_mono)
    qed
    then show ?thesis
      using False max ind(1) dev by (simp add: bmap_def wp_simps)
  qed
qed

lemma file_block_view:
  assumes "file_ok s ip nb" and "bn < nb"
  shows "file_block s ip bn < disksize s" "file_block s ip bn \<notin> busyb s" "home s (file_block s ip bn)"
  using assms by (auto simp: file_ok_def usable_def home_def)

lemma slice_fbyte:
  assumes len: "length (view s (file_block s ip (off div BSIZE))) = BSIZE"
  shows "slice (off mod BSIZE) (chunk left off) (view s (file_block s ip (off div BSIZE))) =
    map (fbyte s ip) [off..<off + chunk left off]"
proof (rule nth_equalityI)
  have c: "off mod BSIZE + chunk left off \<le> BSIZE" by (simp add: chunk_def)
  then show l: "length (slice (off mod BSIZE) (chunk left off) (view s (file_block s ip (off div BSIZE)))) =
      length (map (fbyte s ip) [off..<off + chunk left off])"
    using len by simp
  fix i
  assume "i < length (slice (off mod BSIZE) (chunk left off) (view s (file_block s ip (off div BSIZE))))"
  then have i: "i < chunk left off" using l by simp
  have "off mod BSIZE + i < BSIZE" using i c by linarith
  note div_mod_within [OF this]
  then show "slice (off mod BSIZE) (chunk left off) (view s (file_block s ip (off div BSIZE))) ! i =
      map (fbyte s ip) [off..<off + chunk left off] ! i"
    using i c len by (simp add: nth_slice fbyte_def)
qed

lemma upt_chunk: "c \<le> left \<Longrightarrow> [off..<off + c] @ [off + c..<off + c + (left - c)] = [off..<off + left]"
  using upt_add_eq_append [of off "off + c" "left - c"] by simp

lemma chunk_le: "chunk left off \<le> left"
  by (simp add: chunk_def)

lemma chunk_block:
  assumes "off + left \<le> nb * BSIZE" and "0 < left"
  shows "off div BSIZE < nb"
proof -
  have "off < nb * BSIZE" using assms by linarith
  then show ?thesis by (simp add: less_mult_imp_div_less)
qed

lemma readi_loop_wp:
  fixes s :: "'z fsst_scheme"
  assumes "txn s" "room s" "i_dev (icache s ip) = 1" "file_ok s ip nb" "off + left \<le> nb * BSIZE"
  shows "wp (readi_loop ip off left) (\<lambda>d t. d = map (fbyte s ip) [off..<off + left] \<and> same_txn s t) s"
  using assms
proof (induction left arbitrary: off s rule: less_induct)
  case (less left)
  show ?case
  proof (cases "left = 0")
    case True
    then show ?thesis
      using same_txn_refl [OF less.prems(1)] by (subst readi_loop.simps) (simp add: wp_simps)
  next
    case False
    let ?c = "chunk left off" and ?b = "file_block s ip (off div BSIZE)"
    have c: "0 < ?c" "?c \<le> left" using False by (simp_all add: chunk_pos chunk_le)
    have bn: "off div BSIZE < nb" using chunk_block [OF less.prems(5)] False by simp
    note fb = file_block_view [OF less.prems(4) bn]
    have vl: "length (view s ?b) = BSIZE" using less.prems(1) fb view_length by (auto simp: txn_def)
    have step: "wp (readi_loop ip (off + ?c) (left - ?c)) (\<lambda>rest. wp (return (slice (off mod BSIZE) ?c (view s ?b) @ rest))
        (\<lambda>d t. d = map (fbyte s ip) [off..<off + left] \<and> same_txn s t)) u" if u: "same_txn s u" for u
    proof -
      have f: "icache u = icache s" using same_txn_fs [OF u] by simp
      have "wp (readi_loop ip (off + ?c) (left - ?c))
          (\<lambda>d t. d = map (fbyte u ip) [off + ?c..<off + ?c + (left - ?c)] \<and> same_txn u t) u"
        by (rule less.IH) (use c less.prems u f file_same [OF u] same_txn_room [OF u] in \<open>auto simp: same_txn_def\<close>)
      then show ?thesis
      proof (rule wp_mono)
        fix d t
        assume "d = map (fbyte u ip) [off + ?c..<off + ?c + (left - ?c)] \<and> same_txn u t"
        then have "slice (off mod BSIZE) ?c (view s ?b) @ d = map (fbyte s ip) [off..<off + left] \<and> same_txn s t"
          using u same_txn_trans file_same(2) [OF u] slice_fbyte [OF vl] upt_chunk [OF c(2), of off]
          by (auto simp flip: map_append)
        then show "wp (return (slice (off mod BSIZE) ?c (view s ?b) @ d))
          (\<lambda>d t. d = map (fbyte s ip) [off..<off + left] \<and> same_txn s t) t"
          by (simp add: wp_simps)
      qed
    qed
    have "wp (bmap ip (off div BSIZE)) (\<lambda>a. wp (bread 1 a) (\<lambda>bp. wp (bdata bp) (\<lambda>d. wp (brelse bp) (\<lambda>_.
      wp (readi_loop ip (off + ?c) (left - ?c)) (\<lambda>rest. wp (return (slice (off mod BSIZE) ?c d @ rest))
        (\<lambda>d t. d = map (fbyte s ip) [off..<off + left] \<and> same_txn s t)))))) s"
    proof (rule wp_mono [OF bmap_wp [OF less.prems(1-4) bn]])
      fix a t
      assume a: "a = ?b \<and> same_txn s t"
      then have t: "same_txn s t" and ab: "a = ?b" by auto
      have tt: "txn t" "room t" "a < disksize t" "a \<notin> busyb t" and v: "view t = view s"
        using t ab same_txn_room [OF t] less.prems(2) fb by (auto simp: same_txn_def frame_def quiet_def)
      show "wp (bread 1 a) (\<lambda>bp. wp (bdata bp) (\<lambda>d. wp (brelse bp) (\<lambda>_.
        wp (readi_loop ip (off + ?c) (left - ?c)) (\<lambda>rest. wp (return (slice (off mod BSIZE) ?c d @ rest))
        (\<lambda>d t. d = map (fbyte s ip) [off..<off + left] \<and> same_txn s t))))) t"
        by (rule read_then [OF tt]) (use step v ab same_txn_trans [OF t] in auto)
    qed
    then show ?thesis
      using False less.prems(3) by (subst readi_loop.simps) (simp add: wp_bind_fun wp_gets [of "\<lambda>s. icache s ip"])
  qed
qed

section \<open>Writing\<close>

text \<open>The number of blocks that \<open>len\<close> bytes at offset \<open>off\<close> touch.\<close>

definition blocks_of :: "nat \<Rightarrow> nat \<Rightarrow> nat" where
  "blocks_of off len = (if len = 0 then 0 else (off + len - 1) div BSIZE - off div BSIZE + 1)"

lemma blocks_of_chunk:
  assumes "0 < len"
  shows "blocks_of off len = Suc (blocks_of (off + chunk len off) (len - chunk len off))"
proof (cases "off mod BSIZE + len \<le> BSIZE")
  case True
  then have "chunk len off = len" by (simp add: chunk_def)
  moreover have "(off + (len - 1)) div BSIZE = off div BSIZE"
    by (rule div_mod_within(1)) (use True assms in linarith)
  ultimately show ?thesis using assms by (simp add: blocks_of_def)
next
  case False
  then have c: "chunk len off = BSIZE - off mod BSIZE" and lt: "chunk len off < len" by (simp_all add: chunk_def)
  have "off + chunk len off = (off div BSIZE + 1) * BSIZE"
    unfolding c add_mult_distrib mult_1
    using mod_less_divisor [of BSIZE off] div_mult_mod_eq [of off BSIZE] by linarith
  then have d: "(off + chunk len off) div BSIZE = off div BSIZE + 1" by simp
  have "off + chunk len off \<le> off + len - 1" using lt by linarith
  then have "off div BSIZE + 1 \<le> (off + len - 1) div BSIZE" unfolding d [symmetric] by (rule div_le_mono)
  then have "(off + len - 1) div BSIZE - off div BSIZE = Suc ((off + len - 1) div BSIZE - (off div BSIZE + 1))"
    by linarith
  with d lt assms show ?thesis by (simp add: blocks_of_def)
qed

definition wrote_file :: "'z fsst_scheme \<Rightarrow> 'z fsst_scheme \<Rightarrow> nat \<Rightarrow> nat \<Rightarrow> nat \<Rightarrow> byte list \<Rightarrow> bool" where
  "wrote_file s t ip nb off src \<longleftrightarrow> txn t \<and> quiet s t \<and> frame s t \<and>
     (\<forall>bn<nb. file_block t ip bn = file_block s ip bn) \<and>
     (\<forall>k<nb * BSIZE. fbyte t ip k =
        (if off \<le> k \<and> k < off + length src then src ! (k - off) else fbyte s ip k)) \<and>
     (\<forall>b. b \<notin> file_block s ip ` {..<nb} \<longrightarrow> view t b = view s b) \<and>
     lh_n s \<le> lh_n t \<and> lh_n t \<le> lh_n s + int (blocks_of off (length src))"

lemma wrote_file_Nil: "txn s \<Longrightarrow> wrote_file s s ip nb off []"
  by (auto simp: wrote_file_def blocks_of_def txn_def intro: quiet_refl)

lemma file_ok_stable:
  fixes s t :: "'z fsst_scheme"
  assumes ok: "file_ok s ip nb" and f: "frame s t" "busyb t = busyb s" and fb: "\<forall>bn<nb. file_block t ip bn = file_block s ip bn"
  shows "file_ok t ip nb"
proof -
  have g: "icache t = icache s" "sb t = sb s" "home t = home s" using frame_fs [OF f(1)] home_frame [OF f(1)] by auto
  have u: "usable t ip b = usable s ip b" for b by (simp add: usable_def g f)
  have "file_block t ip ` {..<nb} = file_block s ip ` {..<nb}" using fb by (auto simp: image_iff)
  moreover have "inj_on (file_block t ip) {..<nb} = inj_on (file_block s ip) {..<nb}"
    by (rule inj_on_cong) (use fb in auto)
  ultimately show ?thesis using ok fb by (simp add: file_ok_def u g)
qed

lemma wrote_file_trans:
  fixes s t u :: "'z fsst_scheme"
  assumes st: "wrote_file s t ip nb off (take c src)" and tu: "wrote_file t u ip nb (off + c) (drop c src)"
    and c: "c = chunk (length src) off" "src \<noteq> []"
  shows "wrote_file s u ip nb off src"
proof -
  have cl: "c \<le> length src" "0 < c" using c by (simp_all add: chunk_le chunk_pos)
  have b: "blocks_of off (length src) = blocks_of off c + blocks_of (off + c) (length src - c)"
  proof -
    have m: "off mod BSIZE < BSIZE" by simp
    have "chunk c off = c" using c(1) by (simp add: chunk_def)
    then have "blocks_of off c = 1" using blocks_of_chunk [OF cl(2), of off] by (simp add: blocks_of_def)
    moreover have "blocks_of off (length src) = Suc (blocks_of (off + c) (length src - c))"
      using blocks_of_chunk [of "length src" off] c by simp
    ultimately show ?thesis by simp
  qed
  have "fbyte u ip k = (if off \<le> k \<and> k < off + length src then src ! (k - off) else fbyte s ip k)"
    if "k < nb * BSIZE" for k
  proof -
    have "fbyte u ip k = (if off + c \<le> k \<and> k < off + c + (length src - c) then drop c src ! (k - (off + c)) else fbyte t ip k)"
      using tu that by (simp add: wrote_file_def)
    moreover have "fbyte t ip k = (if off \<le> k \<and> k < off + c then take c src ! (k - off) else fbyte s ip k)"
      using st that cl by (simp add: wrote_file_def min_absorb2)
    ultimately show ?thesis using cl by auto
  qed
  moreover have "file_block t ip ` {..<nb} = file_block s ip ` {..<nb}"
    using st by (auto simp: wrote_file_def image_iff)
  ultimately show ?thesis
    using st tu b cl unfolding wrote_file_def
    by (auto intro: quiet_trans frame_trans simp: min_absorb2)
qed

lemma write_chunk:
  fixes s t :: "'z fsst_scheme"
  assumes ok: "file_ok s ip nb" and s: "txn s" and bn: "off div BSIZE < nb"
    and src: "xs \<noteq> []" "off mod BSIZE + length xs \<le> BSIZE"
    and u: "updated s t (file_block s ip (off div BSIZE)) (blit (off mod BSIZE) xs (view s (file_block s ip (off div BSIZE))))"
  shows "wrote_file s t ip nb off xs"
proof -
  let ?b = "file_block s ip (off div BSIZE)"
  have g: "icache t = icache s" "sb t = sb s" using updated_fs [OF u] by auto
  have v: "view t = (view s)(?b := blit (off mod BSIZE) xs (view s ?b))" using u by (simp add: updated_def)
  have vl: "length (view s ?b) = BSIZE" using file_block_view [OF ok bn] s view_length by (auto simp: txn_def)
  have inj: "file_block s ip j = ?b \<longleftrightarrow> j = off div BSIZE" if "j < nb" for j
    using ok bn that by (auto simp: file_ok_def inj_on_def)
  have fb: "file_block t ip j = file_block s ip j" if "j < nb" for j
  proof (cases "j < NDIRECT")
    case True
    then show ?thesis by (simp add: file_block_def g)
  next
    case False
    then have "NDIRECT < nb" using that by simp
    then have "i_addrs (icache s ip) ! NDIRECT \<noteq> ?b" using ok bn by (auto simp: file_ok_def)
    then show ?thesis by (simp add: file_block_def g v)
  qed
  have "fbyte t ip k = (if off \<le> k \<and> k < off + length xs then xs ! (k - off) else fbyte s ip k)"
    if k: "k < nb * BSIZE" for k
  proof -
    have kb: "k div BSIZE < nb" using k by (simp add: less_mult_imp_div_less)
    have e: "fbyte t ip k = view t (file_block s ip (k div BSIZE)) ! (k mod BSIZE)" by (simp add: fbyte_def fb [OF kb])
    show ?thesis
    proof (cases "k div BSIZE = off div BSIZE")
      case True
      then have "off \<le> k \<longleftrightarrow> off mod BSIZE \<le> k mod BSIZE" "k < off + length xs \<longleftrightarrow> k mod BSIZE < off mod BSIZE + length xs"
        "k - off = k mod BSIZE - off mod BSIZE"
        using div_mult_mod_eq [of k BSIZE] div_mult_mod_eq [of off BSIZE] by linarith+
      with e True src vl show ?thesis by (simp add: v nth_blit fbyte_def)
    next
      case False
      moreover have "\<not> (off \<le> k \<and> k < off + length xs)"
      proof
        assume a: "off \<le> k \<and> k < off + length xs"
        then have "k = off + (k - off)" "off mod BSIZE + (k - off) < BSIZE" using src by linarith+
        then show False using div_mod_within(1) [of off BSIZE "k - off"] False by metis
      qed
      ultimately show ?thesis using e inj [OF kb] by (auto simp: v fbyte_def)
    qed
  qed
  moreover have "blocks_of off (length xs) = 1"
    using blocks_of_chunk [of "length xs" off] src by (simp add: chunk_def blocks_of_def min_absorb1)
  moreover have "?b \<in> file_block s ip ` {..<nb}" using bn by blast
  ultimately show ?thesis using u fb by (auto simp: wrote_file_def updated_def v)
qed

lemma wrote_file_same:
  fixes s t u :: "'z fsst_scheme"
  assumes st: "same_txn s t" and tu: "wrote_file t u ip nb off src"
  shows "wrote_file s u ip nb off src"
  using st tu file_same(1,2) [OF st] unfolding wrote_file_def
  by (auto simp: same_txn_def intro: quiet_trans frame_trans)

lemma writei_loop_wp:
  fixes s :: "'z fsst_scheme"
  assumes "txn s" "int (card (busyb s)) + lh_n s + int (blocks_of off (length src)) \<le> 29"
    "i_dev (icache s ip) = 1" "file_ok s ip nb" "off + length src \<le> nb * BSIZE"
  shows "wp (writei_loop ip src off) (\<lambda>_ t. wrote_file s t ip nb off src) s"
  using assms
proof (induction "length src" arbitrary: src off s rule: less_induct)
  case less
  show ?case
  proof (cases "src = []")
    case True
    then show ?thesis
      using wrote_file_Nil [OF less.prems(1)] by (subst writei_loop.simps) (simp add: wp_simps)
  next
    case False
    let ?c = "chunk (length src) off" and ?b = "file_block s ip (off div BSIZE)"
    have pos: "0 < length src" using False by simp
    have c: "0 < ?c" "?c \<le> length src" using pos by (simp_all add: chunk_pos chunk_le)
    have bn: "off div BSIZE < nb" using chunk_block [OF less.prems(5)] pos by simp
    have blk: "blocks_of off (length src) = Suc (blocks_of (off + ?c) (length src - ?c))"
      by (rule blocks_of_chunk [OF pos])
    then have rm: "room s" using less.prems(2) by (simp add: room_def)
    have tk: "take ?c src \<noteq> []" "off mod BSIZE + length (take ?c src) \<le> BSIZE"
      using c False by (auto simp: chunk_def)
    have step: "wp (writei_loop ip (drop ?c src) (off + ?c)) (\<lambda>_ v. wrote_file s v ip nb off src) u"
      if u: "wrote_file s u ip nb off (take ?c src)" for u
    proof -
      have uf: "txn u" "quiet s u" "frame s u" "\<forall>bn<nb. file_block u ip bn = file_block s ip bn"
        and ul: "lh_n u \<le> lh_n s + int (blocks_of off ?c)"
        using u c by (auto simp: wrote_file_def min_absorb2)
      have b1: "blocks_of off ?c = 1"
        using blocks_of_chunk [OF c(1), of off] by (simp add: chunk_def blocks_of_def)
      have ic: "icache u = icache s" "busyb u = busyb s" using frame_fs [OF uf(3)] uf(2) by (auto simp: quiet_def)
      have "wp (writei_loop ip (drop ?c src) (off + ?c)) (\<lambda>_ v. wrote_file u v ip nb (off + ?c) (drop ?c src)) u"
        by (rule less.hyps)
          (use c uf(1) less.prems ic blk ul b1 file_ok_stable [OF less.prems(4) uf(3) ic(2) uf(4)] in auto)
      then show ?thesis
        by (rule wp_mono) (rule wrote_file_trans [OF u _ refl False])
    qed
    have "wp (bmap ip (off div BSIZE)) (\<lambda>a. wp (bread 1 a) (\<lambda>bp. wp (bdata bp) (\<lambda>d.
      wp (set_bdata bp (blit (off mod BSIZE) (take ?c src) d)) (\<lambda>_. wp (log_write bp) (\<lambda>_. wp (brelse bp) (\<lambda>_.
      wp (writei_loop ip (drop ?c src) (off + ?c)) (\<lambda>_ v. wrote_file s v ip nb off src))))))) s"
    proof (rule wp_mono [OF bmap_wp [OF less.prems(1) rm less.prems(3,4) bn]])
      fix a t
      assume "a = ?b \<and> same_txn s t"
      then have t: "same_txn s t" and "a = ?b" by auto
      then have a: "a = file_block t ip (off div BSIZE)" using file_same(1) [OF t] by simp
      have ok: "file_ok t ip nb" using file_same(3) [OF t] less.prems(4) by simp
      have tt: "txn t" "room t" using t same_txn_room [OF t] rm by (auto simp: same_txn_def)
      note fb = file_block_view [OF ok bn, folded a]
      have vl: "length (view t a) = BSIZE" using tt fb view_length by (auto simp: txn_def)
      show "wp (bread 1 a) (\<lambda>bp. wp (bdata bp) (\<lambda>d.
        wp (set_bdata bp (blit (off mod BSIZE) (take ?c src) d)) (\<lambda>_. wp (log_write bp) (\<lambda>_. wp (brelse bp) (\<lambda>_.
        wp (writei_loop ip (drop ?c src) (off + ?c)) (\<lambda>_ v. wrote_file s v ip nb off src)))))) t"
      proof (rule rmw_then [OF tt fb(3,2)])
        show "length (blit (off mod BSIZE) (take ?c src) (view t a)) = BSIZE" using vl tk(2) by simp
        fix x u
        assume "updated t u a (blit (off mod BSIZE) (take ?c src) (view t a))"
        then have "wrote_file t u ip nb off (take ?c src)"
          unfolding a by (rule write_chunk [OF ok tt(1) bn tk])
        from step [OF wrote_file_same [OF t this]]
        show "wp (writei_loop ip (drop ?c src) (off + ?c)) (\<lambda>_ v. wrote_file s v ip nb off src) u" .
      qed
    qed
    then show ?thesis
      using False less.prems(3) by (subst writei_loop.simps) (simp add: wp_funs)
  qed
qed

lemma set_size_file:
  fixes s :: "'z fsst_scheme" and ip f
  defines "t \<equiv> upd_ino ip (i_size_update f) s"
  shows "file_block t ip = file_block s ip" "fbyte t ip = fbyte s ip" "file_ok t ip nb = file_ok s ip nb"
proof -
  show b: "file_block t ip = file_block s ip" by (simp add: t_def file_block_def fun_eq_iff)
  show "fbyte t ip = fbyte s ip" by (simp add: fbyte_def b fun_eq_iff) (simp add: t_def)
  show "file_ok t ip nb = file_ok s ip nb" by (simp add: file_ok_def usable_def b) (simp add: t_def)
qed

lemma updated_inode_block:
  fixes s t :: "'z fsst_scheme"
  assumes ok: "file_ok s ip nb" and u: "updated s t (IBLOCK (i_inum (icache s ip)) (sb s)) d"
  shows "\<forall>bn<nb. file_block t ip bn = file_block s ip bn" "\<forall>k<nb * BSIZE. fbyte t ip k = fbyte s ip k" "file_ok t ip nb"
proof -
  let ?b = "IBLOCK (i_inum (icache s ip)) (sb s)"
  have v: "view t k = view s k" if "k \<noteq> ?b" for k using u that by (simp add: updated_def)
  have g: "icache t = icache s" using updated_fs [OF u] by simp
  show fb: "\<forall>bn<nb. file_block t ip bn = file_block s ip bn"
    using ok v by (auto simp: file_block_def g file_ok_def usable_def)
  show "\<forall>k<nb * BSIZE. fbyte t ip k = fbyte s ip k"
  proof (intro allI impI)
    fix k
    assume "k < nb * BSIZE"
    then have "k div BSIZE < nb" by (simp add: less_mult_imp_div_less)
    then show "fbyte t ip k = fbyte s ip k" using fb v ok by (auto simp: fbyte_def file_ok_def usable_def)
  qed
  show "file_ok t ip nb"
    by (rule file_ok_stable [OF ok _ _ fb]) (use u in \<open>auto simp: updated_def quiet_def\<close>)
qed

text \<open>What the content of the file is after the write.\<close>

definition overwritten :: "nat \<Rightarrow> byte list \<Rightarrow> (nat \<Rightarrow> byte) \<Rightarrow> nat \<Rightarrow> byte" where
  "overwritten off src f k = (if off \<le> k \<and> k < off + length src then src ! (k - off) else f k)"

text \<open>A locked regular file or directory whose first \<open>nb\<close> blocks are there, in a transaction with room for \<open>n\<close> more blocks.\<close>

definition can_content :: "'z fsst_scheme \<Rightarrow> nat \<Rightarrow> nat \<Rightarrow> nat \<Rightarrow> bool" where
  "can_content s ip nb n \<longleftrightarrow> can_inode s (i_inum (icache s ip)) \<and> i_dev (icache s ip) = 1 \<and>
     length (i_addrs (icache s ip)) = NADDRS \<and> i_type (icache s ip) \<noteq> T_DEV \<and> file_ok s ip nb \<and>
     i_size (icache s ip) \<le> nb * BSIZE \<and> int (card (busyb s)) + lh_n s + int n \<le> 28"

lemma file_ok_max: "file_ok s ip nb \<Longrightarrow> nb * BSIZE \<le> MAXFILE * BSIZE"
  by (simp add: file_ok_def)

lemma writei_wp:
  fixes s :: "'z fsst_scheme"
  assumes s: "can_content s ip nb (blocks_of off (length src) + 1)" and off: "off \<le> i_size (icache s ip)"
    and len: "off + length src \<le> nb * BSIZE"
  shows "wp (writei dv ip src off) (\<lambda>n t. n = int (length src) \<and> can_content t ip nb 0 \<and>
    icache t ip = (icache s ip)\<lparr>i_size := max (i_size (icache s ip)) (off + length src)\<rparr> \<and>
    (\<forall>k<nb * BSIZE. fbyte t ip k = overwritten off src (fbyte s ip) k)) s"
proof -
  let ?i = "icache s ip"
  have c: "can_inode s (i_inum ?i)" "i_dev ?i = 1" "length (i_addrs ?i) = NADDRS" "i_type ?i \<noteq> T_DEV"
    "file_ok s ip nb" "i_size ?i \<le> nb * BSIZE"
    and r: "int (card (busyb s)) + lh_n s + int (blocks_of off (length src) + 1) \<le> 28"
    using s by (auto simp: can_content_def)
  have tx: "txn s" using c by (simp add: can_inode_def)
  have "off + length src \<le> MAXFILE * BSIZE" using file_ok_max [OF c(5)] len by simp
  moreover have "MAXFILE * BSIZE < 2 ^ 32" by (simp add: MAXFILE_def NINDIRECT_def)
  ultimately have g: "\<not> (off > i_size ?i \<or> (off + length src) mod 2 ^ 32 < off)" "\<not> off + length src > MAXFILE * BSIZE"
    using off by auto
  have loop: "wp (writei_loop ip src off) (\<lambda>_ t. wrote_file s t ip nb off src) s"
    by (rule writei_loop_wp [OF tx _ c(2,5) len]) (use r in simp)
  have "wp (writei_loop ip src off) (\<lambda>_. wp (ino ip) (\<lambda>i'.
       wp (whenk (0 < length src \<and> off + length src > i_size i')
         (bind (modify (upd_ino ip (i_size_update (\<lambda>_. off + length src)))) (\<lambda>_. iupdate ip))) (\<lambda>_ t.
     can_content t ip nb 0 \<and> icache t ip = ?i\<lparr>i_size := max (i_size ?i) (off + length src)\<rparr> \<and>
    (\<forall>k<nb * BSIZE. fbyte t ip k = overwritten off src (fbyte s ip) k)))) s"
  proof (rule wp_mono [OF loop])
    fix x t
    assume t: "wrote_file s t ip nb off src"
    then have fr: "txn t" "frame s t" "quiet s t" "lh_n t \<le> lh_n s + int (blocks_of off (length src))"
      and fb: "\<forall>bn<nb. file_block t ip bn = file_block s ip bn"
      and fby: "\<forall>k<nb * BSIZE. fbyte t ip k = overwritten off src (fbyte s ip) k"
      by (auto simp: wrote_file_def overwritten_def)
    have ic: "icache t = icache s" "sb t = sb s" "busyb t = busyb s" "home t = home s"
      using frame_fs [OF fr(2)] fr(3) home_frame [OF fr(2)] by (auto simp: quiet_def)
    have ok: "file_ok t ip nb" by (rule file_ok_stable [OF c(5) fr(2) ic(3) fb])
    have bud: "int (card (busyb t)) + lh_n t + 1 \<le> 28" using r fr(4) ic by simp
    have ci: "can_inode t (i_inum ?i)" using c(1) fr(1) bud ic by (simp add: can_inode_def room_def)
    have no: "max (i_size ?i) (off + length src) = i_size ?i"
      if "\<not> (0 < length src \<and> off + length src > i_size ?i)" using that off by auto
    let ?u = "upd_ino ip (i_size_update (\<lambda>_. off + length src)) t"
    have up: "wp (iupdate ip) (\<lambda>_ t. can_content t ip nb 0 \<and> icache t ip = ?i\<lparr>i_size := max (i_size ?i) (off + length src)\<rparr> \<and>
        (\<forall>k<nb * BSIZE. fbyte t ip k = overwritten off src (fbyte s ip) k)) ?u"
      if big: "off + length src > i_size ?i"
    proof -
      have cu: "can_inode ?u (i_inum (icache ?u ip))" "i_dev (icache ?u ip) = 1" "length (i_addrs (icache ?u ip)) = NADDRS"
        using ci c ic by (auto simp: can_inode_def)
      show ?thesis
      proof (rule wp_mono [OF iupdate_wp [OF cu]])
        fix y w
        assume u: "updated ?u w (IBLOCK (i_inum (icache ?u ip)) (sb ?u))
          (blit (DINODE_AT (i_inum (icache ?u ip)) (sb ?u)) (encode_dinode (icache ?u ip)) (view ?u (IBLOCK (i_inum (icache ?u ip)) (sb ?u))))"
        have oku: "file_ok ?u ip nb" using ok by (simp add: set_size_file)
        have w: "icache w = icache ?u" "sb w = sb s" "txn w" "busyb w = busyb s" "home w = home s" "lh_n w \<le> lh_n t + 1"
          using updated_fs [OF u] u ic home_frame [of ?u w] by (auto simp: updated_def quiet_def)
        have "can_inode w (i_inum ?i)" using ci w bud ic by (simp add: can_inode_def room_def)
        then show "can_content w ip nb 0 \<and> icache w ip = ?i\<lparr>i_size := max (i_size ?i) (off + length src)\<rparr> \<and>
          (\<forall>k<nb * BSIZE. fbyte w ip k = overwritten off src (fbyte s ip) k)"
          using updated_inode_block [OF oku u] fby big c len w ic bud set_size_file(2) [of ip "\<lambda>_. off + length src" t]
          by (auto simp: can_content_def max_def)
      qed
    qed
    have "can_content t ip nb 0" using ci c ic ok bud by (simp add: can_content_def)
    then show "wp (ino ip) (\<lambda>i'.
       wp (whenk (0 < length src \<and> off + length src > i_size i')
         (bind (modify (upd_ino ip (i_size_update (\<lambda>_. off + length src)))) (\<lambda>_. iupdate ip))) (\<lambda>_ t.
       can_content t ip nb 0 \<and> icache t ip = ?i\<lparr>i_size := max (i_size ?i) (off + length src)\<rparr> \<and>
       (\<forall>k<nb * BSIZE. fbyte t ip k = overwritten off src (fbyte s ip) k))) t"
      using up fby ic no by (auto simp: wp_simps)
  qed
  then show ?thesis
    using g c(4) by (simp add: writei_def wp_simps wp_bind_fun wp_gets_fun wp_return_fun)
qed

lemma readi_wp:
  fixes s :: "'z fsst_scheme"
  assumes s: "can_content s ip nb 0" and at: "at \<le> i_size (icache s ip)" "at + n < 2 ^ 32"
  shows "wp (readi dv ip at n) (\<lambda>(r, d) t. r = int (length d) \<and> length d = min n (i_size (icache s ip) - at) \<and>
    (\<forall>k<length d. d ! k = fbyte s ip (at + k)) \<and> same_txn s t) s"
proof -
  let ?i = "icache s ip"
  define m where "m = (if at + n > i_size ?i then i_size ?i - at else n)"
  have m: "m = min n (i_size ?i - at)" using at by (auto simp: m_def)
  have c: "txn s" "room s" "i_dev ?i = 1" "file_ok s ip nb" "i_type ?i \<noteq> T_DEV" "at + m \<le> nb * BSIZE"
    using s at m by (auto simp: can_content_def can_inode_def)
  have "wp (readi_loop ip at m) (\<lambda>d. wp (return (int m, d)) (\<lambda>(r, d) t. r = int (length d) \<and> length d = min n (i_size ?i - at) \<and>
    (\<forall>k<length d. d ! k = fbyte s ip (at + k)) \<and> same_txn s t)) s"
    by (rule wp_mono [OF readi_loop_wp [OF c(1-4,6)]]) (auto simp: wp_simps m)
  then show ?thesis using at c(5) by (simp add: readi_def wp_simps wp_funs Let_def m_def)
qed

text \<open>
  C4. What \<^verbatim>\<open>writei\<close> stored is what \<^verbatim>\<open>readi\<close> reads. On a locked file whose blocks are allocated, in a
  transaction with room for the blocks the write touches and for the inode, \<^verbatim>\<open>writei\<close> returns the
  number of bytes it was given, and a following \<^verbatim>\<open>readi\<close> at any offset returns the new bytes inside
  the written range and the old content of the file outside it, up to the new end of the file,
  whatever blocks the range spans. A write for which \<^verbatim>\<open>bmap\<close> has to allocate a block is not covered.
\<close>

theorem writei_readi:
  fixes s :: "'z fsst_scheme"
  assumes "can_content s ip nb (blocks_of off (length src) + 1)" and "off \<le> i_size (icache s ip)"
    and "off + length src \<le> nb * BSIZE"
    and "at \<le> max (i_size (icache s ip)) (off + length src)" and "at + n < 2 ^ 32"
  shows "wp (bind (writei dv ip src off) (\<lambda>w. bind (readi dv ip at n) (\<lambda>r. return (w, r))))
    (\<lambda>(w, r, d) t. w = int (length src) \<and> r = int (length d) \<and>
       length d = min n (max (i_size (icache s ip)) (off + length src) - at) \<and>
       (\<forall>k<length d. d ! k = overwritten off src (fbyte s ip) (at + k))) s"
  unfolding wp_bind_fun
proof (rule wp_mono [OF writei_wp [OF assms(1-3)]])
  let ?i = "icache s ip"
  fix w and t :: "'z fsst_scheme"
  assume t: "w = int (length src) \<and> can_content t ip nb 0 \<and>
    icache t ip = ?i\<lparr>i_size := max (i_size ?i) (off + length src)\<rparr> \<and>
    (\<forall>k<nb * BSIZE. fbyte t ip k = overwritten off src (fbyte s ip) k)"
  then have c: "can_content t ip nb 0" and z: "i_size (icache t ip) = max (i_size ?i) (off + length src)"
    and f: "\<And>k. k < nb * BSIZE \<Longrightarrow> fbyte t ip k = overwritten off src (fbyte s ip) k" and w: "w = int (length src)"
    by auto
  have mx: "i_size (icache t ip) \<le> nb * BSIZE" using c by (simp add: can_content_def)
  have at: "at \<le> i_size (icache t ip)" using assms(4) z by simp
  show "wp (readi dv ip at n) (\<lambda>r. wp (return (w, r)) (\<lambda>(w, r, d) t. w = int (length src) \<and> r = int (length d) \<and>
       length d = min n (max (i_size ?i) (off + length src) - at) \<and>
       (\<forall>k<length d. d ! k = overwritten off src (fbyte s ip) (at + k)))) t"
  proof (rule wp_mono [OF readi_wp [OF c at assms(5)]], clarsimp simp: wp_simps w z simp del: of_nat_eq_iff)
    fix k d
    assume "k < n" "k < max (i_size ?i) (off + length src) - at"
    then have "at + k < nb * BSIZE" using mx z by linarith
    then show "fbyte t ip (at + k) = overwritten off src (fbyte s ip) (at + k)" by (rule f)
  qed
qed

text \<open>The file of the demonstration state with its first block allocated.\<close>

definition demo_file :: fsst where
  "demo_file = upd_ino 0 (i_addrs_update (\<lambda>_. 200 # replicate NDIRECT 0)) demo_fs"

lemma demo_file_facts:
  "busyb demo_file = {}" "lh_n demo_file = 0" "view demo_file 200 = replicate BSIZE 0"
  "i_size (icache demo_file 0) = 7" "i_addrs (icache demo_file 0) = 200 # replicate NDIRECT 0"
  using demo_fs_cache by (simp_all add: demo_file_def) (simp_all add: demo_fs_def demo_disk_def IBLOCK_def mkfs_sb_def)

lemma demo_file_content: "can_content demo_file 0 1 2"
proof -
  have "can_inode demo_fs 5" using demo_fs_txn demo_fs_cache by (simp add: can_inode_def) (simp add: demo_fs_def)
  then have "can_inode demo_file 5" by (simp add: can_inode_def demo_file_def)
  moreover have "file_ok demo_file 0 1"
    using demo_file_facts(1,5)
    by (auto simp: file_ok_def usable_def file_block_def home_def MAXFILE_def inj_on_def)
      (simp_all add: demo_file_def demo_fs_def IBLOCK_def mkfs_sb_def)
  ultimately show ?thesis
    using demo_file_facts by (simp add: can_content_def) (simp add: demo_file_def demo_fs_def)
qed

theorem writei_readi_witness:
  "wp (bind (writei \<lparr>dev_read = \<lambda>_. None, dev_write = \<lambda>_. None\<rparr> 0 [10, 11, 12, 13, 14, 15] 3)
      (\<lambda>w. bind (readi \<lparr>dev_read = \<lambda>_. None, dev_write = \<lambda>_. None\<rparr> 0 2 100) (\<lambda>r. return (w, r))))
    (\<lambda>(w, r, d) t. w = 6 \<and> length d = 7 \<and> d ! 0 = 0 \<and> d ! 2 = 11) demo_file"
proof -
  have b: "blocks_of 3 6 = 1" by (simp add: blocks_of_def)
  have f: "fbyte demo_file 0 2 = 0" using demo_file_facts(3,5) by (simp add: fbyte_def file_block_def)
  have l: "length [10 :: byte, 11, 12, 13, 14, 15] = 6" by simp
  have "can_content demo_file 0 1 (blocks_of 3 (length [10 :: byte, 11, 12, 13, 14, 15]) + 1)"
    unfolding l b one_add_one by (rule demo_file_content)
  from writei_readi [OF this, of 2 100 "\<lparr>dev_read = \<lambda>_. None, dev_write = \<lambda>_. None\<rparr>"]
  have "wp (bind (writei \<lparr>dev_read = \<lambda>_. None, dev_write = \<lambda>_. None\<rparr> 0 [10, 11, 12, 13, 14, 15] 3)
      (\<lambda>w. bind (readi \<lparr>dev_read = \<lambda>_. None, dev_write = \<lambda>_. None\<rparr> 0 2 100) (\<lambda>r. return (w, r))))
    (\<lambda>(w, r, d) t. w = 6 \<and> r = int (length d) \<and> length d = 7 \<and>
       (\<forall>k<length d. d ! k = overwritten 3 [10, 11, 12, 13, 14, 15] (fbyte demo_file 0) (2 + k))) demo_file"
    by (simp add: demo_file_facts(4))
  then show ?thesis by (rule wp_mono) (use f in \<open>auto simp: overwritten_def numeral_2_eq_2\<close>)
qed

end
