(* ===== verification/Ialloc.thy ===== *)
theory Ialloc
  imports Fs
begin

text \<open>
  Inode allocation with block-group statistics (\<^verbatim>\<open>ialloc\<close>, \<^verbatim>\<open>iinit\<close>, \<^verbatim>\<open>clearFSStats\<close> and
  \<^verbatim>\<open>fillFSStats\<close> of fs.c). A directory goes to the least used block group, a file to the group of
  the current directory.
\<close>

section \<open>Statistics records\<close>

definition stat_used :: "block \<Rightarrow> nat" where
  "stat_used d = le_nat (slice STATOFF 4 d)"

definition stat_percent :: "block \<Rightarrow> nat" where
  "stat_percent d = le_nat (slice (STATOFF + 4) 4 d)"

definition set_stats :: "nat \<Rightarrow> nat \<Rightarrow> block \<Rightarrow> block" where
  "set_stats used percent d = blit STATOFF (le32 used @ le32 percent) d"

text \<open>\<^verbatim>\<open>stats->percentFull = STAT_PERCENTAGE_ABS(stats, ++(stats->usedBlocks), sb)\<close> in \<^verbatim>\<open>uint\<close>s.\<close>

definition bump_stats :: "superblock \<Rightarrow> block \<Rightarrow> block" where
  "bump_stats sbk d =
     (let used = (stat_used d + 1) mod 2 ^ 32
      in set_stats used ((used * 100) mod 2 ^ 32 div sb_ipbg sbk) d)"

section \<open>Allocation\<close>

definition dinode_free :: "nat \<Rightarrow> superblock \<Rightarrow> block \<Rightarrow> bool" where
  "dinode_free inum sbk d \<longleftrightarrow> le_nat (slice (DINODE_AT inum sbk) 2 d) = 0"

text \<open>\<^verbatim>\<open>memset(dip, 0, sizeof( *dip)); dip->type = type\<close>.\<close>

definition fresh_dinode :: "int \<Rightarrow> byte list" where
  "fresh_dinode type = le16 (as_ushort type) @ replicate (sizeof_dinode - 2) 0"

text \<open>The body of both search loops: take inode \<open>inum\<close> if it is free, counting it in group \<open>bg\<close>.\<close>

definition claim_inode :: "nat \<Rightarrow> int \<Rightarrow> nat \<Rightarrow> nat \<Rightarrow> ('z fsst_scheme, nat option) kop" where
  "claim_inode dev type bg inum =
     bind (gets sb) (\<lambda>sbk.
     bind (bread dev (IBLOCK inum sbk)) (\<lambda>bp.
     bind (bdata bp) (\<lambda>d.
     if dinode_free inum sbk d then
       bind (set_bdata bp (blit (DINODE_AT inum sbk) (fresh_dinode type) d)) (\<lambda>_.
       bind (log_write bp) (\<lambda>_.
       bind (brelse bp) (\<lambda>_.
       bind (bread dev (STATBLOCK bg sbk)) (\<lambda>bp'.
       bind (bdata bp') (\<lambda>d'.
       bind (set_bdata bp' (bump_stats sbk d')) (\<lambda>_.
       bind (log_write bp') (\<lambda>_.
       bind (brelse bp') (\<lambda>_.
       bind (iget dev inum) (\<lambda>ip.
       return (Some ip))))))))))
     else bind (brelse bp) (\<lambda>_. return None))))"

fun claim_first :: "nat \<Rightarrow> int \<Rightarrow> (nat \<Rightarrow> nat) \<Rightarrow> nat list \<Rightarrow> ('z fsst_scheme, nat option) kop" where
  "claim_first dev type bg [] = return None"
| "claim_first dev type bg (inum # is) =
     bind (claim_inode dev type (bg inum) inum) (\<lambda>r.
     case r of Some ip \<Rightarrow> return (Some ip) | None \<Rightarrow> claim_first dev type bg is)"

text \<open>The search for the least used block group (\<^verbatim>\<open>lub\<close>).\<close>

fun lub_scan :: "nat \<Rightarrow> superblock \<Rightarrow> nat list \<Rightarrow> nat \<Rightarrow> nat \<Rightarrow> ('z bio_scheme, nat) kop" where
  "lub_scan dev sbk [] lub least = return lub"
| "lub_scan dev sbk (bg # bgs) lub least =
     (if 0 < least then
        bind (bread dev (STATBLOCK bg sbk)) (\<lambda>bp.
        bind (bdata bp) (\<lambda>d.
        bind (brelse bp) (\<lambda>_.
        if stat_percent d < least then lub_scan dev sbk bgs bg (stat_percent d)
        else lub_scan dev sbk bgs lub least)))
      else return lub)"

definition ialloc :: "nat \<Rightarrow> int \<Rightarrow> ('z fsst_scheme, nat) kop" where
  "ialloc dev type =
     bind (gets sb) (\<lambda>sbk.
     if type = T_DIR then
       bind (lub_scan dev sbk [0..<sb_nblockgroups sbk] 0 100) (\<lambda>lub.
       bind (claim_first dev type (\<lambda>_. lub)
               [(if lub \<noteq> 0 then lub * sb_ipbg sbk else 1)..<lub * sb_ipbg sbk + sb_ipbg sbk]) (\<lambda>r.
       case r of Some ip \<Rightarrow> return ip | None \<Rightarrow> panic ''ialloc: no inodes''))
     else
       bind (gets (\<lambda>s. i_inum (icache s (cwd s)))) (\<lambda>dir.
       bind (return (if iNODE_HEAD dir sbk = 0 then 1 else iNODE_HEAD dir sbk)) (\<lambda>inum.
       bind (claim_first dev type (\<lambda>i. BGROUP i sbk) [inum..<inum + sb_ninodes sbk]) (\<lambda>r.
       case r of
         Some ip \<Rightarrow> return ip
       | None \<Rightarrow>
           bind (claim_first dev type (\<lambda>i. BGROUP i sbk) [1..<1 + sb_ninodes sbk]) (\<lambda>r'.
           case r' of Some ip \<Rightarrow> return ip | None \<Rightarrow> panic ''No More free iNodes'')))))"

section \<open>Boot-time statistics\<close>

definition clearFSStats :: "('z fsst_scheme, unit) kop" where
  "clearFSStats =
     bind (gets sb) (\<lambda>sbk.
     for_each [0..<sb_nblockgroups sbk] (\<lambda>i.
       bind (bread ROOTDEV (STATBLOCK i sbk)) (\<lambda>bp.
       bind (bdata bp) (\<lambda>d.
       bind (set_bdata bp (set_stats 0 0 d)) (\<lambda>_.
       bind (bwrite bp) (\<lambda>_.
       brelse bp))))))"

text \<open>The inner loop of \<^verbatim>\<open>fillFSStats\<close>: how many of the listed inodes have a positive type.\<close>

fun count_used :: "superblock \<Rightarrow> nat list \<Rightarrow> nat \<Rightarrow> ('z bio_scheme, nat) kop" where
  "count_used sbk [] cnt = return cnt"
| "count_used sbk (inum # is) cnt =
     bind (bread ROOTDEV (IBLOCK inum sbk)) (\<lambda>bp.
     bind (bdata bp) (\<lambda>d.
     bind (brelse bp) (\<lambda>_.
     count_used sbk is
       (if 0 < as_short (le_nat (slice (DINODE_AT inum sbk) 2 d)) then cnt + 1 else cnt))))"

text \<open>Group \<open>i\<close> counts inodes \<^verbatim>\<open>i * ipbg .. (i + 1) * ipbg - 1\<close>, inode 0 excepted.\<close>

definition fillFSStats :: "('z fsst_scheme, unit) kop" where
  "fillFSStats =
     bind (gets sb) (\<lambda>sbk.
     for_each [0..<sb_nblockgroups sbk] (\<lambda>i.
       bind (count_used sbk [(if i = 0 then 1 else i * sb_ipbg sbk)..<(i + 1) * sb_ipbg sbk] 0) (\<lambda>cnt.
       bind (bread ROOTDEV (STATBLOCK i sbk)) (\<lambda>bp.
       bind (bdata bp) (\<lambda>d.
       bind (set_bdata bp (set_stats cnt (STAT_PERCENTAGE_ABS cnt sbk) d)) (\<lambda>_.
       bind (bwrite bp) (\<lambda>_.
       brelse bp)))))))"

definition iinit :: "nat \<Rightarrow> ('z fsst_scheme, unit) kop" where
  "iinit dev =
     bind (readsb dev) (\<lambda>x.
     bind (modify (\<lambda>s. s\<lparr>sb := x\<rparr>)) (\<lambda>_.
     bind clearFSStats (\<lambda>_.
     fillFSStats)))"

end
