(* ===== verification/CString.thy ===== *)
theory CString
  imports Prelude
begin

text \<open>
  The C string library: string.c of the kernel and ulib.c of the user programs.

  Functions that store take the memory, a map from addresses to bytes, and return it updated
  byte by byte, in the order of the code, so that overlapping arguments mean what they mean in
  C. Functions that only read take each pointer as the bytes that follow it: \<open>p i\<close> is \<^verbatim>\<open>p[i]\<close>
  and \<open>inc p\<close> is \<^verbatim>\<open>p + 1\<close>. Loops without a bound are partial functions: \<open>None\<close> is a loop that
  runs forever.

  The lemmas give each function its meaning on strings (lists of nonzero bytes).
\<close>

type_synonym mem = "nat \<Rightarrow> byte"

definition inc :: "(nat \<Rightarrow> byte) \<Rightarrow> nat \<Rightarrow> byte" where
  "inc p i = p (Suc i)"

section \<open>Blocks of memory\<close>

text \<open>\<^verbatim>\<open>stosb\<close> and \<^verbatim>\<open>stosl\<close> of x86.h: store \<open>cnt\<close> bytes or 32-bit words.\<close>

fun stosb :: "mem \<Rightarrow> nat \<Rightarrow> byte \<Rightarrow> nat \<Rightarrow> mem" where
  "stosb m addr c 0 = m"
| "stosb m addr c (Suc cnt) = stosb (m(addr := c)) (addr + 1) c cnt"

definition store32 :: "mem \<Rightarrow> nat \<Rightarrow> uint32 \<Rightarrow> mem" where
  "store32 m addr w = m(addr := ucast w, addr + 1 := ucast (drop_bit 8 w),
     addr + 2 := ucast (drop_bit 16 w), addr + 3 := ucast (drop_bit 24 w))"

fun stosl :: "mem \<Rightarrow> nat \<Rightarrow> uint32 \<Rightarrow> nat \<Rightarrow> mem" where
  "stosl m addr w 0 = m"
| "stosl m addr w (Suc cnt) = stosl (store32 m addr w) (addr + 4) w cnt"

definition memset :: "mem \<Rightarrow> nat \<Rightarrow> uint32 \<Rightarrow> nat \<Rightarrow> mem" where
  "memset m dst c n =
     (if dst mod 4 = 0 \<and> n mod 4 = 0 then
        let c' = and c 0xFF in
        stosl m dst (or (or (or (push_bit 24 c') (push_bit 16 c')) (push_bit 8 c')) c') (n div 4)
      else stosb m dst (ucast c) n)"

definition ulib_memset :: "mem \<Rightarrow> nat \<Rightarrow> uint32 \<Rightarrow> nat \<Rightarrow> mem" where
  "ulib_memset m dst c n = stosb m dst (ucast c) n"

fun memcmp :: "(nat \<Rightarrow> byte) \<Rightarrow> (nat \<Rightarrow> byte) \<Rightarrow> nat \<Rightarrow> int" where
  "memcmp s1 s2 0 = 0"
| "memcmp s1 s2 (Suc n) = (if s1 0 \<noteq> s2 0 then uint (s1 0) - uint (s2 0) else memcmp (inc s1) (inc s2) n)"

text \<open>The two loops of \<^verbatim>\<open>memmove\<close>.\<close>

fun copy_down :: "mem \<Rightarrow> nat \<Rightarrow> nat \<Rightarrow> nat \<Rightarrow> mem" where
  "copy_down m d s 0 = m"
| "copy_down m d s (Suc n) = copy_down (m(d - 1 := m (s - 1))) (d - 1) (s - 1) n"

fun copy_up :: "mem \<Rightarrow> nat \<Rightarrow> nat \<Rightarrow> nat \<Rightarrow> mem" where
  "copy_up m d s 0 = m"
| "copy_up m d s (Suc n) = copy_up (m(d := m s)) (d + 1) (s + 1) n"

definition memmove :: "mem \<Rightarrow> nat \<Rightarrow> nat \<Rightarrow> nat \<Rightarrow> mem" where
  "memmove m dst src n =
     (if src < dst \<and> src + n > dst then copy_down m (dst + n) (src + n) n
      else copy_up m dst src n)"

definition memcpy :: "mem \<Rightarrow> nat \<Rightarrow> nat \<Rightarrow> nat \<Rightarrow> mem" where
  "memcpy m dst src n = memmove m dst src n"

definition ulib_memmove :: "mem \<Rightarrow> nat \<Rightarrow> nat \<Rightarrow> int \<Rightarrow> mem" where
  "ulib_memmove m dst src n = copy_up m dst src (nat n)"

section \<open>Strings\<close>

fun strncmp :: "(nat \<Rightarrow> byte) \<Rightarrow> (nat \<Rightarrow> byte) \<Rightarrow> nat \<Rightarrow> int" where
  "strncmp p q 0 = 0"
| "strncmp p q (Suc n) =
     (if p 0 \<noteq> 0 \<and> p 0 = q 0 then strncmp (inc p) (inc q) n else uint (p 0) - uint (q 0))"

partial_function (option) strcmp :: "(nat \<Rightarrow> byte) \<Rightarrow> (nat \<Rightarrow> byte) \<Rightarrow> int option" where
  "strcmp p q =
     (if p 0 \<noteq> 0 \<and> p 0 = q 0 then strcmp (inc p) (inc q) else Some (uint (p 0) - uint (q 0)))"

text \<open>\<^verbatim>\<open>strncpy\<close>: copy up to and including a NUL, then pad with NULs.\<close>

fun strncpy_loop :: "mem \<Rightarrow> nat \<Rightarrow> nat \<Rightarrow> nat \<Rightarrow> mem" where
  "strncpy_loop m s t 0 = m"
| "strncpy_loop m s t (Suc n) =
     (let m' = m(s := m t) in
      if m t \<noteq> 0 then strncpy_loop m' (s + 1) (t + 1) n else stosb m' (s + 1) 0 n)"

definition strncpy :: "mem \<Rightarrow> nat \<Rightarrow> nat \<Rightarrow> int \<Rightarrow> mem" where
  "strncpy m s t n = strncpy_loop m s t (nat n)"

fun safestrcpy_loop :: "mem \<Rightarrow> nat \<Rightarrow> nat \<Rightarrow> nat \<Rightarrow> mem" where
  "safestrcpy_loop m s t 0 = m(s := 0)"
| "safestrcpy_loop m s t (Suc n) =
     (let m' = m(s := m t) in
      if m t \<noteq> 0 then safestrcpy_loop m' (s + 1) (t + 1) n else m'(s + 1 := 0))"

definition safestrcpy :: "mem \<Rightarrow> nat \<Rightarrow> nat \<Rightarrow> int \<Rightarrow> mem" where
  "safestrcpy m s t n = (if n \<le> 0 then m else safestrcpy_loop m s t (nat (n - 1)))"

partial_function (option) strlen_from :: "nat \<Rightarrow> (nat \<Rightarrow> byte) \<Rightarrow> nat option" where
  "strlen_from n s = (if s n \<noteq> 0 then strlen_from (n + 1) s else Some n)"

definition strlen :: "(nat \<Rightarrow> byte) \<Rightarrow> nat option" where
  "strlen s = strlen_from 0 s"

partial_function (option) strcpy :: "mem \<Rightarrow> nat \<Rightarrow> nat \<Rightarrow> mem option" where
  "strcpy m s t =
     (let m' = m(s := m t) in if m t \<noteq> 0 then strcpy m' (s + 1) (t + 1) else Some m')"

text \<open>\<^verbatim>\<open>strchr\<close> returns the offset of the byte, or nothing for a null pointer; the outer option is
  termination.\<close>

partial_function (option) strchr_from :: "nat \<Rightarrow> (nat \<Rightarrow> byte) \<Rightarrow> byte \<Rightarrow> nat option option" where
  "strchr_from i s c =
     (if s i \<noteq> 0 then (if s i = c then Some (Some i) else strchr_from (i + 1) s c) else Some None)"

text \<open>\<^verbatim>\<open>n = n*10 + *s++ - '0'\<close>; \<^verbatim>\<open>char\<close> is compared as a signed byte, and signed overflow is left
  undefined by C, so the number is unbounded here.\<close>

partial_function (option) atoi_loop :: "(nat \<Rightarrow> byte) \<Rightarrow> int \<Rightarrow> int option" where
  "atoi_loop s n =
     (if 48 \<le> sint (s 0) \<and> sint (s 0) \<le> 57 then atoi_loop (inc s) (n * 10 + sint (s 0) - 48)
      else Some n)"

definition atoi :: "(nat \<Rightarrow> byte) \<Rightarrow> int option" where
  "atoi s = atoi_loop s 0"

section \<open>Copying and filling\<close>

lemma copy_up_spec:
  assumes "d \<le> s \<or> s + n \<le> d"
  shows "copy_up m d s n a = (if d \<le> a \<and> a < d + n then m (s + (a - d)) else m a)"
  using assms
proof (induction n arbitrary: m d s)
  case 0
  then show ?case by auto
next
  case (Suc n)
  have "copy_up m d s (Suc n) a = copy_up (m(d := m s)) (d + 1) (s + 1) n a" by simp
  also have "\<dots> = (if d + 1 \<le> a \<and> a < d + 1 + n then (m(d := m s)) (s + 1 + (a - (d + 1))) else (m(d := m s)) a)"
    by (rule Suc.IH) (use Suc.prems in auto)
  also have "\<dots> = (if d \<le> a \<and> a < d + Suc n then m (s + (a - d)) else m a)"
  proof (cases "d < a")
    case True
    then have "s + 1 + (a - (d + 1)) = s + (a - d)" by simp
    with True Suc.prems show ?thesis by auto
  qed (use Suc.prems in auto)
  finally show ?case .
qed

lemma copy_down_spec:
  assumes "s \<le> d"
  shows "copy_down m (d + n) (s + n) n a = (if d \<le> a \<and> a < d + n then m (s + (a - d)) else m a)"
proof (induction n arbitrary: m)
  case 0
  then show ?case by auto
next
  case (Suc n)
  define m' where "m' = m(d + n := m (s + n))"
  have "copy_down m (d + Suc n) (s + Suc n) (Suc n) a = copy_down m' (d + n) (s + n) n a"
    by (simp add: m'_def)
  also have "\<dots> = (if d \<le> a \<and> a < d + n then m' (s + (a - d)) else m' a)" by (rule Suc.IH)
  also have "\<dots> = (if d \<le> a \<and> a < d + Suc n then m (s + (a - d)) else m a)"
    using assms by (auto simp: m'_def)
  finally show ?case .
qed

lemma memmove_bytes:
  "memmove m dst src n a = (if dst \<le> a \<and> a < dst + n then m (src + (a - dst)) else m a)"
proof (cases "src < dst \<and> src + n > dst")
  case True
  then have "memmove m dst src n = copy_down m (dst + n) (src + n) n" unfolding memmove_def by (rule if_P)
  with True show ?thesis by (simp only: copy_down_spec [of src dst m n a] less_imp_le)
next
  case False
  then have "memmove m dst src n = copy_up m dst src n" unfolding memmove_def by (rule if_not_P)
  moreover have "dst \<le> src \<or> src + n \<le> dst" using False by auto
  ultimately show ?thesis by (simp only: copy_up_spec [of dst src n m a])
qed

lemma stosb_bytes: "stosb m addr c n a = (if addr \<le> a \<and> a < addr + n then c else m a)"
  by (induction n arbitrary: m addr) auto

lemma spread_byte:
  fixes c :: uint32
  defines "w \<equiv> or (or (or (push_bit 24 (and c 0xFF)) (push_bit 16 (and c 0xFF))) (push_bit 8 (and c 0xFF))) (and c 0xFF)"
  shows "(ucast w :: byte) = ucast c" "(ucast (drop_bit 8 w) :: byte) = ucast c"
    "(ucast (drop_bit 16 w) :: byte) = ucast c" "(ucast (drop_bit 24 w) :: byte) = ucast c"
proof -
  have ff: "(0xFF :: uint32) = mask 8" by (simp add: mask_eq_exp_minus_1)
  show "(ucast w :: byte) = ucast c" "(ucast (drop_bit 8 w) :: byte) = ucast c"
    "(ucast (drop_bit 16 w) :: byte) = ucast c" "(ucast (drop_bit 24 w) :: byte) = ucast c"
    unfolding w_def ff
    by (rule bit_word_eqI; auto simp: bit_simps dest: bit_imp_le_length)+
qed

lemma stosl_bytes:
  assumes "(ucast w :: byte) = c" "(ucast (drop_bit 8 w) :: byte) = c"
    "(ucast (drop_bit 16 w) :: byte) = c" "(ucast (drop_bit 24 w) :: byte) = c"
  shows "stosl m addr w n a = (if addr \<le> a \<and> a < addr + 4 * n then c else m a)"
proof (induction n arbitrary: m addr)
  case 0
  then show ?case by auto
next
  case (Suc n)
  then show ?case using assms by (auto simp: store32_def)
qed

lemma memset_bytes: "memset m dst c n a = (if dst \<le> a \<and> a < dst + n then ucast c else m a)"
proof (cases "dst mod 4 = 0 \<and> n mod 4 = 0")
  case True
  then have "4 * (n div 4) = n" by auto
  with True show ?thesis
    using stosl_bytes [OF spread_byte [of c], of m dst "n div 4" a] by (simp add: memset_def Let_def)
next
  case False
  then have "memset m dst c n = stosb m dst (ucast c) n" unfolding memset_def by (rule if_not_P)
  then show ?thesis by (simp only: stosb_bytes)
qed

section \<open>Strings as lists\<close>

text \<open>\<open>cstrn p n\<close>: the string at \<open>p\<close>, cut after \<open>n\<close> bytes. \<open>has_cstr p xs\<close>: the NUL-terminated
  string at \<open>p\<close> is \<open>xs\<close>.\<close>

fun cstrn :: "(nat \<Rightarrow> byte) \<Rightarrow> nat \<Rightarrow> byte list" where
  "cstrn p 0 = []"
| "cstrn p (Suc n) = (if p 0 = 0 then [] else p 0 # cstrn (inc p) n)"

definition has_cstr :: "(nat \<Rightarrow> byte) \<Rightarrow> byte list \<Rightarrow> bool" where
  "has_cstr p xs \<longleftrightarrow> (\<forall>i < length xs. p i = xs ! i \<and> xs ! i \<noteq> 0) \<and> p (length xs) = 0"

lemma has_cstr_Nil [simp]: "has_cstr p [] \<longleftrightarrow> p 0 = 0"
  by (simp add: has_cstr_def)

lemma has_cstr_Cons [simp]: "has_cstr p (x # xs) \<longleftrightarrow> p 0 = x \<and> x \<noteq> 0 \<and> has_cstr (inc p) xs"
  by (auto simp: has_cstr_def inc_def less_Suc_eq_0_disj nth_Cons')

lemma has_cstr_unique: "has_cstr p xs \<Longrightarrow> has_cstr p ys \<Longrightarrow> xs = ys"
proof (induction xs arbitrary: p ys)
  case Nil
  then show ?case by (cases ys) auto
next
  case (Cons x xs)
  then show ?case by (cases ys) auto
qed

lemma uint_byte_eq: "uint (a :: byte) = uint b \<longleftrightarrow> a = b" "uint (a :: byte) = 0 \<longleftrightarrow> a = 0"
  by (rule word_uint_eq_iff [symmetric], rule uint_0_iff)

lemma strncmp_0_iff: "strncmp p q n = 0 \<longleftrightarrow> cstrn p n = cstrn q n"
  by (induction p q n rule: strncmp.induct) (auto simp: uint_byte_eq)

lemma strcmp_strings:
  assumes "has_cstr p xs" and "has_cstr q ys"
  shows "\<exists>r. strcmp p q = Some r \<and> (r = 0 \<longleftrightarrow> xs = ys)"
  using assms
proof (induction xs arbitrary: p q ys)
  case Nil
  then have "strcmp p q = Some (uint (p 0) - uint (q 0))" by (subst strcmp.simps) simp
  with Nil show ?case by (cases ys) (auto simp: uint_byte_eq)
next
  case (Cons x xs)
  show ?case
  proof (cases "p 0 = q 0")
    case True
    then obtain ys' where ys: "ys = x # ys'" using Cons.prems by (cases ys) auto
    have "strcmp p q = strcmp (inc p) (inc q)" using True Cons.prems by (subst strcmp.simps) simp
    with Cons.IH [of "inc p" "inc q" ys'] Cons.prems ys show ?thesis by simp
  next
    case False
    then have "strcmp p q = Some (uint (p 0) - uint (q 0))" by (subst strcmp.simps) simp
    with False Cons.prems show ?thesis by (cases ys) (auto simp: uint_byte_eq)
  qed
qed

lemma strlen_from_spec:
  assumes "has_cstr (\<lambda>i. s (n + i)) xs"
  shows "strlen_from n s = Some (n + length xs)"
  using assms
proof (induction xs arbitrary: n)
  case Nil
  then show ?case by (subst strlen_from.simps) simp
next
  case (Cons x xs)
  have "inc (\<lambda>i. s (n + i)) = (\<lambda>i. s (n + 1 + i))" by (simp add: inc_def fun_eq_iff)
  then have "strlen_from (n + 1) s = Some (n + 1 + length xs)" using Cons by simp
  then show ?case using Cons.prems by (subst strlen_from.simps) simp
qed

lemma strlen_string: "has_cstr s xs \<Longrightarrow> strlen s = Some (length xs)"
  using strlen_from_spec [of s 0 xs] by (simp add: strlen_def)

lemma strlen_from_stops:
  assumes "strlen_from n s = Some k"
  shows "s k = 0 \<and> n \<le> k"
proof (rule strlen_from.raw_induct [of "\<lambda>n s k. s k = 0 \<and> n \<le> k", OF _ assms])
  fix f :: "nat \<Rightarrow> (nat \<Rightarrow> byte) \<Rightarrow> nat option" and n s y
  assume IH: "\<And>n s y. f n s = Some y \<Longrightarrow> s y = 0 \<and> n \<le> y"
    and "(if s n \<noteq> 0 then f (n + 1) s else Some n) = Some y"
  then show "s y = 0 \<and> n \<le> y" by (cases "s n = 0") (auto dest: IH)
qed

lemma strncpy_bytes:
  assumes "s + n \<le> t \<or> t + n \<le> s"
  shows "strncpy_loop m s t n a =
    (if s \<le> a \<and> a < s + n then (if a - s < length (cstrn (\<lambda>i. m (t + i)) n) then m (t + (a - s)) else 0) else m a)"
  using assms
proof (induction n arbitrary: m s t)
  case 0
  then show ?case by auto
next
  case (Suc n)
  let ?m = "m(s := m t)"
  show ?case
  proof (cases "m t = 0")
    case True
    then show ?thesis by (auto simp: Let_def stosb_bytes)
  next
    case False
    have inc: "inc (\<lambda>i. m (t + i)) = (\<lambda>i. m (t + 1 + i))" by (simp add: inc_def fun_eq_iff)
    have eq: "cstrn (\<lambda>i. ?m (t + 1 + i)) n = cstrn (\<lambda>i. m (t + 1 + i)) n"
    proof -
      have "cstrn p k = cstrn q k" if "\<And>i. i < k \<Longrightarrow> p i = q i" for p q :: "nat \<Rightarrow> byte" and k
        using that
      proof (induction k arbitrary: p q)
        case (Suc k)
        have "cstrn (inc p) k = cstrn (inc q) k" by (rule Suc.IH) (simp add: inc_def Suc.prems)
        with Suc.prems [of 0] show ?case by simp
      qed simp
      then show ?thesis by this (use Suc.prems in auto)
    qed
    have "strncpy_loop m s t (Suc n) a = strncpy_loop ?m (s + 1) (t + 1) n a" using False by (simp add: Let_def)
    also have "\<dots> = (if s + 1 \<le> a \<and> a < s + 1 + n then
        (if a - (s + 1) < length (cstrn (\<lambda>i. ?m (t + 1 + i)) n) then ?m (t + 1 + (a - (s + 1))) else 0) else ?m a)"
      by (rule Suc.IH) (use Suc.prems in auto)
    finally show ?thesis using False Suc.prems inc eq by (auto simp: Suc_diff_Suc)
  qed
qed

section \<open>Properties\<close>

text \<open>
  C8. The kernel's \<^verbatim>\<open>memmove\<close> is correct for every overlap of source and destination: afterwards
  the \<open>n\<close> bytes at \<open>dst\<close> are the bytes that were at \<open>src\<close>, and nothing else has changed.
\<close>

theorem memmove_correct:
  "map (memmove m dst src n) [dst..<dst + n] = map m [src..<src + n] \<and>
   (\<lambda>a. if dst \<le> a \<and> a < dst + n then m a else memmove m dst src n a) = m"
proof
  show "map (memmove m dst src n) [dst..<dst + n] = map m [src..<src + n]"
    by (rule nth_equalityI) (simp_all add: memmove_bytes)
  show "(\<lambda>a. if dst \<le> a \<and> a < dst + n then m a else memmove m dst src n a) = m"
    by (rule ext) (auto simp: memmove_bytes)
qed

lemma copy_up_below: "a < d \<Longrightarrow> copy_up m d s n a = m a"
  by (induction n arbitrary: m d s) auto

lemma copy_up_at: "copy_up m d s (i + Suc j) (d + i) = copy_up m d s i (s + i)"
proof (induction i arbitrary: m d s)
  case 0
  then show ?case by (simp add: copy_up_below)
next
  case (Suc i)
  define m' where "m' = m(d := m s)"
  have "copy_up m d s (Suc i + Suc j) (d + Suc i) = copy_up m' (d + 1) (s + 1) (i + Suc j) (d + 1 + i)"
    by (simp add: m'_def)
  also have "\<dots> = copy_up m' (d + 1) (s + 1) i (s + 1 + i)" by (rule Suc.IH)
  also have "\<dots> = copy_up m d s (Suc i) (s + Suc i)" by (simp add: m'_def)
  finally show ?case .
qed

text \<open>
  The \<^verbatim>\<open>memmove\<close> of the user library only copies upwards: whenever the destination starts
  inside the source (and not at its beginning) there is a memory content on which it differs from
  the kernel's, because source bytes are overwritten before they are read.
\<close>

lemma ulib_memmove_overlap:
  assumes "src < dst" and "dst < src + n"
  shows "\<exists>m. ulib_memmove m dst src (int n) \<noteq> memmove m dst src n"
proof
  let ?m = "\<lambda>a. if a = dst then 1 else 0 :: byte" and ?k = "dst - src"
  have "n = ?k + Suc (n - ?k - 1)" using assms by simp
  then have "ulib_memmove ?m dst src (int n) (dst + ?k) = copy_up ?m dst src ?k (src + ?k)"
    using copy_up_at [of ?m dst src ?k "n - ?k - 1"] by (simp add: ulib_memmove_def)
  also have "\<dots> = 0"
  proof -
    have k: "?k = 0 + Suc (?k - 1)" and e: "src + ?k = dst + 0" using assms by simp_all
    have "copy_up ?m dst src (0 + Suc (?k - 1)) (dst + 0) = copy_up ?m dst src 0 (src + 0)"
      by (rule copy_up_at)
    then have "copy_up ?m dst src ?k (dst + 0) = ?m src" unfolding k [symmetric] by simp
    then show ?thesis unfolding e using assms by simp
  qed
  finally have "ulib_memmove ?m dst src (int n) (dst + ?k) = 0" .
  moreover have "memmove ?m dst src n (dst + ?k) = 1"
  proof -
    have "dst \<le> dst + ?k" "dst + ?k < dst + n" "src + (dst + ?k - dst) = dst" using assms by linarith+
    then show ?thesis by (simp only: memmove_bytes if_True simp_thms)
  qed
  ultimately show "ulib_memmove ?m dst src (int n) \<noteq> memmove ?m dst src n" by auto
qed

lemma strncmp_padded:
  assumes "\<And>i. i < n \<Longrightarrow> q' i = (if i < length (cstrn q n) then q i else 0)"
  shows "strncmp p q' n = strncmp p q n"
  using assms
proof (induction n arbitrary: p q q')
  case 0
  then show ?case by simp
next
  case (Suc n)
  have z: "q' 0 = q 0" using Suc.prems [of 0] by auto
  show ?case
  proof (cases "p 0 \<noteq> 0 \<and> p 0 = q 0")
    case True
    then have nz: "q 0 \<noteq> 0" by auto
    have "strncmp (inc p) (inc q') n = strncmp (inc p) (inc q) n"
    proof (rule Suc.IH)
      fix i assume "i < n"
      then show "inc q' i = (if i < length (cstrn (inc q) n) then inc q i else 0)"
        using Suc.prems [of "Suc i"] nz by (simp add: inc_def)
    qed
    with True z show ?thesis by simp
  next
    case False
    with z show ?thesis by auto
  qed
qed

text \<open>
  C9. \<^verbatim>\<open>strncmp\<close> answers 0 exactly when the two strings, cut after \<open>n\<close> bytes, are equal, and
  \<^verbatim>\<open>strncpy\<close> into a separate buffer stores the cut string padded with NULs, so a name written by
  \<^verbatim>\<open>strncpy\<close> is found again by \<^verbatim>\<open>strncmp\<close>.
\<close>

theorem strncpy_strncmp:
  assumes "s + n \<le> t \<or> t + n \<le> s"
  shows "strncmp (\<lambda>i. m (t + i)) (\<lambda>i. strncpy m s t (int n) (s + i)) n = 0 \<and>
    (strncmp p (\<lambda>i. strncpy m s t (int n) (s + i)) n = 0 \<longleftrightarrow> cstrn p n = cstrn (\<lambda>i. m (t + i)) n)"
proof -
  have "strncmp p (\<lambda>i. strncpy m s t (int n) (s + i)) n = strncmp p (\<lambda>i. m (t + i)) n" for p
    by (rule strncmp_padded) (simp add: strncpy_def strncpy_bytes [OF assms])
  then show ?thesis by (simp add: strncmp_0_iff)
qed

theorem strncpy_strncmp_witness:
  "strncmp (\<lambda>i. 7) (\<lambda>i. strncpy (\<lambda>_. 7) 0 14 (int 14) (0 + i)) 14 = 0"
  using strncpy_strncmp [of 0 14 14 "\<lambda>_. 7" "\<lambda>_. 7"] by simp

end
