(* ===== verification/Dir.thy ===== *)
theory Dir
  imports Ialloc CString
begin

text \<open>
  Directories and path names (second half of fs.c).

  A path or a name is the list of its bytes before the NUL. \<open>strm\<close> turns it into the bytes a
  \<^verbatim>\<open>char*\<close> points to, for the string library. A null inode pointer is \<open>None\<close>.
\<close>

abbreviation DIRSIZ :: nat where "DIRSIZ \<equiv> 14"
abbreviation sizeof_dirent :: nat where "sizeof_dirent \<equiv> 16"

definition strm :: "byte list \<Rightarrow> nat \<Rightarrow> byte" where
  "strm xs i = (if i < length xs then xs ! i else 0)"

section \<open>Directories\<close>

definition namecmp :: "byte list \<Rightarrow> byte list \<Rightarrow> int" where
  "namecmp s t = strncmp (strm s) (strm t) DIRSIZ"

definition de_inum :: "byte list \<Rightarrow> nat" where
  "de_inum de = le_nat (slice 0 2 de)"

definition de_name :: "byte list \<Rightarrow> byte list" where
  "de_name de = slice 2 DIRSIZ de"

text \<open>The offsets \<^verbatim>\<open>0, sizeof(de), ...\<close> below the size of the directory.\<close>

definition dirent_offs :: "nat \<Rightarrow> nat list" where
  "dirent_offs sz = map (\<lambda>k. k * sizeof_dirent) [0..<(sz + sizeof_dirent - 1) div sizeof_dirent]"

fun dirlookup_scan ::
  "'z fsst_scheme devsw \<Rightarrow> nat \<Rightarrow> byte list \<Rightarrow> nat list \<Rightarrow> ('z fsst_scheme, (nat \<times> nat) option) kop" where
  "dirlookup_scan dv dp name [] = return None"
| "dirlookup_scan dv dp name (off # offs) =
     bind (readi dv dp off sizeof_dirent) (\<lambda>(r, de).
     bind (panic_if (r \<noteq> int sizeof_dirent) ''dirlink read'') (\<lambda>_.
     if de_inum de = 0 then dirlookup_scan dv dp name offs
     else if namecmp name (de_name de) = 0 then
       bind (ino dp) (\<lambda>d.
       bind (iget (i_dev d) (de_inum de)) (\<lambda>ip.
       return (Some (ip, off))))
     else dirlookup_scan dv dp name offs))"

definition dirlookup :: "'z fsst_scheme devsw \<Rightarrow> nat \<Rightarrow> byte list \<Rightarrow> ('z fsst_scheme, (nat \<times> nat) option) kop" where
  "dirlookup dv dp name =
     bind (ino dp) (\<lambda>d.
     bind (panic_if (i_type d \<noteq> T_DIR) ''dirlookup not DIR'') (\<lambda>_.
     dirlookup_scan dv dp name (dirent_offs (i_size d))))"

text \<open>The second loop of \<^verbatim>\<open>dirlink\<close>: the offset of a free entry, or the end \<open>fin\<close> of the directory.\<close>

fun dirfree_scan :: "'z fsst_scheme devsw \<Rightarrow> nat \<Rightarrow> nat \<Rightarrow> nat list \<Rightarrow> ('z fsst_scheme, nat) kop" where
  "dirfree_scan dv dp fin [] = return fin"
| "dirfree_scan dv dp fin (off # offs) =
     bind (readi dv dp off sizeof_dirent) (\<lambda>(r, de).
     bind (panic_if (r \<noteq> int sizeof_dirent) ''dirlink read'') (\<lambda>_.
     if de_inum de = 0 then return off else dirfree_scan dv dp fin offs))"

text \<open>\<^verbatim>\<open>strncpy(de.name, name, DIRSIZ)\<close>: the name cut to \<^verbatim>\<open>DIRSIZ\<close> bytes and padded with NULs.\<close>

definition pad_name :: "byte list \<Rightarrow> byte list" where
  "pad_name name = (let xs = cstrn (strm name) DIRSIZ in xs @ replicate (DIRSIZ - length xs) 0)"

definition encode_dirent :: "nat \<Rightarrow> byte list \<Rightarrow> byte list" where
  "encode_dirent inum name = le16 inum @ pad_name name"

definition dirlink :: "'z fsst_scheme devsw \<Rightarrow> nat \<Rightarrow> byte list \<Rightarrow> nat \<Rightarrow> ('z fsst_scheme, int) kop" where
  "dirlink dv dp name inum =
     bind (dirlookup dv dp name) (\<lambda>r.
     case r of
       Some (ip, _) \<Rightarrow> bind (iput ip) (\<lambda>_. return (-1))
     | None \<Rightarrow>
         bind (ino dp) (\<lambda>d.
         bind (dirfree_scan dv dp (length (dirent_offs (i_size d)) * sizeof_dirent) (dirent_offs (i_size d))) (\<lambda>off.
         bind (writei dv dp (encode_dirent inum name) off) (\<lambda>w.
         bind (panic_if (w \<noteq> int sizeof_dirent) ''dirlink'') (\<lambda>_.
         return 0)))))"

section \<open>Paths\<close>

abbreviation slash :: byte where "slash \<equiv> 47"

text \<open>\<^verbatim>\<open>skipelem\<close> returns the rest of the path and the next element, cut to \<^verbatim>\<open>DIRSIZ\<close> bytes.\<close>

definition skipelem :: "byte list \<Rightarrow> (byte list \<times> byte list) option" where
  "skipelem path =
     (let p = dropWhile (\<lambda>c. c = slash) path in
      if p = [] then None
      else Some (dropWhile (\<lambda>c. c = slash) (dropWhile (\<lambda>c. c \<noteq> slash) p),
                 take DIRSIZ (takeWhile (\<lambda>c. c \<noteq> slash) p)))"

lemma skipelem_shorter: "skipelem path = Some (rest, name) \<Longrightarrow> length rest < length path"
proof -
  assume a: "skipelem path = Some (rest, name)"
  define p where "p = dropWhile (\<lambda>c. c = slash) path"
  have ne: "p \<noteq> []" and r: "rest = dropWhile (\<lambda>c. c = slash) (dropWhile (\<lambda>c. c \<noteq> slash) p)"
    using a by (auto simp: skipelem_def p_def Let_def split: if_splits)
  have "hd p \<noteq> slash" using ne hd_dropWhile [of "\<lambda>c. c = slash" path] by (auto simp: p_def)
  then have "length (dropWhile (\<lambda>c. c \<noteq> slash) p) < length p"
    using ne length_dropWhile_le [of "\<lambda>c. c \<noteq> slash" "tl p"] by (cases p) (auto simp: le_imp_less_Suc)
  moreover have "length rest \<le> length (dropWhile (\<lambda>c. c \<noteq> slash) p)"
    unfolding r by (rule length_dropWhile_le)
  moreover have "length p \<le> length path" unfolding p_def by (rule length_dropWhile_le)
  ultimately show "length rest < length path" by linarith
qed

text \<open>The loop of \<^verbatim>\<open>namex\<close>; the result is the inode and the last element copied into \<^verbatim>\<open>name\<close>.\<close>

function namex_loop ::
  "'z fsst_scheme devsw \<Rightarrow> bool \<Rightarrow> nat \<Rightarrow> byte list \<Rightarrow> byte list \<Rightarrow>
   ('z fsst_scheme, (nat \<times> byte list) option) kop" where
  "namex_loop dv parent ip path name =
     (case skipelem path of
        None \<Rightarrow>
          if parent then bind (iput ip) (\<lambda>_. return None)
          else return (Some (ip, name))
      | Some (rest, elem) \<Rightarrow>
          bind (ilock ip) (\<lambda>_.
          bind (ino ip) (\<lambda>i.
          if i_type i \<noteq> T_DIR then bind (iunlockput ip) (\<lambda>_. return None)
          else if parent \<and> rest = [] then bind (iunlock ip) (\<lambda>_. return (Some (ip, elem)))
          else
            bind (dirlookup dv ip elem) (\<lambda>r.
            case r of
              None \<Rightarrow> bind (iunlockput ip) (\<lambda>_. return None)
            | Some (nxt, _) \<Rightarrow>
                bind (iunlockput ip) (\<lambda>_.
                namex_loop dv parent nxt rest elem)))))"
  by pat_completeness auto
termination
  by (relation "measure (\<lambda>(dv, parent, ip, path, name). length path)") (auto dest: skipelem_shorter)

definition namex ::
  "'z fsst_scheme devsw \<Rightarrow> byte list \<Rightarrow> bool \<Rightarrow> ('z fsst_scheme, (nat \<times> byte list) option) kop" where
  "namex dv path parent =
     bind (if path \<noteq> [] \<and> hd path = slash then iget ROOTDEV ROOTINO
           else bind (gets cwd) (\<lambda>c. idup c)) (\<lambda>ip.
     namex_loop dv parent ip path [])"

definition namei :: "'z fsst_scheme devsw \<Rightarrow> byte list \<Rightarrow> ('z fsst_scheme, nat option) kop" where
  "namei dv path = bind (namex dv path False) (\<lambda>r. return (map_option fst r))"

definition nameiparent ::
  "'z fsst_scheme devsw \<Rightarrow> byte list \<Rightarrow> ('z fsst_scheme, (nat \<times> byte list) option) kop" where
  "nameiparent dv path = namex dv path True"

end
