(* ===== verification/Kalloc.thy ===== *)
theory Kalloc
  imports CString
begin

unbundle bit_operations_syntax

text \<open>
  The physical page allocator (kalloc.c), with the address arithmetic of memlayout.h and mmu.h.
  \<open>run_next\<close> and \<open>ref_count\<close> are the array \<^verbatim>\<open>kmem.runs\<close>, a pointer into it is an index; \<open>kbytes\<close> is
  memory by kernel virtual address. The lock is not modelled: each call is one critical section.
  The linker decides \<open>kend\<close> (the symbol \<^verbatim>\<open>end\<close>) and \<open>runs_at\<close> (the address of \<^verbatim>\<open>kmem.runs\<close>), which
  are arguments. \<^verbatim>\<open>kalloc\<close> and \<^verbatim>\<open>_kfree\<close> are given for the build with \<^verbatim>\<open>original\<close> defined, which is
  the one the Makefile selects, and with suffix \<open>_cow\<close> for the copy-on-write build.
\<close>

section \<open>Addresses\<close>

abbreviation KERNBASE :: uint32 where "KERNBASE \<equiv> 0x80000000"
abbreviation PHYSTOP :: uint32 where "PHYSTOP \<equiv> 0xE000000"
abbreviation PGSIZE :: nat where "PGSIZE \<equiv> 4096"
abbreviation MAXPAGES :: nat where "MAXPAGES \<equiv> 57344"

definition v2p :: "uint32 \<Rightarrow> uint32" where "v2p a = a - KERNBASE"

definition p2v :: "uint32 \<Rightarrow> uint32" where "p2v a = a + KERNBASE"

definition PGROUNDUP :: "uint32 \<Rightarrow> uint32" where "PGROUNDUP sz = (sz + 4096 - 1) AND NOT (4096 - 1)"

definition PGROUNDDOWN :: "uint32 \<Rightarrow> uint32" where "PGROUNDDOWN a = a AND NOT (4096 - 1)"

lemma v2p_p2v [simp]: "v2p (p2v a) = a" "p2v (v2p a) = a"
  by (simp_all add: v2p_def p2v_def)

lemma PGROUNDDOWN_shift: "PGROUNDDOWN a = push_bit 12 (drop_bit 12 a)"
proof -
  have "(4096 - 1 :: uint32) = mask 12" by (simp add: mask_eq_exp_minus_1)
  then have "PGROUNDDOWN a = a AND NOT (mask 12)" unfolding PGROUNDDOWN_def by (rule arg_cong)
  also have "\<dots> = push_bit 12 (drop_bit 12 a)" by (rule bit_word_eqI) (auto simp: bit_simps)
  finally show ?thesis .
qed

lemma unat_PGROUNDDOWN: "unat (PGROUNDDOWN a) = unat a - unat a mod PGSIZE"
proof -
  have t: "unat (take_bit 12 a) = unat a mod PGSIZE" by (simp add: take_bit_eq_mod unat_mod)
  then have "take_bit 12 a \<le> a" by (simp add: word_le_nat_alt)
  then have "unat (a - take_bit 12 a) = unat a - unat a mod PGSIZE" unfolding t [symmetric] by (rule unat_sub)
  moreover have "PGROUNDDOWN a = a - take_bit 12 a"
    unfolding PGROUNDDOWN_shift using bits_ident [of 12 a] by (simp add: eq_diff_eq)
  ultimately show ?thesis by simp
qed

lemma PGROUNDUP_down: "PGROUNDUP a = PGROUNDDOWN (a + 4095)"
  by (simp add: PGROUNDUP_def PGROUNDDOWN_def add.commute)

lemma unat_PGROUNDUP:
  assumes "unat a + PGSIZE \<le> 2 ^ 32"
  shows "unat (PGROUNDUP a) = (unat a + 4095) div PGSIZE * PGSIZE"
proof -
  have "unat (a + 4095) = unat a + 4095" using assms by (simp add: unat_word_ariths)
  then show ?thesis by (simp add: PGROUNDUP_down unat_PGROUNDDOWN minus_mod_eq_div_mult)
qed

section \<open>The allocator\<close>

record kmem =
  use_lock :: bool
  freelist :: "nat option"
  run_next :: "nat \<Rightarrow> nat option"
  ref_count :: "nat \<Rightarrow> int"
  kbytes :: mem

definition run_of :: "uint32 \<Rightarrow> nat" where
  "run_of v = unat (v2p v) div PGSIZE"

definition push_free :: "nat \<Rightarrow> 'z kmem_scheme \<Rightarrow> 'z kmem_scheme" where
  "push_free r s = s\<lparr>run_next := (run_next s)(r := freelist s), freelist := Some r\<rparr>"

definition kfree_bad :: "uint32 \<Rightarrow> uint32 \<Rightarrow> bool" where
  "kfree_bad kend v \<longleftrightarrow> unat v mod PGSIZE \<noteq> 0 \<or> v < kend \<or> v2p v \<ge> PHYSTOP"

text \<open>\<^verbatim>\<open>_kfree\<close>; in the original build \<^verbatim>\<open>isStartup\<close> is not used, so \<^verbatim>\<open>kfree\<close> and \<^verbatim>\<open>kfree_sys\<close> coincide.\<close>

definition kfree :: "uint32 \<Rightarrow> uint32 \<Rightarrow> ('z kmem_scheme, unit) kop" where
  "kfree kend v =
     bind (panic_if (kfree_bad kend v) ''kfree'') (\<lambda>_.
     bind (modify (\<lambda>s. s\<lparr>kbytes := memset (kbytes s) (unat v) 1 PGSIZE\<rparr>)) (\<lambda>_.
     modify (push_free (run_of v))))"

definition kfree_cow :: "uint32 \<Rightarrow> bool \<Rightarrow> uint32 \<Rightarrow> ('z kmem_scheme, unit) kop" where
  "kfree_cow kend startup v =
     bind (panic_if (kfree_bad kend v) ''kfree'') (\<lambda>_.
     bind (modify (\<lambda>s. s\<lparr>kbytes := memset (kbytes s) (unat v) 1 PGSIZE\<rparr>)) (\<lambda>_.
     let r = run_of v in
     bind (whenk (\<not> startup)
       (bind (gets (\<lambda>s. ref_count s r)) (\<lambda>n.
        bind (panic_if (n = 0) ''ref_count < 1 when freeing'') (\<lambda>_.
        modify (\<lambda>s. s\<lparr>ref_count := (ref_count s)(r := n - 1)\<rparr>))))) (\<lambda>_.
     bind (gets (\<lambda>s. ref_count s r)) (\<lambda>n.
     whenk (n = 0) (modify (push_free r))))))"

text \<open>
  \<^verbatim>\<open>r - kmem.runs\<close> for a null \<^verbatim>\<open>r\<close>: the difference of the addresses divided by the size of
  \<^verbatim>\<open>struct run\<close>, which the compiler does by an arithmetic shift.
\<close>

definition null_index :: "uint32 \<Rightarrow> uint32" where
  "null_index runs_at = signed_drop_bit 3 (0 - runs_at)"

definition page_of :: "nat \<Rightarrow> uint32" where
  "page_of r = p2v (of_nat r * of_nat PGSIZE)"

definition kalloc :: "uint32 \<Rightarrow> ('z kmem_scheme, uint32) kop" where
  "kalloc runs_at =
     bind (gets freelist) (\<lambda>fr.
     case fr of
       None \<Rightarrow> return (p2v (null_index runs_at * of_nat PGSIZE))
     | Some r \<Rightarrow>
         bind (modify (\<lambda>s. s\<lparr>freelist := run_next s r\<rparr>)) (\<lambda>_.
         return (page_of r)))"

text \<open>The copy-on-write build dereferences the null pointer, which is undefined and modelled as a panic.\<close>

definition kalloc_cow :: "('z kmem_scheme, uint32) kop" where
  "kalloc_cow =
     bind (gets freelist) (\<lambda>fr.
     case fr of
       None \<Rightarrow> panic ''null run''
     | Some r \<Rightarrow>
         bind (modify (\<lambda>s. s\<lparr>freelist := run_next s r, ref_count := (ref_count s)(r := ref_count s r + 1)\<rparr>)) (\<lambda>_.
         return (page_of r)))"

definition getRefCount :: "uint32 \<Rightarrow> ('z kmem_scheme, int) kop" where
  "getRefCount va = gets (\<lambda>s. ref_count s (run_of va))"

definition incRefCount :: "uint32 \<Rightarrow> ('z kmem_scheme, unit) kop" where
  "incRefCount va = modify (\<lambda>s. s\<lparr>ref_count := (ref_count s)(run_of va := ref_count s (run_of va) + 1)\<rparr>)"

definition decRefCount :: "uint32 \<Rightarrow> ('z kmem_scheme, unit) kop" where
  "decRefCount va = modify (\<lambda>s. s\<lparr>ref_count := (ref_count s)(run_of va := ref_count s (run_of va) - 1)\<rparr>)"

text \<open>
  The pages \<^verbatim>\<open>freerange\<close> visits. Were the pointer to run over the end of the address space it would
  visit all \<open>2 ^ 20\<close> pages, and \<^verbatim>\<open>kfree\<close> would panic on the first one that is not the allocator's.
\<close>

definition range_pages :: "uint32 \<Rightarrow> uint32 \<Rightarrow> uint32 list" where
  "range_pages vstart vend =
     takeWhile (\<lambda>p. p + of_nat PGSIZE \<le> vend) (map (\<lambda>k. PGROUNDUP vstart + of_nat (k * PGSIZE)) [0..<2 ^ 20])"

definition freerange :: "uint32 \<Rightarrow> uint32 \<Rightarrow> uint32 \<Rightarrow> ('z kmem_scheme, unit) kop" where
  "freerange kend vstart vend = for_each (range_pages vstart vend) (kfree kend)"

definition kinit1 :: "uint32 \<Rightarrow> uint32 \<Rightarrow> uint32 \<Rightarrow> ('z kmem_scheme, unit) kop" where
  "kinit1 kend vstart vend =
     bind (modify (\<lambda>s. s\<lparr>use_lock := False\<rparr>)) (\<lambda>_. freerange kend vstart vend)"

definition kinit2 :: "uint32 \<Rightarrow> uint32 \<Rightarrow> uint32 \<Rightarrow> ('z kmem_scheme, unit) kop" where
  "kinit2 kend vstart vend =
     bind (freerange kend vstart vend) (\<lambda>_. modify (\<lambda>s. s\<lparr>use_lock := True\<rparr>))"

section \<open>The free list\<close>

fun chain :: "(nat \<Rightarrow> nat option) \<Rightarrow> nat option \<Rightarrow> nat list \<Rightarrow> bool" where
  "chain nx p [] = (p = None)"
| "chain nx p (x # xs) = (p = Some x \<and> chain nx (nx x) xs)"

text \<open>\<open>kmem_inv kend s xs\<close>: the free list runs through the distinct pages \<open>xs\<close>, all of them the allocator's.\<close>

definition kmem_inv :: "uint32 \<Rightarrow> 'z kmem_scheme \<Rightarrow> nat list \<Rightarrow> bool" where
  "kmem_inv kend s xs \<longleftrightarrow> chain (run_next s) (freelist s) xs \<and> distinct xs \<and>
     (\<forall>x\<in>set xs. \<not> kfree_bad kend (page_of x) \<and> x < MAXPAGES)"

lemma chain_upd: "r \<notin> set xs \<Longrightarrow> chain (nx(r := q)) p xs = chain nx p xs"
  by (induction xs arbitrary: p) auto

lemma page_of_phys: "x < MAXPAGES \<Longrightarrow> unat (v2p (page_of x)) = x * PGSIZE"
proof -
  assume x: "x < MAXPAGES"
  have "v2p (page_of x) = of_nat (x * PGSIZE)" by (simp add: page_of_def)
  then show ?thesis using x by (simp only: unat_of_nat) simp
qed

lemma run_of_page [simp]: "x < MAXPAGES \<Longrightarrow> run_of (page_of x) = x"
  by (simp add: run_of_def page_of_phys)

lemma unat_p2v: "unat a < 2 ^ 31 \<Longrightarrow> unat (p2v a) = unat a + 2 ^ 31"
  by (simp add: p2v_def unat_word_ariths)

lemma unat_v2p: "unat (v2p v) < 2 ^ 31 \<Longrightarrow> unat v = unat (v2p v) + 2 ^ 31"
  using unat_p2v [of "v2p v"] by simp

lemma page_of_unat: "x < MAXPAGES \<Longrightarrow> unat (page_of x) = 2 ^ 31 + x * PGSIZE"
  using unat_v2p [of "page_of x"] page_of_phys [of x] by simp

lemma good_page:
  assumes "\<not> kfree_bad kend v"
  shows "run_of v < MAXPAGES" "page_of (run_of v) = v"
proof -
  have "v2p v < PHYSTOP" and al: "unat v mod PGSIZE = 0" using assms by (auto simp: kfree_bad_def)
  then have lt: "unat (v2p v) < 234881024" by (simp add: word_less_nat_alt)
  then show "run_of v < MAXPAGES" by (simp add: run_of_def div_less_iff_less_mult)
  have "unat v = unat (v2p v) + 2 ^ 31" by (rule unat_v2p) (use lt in simp)
  then have "unat v = unat (v2p v) + 524288 * PGSIZE" by simp
  then have "unat (v2p v) mod PGSIZE = 0" using al by (metis mod_mult_self1 mult.commute)
  then have "run_of v * PGSIZE = unat (v2p v)" using div_mult_mod_eq [of "unat (v2p v)" PGSIZE] by (simp add: run_of_def)
  then have "of_nat (run_of v * PGSIZE) = v2p v" by simp
  then have "of_nat (run_of v) * of_nat PGSIZE = v2p v" by (simp only: of_nat_mult)
  then show "page_of (run_of v) = v" by (simp add: page_of_def)
qed

lemma kalloc_wp:
  assumes "kmem_inv kend s (x # xs)"
  shows "wp (kalloc runs_at) (\<lambda>v t. v = page_of x \<and> kmem_inv kend t xs \<and> kbytes t = kbytes s) s"
  using assms by (auto simp: kalloc_def wp_simps kmem_inv_def)

lemma kfree_wp:
  assumes inv: "kmem_inv kend s xs" and good: "\<not> kfree_bad kend v" and new: "run_of v \<notin> set xs"
  shows "wp (kfree kend v) (\<lambda>_ t. kmem_inv kend t (run_of v # xs) \<and>
    (\<forall>a. a < unat v \<or> unat v + PGSIZE \<le> a \<longrightarrow> kbytes t a = kbytes s a)) s"
  using inv good new good_page [OF good]
  by (auto simp: kfree_def wp_simps kmem_inv_def push_free_def chain_upd memset_bytes)

section \<open>Clients\<close>

text \<open>
  A client that calls \<^verbatim>\<open>kalloc\<close> while the free list is not empty, and \<^verbatim>\<open>kfree\<close> on pages that it
  holds; \<open>A\<close> are the pages it holds.
\<close>

inductive kclient :: "uint32 \<Rightarrow> uint32 \<Rightarrow> nat list \<Rightarrow> kmem \<Rightarrow> uint32 set \<Rightarrow> bool" for kend runs_at ps where
  k_init: "kmem_inv kend s ps \<Longrightarrow> kclient kend runs_at ps s {}"
| k_alloc: "kclient kend runs_at ps s A \<Longrightarrow> freelist s \<noteq> None \<Longrightarrow> kalloc runs_at s = Ok v t \<Longrightarrow>
    kclient kend runs_at ps t (insert v A)"
| k_free: "kclient kend runs_at ps s A \<Longrightarrow> v \<in> A \<Longrightarrow> kfree kend v s = Ok u t \<Longrightarrow>
    kclient kend runs_at ps t (A - {v})"

lemma kclient_inv:
  assumes "kclient kend runs_at ps s A"
  shows "\<exists>xs. kmem_inv kend s xs \<and> set xs \<subseteq> set ps \<and> A = page_of ` (set ps - set xs) \<and>
    (\<forall>x\<in>set ps. \<not> kfree_bad kend (page_of x) \<and> x < MAXPAGES)"
  using assms
proof induction
  case (k_init s)
  then show ?case by (intro exI [of _ ps]) (auto simp: kmem_inv_def)
next
  case (k_alloc s A v t)
  then obtain xs where x: "kmem_inv kend s xs" "set xs \<subseteq> set ps" "A = page_of ` (set ps - set xs)"
    "\<forall>x\<in>set ps. \<not> kfree_bad kend (page_of x) \<and> x < MAXPAGES" by blast
  with k_alloc.hyps(2) obtain y ys where y: "xs = y # ys" by (cases xs) (auto simp: kmem_inv_def)
  have "v = page_of y" "kmem_inv kend t ys"
    using wp_OkD [OF kalloc_wp k_alloc.hyps(3)] x(1) y by auto
  moreover have "y \<notin> set ys" using x(1) y by (simp add: kmem_inv_def)
  ultimately show ?case using x y by (intro exI [of _ ys]) auto
next
  case (k_free s A v u t)
  then obtain xs where x: "kmem_inv kend s xs" "set xs \<subseteq> set ps" "A = page_of ` (set ps - set xs)"
    "\<forall>x\<in>set ps. \<not> kfree_bad kend (page_of x) \<and> x < MAXPAGES" by blast
  with k_free.hyps(2) obtain y where y: "v = page_of y" "y \<in> set ps" "y \<notin> set xs" "y < MAXPAGES" "\<not> kfree_bad kend v"
    by auto
  have inj: "inj_on page_of (set ps)" using x(4) by (metis inj_onI run_of_page)
  have "kmem_inv kend t (y # xs)"
    using wp_OkD [OF kfree_wp [OF x(1) y(5)] k_free.hyps(3)] y by simp
  moreover have "A - {v} = page_of ` (set ps - set (y # xs))"
    using x(2,3) y inj by (auto simp: inj_on_def)
  ultimately show ?case using x y by (intro exI [of _ "y # xs"]) auto
qed

text \<open>
  C17. The allocator never hands out a page twice. Whatever calls a well-behaved client has made,
  as long as the free list is not empty \<^verbatim>\<open>kalloc\<close> returns a page of the pool that nobody holds,
  \<^verbatim>\<open>kfree\<close> of a held page succeeds and makes it the next page to be handed out, and the free
  list is empty exactly when the client holds the whole pool.
\<close>

theorem kalloc_exclusive:
  assumes "kclient kend runs_at ps s A"
  shows "(freelist s = None \<longleftrightarrow> A = page_of ` set ps) \<and>
    (freelist s \<noteq> None \<longrightarrow> wp (kalloc runs_at) (\<lambda>v t. v \<in> page_of ` set ps - A) s) \<and>
    (\<forall>v\<in>A. wp (bind (kfree kend v) (\<lambda>_. kalloc runs_at)) (\<lambda>w t. w = v) s)"
proof -
  from kclient_inv [OF assms] obtain xs where x: "kmem_inv kend s xs" "set xs \<subseteq> set ps" "A = page_of ` (set ps - set xs)"
    "\<forall>x\<in>set ps. \<not> kfree_bad kend (page_of x) \<and> x < MAXPAGES" by blast
  have inj: "inj_on page_of (set ps)" using x(4) by (metis inj_onI run_of_page)
  have e: "freelist s = None \<longleftrightarrow> xs = []" using x(1) by (cases xs) (auto simp: kmem_inv_def)
  have h1: "A = page_of ` set ps \<longleftrightarrow> xs = []"
    unfolding x(3) using inj x(2) by (cases xs) (auto simp: inj_on_image_eq_iff)
  have h2: "wp (kalloc runs_at) (\<lambda>v t. v \<in> page_of ` set ps - A) s" if "xs \<noteq> []"
  proof -
    obtain y ys where y: "xs = y # ys" using \<open>xs \<noteq> []\<close> by (cases xs) auto
    have "page_of y \<in> page_of ` set ps - A" using x(2,3) y inj by (auto simp: inj_on_def)
    then show ?thesis by (intro wp_mono [OF kalloc_wp [OF x(1) [unfolded y]]]) simp
  qed
  have h3: "wp (bind (kfree kend v) (\<lambda>_. kalloc runs_at)) (\<lambda>w t. w = v) s" if vA: "v \<in> A" for v
  proof -
    obtain y where y: "v = page_of y" "y \<notin> set xs" "y < MAXPAGES" "\<not> kfree_bad kend v"
      using vA x(4) unfolding x(3) by auto
    have "wp (kfree kend v) (\<lambda>_ t. kmem_inv kend t (y # xs)) s"
      by (rule wp_mono [OF kfree_wp [OF x(1) y(4)]]) (use y in simp_all)
    then show ?thesis unfolding wp_bind_fun
    proof (rule wp_mono)
      fix u and t :: kmem
      assume "kmem_inv kend t (y # xs)"
      then show "wp (kalloc runs_at) (\<lambda>w t. w = v) t" by (rule wp_mono [OF kalloc_wp]) (simp add: y)
    qed
  qed
  show ?thesis unfolding e by (intro conjI ballI impI) (use h1 h2 h3 in auto)
qed

definition demo_kmem :: kmem where
  "demo_kmem = \<lparr>use_lock = False, freelist = Some 2000, run_next = (\<lambda>r. if r = 2000 then Some 2001 else None),
     ref_count = (\<lambda>_. 0), kbytes = (\<lambda>_. 0)\<rparr>"

lemma demo_pages: "\<not> kfree_bad 0x80100000 (page_of 2000)" "\<not> kfree_bad 0x80100000 (page_of 2001)"
  by (simp_all add: kfree_bad_def page_of_def p2v_def v2p_def)

lemma demo_kmem_inv: "kmem_inv 0x80100000 demo_kmem [2000, 2001]"
  using demo_pages by (simp add: kmem_inv_def) (simp add: demo_kmem_def)

theorem kalloc_exclusive_witness:
  "kclient 0x80100000 0x80200000 [2000, 2001] (demo_kmem\<lparr>freelist := Some 2001\<rparr>) {page_of 2000} \<and>
   wp (bind (kfree 0x80100000 (page_of 2000)) (\<lambda>_. kalloc 0x80200000)) (\<lambda>w t. w = page_of 2000)
     (demo_kmem\<lparr>freelist := Some 2001\<rparr>)"
proof -
  have "kalloc 0x80200000 demo_kmem = Ok (page_of 2000) (demo_kmem\<lparr>freelist := Some 2001\<rparr>)"
    by (simp add: kalloc_def bind_def gets_def modify_def return_def demo_kmem_def)
  then have "kclient 0x80100000 0x80200000 [2000, 2001] (demo_kmem\<lparr>freelist := Some 2001\<rparr>) {page_of 2000}"
    by (intro k_alloc [OF k_init [OF demo_kmem_inv]]) (simp_all add: demo_kmem_def)
  then show ?thesis using kalloc_exclusive [of _ _ _ _ "{page_of 2000}"] by simp
qed

text \<open>
  C18. \<^verbatim>\<open>kalloc\<close> does not report that memory is used up. Its comment, and every caller, take a null
  pointer for failure; but with an empty free list it returns \<^verbatim>\<open>P2V((0 - kmem.runs) * PGSIZE)\<close>, which
  is not null wherever the linker put the array \<^verbatim>\<open>kmem.runs\<close> in the first 4 MB of the kernel (all
  that is mapped when the kernel starts).
\<close>

theorem kalloc_exhausted:
  assumes "freelist s = None" and "KERNBASE \<le> runs_at" and "unat runs_at + 8 * MAXPAGES \<le> 2 ^ 31 + 2 ^ 22"
  shows "wp (kalloc runs_at) (\<lambda>v t. v \<noteq> 0 \<and> t = s) s"
proof -
  define b where "b = unat runs_at - 2 ^ 31"
  have b: "unat runs_at = 2 ^ 31 + b" "b + 458752 \<le> 2 ^ 22"
    using assms(2,3) by (auto simp: b_def word_le_nat_alt)
  define w where "w = 0 - runs_at"
  define j where "j = (if b = 0 then - (2 ^ 31) else 2 ^ 31 - int b)"
  have "of_nat (unat runs_at) = runs_at" by simp
  then have "runs_at = of_nat (2 ^ 31 + b)" unfolding b(1) by (rule sym)
  then have "w = of_int j" by (simp add: w_def j_def)
  then have "sint w = signed_take_bit 31 j" by (simp add: signed_of_int)
  also have "\<dots> = j" by (rule signed_take_bit_int_eq_self) (use b(2) in \<open>auto simp: j_def\<close>)
  finally have sw: "sint w = j" .
  have k: "null_index runs_at = of_int (j div 8)"
  proof -
    have "sint (null_index runs_at) = j div 8"
      unfolding null_index_def w_def [symmetric] sint_signed_drop_bit_eq sw by (simp add: drop_bit_eq_div)
    then show ?thesis using scast_eq [of "null_index runs_at", where 'a = 32] by simp
  qed
  have "p2v (null_index runs_at * of_nat PGSIZE) \<noteq> 0"
  proof
    assume "p2v (null_index runs_at * of_nat PGSIZE) = 0"
    then have "(of_int (j div 8 * 4096 + 2 ^ 31) :: uint32) = 0" by (simp add: p2v_def k)
    then have "(2 :: int) ^ 32 dvd j div 8 * 4096 + 2 ^ 31" 
      unfolding word_of_int_eq_0_iff by simp
    then obtain m where "j div 8 * 4096 + 2 ^ 31 = 2 ^ 32 * m" by (rule dvdE)
    then have m: "j div 8 = 1048576 * m - 524288" by simp
    have d: "8 * (j div 8) \<le> j" "j < 8 * (j div 8) + 8" using div_mult_mod_eq [of j 8] pos_mod_bound [of 8 j] by auto
    show False
    proof (cases "b = 0")
      case True
      then have "j div 8 = - 268435456" by (simp add: j_def)
      then have "2 * m = - 511" using m by simp
      then show False by presburger
    next
      case False
      then have "j = 2147483648 - int b" "0 < int b" "int b \<le> 3735552" using b(2) by (auto simp: j_def)
      then have "256 < m" "m < 257" using m d by linarith+
      then show False by simp
    qed
  qed
  then show ?thesis using assms(1) by (simp add: kalloc_def wp_simps)
qed

theorem kalloc_exhausted_witness:
  "wp (kalloc 0x80112000) (\<lambda>v t. v \<noteq> 0 \<and> t = demo_kmem\<lparr>freelist := None\<rparr>) (demo_kmem\<lparr>freelist := None\<rparr>)"
  by (rule kalloc_exhausted) simp_all

section \<open>Initialisation\<close>

lemma free_pages_wp:
  assumes "kmem_inv kend s xs" and "distinct ys" and "set ys \<inter> set xs = {}"
    and "\<forall>y\<in>set ys. y < MAXPAGES \<and> \<not> kfree_bad kend (page_of y)"
  shows "wp (for_each (map page_of ys) (kfree kend)) (\<lambda>_ t. kmem_inv kend t (rev ys @ xs)) s"
  using assms
proof (induction ys arbitrary: xs s)
  case Nil
  then show ?case by (simp add: wp_simps)
next
  case (Cons y ys)
  have "wp (kfree kend (page_of y)) (\<lambda>_ t. kmem_inv kend t (y # xs)) s"
    by (rule wp_mono [OF kfree_wp [OF Cons.prems(1)]]) (use Cons.prems in auto)
  then have "wp (kfree kend (page_of y)) (\<lambda>_. wp (for_each (map page_of ys) (kfree kend)) (\<lambda>_ t. kmem_inv kend t (rev ys @ y # xs))) s"
    by (rule wp_mono) (rule Cons.IH, use Cons.prems in auto)
  then show ?case by (simp add: wp_simps)
qed

lemma range_pages_eq:
  assumes "KERNBASE \<le> vstart" and "vstart \<le> vend" and "vend \<le> KERNBASE + PHYSTOP"
  defines "lo \<equiv> (unat (v2p vstart) + 4095) div PGSIZE" and "hi \<equiv> unat (v2p vend) div PGSIZE"
  shows "range_pages vstart vend = map page_of [lo..<hi]"
proof -
  have b: "unat vstart = 2 ^ 31 + unat (v2p vstart)" "unat vend = 2 ^ 31 + unat (v2p vend)" "unat vend \<le> 2382364672"
    using assms(1-3) unat_sub [of KERNBASE vstart] unat_sub [of KERNBASE vend]
    by (auto simp: v2p_def word_le_nat_alt)
  have r: "unat (PGROUNDUP vstart) = 2 ^ 31 + lo * PGSIZE"
  proof -
    have "unat (PGROUNDUP vstart) = (unat vstart + 4095) div PGSIZE * PGSIZE"
      by (rule unat_PGROUNDUP) (use b assms(2) in \<open>simp add: word_le_nat_alt\<close>)
    also have "unat vstart + 4095 = (unat (v2p vstart) + 4095) + 524288 * PGSIZE" using b by simp
    also have "\<dots> div PGSIZE = lo + 524288" unfolding lo_def by (simp only: div_mult_self1)
    finally show ?thesis by simp
  qed
  have lo: "lo \<le> MAXPAGES" using b assms(2) by (auto simp: lo_def word_le_nat_alt intro: div_le_mono)
  let ?f = "\<lambda>k. PGROUNDUP vstart + of_nat (k * PGSIZE)"
  have f: "?f k = page_of (lo + k)" for k
  proof -
    have "PGROUNDUP vstart = of_nat (unat (PGROUNDUP vstart))" by simp
    also have "\<dots> = KERNBASE + of_nat lo * 4096" unfolding r by simp
    finally show ?thesis by (simp add: page_of_def p2v_def algebra_simps)
  qed
  have P: "page_of (lo + k) + of_nat PGSIZE \<le> vend \<longleftrightarrow> lo + k < hi" if "k \<le> MAXPAGES" for k
  proof -
    have "page_of (lo + k) + of_nat PGSIZE = of_nat (2 ^ 31 + (lo + k + 1) * PGSIZE)"
      by (simp add: page_of_def p2v_def algebra_simps)
    moreover have "2 ^ 31 + (lo + k + 1) * PGSIZE < 2 ^ 32" using lo that by simp
    ultimately have "unat (page_of (lo + k) + of_nat PGSIZE) = 2 ^ 31 + (lo + k + 1) * PGSIZE"
      by (simp only: unat_of_nat) simp
    then have "page_of (lo + k) + of_nat PGSIZE \<le> vend \<longleftrightarrow> (lo + k + 1) * PGSIZE \<le> unat (v2p vend)"
      using b(2) by (simp add: word_le_nat_alt)
    also have "\<dots> \<longleftrightarrow> lo + k + 1 \<le> hi" by (simp add: hi_def less_eq_div_iff_mult_less_eq)
    finally show ?thesis by (simp add: Suc_le_eq)
  qed
  have hi: "hi \<le> MAXPAGES" using b by (auto simp: hi_def intro: order_trans [OF div_le_mono])
  have "takeWhile (\<lambda>p. p + of_nat PGSIZE \<le> vend) (map ?f [0..<2 ^ 20]) = take (hi - lo) (map ?f [0..<2 ^ 20])"
  proof (rule takeWhile_eq_take_P_nth)
    fix i
    assume "i < hi - lo" "i < length (map ?f [0..<2 ^ 20])"
    then show "map ?f [0..<2 ^ 20] ! i + of_nat PGSIZE \<le> vend" using P [of i] hi f by simp
  next
    assume "hi - lo < length (map ?f [0..<2 ^ 20])"
    then show "\<not> map ?f [0..<2 ^ 20] ! (hi - lo) + of_nat PGSIZE \<le> vend" using P [of "hi - lo"] hi f by simp
  qed
  also have "\<dots> = map ?f [0..<hi - lo]" using hi by (simp add: take_map)
  also have "\<dots> = map page_of (map (\<lambda>k. k + lo) [0..<hi - lo])" unfolding f by (simp add: add.commute)
  also have "\<dots> = map page_of [lo..<hi]" by (cases "lo \<le> hi") (simp_all add: map_add_upt)
  finally show ?thesis by (simp add: range_pages_def)
qed

text \<open>
  \<^verbatim>\<open>freerange(vstart, vend)\<close>, and with it \<^verbatim>\<open>kinit1\<close> and \<^verbatim>\<open>kinit2\<close>, puts on the free list exactly the
  whole pages between the two addresses, the last one first: the partial pages at the ends are left
  out, and no page of the range is missed or freed twice.
\<close>

lemma freerange_pages:
  assumes "kmem_inv kend s xs" and "KERNBASE \<le> kend" and "kend \<le> vstart" and "vstart \<le> vend" and "vend \<le> KERNBASE + PHYSTOP"
    and "\<forall>x\<in>set xs. x < (unat (v2p vstart) + 4095) div PGSIZE \<or> unat (v2p vend) div PGSIZE \<le> x"
  shows "wp (freerange kend vstart vend)
    (\<lambda>_ t. kmem_inv kend t (rev [(unat (v2p vstart) + 4095) div PGSIZE..<unat (v2p vend) div PGSIZE] @ xs)) s"
proof -
  define lo hi where d: "lo = (unat (v2p vstart) + 4095) div PGSIZE" "hi = unat (v2p vend) div PGSIZE"
  have le: "KERNBASE \<le> vstart" using assms(2,3) by (rule order_trans)
  have b: "unat vstart = 2 ^ 31 + unat (v2p vstart)" "unat vend = 2 ^ 31 + unat (v2p vend)" "unat vend \<le> 2382364672"
    using le assms(4,5) unat_sub [of KERNBASE vstart] unat_sub [of KERNBASE vend]
    by (auto simp: v2p_def word_le_nat_alt)
  have hi: "hi \<le> MAXPAGES" using b by (auto simp: d intro: order_trans [OF div_le_mono])
  have good: "y < MAXPAGES \<and> \<not> kfree_bad kend (page_of y)" if "y \<in> set [lo..<hi]" for y
  proof -
    have y: "lo \<le> y" "y < hi" "y < MAXPAGES" using that hi by auto
    have "unat (v2p vstart) \<le> lo * PGSIZE" using div_mult_mod_eq [of "unat (v2p vstart) + 4095" PGSIZE]
      mod_less_divisor [of PGSIZE "unat (v2p vstart) + 4095"] unfolding d by linarith
    then have "unat vstart \<le> unat (page_of y)" using y b by (simp add: page_of_unat)
    then have "kend \<le> page_of y" using assms(3) by (simp add: word_le_nat_alt)
    moreover have "v2p (page_of y) < PHYSTOP" using y by (simp add: word_less_nat_alt page_of_phys)
    moreover have "unat (page_of y) mod PGSIZE = 0"
    proof -
      have "unat (page_of y) = (524288 + y) * PGSIZE" using page_of_unat [OF y(3)] by simp
      then show ?thesis by (simp only: mod_mult_self2_is_0)
    qed
    ultimately show ?thesis using y by (simp add: kfree_bad_def not_less not_le)
  qed
  show ?thesis
    unfolding freerange_def range_pages_eq [OF le assms(4,5)] d [symmetric]
    by (rule free_pages_wp [OF assms(1)]) (use good assms(6) in \<open>auto simp: d\<close>)
qed

lemma freerange_pages_kinit1:
  "wp (freerange 0x80115000 0x80115678 0x80400000)
     (\<lambda>_ t. kmem_inv 0x80115000 t (rev [278..<1024])) (demo_kmem\<lparr>freelist := None\<rparr>)"
proof -
  have e: "(unat (v2p 0x80115678) + 4095) div PGSIZE = 278" "unat (v2p 0x80400000) div PGSIZE = 1024"
    by (simp_all add: v2p_def)
  show ?thesis
    by (rule freerange_pages [where xs = "[]" and vstart = "0x80115678" and vend = "0x80400000", unfolded e append_Nil2])
      (simp_all add: kmem_inv_def)
qed

section \<open>The copy-on-write build\<close>

text \<open>
  C19. In the copy-on-write build \<^verbatim>\<open>kfree\<close> of a page that several processes share only takes one
  reference away and leaves the page off the free list, but it has overwritten the page with junk
  before looking at the reference count: the other processes lose their memory.
\<close>

theorem kfree_cow_shared:
  assumes "\<not> kfree_bad kend v" and "1 < ref_count s (run_of v)"
  shows "wp (kfree_cow kend False v) (\<lambda>_ t. freelist t = freelist s \<and>
    ref_count t (run_of v) = ref_count s (run_of v) - 1 \<and>
    (\<forall>a. kbytes t a = (if unat v \<le> a \<and> a < unat v + PGSIZE then 1 else kbytes s a))) s"
  using assms by (auto simp: kfree_cow_def wp_simps Let_def memset_bytes)

theorem kfree_cow_shared_witness:
  "wp (kfree_cow 0x80100000 False (page_of 2000)) (\<lambda>_ t. kbytes t (unat (page_of 2000)) = 1)
     (demo_kmem\<lparr>ref_count := (\<lambda>_. 2)\<rparr>)"
  by (rule wp_mono [OF kfree_cow_shared [OF demo_pages(1)]]) simp_all

end
