(* ===== verification/Vm.thy ===== *)
theory Vm
  imports Kalloc
begin

text \<open>
  Page tables and address spaces (vm.c, with the macros of mmu.h). Page directories and page tables
  live in \<open>kbytes\<close>, as on the machine: an entry is the little-endian word at its address. An address
  of an entry is a natural number, \<open>None\<close> the null pointer. Addresses the linker decides are in
  \<open>linkmap\<close>. Sizes are bounded by \<^verbatim>\<open>KERNBASE\<close> where the loops below count with natural numbers
  (\<^verbatim>\<open>allocuvm\<close> tests this, \<^verbatim>\<open>freevm\<close> passes it, a process is never larger), so that the 32-bit
  loop counters of the code do not wrap around. Dereferencing a null pointer is a panic here.
  Segment descriptors are not modelled; of \<^verbatim>\<open>switchuvm\<close> and \<^verbatim>\<open>switchkvm\<close> the page table register is.
\<close>

unbundle bit_operations_syntax

section \<open>Words in memory\<close>

definition load32 :: "mem \<Rightarrow> nat \<Rightarrow> uint32" where
  "load32 m a = ucast (m a) OR push_bit 8 (ucast (m (a + 1))) OR push_bit 16 (ucast (m (a + 2))) OR
     push_bit 24 (ucast (m (a + 3)))"

definition write_bytes :: "mem \<Rightarrow> nat \<Rightarrow> byte list \<Rightarrow> mem" where
  "write_bytes m dst d = (\<lambda>a. if dst \<le> a \<and> a < dst + length d then d ! (a - dst) else m a)"

lemma join_bytes:
  fixes w :: uint32
  shows "ucast (ucast w :: byte) OR push_bit 8 (ucast (ucast (drop_bit 8 w) :: byte)) OR
    push_bit 16 (ucast (ucast (drop_bit 16 w) :: byte)) OR push_bit 24 (ucast (ucast (drop_bit 24 w) :: byte)) = w"
  (is "?x = w")
proof (rule bit_word_eqI)
  fix n
  assume n: "n < LENGTH(32)"
  consider "n < 8" | "8 \<le> n" "n < 16" | "16 \<le> n" "n < 24" | "24 \<le> n" by linarith
  then show "bit ?x n = bit w n"
    by cases (use n in \<open>auto simp: bit_simps\<close>)
qed

lemma load32_store32 [simp]: "load32 (store32 m a w) a = w"
  using join_bytes [of w] by (simp add: load32_def store32_def)

lemma load32_cong: "(\<And>k. k < 4 \<Longrightarrow> m (a + k) = n (a + k)) \<Longrightarrow> load32 m a = load32 n a"
proof -
  assume h: "\<And>k. k < 4 \<Longrightarrow> m (a + k) = n (a + k)"
  have "m a = n a" "m (a + 1) = n (a + 1)" "m (a + 2) = n (a + 2)" "m (a + 3) = n (a + 3)"
    using h [of 0] h [of 1] h [of 2] h [of 3] by auto
  then show ?thesis by (simp add: load32_def)
qed

lemma store32_other: "b < a \<or> a + 4 \<le> b \<Longrightarrow> store32 m a w b = m b"
  by (auto simp: store32_def)

lemma load32_store32_other: "b + 4 \<le> a \<or> a + 4 \<le> b \<Longrightarrow> load32 (store32 m a w) b = load32 m b"
  by (rule load32_cong) (auto simp: store32_other)

section \<open>Page directories\<close>

abbreviation EXTMEM :: uint32 where "EXTMEM \<equiv> 0x100000"
abbreviation DEVSPACE :: uint32 where "DEVSPACE \<equiv> 0xFE000000"
abbreviation KERNLINK :: uint32 where "KERNLINK \<equiv> 0x80100000"
abbreviation NPTENTRIES :: nat where "NPTENTRIES \<equiv> 1024"

abbreviation PTE_P :: uint32 where "PTE_P \<equiv> 1"
abbreviation PTE_W :: uint32 where "PTE_W \<equiv> 2"
abbreviation PTE_U :: uint32 where "PTE_U \<equiv> 4"
abbreviation PTE_COW :: uint32 where "PTE_COW \<equiv> 0x800"

definition PDX :: "uint32 \<Rightarrow> nat" where "PDX va = unat (drop_bit 22 va AND 0x3FF)"

definition PTX :: "uint32 \<Rightarrow> nat" where "PTX va = unat (drop_bit 12 va AND 0x3FF)"

definition PTE_ADDR :: "uint32 \<Rightarrow> uint32" where "PTE_ADDR pte = pte AND NOT 0xFFF"

definition PTE_FLAGS :: "uint32 \<Rightarrow> uint32" where "PTE_FLAGS pte = pte AND 0xFFF"

record linkmap =
  l_end :: uint32
  l_runs :: uint32
  l_data :: uint32

record vmst = kmem +
  kpgdir :: uint32
  cr3 :: uint32

abbreviation get32 :: "nat \<Rightarrow> ('z kmem_scheme, uint32) kop" where
  "get32 a \<equiv> gets (\<lambda>s. load32 (kbytes s) a)"

abbreviation put32 :: "nat \<Rightarrow> uint32 \<Rightarrow> ('z kmem_scheme, unit) kop" where
  "put32 a w \<equiv> modify (\<lambda>s. s\<lparr>kbytes := store32 (kbytes s) a w\<rparr>)"

abbreviation clear_page :: "uint32 \<Rightarrow> ('z kmem_scheme, unit) kop" where
  "clear_page v \<equiv> modify (\<lambda>s. s\<lparr>kbytes := memset (kbytes s) (unat v) 0 PGSIZE\<rparr>)"

definition walkpgdir :: "linkmap \<Rightarrow> uint32 \<Rightarrow> uint32 \<Rightarrow> bool \<Rightarrow> ('z kmem_scheme, nat option) kop" where
  "walkpgdir lk pgdir va alloc =
     bind (get32 (unat pgdir + 4 * PDX va)) (\<lambda>pde.
     if pde AND PTE_P \<noteq> 0 then return (Some (unat (p2v (PTE_ADDR pde)) + 4 * PTX va))
     else if \<not> alloc then return None
     else
       bind (kalloc (l_runs lk)) (\<lambda>pgtab.
       if pgtab = 0 then return None
       else
         bind (clear_page pgtab) (\<lambda>_.
         bind (put32 (unat pgdir + 4 * PDX va) (v2p pgtab OR PTE_P OR PTE_W OR PTE_U)) (\<lambda>_.
         return (Some (unat pgtab + 4 * PTX va))))))"

text \<open>
  \<^verbatim>\<open>a\<close> and \<^verbatim>\<open>last\<close> are page-aligned, so \<^verbatim>\<open>a == last\<close> after \<open>(last - a) / PGSIZE\<close> steps, modulo the size
  of the address space; the first argument counts these steps down.
\<close>

fun mappages_loop :: "nat \<Rightarrow> linkmap \<Rightarrow> uint32 \<Rightarrow> uint32 \<Rightarrow> uint32 \<Rightarrow> uint32 \<Rightarrow> ('z kmem_scheme, int) kop" where
  "mappages_loop n lk pgdir a pa perm =
     bind (walkpgdir lk pgdir a True) (\<lambda>pte.
     case pte of
       None \<Rightarrow> return (-1)
     | Some p \<Rightarrow>
         bind (get32 p) (\<lambda>e.
         bind (panic_if (e AND PTE_P \<noteq> 0) ''remap'') (\<lambda>_.
         bind (put32 p (pa OR perm OR PTE_P)) (\<lambda>_.
         case n of
           0 \<Rightarrow> return 0
         | Suc m \<Rightarrow> mappages_loop m lk pgdir (a + of_nat PGSIZE) (pa + of_nat PGSIZE) perm))))"

definition mappages :: "linkmap \<Rightarrow> uint32 \<Rightarrow> uint32 \<Rightarrow> uint32 \<Rightarrow> uint32 \<Rightarrow> uint32 \<Rightarrow> ('z kmem_scheme, int) kop" where
  "mappages lk pgdir va sz pa perm =
     (let a = PGROUNDDOWN va; last = PGROUNDDOWN (va + sz - 1) in
      mappages_loop (unat (last - a) div PGSIZE) lk pgdir a pa perm)"

text \<open>The table \<^verbatim>\<open>kmap\<close>: virtual address, start and end of the physical range, permissions.\<close>

definition kmap :: "linkmap \<Rightarrow> (uint32 \<times> uint32 \<times> uint32 \<times> uint32) list" where
  "kmap lk =
     [(KERNBASE, 0, EXTMEM, PTE_W),
      (KERNLINK, v2p KERNLINK, v2p (l_data lk), 0),
      (l_data lk, v2p (l_data lk), PHYSTOP, PTE_W),
      (DEVSPACE, DEVSPACE, 0, PTE_W)]"

fun map_all :: "linkmap \<Rightarrow> uint32 \<Rightarrow> (uint32 \<times> uint32 \<times> uint32 \<times> uint32) list \<Rightarrow> ('z kmem_scheme, bool) kop" where
  "map_all lk pgdir [] = return True"
| "map_all lk pgdir ((virt, ps, pe, perm) # ks) =
     bind (mappages lk pgdir virt (pe - ps) ps perm) (\<lambda>r.
     if r < 0 then return False else map_all lk pgdir ks)"

definition setupkvm :: "linkmap \<Rightarrow> ('z kmem_scheme, uint32) kop" where
  "setupkvm lk =
     bind (kalloc (l_runs lk)) (\<lambda>pgdir.
     if pgdir = 0 then return 0
     else
       bind (clear_page pgdir) (\<lambda>_.
       bind (panic_if (p2v PHYSTOP > DEVSPACE) ''PHYSTOP too high'') (\<lambda>_.
       bind (map_all lk pgdir (kmap lk)) (\<lambda>ok.
       return (if ok then pgdir else 0)))))"

definition switchkvm :: "('z vmst_scheme, unit) kop" where
  "switchkvm = modify (\<lambda>s. s\<lparr>cr3 := v2p (kpgdir s)\<rparr>)"

definition kvmalloc :: "linkmap \<Rightarrow> ('z vmst_scheme, unit) kop" where
  "kvmalloc lk = bind (setupkvm lk) (\<lambda>d. bind (modify (\<lambda>s. s\<lparr>kpgdir := d\<rparr>)) (\<lambda>_. switchkvm))"

definition switchuvm :: "uint32 \<Rightarrow> ('z vmst_scheme, unit) kop" where
  "switchuvm pgdir =
     bind (panic_if (pgdir = 0) ''switchuvm: no pgdir'') (\<lambda>_. modify (\<lambda>s. s\<lparr>cr3 := v2p pgdir\<rparr>))"

definition inituvm :: "linkmap \<Rightarrow> uint32 \<Rightarrow> byte list \<Rightarrow> ('z kmem_scheme, unit) kop" where
  "inituvm lk pgdir init =
     bind (panic_if (length init \<ge> PGSIZE) ''inituvm: more than a page'') (\<lambda>_.
     bind (kalloc (l_runs lk)) (\<lambda>mem.
     bind (clear_page mem) (\<lambda>_.
     bind (mappages lk pgdir 0 (of_nat PGSIZE) (v2p mem) (PTE_W OR PTE_U)) (\<lambda>_.
     modify (\<lambda>s. s\<lparr>kbytes := write_bytes (kbytes s) (unat mem) init\<rparr>)))))"

section \<open>User memory\<close>

function deallocuvm_loop :: "linkmap \<Rightarrow> uint32 \<Rightarrow> nat \<Rightarrow> nat \<Rightarrow> ('z kmem_scheme, unit) kop" where
  "deallocuvm_loop lk pgdir a oldsz =
     (if a < oldsz then
        bind (walkpgdir lk pgdir (of_nat a) False) (\<lambda>pte.
        case pte of
          None \<Rightarrow> deallocuvm_loop lk pgdir (a + (NPTENTRIES - 1) * PGSIZE + PGSIZE) oldsz
        | Some p \<Rightarrow>
            bind (get32 p) (\<lambda>e.
            bind (whenk (e AND PTE_P \<noteq> 0)
              (bind (panic_if (PTE_ADDR e = 0) ''kfree'') (\<lambda>_.
               bind (kfree (l_end lk) (p2v (PTE_ADDR e))) (\<lambda>_.
               put32 p 0)))) (\<lambda>_.
            deallocuvm_loop lk pgdir (a + PGSIZE) oldsz)))
      else return ())"
  by pat_completeness auto
termination
  by (relation "measure (\<lambda>(lk, pgdir, a, oldsz). oldsz - a)") auto

definition deallocuvm :: "linkmap \<Rightarrow> uint32 \<Rightarrow> uint32 \<Rightarrow> uint32 \<Rightarrow> ('z kmem_scheme, uint32) kop" where
  "deallocuvm lk pgdir oldsz newsz =
     (if newsz \<ge> oldsz then return oldsz
      else bind (deallocuvm_loop lk pgdir (unat (PGROUNDUP newsz)) (unat oldsz)) (\<lambda>_. return newsz))"

text \<open>The pages \<^verbatim>\<open>for(; a < b; a += PGSIZE)\<close> visits.\<close>

definition page_steps :: "uint32 \<Rightarrow> uint32 \<Rightarrow> uint32 list" where
  "page_steps a b = map (\<lambda>k. a + of_nat (k * PGSIZE)) [0..<(unat b - unat a + 4095) div PGSIZE]"

fun allocuvm_loop :: "linkmap \<Rightarrow> uint32 \<Rightarrow> uint32 \<Rightarrow> uint32 \<Rightarrow> uint32 list \<Rightarrow> ('z kmem_scheme, uint32) kop" where
  "allocuvm_loop lk pgdir oldsz newsz [] = return newsz"
| "allocuvm_loop lk pgdir oldsz newsz (a # as) =
     bind (kalloc (l_runs lk)) (\<lambda>mem.
     if mem = 0 then bind (deallocuvm lk pgdir newsz oldsz) (\<lambda>_. return 0)
     else
       bind (clear_page mem) (\<lambda>_.
       bind (mappages lk pgdir a (of_nat PGSIZE) (v2p mem) (PTE_W OR PTE_U)) (\<lambda>_.
       allocuvm_loop lk pgdir oldsz newsz as)))"

definition allocuvm :: "linkmap \<Rightarrow> uint32 \<Rightarrow> uint32 \<Rightarrow> uint32 \<Rightarrow> ('z kmem_scheme, uint32) kop" where
  "allocuvm lk pgdir oldsz newsz =
     (if newsz \<ge> KERNBASE then return 0
      else if newsz < oldsz then return oldsz
      else allocuvm_loop lk pgdir oldsz newsz (page_steps (PGROUNDUP oldsz) newsz))"

definition freevm :: "linkmap \<Rightarrow> uint32 \<Rightarrow> ('z kmem_scheme, unit) kop" where
  "freevm lk pgdir =
     bind (panic_if (pgdir = 0) ''freevm: no pgdir'') (\<lambda>_.
     bind (deallocuvm lk pgdir KERNBASE 0) (\<lambda>_.
     bind (for_each [0..<1024] (\<lambda>i.
       bind (get32 (unat pgdir + 4 * i)) (\<lambda>e.
       whenk (e AND PTE_P \<noteq> 0) (kfree (l_end lk) (p2v (PTE_ADDR e)))))) (\<lambda>_.
     kfree (l_end lk) pgdir)))"

definition clearpteu :: "linkmap \<Rightarrow> uint32 \<Rightarrow> uint32 \<Rightarrow> ('z kmem_scheme, unit) kop" where
  "clearpteu lk pgdir uva =
     bind (walkpgdir lk pgdir uva False) (\<lambda>pte.
     case pte of
       None \<Rightarrow> panic ''clearpteu''
     | Some p \<Rightarrow> bind (get32 p) (\<lambda>e. put32 p (e AND NOT PTE_U)))"

fun copyuvm_loop :: "linkmap \<Rightarrow> uint32 \<Rightarrow> uint32 \<Rightarrow> uint32 list \<Rightarrow> ('z kmem_scheme, uint32) kop" where
  "copyuvm_loop lk pgdir d [] = return d"
| "copyuvm_loop lk pgdir d (i # is) =
     bind (walkpgdir lk pgdir i False) (\<lambda>pte.
     case pte of
       None \<Rightarrow> panic ''copyuvm: pte should exist''
     | Some p \<Rightarrow>
         bind (get32 p) (\<lambda>e.
         bind (panic_if (e AND PTE_P = 0) ''copyuvm: page not present'') (\<lambda>_.
         bind (kalloc (l_runs lk)) (\<lambda>mem.
         if mem = 0 then bind (freevm lk d) (\<lambda>_. return 0)
         else
           bind (modify (\<lambda>s. s\<lparr>kbytes := memmove (kbytes s) (unat mem) (unat (p2v (PTE_ADDR e))) PGSIZE\<rparr>)) (\<lambda>_.
           bind (mappages lk d i (of_nat PGSIZE) (v2p mem) (PTE_FLAGS e)) (\<lambda>r.
           if r < 0 then bind (freevm lk d) (\<lambda>_. return 0)
           else copyuvm_loop lk pgdir d is))))))"

definition copyuvm :: "linkmap \<Rightarrow> uint32 \<Rightarrow> uint32 \<Rightarrow> ('z kmem_scheme, uint32) kop" where
  "copyuvm lk pgdir sz =
     bind (setupkvm lk) (\<lambda>d.
     if d = 0 then return 0 else copyuvm_loop lk pgdir d (page_steps 0 sz))"

text \<open>The copy-on-write build. When \<^verbatim>\<open>mappages\<close> fails the loop goes on with \<^verbatim>\<open>d = 0\<close>.\<close>

fun cowuvm_loop :: "linkmap \<Rightarrow> uint32 \<Rightarrow> uint32 \<Rightarrow> uint32 list \<Rightarrow> ('z kmem_scheme, uint32) kop" where
  "cowuvm_loop lk pgdir d [] = return d"
| "cowuvm_loop lk pgdir d (i # is) =
     bind (walkpgdir lk pgdir i False) (\<lambda>pte.
     case pte of
       None \<Rightarrow> panic ''copyuvm: pte should exist''
     | Some p \<Rightarrow>
         bind (get32 p) (\<lambda>e.
         bind (panic_if (e AND PTE_P = 0) ''copyuvm: page not present'') (\<lambda>_.
         let flags = (PTE_FLAGS e OR PTE_COW) AND NOT (PTE_W OR PTE_P) in
         bind (incRefCount (PGROUNDDOWN (p2v (PTE_ADDR e)))) (\<lambda>_.
         bind (mappages lk d i (of_nat PGSIZE) (PTE_ADDR e) flags) (\<lambda>r.
         if r < 0 then bind (freevm lk d) (\<lambda>_. cowuvm_loop lk pgdir 0 is)
         else cowuvm_loop lk pgdir d is)))))"

definition cowuvm :: "linkmap \<Rightarrow> uint32 \<Rightarrow> uint32 \<Rightarrow> ('z kmem_scheme, uint32) kop" where
  "cowuvm lk pgdir sz =
     bind (setupkvm lk) (\<lambda>d.
     if d = 0 then return 0 else cowuvm_loop lk pgdir d (page_steps 0 sz))"

text \<open>
  \<^verbatim>\<open>uva2ka\<close> does not test the pointer it gets from \<^verbatim>\<open>walkpgdir\<close>. Where that is null the code goes on with whatever the process has
  at address 0; the definition panics there.
\<close>

definition uva2ka :: "linkmap \<Rightarrow> uint32 \<Rightarrow> uint32 \<Rightarrow> ('z kmem_scheme, uint32) kop" where
  "uva2ka lk pgdir uva =
     bind (walkpgdir lk pgdir uva False) (\<lambda>pte.
     case pte of
       None \<Rightarrow> panic ''null pte''
     | Some p \<Rightarrow>
         bind (get32 p) (\<lambda>e.
         if e AND PTE_P = 0 then return 0
         else if e AND PTE_U = 0 then return 0
         else return (p2v (PTE_ADDR e))))"

text \<open>One iteration of \<^verbatim>\<open>copyout\<close> copies up to the end of the page.\<close>

definition page_part :: "uint32 \<Rightarrow> nat \<Rightarrow> nat" where
  "page_part va len = min len (PGSIZE - unat (va - PGROUNDDOWN va))"

lemma page_part_pos: "0 < len \<Longrightarrow> 0 < page_part va len"
proof -
  assume "0 < len"
  have "PGROUNDDOWN va \<le> va" by (simp add: word_le_nat_alt unat_PGROUNDDOWN)
  then have "unat (va - PGROUNDDOWN va) = unat va - unat (PGROUNDDOWN va)" by (rule unat_sub)
  then have "unat (va - PGROUNDDOWN va) = unat va mod PGSIZE" by (simp add: unat_PGROUNDDOWN)
  with \<open>0 < len\<close> show ?thesis by (simp add: page_part_def)
qed

function copyout :: "linkmap \<Rightarrow> uint32 \<Rightarrow> uint32 \<Rightarrow> byte list \<Rightarrow> ('z kmem_scheme, int) kop" where
  "copyout lk pgdir va p =
     (if p = [] then return 0
      else
        let va0 = PGROUNDDOWN va; n = page_part va (length p) in
        bind (uva2ka lk pgdir va0) (\<lambda>pa0.
        if pa0 = 0 then return (-1)
        else
          bind (modify (\<lambda>s. s\<lparr>kbytes := write_bytes (kbytes s) (unat (pa0 + (va - va0))) (take n p)\<rparr>)) (\<lambda>_.
          copyout lk pgdir (va0 + of_nat PGSIZE) (drop n p))))"
  by pat_completeness auto
termination
  by (relation "measure (\<lambda>(lk, pgdir, va, p). length p)") (auto simp: page_part_pos)

declare mappages_loop.simps [simp del] deallocuvm_loop.simps [simp del] copyout.simps [simp del]

end
