(* ===== verification/Vm_Spec.thy ===== *)
theory Vm_Spec
  imports Vm
begin

text \<open>
  What the page table operations of vm.c do. \<open>W s r i\<close> is the \<open>i\<close>-th word of physical page \<open>r\<close>;
  \<open>ptn s pgdir k\<close> the page table entry of virtual page \<open>k\<close> under the page directory \<open>pgdir\<close>, 0 when
  there is no page table for it. \<open>pgd_inv\<close> says that the directory and its page tables are distinct
  pages of the allocator, none of them on the free list.
\<close>

unbundle bit_operations_syntax

section \<open>Words of pages\<close>

definition W :: "'z kmem_scheme \<Rightarrow> nat \<Rightarrow> nat \<Rightarrow> uint32" where
  "W s r i = load32 (kbytes s) (unat (page_of r) + 4 * i)"

definition in_page :: "nat \<Rightarrow> nat \<Rightarrow> bool" where
  "in_page r a \<longleftrightarrow> 2 ^ 31 + r * PGSIZE \<le> a \<and> a < 2 ^ 31 + r * PGSIZE + PGSIZE"

lemma in_page_unique: "in_page r a \<Longrightarrow> in_page q a \<Longrightarrow> r = q"
proof -
  assume "in_page r a" "in_page q a"
  then have "(a - 2 ^ 31) div PGSIZE = r" "(a - 2 ^ 31) div PGSIZE = q"
    by (auto simp: in_page_def intro!: div_nat_eqI)
  then show ?thesis by simp
qed

lemma in_page_word: "r < MAXPAGES \<Longrightarrow> i < 1024 \<Longrightarrow> k < 4 \<Longrightarrow> in_page r (unat (page_of r) + 4 * i + k)"
  by (simp add: in_page_def page_of_unat)

lemma W_cong:
  assumes "r < MAXPAGES" "i < 1024" "\<And>a. in_page r a \<Longrightarrow> kbytes t a = kbytes s a"
  shows "W t r i = W s r i"
  unfolding W_def by (rule load32_cong) (use assms in_page_word in auto)

lemma W_put:
  assumes "r < MAXPAGES" "q < MAXPAGES" "i < 1024" "j < 1024"
  shows "W (s\<lparr>kbytes := store32 (kbytes s) (unat (page_of q) + 4 * j) w\<rparr>) r i = (if r = q \<and> i = j then w else W s r i)"
proof (cases "r = q \<and> i = j")
  case True
  then show ?thesis by (simp add: W_def)
next
  case False
  have "unat (page_of r) + 4 * i + 4 \<le> unat (page_of q) + 4 * j \<or> unat (page_of q) + 4 * j + 4 \<le> unat (page_of r) + 4 * i"
  proof (cases "r = q")
    case True
    then have "i < j \<or> j < i" using False by auto
    then show ?thesis using True by auto
  next
    case ne: False
    then have "r + 1 \<le> q \<or> q + 1 \<le> r" by auto
    then have "(r + 1) * PGSIZE \<le> q * PGSIZE \<or> (q + 1) * PGSIZE \<le> r * PGSIZE" using mult_le_mono1 by blast
    then show ?thesis using assms by (auto simp: page_of_unat)
  qed
  then show ?thesis using False by (auto simp: W_def load32_store32_other)
qed

lemma load32_zero: "(\<And>k. k < 4 \<Longrightarrow> m (a + k) = 0) \<Longrightarrow> load32 m a = 0"
proof -
  assume h: "\<And>k. k < 4 \<Longrightarrow> m (a + k) = 0"
  have "load32 m a = load32 (\<lambda>_. 0) a" by (rule load32_cong) (simp add: h)
  then show ?thesis by (simp add: load32_def)
qed

lemma W_clear:
  assumes "r < MAXPAGES" "q < MAXPAGES" "i < 1024"
  shows "W (s\<lparr>kbytes := memset (kbytes s) (unat (page_of q)) 0 PGSIZE\<rparr>) r i = (if r = q then 0 else W s r i)"
proof (cases "r = q")
  case True
  then show ?thesis using assms by (auto simp: W_def memset_bytes intro!: load32_zero)
next
  case False
  have "memset (kbytes s) (unat (page_of q)) 0 PGSIZE a = kbytes s a" if "in_page r a" for a
    using that False in_page_unique [of r a q] assms by (auto simp: memset_bytes in_page_def page_of_unat)
  then have "W (s\<lparr>kbytes := memset (kbytes s) (unat (page_of q)) 0 PGSIZE\<rparr>) r i = W s r i"
    by (intro W_cong [OF assms(1,3)]) simp
  then show ?thesis using False by simp
qed

section \<open>Page numbers\<close>

definition pn :: "uint32 \<Rightarrow> nat" where "pn va = unat va div PGSIZE"

lemma unat_and_1023: "unat (w AND 0x3FF :: uint32) = unat w mod 1024"
proof -
  have "(0x3FF :: uint32) = mask 10" by (simp add: mask_eq_exp_minus_1)
  then have "w AND 0x3FF = take_bit 10 w" by (simp only: take_bit_eq_mask)
  then show ?thesis by (simp add: take_bit_eq_mod unat_mod)
qed

lemma unat_shift: "unat (drop_bit n w :: uint32) = unat w div 2 ^ n"
  by (simp add: unat_drop_bit_eq) (simp add: drop_bit_eq_div)

lemma PTX_pn: "PTX va = pn va mod 1024"
  by (simp add: PTX_def pn_def unat_and_1023 unat_shift)

lemma PDX_pn: "PDX va = pn va div 1024"
proof -
  have "unat va div 4194304 < 1024" using unsigned_less [of va, where 'a = nat] by (simp add: div_less_iff_less_mult)
  then show ?thesis by (simp add: PDX_def pn_def unat_and_1023 unat_shift div_mult2_eq [symmetric])
qed

lemma pn_less: "pn va < 2 ^ 20"
  using unsigned_less [of va, where 'a = nat] by (simp add: pn_def div_less_iff_less_mult)

lemma pn_next: "pn a + 1 < 2 ^ 20 \<Longrightarrow> pn (a + of_nat PGSIZE) = pn a + 1"
proof -
  assume "pn a + 1 < 2 ^ 20"
  then have "unat a div PGSIZE < 1048575" by (simp add: pn_def)
  then have "unat a < 1048575 * PGSIZE" by (simp add: div_less_iff_less_mult)
  then have "unat (a + 4096) = unat a + 4096" by (simp add: unat_word_ariths)
  then show ?thesis by (simp add: pn_def)
qed

section \<open>Page directories\<close>

definition present :: "uint32 \<Rightarrow> bool" where "present e \<longleftrightarrow> e AND PTE_P \<noteq> 0"

definition frame_of :: "uint32 \<Rightarrow> nat" where "frame_of e = run_of (p2v (PTE_ADDR e))"

definition pde :: "'z kmem_scheme \<Rightarrow> uint32 \<Rightarrow> nat \<Rightarrow> uint32" where
  "pde s pgdir i = W s (run_of pgdir) i"

definition ptn :: "'z kmem_scheme \<Rightarrow> uint32 \<Rightarrow> nat \<Rightarrow> uint32" where
  "ptn s pgdir k = (if present (pde s pgdir (k div 1024)) then W s (frame_of (pde s pgdir (k div 1024))) (k mod 1024) else 0)"

definition pgd_inv :: "linkmap \<Rightarrow> 'z kmem_scheme \<Rightarrow> uint32 \<Rightarrow> nat list \<Rightarrow> bool" where
  "pgd_inv lk s pgdir xs \<longleftrightarrow> kmem_inv (l_end lk) s xs \<and> \<not> kfree_bad (l_end lk) pgdir \<and> run_of pgdir \<notin> set xs \<and>
     (\<forall>i<1024. present (pde s pgdir i) \<longrightarrow>
        \<not> kfree_bad (l_end lk) (p2v (PTE_ADDR (pde s pgdir i))) \<and> frame_of (pde s pgdir i) \<notin> set xs \<and>
        frame_of (pde s pgdir i) \<noteq> run_of pgdir \<and>
        (\<forall>j<1024. present (pde s pgdir j) \<longrightarrow> frame_of (pde s pgdir j) = frame_of (pde s pgdir i) \<longrightarrow> j = i))"

text \<open>The directory entries that have no page table yet.\<close>

definition absent :: "'z kmem_scheme \<Rightarrow> uint32 \<Rightarrow> nat" where
  "absent s pgdir = card {i. i < 1024 \<and> \<not> present (pde s pgdir i)}"

text \<open>Only the pages in \<open>R\<close> were written.\<close>

definition only :: "nat set \<Rightarrow> 'z kmem_scheme \<Rightarrow> 'z kmem_scheme \<Rightarrow> bool" where
  "only R s t \<longleftrightarrow> (\<forall>a. (\<forall>r\<in>R. \<not> in_page r a) \<longrightarrow> kbytes t a = kbytes s a)"

lemma only_refl [simp]: "only R s s"
  by (simp add: only_def)

lemma only_trans: "only R s t \<Longrightarrow> only Q t u \<Longrightarrow> only (R \<union> Q) s u"
  by (simp add: only_def)

lemma only_mono: "only R s t \<Longrightarrow> R \<subseteq> Q \<Longrightarrow> only Q s t"
  by (auto simp: only_def)

lemma only_W: "only R s t \<Longrightarrow> r \<notin> R \<Longrightarrow> r < MAXPAGES \<Longrightarrow> i < 1024 \<Longrightarrow> W t r i = W s r i"
  by (rule W_cong) (auto simp: only_def dest: in_page_unique)

lemma PTE_ADDR_down: "PTE_ADDR e = PGROUNDDOWN e"
  by (simp add: PTE_ADDR_def PGROUNDDOWN_def)

lemma PTE_FLAGS_take: "PTE_FLAGS e = take_bit 12 e"
proof -
  have "(0xFFF :: uint32) = mask 12" by (simp add: mask_eq_exp_minus_1)
  then show ?thesis by (simp only: PTE_FLAGS_def take_bit_eq_mask)
qed

lemma PTE_bits:
  assumes v: "unat v mod PGSIZE = 0" and f: "take_bit 12 f = f"
  shows "PTE_ADDR (v OR f) = v" "PTE_FLAGS (v OR f) = f"
proof -
  have "unat (take_bit 12 v) = 0" using v by (simp add: take_bit_eq_mod unat_mod)
  then have z: "take_bit 12 v = 0" by (simp add: unat_eq_0)
  have v0: "\<not> bit v n" if "n < 12" for n
    using that arg_cong [OF z, of "\<lambda>w. bit w n"] by (simp add: bit_take_bit_iff)
  have f0: "\<not> bit f n" if "\<not> n < 12" for n
    using that arg_cong [OF f, of "\<lambda>w. bit w n"] by (simp add: bit_take_bit_iff)
  show "PTE_ADDR (v OR f) = v"
    unfolding PTE_ADDR_down PGROUNDDOWN_shift
  proof (rule bit_word_eqI)
    fix n
    show "bit (push_bit 12 (drop_bit 12 (v OR f))) n = bit v n" if "n < LENGTH(32)"
      using that v0 f0 by (cases "n < 12") (auto simp: bit_simps)
  qed
  show "PTE_FLAGS (v OR f) = f" by (simp add: PTE_FLAGS_take z f)
qed

lemma present_or: "present (w OR PTE_P)"
proof -
  have "(w OR 1) AND 1 \<noteq> 0" by (simp add: bit.conj_disj_distrib2 and.commute)
  then show ?thesis by (simp add: present_def)
qed

text \<open>The pages of a page directory, and what an operation may do to them: take pages \<open>zs\<close> off the
  free list for page tables and write to the directory and to page tables only.\<close>

definition pt_pages :: "'z kmem_scheme \<Rightarrow> uint32 \<Rightarrow> nat set" where
  "pt_pages s pgdir = insert (run_of pgdir) {frame_of (pde s pgdir i) |i. i < 1024 \<and> present (pde s pgdir i)}"

definition pt_step :: "linkmap \<Rightarrow> uint32 \<Rightarrow> 'z kmem_scheme \<Rightarrow> 'z kmem_scheme \<Rightarrow> nat list \<Rightarrow> nat list \<Rightarrow> bool" where
  "pt_step lk pgdir s t xs ys \<longleftrightarrow> pgd_inv lk t pgdir ys \<and> absent t pgdir \<le> length ys \<and>
     absent s pgdir + length ys = absent t pgdir + length xs \<and>
     (\<exists>zs. xs = zs @ ys \<and> only (pt_pages s pgdir \<union> set zs) s t \<and> pt_pages t pgdir \<subseteq> pt_pages s pgdir \<union> set zs)"

lemma pt_step_refl: "pgd_inv lk s pgdir xs \<Longrightarrow> absent s pgdir \<le> length xs \<Longrightarrow> pt_step lk pgdir s s xs xs"
  by (auto simp: pt_step_def)

lemma pt_step_trans:
  assumes "pt_step lk pgdir s t xs ys" and "pt_step lk pgdir t u ys ws"
  shows "pt_step lk pgdir s u xs ws"
proof -
  obtain zs where z: "xs = zs @ ys" "only (pt_pages s pgdir \<union> set zs) s t" "pt_pages t pgdir \<subseteq> pt_pages s pgdir \<union> set zs"
    using assms(1) by (auto simp: pt_step_def)
  obtain zt where y: "ys = zt @ ws" "only (pt_pages t pgdir \<union> set zt) t u" "pt_pages u pgdir \<subseteq> pt_pages t pgdir \<union> set zt"
    using assms(2) by (auto simp: pt_step_def)
  have "only (pt_pages s pgdir \<union> set (zs @ zt)) s u"
    by (rule only_mono [OF only_trans [OF z(2) y(2)]]) (use z(3) in auto)
  moreover have "pt_pages u pgdir \<subseteq> pt_pages s pgdir \<union> set (zs @ zt)" using y(3) z(3) by auto
  ultimately show ?thesis using assms z(1) y(1) by (auto simp: pt_step_def)
qed

section \<open>Walking and mapping\<close>

lemma kmem_inv_kbytes [simp]: "kmem_inv kend (s\<lparr>kbytes := m\<rparr>) xs = kmem_inv kend s xs"
  by (simp add: kmem_inv_def)

lemma page_of_nz: "x < MAXPAGES \<Longrightarrow> page_of x \<noteq> 0"
proof
  assume "x < MAXPAGES" "page_of x = 0"
  then have "unat (0 :: uint32) = 2 ^ 31 + x * PGSIZE" using page_of_unat [of x] by simp
  then show False by simp
qed

lemma pde_load: "\<not> kfree_bad kend pgdir \<Longrightarrow> load32 (kbytes s) (unat pgdir + 4 * i) = pde s pgdir i"
  using good_page [of kend pgdir] by (simp add: pde_def W_def)

definition new_pde :: "nat \<Rightarrow> uint32" where
  "new_pde x = v2p (page_of x) OR PTE_P OR PTE_W OR PTE_U"

lemma new_pde_facts:
  assumes "x < MAXPAGES"
  shows "present (new_pde x)" "PTE_ADDR (new_pde x) = v2p (page_of x)" "frame_of (new_pde x) = x"
proof -
  have e: "new_pde x = v2p (page_of x) OR 7" by (simp add: new_pde_def or.assoc)
  have "new_pde x = (v2p (page_of x) OR 6) OR PTE_P" by (simp add: new_pde_def or.assoc)
  then show "present (new_pde x)" by (simp add: present_or)
  have "unat (v2p (page_of x)) mod PGSIZE = 0" using assms by (simp add: page_of_phys)
  then show a: "PTE_ADDR (new_pde x) = v2p (page_of x)" unfolding e by (rule PTE_bits) (simp add: take_bit_eq_mod)
  show "frame_of (new_pde x) = x" using assms by (simp add: frame_of_def a)
qed

lemma absent_upd:
  assumes "i < 1024" "\<not> present (pde s pgdir i)" "present e"
    and "\<And>j. j < 1024 \<Longrightarrow> pde t pgdir j = (if j = i then e else pde s pgdir j)"
  shows "absent s pgdir = Suc (absent t pgdir)"
proof -
  have "{j. j < 1024 \<and> \<not> present (pde s pgdir j)} = insert i {j. j < 1024 \<and> \<not> present (pde t pgdir j)}"
    using assms by (auto split: if_splits)
  moreover have "i \<notin> {j. j < 1024 \<and> \<not> present (pde t pgdir j)}" using assms by auto
  ultimately show ?thesis by (simp add: absent_def)
qed

lemma new_table:
  fixes s t :: "'z kmem_scheme"
  assumes inv: "pgd_inv lk s pgdir (x # ys)" and i: "i < 1024" "\<not> present (pde s pgdir i)"
    and k: "kmem_inv (l_end lk) t ys"
    and W: "\<And>r j. r < MAXPAGES \<Longrightarrow> j < 1024 \<Longrightarrow>
      W t r j = (if r = run_of pgdir \<and> j = i then new_pde x else if r = x then 0 else W s r j)"
  shows "pgd_inv lk t pgdir ys" "\<And>q. q < 2 ^ 20 \<Longrightarrow> ptn t pgdir q = ptn s pgdir q"
    "pde t pgdir i = new_pde x" "absent s pgdir = Suc (absent t pgdir)"
    "\<And>j. j < 1024 \<Longrightarrow> pde t pgdir j = (if j = i then new_pde x else pde s pgdir j)"
proof -
  have x: "x < MAXPAGES" "\<not> kfree_bad (l_end lk) (page_of x)" "x \<notin> set ys" "x \<noteq> run_of pgdir"
    and r0: "run_of pgdir < MAXPAGES" "\<not> kfree_bad (l_end lk) pgdir" "run_of pgdir \<notin> set ys"
    using inv good_page [of "l_end lk" pgdir] by (auto simp: pgd_inv_def kmem_inv_def)
  have old: "\<not> kfree_bad (l_end lk) (p2v (PTE_ADDR (pde s pgdir j)))" "frame_of (pde s pgdir j) \<notin> set (x # ys)"
    "frame_of (pde s pgdir j) \<noteq> run_of pgdir" "frame_of (pde s pgdir j) < MAXPAGES"
    if "j < 1024" "present (pde s pgdir j)" for j
    using inv that good_page [of "l_end lk" "p2v (PTE_ADDR (pde s pgdir j))"] by (auto simp: pgd_inv_def frame_of_def)
  have uniq: "j = j'" if "j < 1024" "j' < 1024" "present (pde s pgdir j)" "present (pde s pgdir j')"
    "frame_of (pde s pgdir j) = frame_of (pde s pgdir j')" for j j'
    using inv that by (auto simp: pgd_inv_def)
  show p: "pde t pgdir j = (if j = i then new_pde x else pde s pgdir j)" if "j < 1024" for j
    using W [OF r0(1) that] x(4) by (simp add: pde_def)
  show "pde t pgdir i = new_pde x" using p i by simp
  show "absent s pgdir = Suc (absent t pgdir)" using absent_upd [OF i new_pde_facts(1) [OF x(1)] p] .
  show "pgd_inv lk t pgdir ys"
    using k r0 x old uniq i new_pde_facts [OF x(1)] unfolding pgd_inv_def by (auto simp: p split: if_splits)
  show "ptn t pgdir q = ptn s pgdir q" if "q < 2 ^ 20" for q
  proof -
    have q: "q div 1024 < 1024" "q mod 1024 < 1024" using that by (auto simp: div_less_iff_less_mult)
    show ?thesis
    proof (cases "q div 1024 = i")
      case True
      then show ?thesis using i new_pde_facts [OF x(1)] W [OF x(1) q(2)] x(4) by (simp add: ptn_def p)
    next
      case False
      then show ?thesis using W [OF old(4) q(2)] old [OF q(1)] q p by (simp add: ptn_def)
    qed
  qed
qed

lemma walkpgdir_wp:
  fixes s :: "'z kmem_scheme"
  assumes inv: "pgd_inv lk s pgdir xs" and enough: "absent s pgdir \<le> length xs"
  shows "wp (walkpgdir lk pgdir va True) (\<lambda>p t. \<exists>ys. pt_step lk pgdir s t xs ys \<and> (\<forall>q<2 ^ 20. ptn t pgdir q = ptn s pgdir q) \<and>
    present (pde t pgdir (PDX va)) \<and> p = Some (unat (page_of (frame_of (pde t pgdir (PDX va)))) + 4 * PTX va)) s"
proof -
  have i: "PDX va < 1024" using pn_less [of va] by (simp add: PDX_pn div_less_iff_less_mult)
  have good: "\<not> kfree_bad (l_end lk) pgdir" using inv by (simp add: pgd_inv_def)
  note g = good_page [OF good]
  show ?thesis
  proof (cases "present (pde s pgdir (PDX va))")
    case True
    then have "page_of (frame_of (pde s pgdir (PDX va))) = p2v (PTE_ADDR (pde s pgdir (PDX va)))"
      using inv i good_page(2) by (auto simp: pgd_inv_def frame_of_def)
    then show ?thesis
      using True inv enough
      by (simp add: walkpgdir_def wp_simps pde_load [OF good] present_def) (intro exI [of _ xs] pt_step_refl, simp_all)
  next
    case False
    then have "absent s pgdir \<noteq> 0" using i by (auto simp: absent_def)
    then obtain x ys where xs: "xs = x # ys" using enough by (cases xs) auto
    have k: "kmem_inv (l_end lk) s (x # ys)" using inv xs by (simp add: pgd_inv_def)
    have x: "x < MAXPAGES" using k by (simp add: kmem_inv_def)
    let ?pa = "unat pgdir + 4 * PDX va"
    have "wp (kalloc (l_runs lk)) (\<lambda>pgtab. wp (if pgtab = 0 then return None
       else bind (clear_page pgtab) (\<lambda>_. bind (put32 ?pa (v2p pgtab OR PTE_P OR PTE_W OR PTE_U)) (\<lambda>_.
         return (Some (unat pgtab + 4 * PTX va)))))
      (\<lambda>p t. \<exists>ys. pt_step lk pgdir s t xs ys \<and> (\<forall>q<2 ^ 20. ptn t pgdir q = ptn s pgdir q) \<and>
        present (pde t pgdir (PDX va)) \<and> p = Some (unat (page_of (frame_of (pde t pgdir (PDX va)))) + 4 * PTX va))) s"
    proof (rule wp_mono [OF kalloc_wp [OF k]])
      fix v and u :: "'z kmem_scheme"
      assume u: "v = page_of x \<and> kmem_inv (l_end lk) u ys \<and> kbytes u = kbytes s"
      define w where "w = u\<lparr>kbytes := memset (kbytes u) (unat (page_of x)) 0 PGSIZE\<rparr>"
      define t where "t = w\<lparr>kbytes := store32 (kbytes w) (unat (page_of (run_of pgdir)) + 4 * PDX va) (new_pde x)\<rparr>"
      have Wt: "W t r j = (if r = run_of pgdir \<and> j = PDX va then new_pde x else if r = x then 0 else W s r j)"
        if "r < MAXPAGES" "j < 1024" for r j
      proof -
        have "W t r j = (if r = run_of pgdir \<and> j = PDX va then new_pde x else W w r j)"
          unfolding t_def by (rule W_put [OF that(1) g(1) that(2) i])
        also have "W w r j = (if r = x then 0 else W u r j)"
          unfolding w_def by (rule W_clear [OF that(1) x that(2)])
        also have "W u r j = W s r j" using u by (simp add: W_def)
        finally show ?thesis .
      qed
      have kt: "kmem_inv (l_end lk) t ys" using u by (simp add: t_def w_def)
      note nt = new_table [OF inv [unfolded xs] i False kt Wt]
      have o: "only (insert (run_of pgdir) (set [x])) s t"
        unfolding only_def
      proof (intro allI impI)
        fix a
        assume "\<forall>r\<in>insert (run_of pgdir) (set [x]). \<not> in_page r a"
        then have a: "\<not> in_page (run_of pgdir) a" "\<not> in_page x a" by auto
        have "a < unat (page_of (run_of pgdir)) + 4 * PDX va \<or> unat (page_of (run_of pgdir)) + 4 * PDX va + 4 \<le> a"
          using a(1) i g(1) by (auto simp: in_page_def page_of_unat)
        then show "kbytes t a = kbytes s a"
          using a(2) u x by (auto simp: t_def w_def store32_other memset_bytes in_page_def page_of_unat)
      qed
      have "frame_of (pde t pgdir (PDX va)) = x" "present (pde t pgdir (PDX va))" using nt(3) new_pde_facts [OF x] by auto
      moreover have "pt_step lk pgdir s t xs ys"
      proof -
        have "only (pt_pages s pgdir \<union> set [x]) s t" using o by (rule only_mono) (simp add: pt_pages_def)
        moreover have "pt_pages t pgdir \<subseteq> pt_pages s pgdir \<union> set [x]"
          using nt(5) new_pde_facts [OF x] by (auto simp: pt_pages_def split: if_splits)
        ultimately show ?thesis using nt(1,4) enough xs unfolding pt_step_def by (intro conjI exI [of _ "[x]"]) auto
      qed
      ultimately have "\<exists>ys. pt_step lk pgdir s t xs ys \<and> (\<forall>q<2 ^ 20. ptn t pgdir q = ptn s pgdir q) \<and>
        present (pde t pgdir (PDX va)) \<and> Some (unat (page_of x) + 4 * PTX va) =
          Some (unat (page_of (frame_of (pde t pgdir (PDX va)))) + 4 * PTX va)"
        using nt(2) by auto
      moreover have "t = u\<lparr>kbytes := store32 (memset (kbytes u) (unat v) 0 PGSIZE) ?pa (v2p v OR PTE_P OR PTE_W OR PTE_U)\<rparr>"
        using u g(2) by (simp add: t_def w_def new_pde_def)
      ultimately show "wp (if v = 0 then return None
       else bind (clear_page v) (\<lambda>_. bind (put32 ?pa (v2p v OR PTE_P OR PTE_W OR PTE_U)) (\<lambda>_.
         return (Some (unat v + 4 * PTX va)))))
      (\<lambda>p t. \<exists>ys. pt_step lk pgdir s t xs ys \<and> (\<forall>q<2 ^ 20. ptn t pgdir q = ptn s pgdir q) \<and>
        present (pde t pgdir (PDX va)) \<and> p = Some (unat (page_of (frame_of (pde t pgdir (PDX va)))) + 4 * PTX va)) u"
        using u page_of_nz [OF x] by (simp add: wp_simps)
    qed
    then show ?thesis
      using False by (simp add: walkpgdir_def wp_simps pde_load [OF good] present_def)
  qed
qed

lemma pgd_frame:
  assumes "pgd_inv lk s pgdir xs" "i < 1024" "present (pde s pgdir i)"
  shows "frame_of (pde s pgdir i) < MAXPAGES" "frame_of (pde s pgdir i) \<noteq> run_of pgdir" "frame_of (pde s pgdir i) \<notin> set xs"
    "page_of (frame_of (pde s pgdir i)) = p2v (PTE_ADDR (pde s pgdir i))"
  using assms good_page [of "l_end lk" "p2v (PTE_ADDR (pde s pgdir i))"] by (auto simp: pgd_inv_def frame_of_def)

lemma get_pte:
  assumes "present (pde s pgdir (PDX va))"
  shows "load32 (kbytes s) (unat (page_of (frame_of (pde s pgdir (PDX va)))) + 4 * PTX va) = ptn s pgdir (pn va)"
  using assms by (simp add: ptn_def W_def PDX_pn PTX_pn)

lemma put_pte:
  fixes s :: "'z kmem_scheme" and e
  assumes inv: "pgd_inv lk s pgdir xs" and enough: "absent s pgdir \<le> length xs" and pr: "present (pde s pgdir (PDX va))"
  defines "t \<equiv> s\<lparr>kbytes := store32 (kbytes s) (unat (page_of (frame_of (pde s pgdir (PDX va)))) + 4 * PTX va) e\<rparr>"
  shows "pt_step lk pgdir s t xs xs" "\<And>q. q < 2 ^ 20 \<Longrightarrow> ptn t pgdir q = (if q = pn va then e else ptn s pgdir q)"
proof -
  let ?f = "frame_of (pde s pgdir (PDX va))"
  have i: "PDX va < 1024" "PTX va < 1024" using pn_less [of va] by (auto simp: PDX_pn PTX_pn div_less_iff_less_mult)
  note f = pgd_frame [OF inv i(1) pr]
  have r0: "run_of pgdir < MAXPAGES" using inv good_page(1) by (auto simp: pgd_inv_def)
  have Wt: "W t r j = (if r = ?f \<and> j = PTX va then e else W s r j)" if "r < MAXPAGES" "j < 1024" for r j
    unfolding t_def by (rule W_put [OF that(1) f(1) that(2) i(2)])
  have p: "pde t pgdir j = pde s pgdir j" if "j < 1024" for j using Wt [OF r0 that] f(2) by (simp add: pde_def)
  have uniq: "j = j'" if "j < 1024" "j' < 1024" "present (pde s pgdir j)" "present (pde s pgdir j')"
    "frame_of (pde s pgdir j) = frame_of (pde s pgdir j')" for j j'
    using inv that by (auto simp: pgd_inv_def)
  have "only {?f} s t"
    unfolding only_def
  proof (intro allI impI)
    fix a
    assume "\<forall>r\<in>{?f}. \<not> in_page r a"
    then have "a < unat (page_of ?f) + 4 * PTX va \<or> unat (page_of ?f) + 4 * PTX va + 4 \<le> a"
      using i f(1) by (auto simp: in_page_def page_of_unat)
    then show "kbytes t a = kbytes s a" by (simp add: t_def store32_other)
  qed
  then have "only (pt_pages s pgdir) s t" by (rule only_mono) (use i pr in \<open>auto simp: pt_pages_def\<close>)
  moreover have "pt_pages t pgdir = pt_pages s pgdir" using p by (auto simp: pt_pages_def) metis+
  moreover have "absent t pgdir = absent s pgdir" unfolding absent_def by (rule arg_cong [of _ _ card]) (use p in auto)
  moreover have "pgd_inv lk t pgdir xs"
    using inv unfolding pgd_inv_def by (simp add: p) (simp add: t_def)
  ultimately show "pt_step lk pgdir s t xs xs" using enough by (auto simp: pt_step_def)
  show "ptn t pgdir q = (if q = pn va then e else ptn s pgdir q)" if q: "q < 2 ^ 20" for q
  proof -
    have d: "q div 1024 < 1024" "q mod 1024 < 1024" using q by (auto simp: div_less_iff_less_mult)
    have eq: "q = pn va \<longleftrightarrow> q div 1024 = PDX va \<and> q mod 1024 = PTX va"
      unfolding PDX_pn PTX_pn using div_mult_mod_eq [of q 1024] div_mult_mod_eq [of "pn va" 1024] by metis
    show ?thesis
    proof (cases "present (pde s pgdir (q div 1024))")
      case True
      then have "ptn t pgdir q = W t (frame_of (pde s pgdir (q div 1024))) (q mod 1024)" using p [OF d(1)] by (simp add: ptn_def)
      also have "\<dots> = (if frame_of (pde s pgdir (q div 1024)) = ?f \<and> q mod 1024 = PTX va then e
          else W s (frame_of (pde s pgdir (q div 1024))) (q mod 1024))"
        by (rule Wt [OF pgd_frame(1) [OF inv d(1) True] d(2)])
      also have "frame_of (pde s pgdir (q div 1024)) = ?f \<longleftrightarrow> q div 1024 = PDX va"
        using uniq [OF d(1) i(1) True pr] by auto
      finally show ?thesis using True by (simp add: eq ptn_def)
    next
      case False
      then have "q \<noteq> pn va" using pr eq by auto
      then show ?thesis using False p [OF d(1)] by (simp add: ptn_def)
    qed
  qed
qed

lemma mappages_loop_wp:
  fixes s :: "'z kmem_scheme"
  assumes "pgd_inv lk s pgdir xs" and "absent s pgdir \<le> length xs" and "pn a + n < 2 ^ 20"
    and "\<And>q. pn a \<le> q \<Longrightarrow> q \<le> pn a + n \<Longrightarrow> \<not> present (ptn s pgdir q)"
  shows "wp (mappages_loop n lk pgdir a pa perm) (\<lambda>r t. r = 0 \<and> (\<exists>ys. pt_step lk pgdir s t xs ys) \<and>
    (\<forall>q<2 ^ 20. ptn t pgdir q = (if pn a \<le> q \<and> q \<le> pn a + n then (pa + of_nat ((q - pn a) * PGSIZE)) OR perm OR PTE_P
       else ptn s pgdir q))) s"
  using assms
proof (induction n arbitrary: s xs a pa)
  case (0 s xs a pa)
  show ?case
  proof (subst mappages_loop.simps, subst wp_bind, rule wp_mono [OF walkpgdir_wp [OF 0(1,2), of a]], elim exE conjE)
    fix p and t :: "'z kmem_scheme" and ys
    assume t: "pt_step lk pgdir s t xs ys" "\<forall>q<2 ^ 20. ptn t pgdir q = ptn s pgdir q" "present (pde t pgdir (PDX a))"
      "p = Some (unat (page_of (frame_of (pde t pgdir (PDX a)))) + 4 * PTX a)"
    have inv: "pgd_inv lk t pgdir ys" "absent t pgdir \<le> length ys" using t(1) by (auto simp: pt_step_def)
    have np: "\<not> present (ptn t pgdir (pn a))" using t(2) 0(4) pn_less [of a] by simp
    note pp = put_pte [OF inv t(3), where e = "pa OR perm OR PTE_P"]
    show "wp (case p of None \<Rightarrow> return (-1) | Some p \<Rightarrow> bind (get32 p) (\<lambda>e. bind (panic_if (e AND PTE_P \<noteq> 0) ''remap'') (\<lambda>_.
         bind (put32 p (pa OR perm OR PTE_P)) (\<lambda>_. case 0 of 0 \<Rightarrow> return 0
         | Suc m \<Rightarrow> mappages_loop m lk pgdir (a + of_nat PGSIZE) (pa + of_nat PGSIZE) perm))))
      (\<lambda>r t. r = 0 \<and> (\<exists>ys. pt_step lk pgdir s t xs ys) \<and> (\<forall>q<2 ^ 20. ptn t pgdir q =
        (if pn a \<le> q \<and> q \<le> pn a + 0 then (pa + of_nat ((q - pn a) * PGSIZE)) OR perm OR PTE_P else ptn s pgdir q))) t"
      using np pp(2) t(2) pt_step_trans [OF t(1) pp(1)]
      by (auto simp: t(4) wp_simps get_pte [OF t(3)] present_def le_antisym)
  qed
next
  case (Suc n s xs a pa)
  show ?case
  proof (subst mappages_loop.simps, subst wp_bind, rule wp_mono [OF walkpgdir_wp [OF Suc(2,3), of a]], elim exE conjE)
    fix p and t :: "'z kmem_scheme" and ys
    assume t: "pt_step lk pgdir s t xs ys" "\<forall>q<2 ^ 20. ptn t pgdir q = ptn s pgdir q" "present (pde t pgdir (PDX a))"
      "p = Some (unat (page_of (frame_of (pde t pgdir (PDX a)))) + 4 * PTX a)"
    have inv: "pgd_inv lk t pgdir ys" "absent t pgdir \<le> length ys" using t(1) by (auto simp: pt_step_def)
    have np: "\<not> present (ptn t pgdir (pn a))" using t(2) Suc(5) [of "pn a"] pn_less [of a] by simp
    define u where "u = t\<lparr>kbytes := store32 (kbytes t) (unat (page_of (frame_of (pde t pgdir (PDX a)))) + 4 * PTX a) (pa OR perm OR PTE_P)\<rparr>"
    note pp = put_pte [OF inv t(3), where e = "pa OR perm OR PTE_P", folded u_def]
    have iu: "pgd_inv lk u pgdir ys" "absent u pgdir \<le> length ys" using pp(1) by (auto simp: pt_step_def)
    have nx: "pn (a + of_nat PGSIZE) = pn a + 1" by (rule pn_next) (use Suc(4) in simp)
    have "wp (mappages_loop n lk pgdir (a + of_nat PGSIZE) (pa + of_nat PGSIZE) perm) (\<lambda>r v. r = 0 \<and> (\<exists>zs. pt_step lk pgdir u v ys zs) \<and>
      (\<forall>q<2 ^ 20. ptn v pgdir q = (if pn (a + of_nat PGSIZE) \<le> q \<and> q \<le> pn (a + of_nat PGSIZE) + n
         then (pa + of_nat PGSIZE + of_nat ((q - pn (a + of_nat PGSIZE)) * PGSIZE)) OR perm OR PTE_P else ptn u pgdir q))) u"
      by (rule Suc.IH [OF iu]) (use nx Suc(4,5) pp(2) t(2) in auto)
    then have "wp (mappages_loop n lk pgdir (a + of_nat PGSIZE) (pa + of_nat PGSIZE) perm) (\<lambda>r v. r = 0 \<and> (\<exists>ys. pt_step lk pgdir s v xs ys) \<and>
      (\<forall>q<2 ^ 20. ptn v pgdir q = (if pn a \<le> q \<and> q \<le> pn a + Suc n then (pa + of_nat ((q - pn a) * PGSIZE)) OR perm OR PTE_P else ptn s pgdir q))) u"
    proof (rule wp_mono, elim conjE exE, intro conjI allI impI)
      fix r and v :: "'z kmem_scheme" and zs and q :: nat
      assume v: "pt_step lk pgdir u v ys zs" "r = 0"
        "\<forall>q<2 ^ 20. ptn v pgdir q = (if pn (a + of_nat PGSIZE) \<le> q \<and> q \<le> pn (a + of_nat PGSIZE) + n
         then (pa + of_nat PGSIZE + of_nat ((q - pn (a + of_nat PGSIZE)) * PGSIZE)) OR perm OR PTE_P else ptn u pgdir q)"
      show "r = 0" by (rule v)
      show "\<exists>ys. pt_step lk pgdir s v xs ys" using pt_step_trans [OF pt_step_trans [OF t(1) pp(1)] v(1)] by blast
      assume q: "q < 2 ^ 20"
      have sh: "pa + of_nat PGSIZE + of_nat ((q - (pn a + 1)) * PGSIZE) = pa + of_nat ((q - pn a) * PGSIZE)" if "pn a + 1 \<le> q"
      proof -
        have "(q - pn a) * PGSIZE = PGSIZE + (q - (pn a + 1)) * PGSIZE" using that by (simp add: algebra_simps diff_mult_distrib)
        then show ?thesis by (simp only: of_nat_add add.assoc)
      qed
      have "ptn v pgdir q = (if pn a + 1 \<le> q \<and> q \<le> pn a + 1 + n
         then (pa + of_nat PGSIZE + of_nat ((q - (pn a + 1)) * PGSIZE)) OR perm OR PTE_P else ptn u pgdir q)"
        using v(3) q nx by simp
      moreover have "ptn u pgdir q = (if q = pn a then pa OR perm OR PTE_P else ptn s pgdir q)" using pp(2) t(2) q by simp
      ultimately show "ptn v pgdir q = (if pn a \<le> q \<and> q \<le> pn a + Suc n
        then (pa + of_nat ((q - pn a) * PGSIZE)) OR perm OR PTE_P else ptn s pgdir q)"
        using sh by (cases "q = pn a") auto
    qed
    then show "wp (case p of None \<Rightarrow> return (-1) | Some p \<Rightarrow> bind (get32 p) (\<lambda>e. bind (panic_if (e AND PTE_P \<noteq> 0) ''remap'') (\<lambda>_.
         bind (put32 p (pa OR perm OR PTE_P)) (\<lambda>_. case Suc n of 0 \<Rightarrow> return 0
         | Suc m \<Rightarrow> mappages_loop m lk pgdir (a + of_nat PGSIZE) (pa + of_nat PGSIZE) perm))))
      (\<lambda>r t. r = 0 \<and> (\<exists>ys. pt_step lk pgdir s t xs ys) \<and> (\<forall>q<2 ^ 20. ptn t pgdir q =
        (if pn a \<le> q \<and> q \<le> pn a + Suc n then (pa + of_nat ((q - pn a) * PGSIZE)) OR perm OR PTE_P else ptn s pgdir q))) t"
      using np by (simp add: t(4) wp_simps get_pte [OF t(3)] present_def u_def)
  qed
qed

lemma pn_down: "pn (PGROUNDDOWN a) = pn a" "unat (PGROUNDDOWN a) = pn a * PGSIZE"
  by (simp_all add: pn_def unat_PGROUNDDOWN minus_mod_eq_div_mult)

lemma mappages_wp:
  fixes s :: "'z kmem_scheme"
  assumes "pgd_inv lk s pgdir xs" and "absent s pgdir \<le> length xs" and "0 < sz" and "unat va + unat sz \<le> 2 ^ 32"
    and "\<And>q. pn va \<le> q \<Longrightarrow> q \<le> (unat va + unat sz - 1) div PGSIZE \<Longrightarrow> \<not> present (ptn s pgdir q)"
  shows "wp (mappages lk pgdir va sz pa perm) (\<lambda>r t. r = 0 \<and> (\<exists>ys. pt_step lk pgdir s t xs ys) \<and>
    (\<forall>q<2 ^ 20. ptn t pgdir q = (if pn va \<le> q \<and> q \<le> (unat va + unat sz - 1) div PGSIZE
       then (pa + of_nat ((q - pn va) * PGSIZE)) OR perm OR PTE_P else ptn s pgdir q))) s"
proof -
  define l where "l = va + sz - 1"
  have z: "0 < unat sz" using assms(3) by (simp add: word_less_nat_alt)
  have ul: "unat l = unat va + unat sz - 1"
  proof -
    have "l = of_nat (unat va + unat sz - 1)" using z by (simp add: l_def of_nat_diff)
    moreover have "unat va + unat sz - 1 < 2 ^ 32" using assms(4) z by linarith
    ultimately show ?thesis by (simp only: unat_of_nat) simp
  qed
  then have pl: "pn l = (unat va + unat sz - 1) div PGSIZE" by (simp add: pn_def)
  have le: "pn va \<le> pn l" unfolding pn_def by (rule div_le_mono) (use z ul in simp)
  have "unat (PGROUNDDOWN l - PGROUNDDOWN va) = (pn l - pn va) * PGSIZE"
    using le by (subst unat_sub) (simp_all add: word_le_nat_alt pn_down diff_mult_distrib)
  then have n: "unat (PGROUNDDOWN l - PGROUNDDOWN va) div PGSIZE = pn l - pn va" by simp
  have e: "pn va + (pn l - pn va) = pn l" using le by simp
  show ?thesis
    unfolding mappages_def Let_def l_def [symmetric] n pl [symmetric]
    by (rule mappages_loop_wp [of lk s pgdir xs "PGROUNDDOWN va" "pn l - pn va", unfolded pn_down(1) e])
      (use assms(1,2,5) pn_less [of l] in \<open>auto simp: pl\<close>)
qed

text \<open>
  C20. \<^verbatim>\<open>mappages\<close> maps what it is asked to map and nothing else: it returns 0 (it does not run out of
  page tables as long as every absent directory entry could get a free page), every page that
  overlaps the range gets an entry for the corresponding physical page with the given permissions,
  every other page of the address space keeps its entry, and only the directory, its page tables
  and free pages are written.
\<close>

theorem mappages_maps:
  fixes s :: "'z kmem_scheme"
  assumes "pgd_inv lk s pgdir xs" and "absent s pgdir \<le> length xs" and "0 < sz" and "unat va + unat sz \<le> 2 ^ 32"
    and "\<forall>q. pn va \<le> q \<and> q \<le> (unat va + unat sz - 1) div PGSIZE \<longrightarrow> \<not> present (ptn s pgdir q)"
  shows "wp (mappages lk pgdir va sz pa perm) (\<lambda>r t. r = 0 \<and>
    (\<exists>zs ys. xs = zs @ ys \<and> pgd_inv lk t pgdir ys \<and> only (pt_pages s pgdir \<union> set zs) s t) \<and>
    (\<forall>q<2 ^ 20. ptn t pgdir q = (if pn va \<le> q \<and> q \<le> (unat va + unat sz - 1) div PGSIZE
       then (pa + of_nat ((q - pn va) * PGSIZE)) OR perm OR PTE_P else ptn s pgdir q))) s"
  by (rule wp_mono [OF mappages_wp]) (use assms in \<open>auto simp: pt_step_def\<close>)

section \<open>The kernel part of an address space\<close>

lemma map_entry:
  assumes "p < MAXPAGES \<or> 1040384 \<le> p" "p < 2 ^ 20" "take_bit 12 f = f"
  shows "PTE_ADDR (of_nat (p * PGSIZE) OR f OR PTE_P) = of_nat (p * PGSIZE)"
proof -
  have "unat (of_nat (p * PGSIZE) :: uint32) = p * PGSIZE" using assms(2) by (simp only: unat_of_nat) simp
  then have "unat (of_nat (p * PGSIZE) :: uint32) mod PGSIZE = 0" by simp
  moreover have "take_bit 12 (f OR PTE_P) = f OR PTE_P" using assms(3) by (simp add: take_bit_or)
  ultimately show ?thesis unfolding or.assoc by (rule PTE_bits)
qed

definition kern_pte :: "linkmap \<Rightarrow> nat \<Rightarrow> uint32" where
  "kern_pte lk q =
     (if 524288 \<le> q \<and> q < 524288 + MAXPAGES then
        of_nat ((q - 524288) * PGSIZE) OR (if 524544 \<le> q \<and> q < pn (l_data lk) then 0 else PTE_W) OR PTE_P
      else if 1040384 \<le> q then of_nat (q * PGSIZE) OR PTE_W OR PTE_P
      else 0)"

definition link_ok :: "linkmap \<Rightarrow> bool" where
  "link_ok lk \<longleftrightarrow> unat (l_data lk) mod PGSIZE = 0 \<and> KERNLINK < l_data lk \<and> l_data lk < KERNBASE + PHYSTOP"

lemma map_step:
  fixes s t0 :: "'z kmem_scheme"
  assumes st: "pt_step lk pgdir t0 s xs ys" and z: "unat va + unat sz \<le> 2 ^ 32" "0 < sz"
    and lo: "pn va = lo" "(unat va + unat sz - 1) div PGSIZE = hi - 1" "lo < hi"
    and fresh: "\<And>q. lo \<le> q \<Longrightarrow> q < hi \<Longrightarrow> ptn s pgdir q = 0"
    and K: "\<And>t. \<lbrakk>\<exists>ys. pt_step lk pgdir t0 t xs ys;
      \<forall>q<2 ^ 20. ptn t pgdir q = (if lo \<le> q \<and> q < hi then (pa + of_nat ((q - lo) * PGSIZE)) OR perm OR PTE_P else ptn s pgdir q)\<rbrakk> \<Longrightarrow> Q t"
  shows "wp (mappages lk pgdir va sz pa perm) (\<lambda>r t. \<not> r < 0 \<and> Q t) s"
proof -
  have inv: "pgd_inv lk s pgdir ys" "absent s pgdir \<le> length ys" using st by (auto simp: pt_step_def)
  have hl: "q \<le> hi - 1 \<longleftrightarrow> q < hi" for q using lo(3) by auto
  show ?thesis
  proof (rule wp_mono [OF mappages_wp [OF inv z(2,1)]])
    fix q
    assume "pn va \<le> q" "q \<le> (unat va + unat sz - 1) div PGSIZE"
    then have "ptn s pgdir q = 0" using fresh lo hl by auto
    then show "\<not> present (ptn s pgdir q)" by (simp add: present_def)
  next
    fix r :: int and t :: "'z kmem_scheme"
    assume h: "r = 0 \<and> (\<exists>zs. pt_step lk pgdir s t ys zs) \<and>
      (\<forall>q<2 ^ 20. ptn t pgdir q = (if pn va \<le> q \<and> q \<le> (unat va + unat sz - 1) div PGSIZE
       then (pa + of_nat ((q - pn va) * PGSIZE)) OR perm OR PTE_P else ptn s pgdir q))"
    have "Q t" by (rule K) (use h [unfolded lo(1,2) hl] pt_step_trans [OF st] in blast)+
    then show "\<not> r < 0 \<and> Q t" using h by simp
  qed
qed

lemma map_all_step:
  fixes s t0 :: "'z kmem_scheme"
  assumes "pt_step lk pgdir t0 s xs ys" and "unat va + unat (pe - ps) \<le> 2 ^ 32" "0 < pe - ps"
    and "pn va = lo" "(unat va + unat (pe - ps) - 1) div PGSIZE = hi - 1" "lo < hi"
    and "\<And>q. lo \<le> q \<Longrightarrow> q < hi \<Longrightarrow> ptn s pgdir q = 0"
    and K: "\<And>t ys. \<lbrakk>pt_step lk pgdir t0 t xs ys;
      \<forall>q<2 ^ 20. ptn t pgdir q = (if lo \<le> q \<and> q < hi then (ps + of_nat ((q - lo) * PGSIZE)) OR perm OR PTE_P else ptn s pgdir q)\<rbrakk>
      \<Longrightarrow> wp (map_all lk pgdir ks) R t"
  shows "wp (map_all lk pgdir ((va, ps, pe, perm) # ks)) R s"
proof -
  have "wp (mappages lk pgdir va (pe - ps) ps perm) (\<lambda>r t. \<not> r < 0 \<and> wp (map_all lk pgdir ks) R t) s"
    by (rule map_step [OF assms(1-7)]) (use K in blast)+
  then show ?thesis unfolding map_all.simps wp_bind_fun by (rule wp_mono) (simp add: wp_simps)
qed

lemma pages_add: "lo \<le> q \<Longrightarrow> a + lo' = lo \<Longrightarrow> of_nat (a * PGSIZE) + of_nat ((q - lo) * PGSIZE) = (of_nat ((q - lo') * PGSIZE) :: uint32)"
proof -
  assume "lo \<le> q" "a + lo' = lo"
  then have "a + (q - lo) = q - lo'" by simp
  then have "a * PGSIZE + (q - lo) * PGSIZE = (q - lo') * PGSIZE" by (metis add_mult_distrib)
  then show ?thesis by (simp only: of_nat_add [symmetric])
qed

lemma clear_pgdir:
  fixes s u :: "'z kmem_scheme"
  assumes k: "kmem_inv (l_end lk) s (x # xs)" and u: "kmem_inv (l_end lk) u xs" "kbytes u = kbytes s" and len: "1024 \<le> length xs"
  defines "t \<equiv> u\<lparr>kbytes := memset (kbytes u) (unat (page_of x)) 0 PGSIZE\<rparr>"
  shows "pt_step lk (page_of x) t t xs xs" "\<And>q. q < 2 ^ 20 \<Longrightarrow> ptn t (page_of x) q = 0" "only {x} s t" "pt_pages t (page_of x) = {x}"
    "absent t (page_of x) = 1024"
proof -
  have x: "x < MAXPAGES" "\<not> kfree_bad (l_end lk) (page_of x)" "x \<notin> set xs" using k by (auto simp: kmem_inv_def)
  have p: "pde t (page_of x) i = 0" if "i < 1024" for i
    using W_clear [OF x(1) x(1) that, of u] x(1) by (simp add: pde_def t_def)
  then have np: "\<not> present (pde t (page_of x) i)" if "i < 1024" for i using that by (simp add: present_def)
  then have "{i. i < 1024 \<and> \<not> present (pde t (page_of x) i)} = {..<1024}" by auto
  then show a: "absent t (page_of x) = 1024" by (simp add: absent_def)
  have "pgd_inv lk t (page_of x) xs" using u x np by (auto simp: pgd_inv_def) (simp add: t_def)
  with a show "pt_step lk (page_of x) t t xs xs" using len by (intro pt_step_refl) auto
  show "ptn t (page_of x) q = 0" if "q < 2 ^ 20" for q
    using that np [of "q div 1024"] by (simp add: ptn_def div_less_iff_less_mult)
  show "only {x} s t" using u(2) x(1) by (auto simp: only_def t_def memset_bytes in_page_def page_of_unat)
  show "pt_pages t (page_of x) = {x}" using np x(1) by (auto simp: pt_pages_def)
qed

lemma setupkvm_wp:
  fixes s :: "'z kmem_scheme"
  assumes link: "link_ok lk" and k: "kmem_inv (l_end lk) s (x # xs)" and len: "1024 \<le> length xs"
  shows "wp (setupkvm lk) (\<lambda>d t. d = page_of x \<and>
    (\<exists>zs ys. xs = zs @ ys \<and> pgd_inv lk t d ys \<and> 1024 + length ys = absent t d + length xs \<and> pt_pages t d \<subseteq> set (x # zs) \<and> only (set (x # zs)) s t) \<and>
    (\<forall>q<2 ^ 20. ptn t d q = kern_pte lk q)) s"
proof -
  let ?d = "page_of x"
  have x: "x < MAXPAGES" using k by (simp add: kmem_inv_def)
  define D where "D = pn (l_data lk)"
  have ud: "unat (l_data lk) = D * PGSIZE" using link div_mult_mod_eq [of "unat (l_data lk)" PGSIZE] by (simp add: D_def pn_def link_ok_def)
  have "unat KERNLINK < D * PGSIZE" "D * PGSIZE < 2147483648 + 234881024"
    using link ud by (auto simp: link_ok_def word_less_nat_alt)
  then have D: "524544 < D" "D < 581632" by auto
  have vd: "unat (v2p (l_data lk)) = (D - 524288) * PGSIZE"
    using D ud unat_sub [of KERNBASE "l_data lk"] by (simp add: v2p_def word_le_nat_alt diff_mult_distrib)
  have s2: "unat (v2p (l_data lk) - v2p KERNLINK) = (D - 524544) * PGSIZE"
    using D vd by (subst unat_sub) (simp_all add: word_le_nat_alt v2p_def [of KERNLINK] diff_mult_distrib)
  have s3: "unat (PHYSTOP - v2p (l_data lk)) = (581632 - D) * PGSIZE"
    using D vd by (subst unat_sub) (simp_all add: word_le_nat_alt diff_mult_distrib)
  have "wp (kalloc (l_runs lk)) (\<lambda>pgdir. wp (if pgdir = 0 then return 0 else
      bind (clear_page pgdir) (\<lambda>_. bind (panic_if (p2v PHYSTOP > DEVSPACE) ''PHYSTOP too high'') (\<lambda>_.
      bind (map_all lk pgdir (kmap lk)) (\<lambda>ok. return (if ok then pgdir else 0)))))
    (\<lambda>d t. d = page_of x \<and>
    (\<exists>zs ys. xs = zs @ ys \<and> pgd_inv lk t d ys \<and> 1024 + length ys = absent t d + length xs \<and> pt_pages t d \<subseteq> set (x # zs) \<and> only (set (x # zs)) s t) \<and>
    (\<forall>q<2 ^ 20. ptn t d q = kern_pte lk q))) s"
  proof (rule wp_mono [OF kalloc_wp [OF k]])
    fix v and u :: "'z kmem_scheme"
    assume u: "v = ?d \<and> kmem_inv (l_end lk) u xs \<and> kbytes u = kbytes s"
    define t where "t = u\<lparr>kbytes := memset (kbytes u) (unat ?d) 0 PGSIZE\<rparr>"
    have u': "kmem_inv (l_end lk) u xs" "kbytes u = kbytes s" using u by auto
    note c = clear_pgdir [OF k u' len, folded t_def]
    have "wp (map_all lk ?d (kmap lk)) (\<lambda>ok w. ok \<and> (\<exists>ys. pt_step lk ?d t w xs ys) \<and> (\<forall>q<2 ^ 20. ptn w ?d q = kern_pte lk q)) t"
      unfolding kmap_def
    proof (rule map_all_step [OF c(1), where lo = 524288 and hi = 524544])
      show "ptn t ?d q = 0" if "524288 \<le> q" "q < 524544" for q using c(2) that by simp
      fix t1 :: "'z kmem_scheme" and y1
      assume t1: "pt_step lk ?d t t1 xs y1" "\<forall>q<2 ^ 20. ptn t1 ?d q = (if 524288 \<le> q \<and> q < 524544
        then (0 + of_nat ((q - 524288) * PGSIZE)) OR PTE_W OR PTE_P else ptn t ?d q)"
      show "wp (map_all lk ?d [(KERNLINK, v2p KERNLINK, v2p (l_data lk), 0), (l_data lk, v2p (l_data lk), PHYSTOP, PTE_W),
          (DEVSPACE, DEVSPACE, 0, PTE_W)])
        (\<lambda>ok w. ok \<and> (\<exists>ys. pt_step lk ?d t w xs ys) \<and> (\<forall>q<2 ^ 20. ptn w ?d q = kern_pte lk q)) t1"
      proof (rule map_all_step [OF t1(1), where lo = 524544 and hi = D])
        show "ptn t1 ?d q = 0" if "524544 \<le> q" "q < D" for q using c(2) [of q] that t1(2) D by simp
        fix t2 :: "'z kmem_scheme" and y2
        assume t2: "pt_step lk ?d t t2 xs y2" "\<forall>q<2 ^ 20. ptn t2 ?d q = (if 524544 \<le> q \<and> q < D
          then (v2p KERNLINK + of_nat ((q - 524544) * PGSIZE)) OR 0 OR PTE_P else ptn t1 ?d q)"
        show "wp (map_all lk ?d [(l_data lk, v2p (l_data lk), PHYSTOP, PTE_W), (DEVSPACE, DEVSPACE, 0, PTE_W)])
          (\<lambda>ok w. ok \<and> (\<exists>ys. pt_step lk ?d t w xs ys) \<and> (\<forall>q<2 ^ 20. ptn w ?d q = kern_pte lk q)) t2"
        proof (rule map_all_step [OF t2(1), where lo = D and hi = 581632])
          show "ptn t2 ?d q = 0" if "D \<le> q" "q < 581632" for q using c(2) [of q] that t1(2) t2(2) D by simp
          fix t3 :: "'z kmem_scheme" and y3
          assume t3: "pt_step lk ?d t t3 xs y3" "\<forall>q<2 ^ 20. ptn t3 ?d q = (if D \<le> q \<and> q < 581632
            then (v2p (l_data lk) + of_nat ((q - D) * PGSIZE)) OR PTE_W OR PTE_P else ptn t2 ?d q)"
          show "wp (map_all lk ?d [(DEVSPACE, DEVSPACE, 0, PTE_W)])
            (\<lambda>ok w. ok \<and> (\<exists>ys. pt_step lk ?d t w xs ys) \<and> (\<forall>q<2 ^ 20. ptn w ?d q = kern_pte lk q)) t3"
          proof (rule map_all_step [OF t3(1), where lo = 1040384 and hi = 1048576])
            show "ptn t3 ?d q = 0" if "1040384 \<le> q" "q < 1048576" for q using c(2) [of q] that t1(2) t2(2) t3(2) D by simp
            fix t4 :: "'z kmem_scheme" and y4
            assume t4: "pt_step lk ?d t t4 xs y4" "\<forall>q<2 ^ 20. ptn t4 ?d q = (if 1040384 \<le> q \<and> q < 1048576
              then (DEVSPACE + of_nat ((q - 1040384) * PGSIZE)) OR PTE_W OR PTE_P else ptn t3 ?d q)"
            define P where "P q = (of_nat ((q - 524288) * PGSIZE) :: uint32)" for q
            define R where "R q = (of_nat (q * PGSIZE) :: uint32)" for q
            have a1: "0 + of_nat ((q - 524288) * PGSIZE) = P q" for q by (simp only: P_def add_0)
            have "v2p KERNLINK = of_nat (256 * PGSIZE)" by (simp add: v2p_def)
            then have a2: "v2p KERNLINK + of_nat ((q - 524544) * PGSIZE) = P q" if "524544 \<le> q" for q
              unfolding P_def by (simp only: pages_add [OF that, of 256 524288])
            have "v2p (l_data lk) = of_nat (unat (v2p (l_data lk)))" by simp
            then have "v2p (l_data lk) = of_nat ((D - 524288) * PGSIZE)" unfolding vd .
            then have a3: "v2p (l_data lk) + of_nat ((q - D) * PGSIZE) = P q" if "D \<le> q" for q
              unfolding P_def using D pages_add [OF that, of "D - 524288" 524288] by simp
            have "DEVSPACE = of_nat (1040384 * PGSIZE)" by simp
            then have a4: "DEVSPACE + of_nat ((q - 1040384) * PGSIZE) = R q" if "1040384 \<le> q" for q
              unfolding R_def using pages_add [OF that, of 1040384 0] by simp
            have "ptn t4 ?d q = kern_pte lk q" if "q < 2 ^ 20" for q
            proof -
              have e1: "ptn t1 ?d q = (if 524288 \<le> q \<and> q < 524544 then P q OR PTE_W OR PTE_P else 0)"
                using t1(2) [rule_format, OF that] unfolding a1 c(2) [OF that] .
              have e2: "ptn t2 ?d q = (if 524544 \<le> q \<and> q < D then P q OR 0 OR PTE_P else ptn t1 ?d q)"
                using t2(2) [rule_format, OF that] a2 [of q] by metis
              have e3: "ptn t3 ?d q = (if D \<le> q \<and> q < 581632 then P q OR PTE_W OR PTE_P else ptn t2 ?d q)"
                using t3(2) [rule_format, OF that] a3 [of q] by metis
              have e4: "ptn t4 ?d q = (if 1040384 \<le> q \<and> q < 1048576 then R q OR PTE_W OR PTE_P else ptn t3 ?d q)"
                using t4(2) [rule_format, OF that] a4 [of q] by metis
              have "P q = R (q - 524288)" by (simp only: P_def R_def)
              then show ?thesis
                unfolding kern_pte_def D_def [symmetric] R_def [symmetric]
                using e1 e2 e3 e4 D that by auto
            qed
            then show "wp (map_all lk ?d []) (\<lambda>ok w. ok \<and> (\<exists>ys. pt_step lk ?d t w xs ys) \<and> (\<forall>q<2 ^ 20. ptn w ?d q = kern_pte lk q)) t4"
              using t4(1) by (auto simp: wp_simps)
          qed (simp_all add: pn_def word_less_nat_alt)
        qed (use D s3 ud in \<open>simp_all add: D_def [symmetric] word_less_nat_alt\<close>)
      qed (use D s2 in \<open>simp_all add: pn_def word_less_nat_alt\<close>)
    qed (simp_all add: pn_def)
    then have "wp (map_all lk ?d (kmap lk)) (\<lambda>ok. wp (return (if ok then ?d else 0)) (\<lambda>d t. d = page_of x \<and>
      (\<exists>zs ys. xs = zs @ ys \<and> pgd_inv lk t d ys \<and> 1024 + length ys = absent t d + length xs \<and> pt_pages t d \<subseteq> set (x # zs) \<and> only (set (x # zs)) s t) \<and>
      (\<forall>q<2 ^ 20. ptn t d q = kern_pte lk q))) t"
    proof (rule wp_mono, elim conjE exE)
      fix ok and w :: "'z kmem_scheme" and ys
      assume w: "pt_step lk ?d t w xs ys" "ok" "\<forall>q<2 ^ 20. ptn w ?d q = kern_pte lk q"
      then obtain zs where z: "xs = zs @ ys" "only (pt_pages t ?d \<union> set zs) t w" "pt_pages w ?d \<subseteq> pt_pages t ?d \<union> set zs"
        "pgd_inv lk w ?d ys" "1024 + length ys = absent w ?d + length xs"
        using c(5) by (auto simp: pt_step_def)
      have "only (set (x # zs)) s w" by (rule only_mono [OF only_trans [OF c(3) z(2)]]) (simp add: c(4))
      then show "wp (return (if ok then ?d else 0)) (\<lambda>d t. d = page_of x \<and>
        (\<exists>zs ys. xs = zs @ ys \<and> pgd_inv lk t d ys \<and> 1024 + length ys = absent t d + length xs \<and> pt_pages t d \<subseteq> set (x # zs) \<and> only (set (x # zs)) s t) \<and>
        (\<forall>q<2 ^ 20. ptn t d q = kern_pte lk q)) w"
        unfolding wp_return using w z c(4) by (intro conjI exI [of _ zs] exI [of _ ys]) auto
    qed
    then show "wp (if v = 0 then return 0 else
      bind (clear_page v) (\<lambda>_. bind (panic_if (p2v PHYSTOP > DEVSPACE) ''PHYSTOP too high'') (\<lambda>_.
      bind (map_all lk v (kmap lk)) (\<lambda>ok. return (if ok then v else 0)))))
    (\<lambda>d t. d = page_of x \<and>
    (\<exists>zs ys. xs = zs @ ys \<and> pgd_inv lk t d ys \<and> 1024 + length ys = absent t d + length xs \<and> pt_pages t d \<subseteq> set (x # zs) \<and> only (set (x # zs)) s t) \<and>
    (\<forall>q<2 ^ 20. ptn t d q = kern_pte lk q)) u"
      unfolding conjunct1 [OF u] using page_of_nz [OF x] by (simp add: wp_simps t_def p2v_def wp_bind_fun)
  qed
  then show ?thesis by (simp add: setupkvm_def wp_simps)
qed

lemma entry_bits:
  assumes "p < MAXPAGES \<or> 1040384 \<le> p" "p < 2 ^ 20" "take_bit 12 f = f"
  shows "PTE_ADDR (of_nat (p * PGSIZE) OR f OR PTE_P) = of_nat (p * PGSIZE)"
    and "PTE_FLAGS (of_nat (p * PGSIZE) OR f OR PTE_P) = f OR PTE_P"
proof -
  show "PTE_ADDR (of_nat (p * PGSIZE) OR f OR PTE_P) = of_nat (p * PGSIZE)" using assms by (rule map_entry)
  have "unat (of_nat (p * PGSIZE) :: uint32) = p * PGSIZE" using assms(2) by (simp only: unat_of_nat) simp
  then have al: "unat (of_nat (p * PGSIZE) :: uint32) mod PGSIZE = 0" by simp
  show "PTE_FLAGS (of_nat (p * PGSIZE) OR f OR PTE_P) = f OR PTE_P"
    unfolding or.assoc by (rule PTE_bits(2) [OF al]) (simp add: take_bit_or assms(3))
qed

lemma kern_pte_memory:
  assumes "pn KERNBASE \<le> q" "q < pn (KERNBASE + PHYSTOP)"
  shows "PTE_ADDR (kern_pte lk q) = of_nat ((q - pn KERNBASE) * PGSIZE)"
    and "PTE_FLAGS (kern_pte lk q) = (if pn KERNLINK \<le> q \<and> q < pn (l_data lk) then PTE_P else PTE_W OR PTE_P)"
proof -
  define f :: uint32 where "f = (if 524544 \<le> q \<and> q < pn (l_data lk) then 0 else PTE_W)"
  have q: "524288 \<le> q" "q < 524288 + MAXPAGES" "pn KERNBASE = 524288" "pn KERNLINK = 524544" using assms by (simp_all add: pn_def)
  have k: "kern_pte lk q = of_nat ((q - 524288) * PGSIZE) OR f OR PTE_P" using q by (simp add: kern_pte_def f_def)
  have p: "q - 524288 < MAXPAGES \<or> 1040384 \<le> q - 524288" "q - 524288 < 2 ^ 20" using q by auto
  have "take_bit 12 f = f" by (simp add: f_def take_bit_eq_mod)
  note b = entry_bits [OF p this]
  show "PTE_ADDR (kern_pte lk q) = of_nat ((q - pn KERNBASE) * PGSIZE)" unfolding k q(3) by (rule b(1))
  show "PTE_FLAGS (kern_pte lk q) = (if pn KERNLINK \<le> q \<and> q < pn (l_data lk) then PTE_P else PTE_W OR PTE_P)"
    unfolding k b(2) q(4) by (simp add: f_def)
qed

lemma kern_pte_devices:
  assumes "pn DEVSPACE \<le> q" "q < 2 ^ 20"
  shows "PTE_ADDR (kern_pte lk q) = of_nat (q * PGSIZE)" "PTE_FLAGS (kern_pte lk q) = PTE_W OR PTE_P"
proof -
  have q: "1040384 \<le> q" using assms(1) by (simp add: pn_def)
  then have k: "kern_pte lk q = of_nat (q * PGSIZE) OR PTE_W OR PTE_P" by (simp add: kern_pte_def)
  have "take_bit 12 PTE_W = PTE_W" by (simp add: take_bit_eq_mod)
  note b = entry_bits [OF disjI2 [OF q] assms(2) this]
  show "PTE_ADDR (kern_pte lk q) = of_nat (q * PGSIZE)" "PTE_FLAGS (kern_pte lk q) = PTE_W OR PTE_P"
    unfolding k by (rule b)+
qed

text \<open>
  C21. \<^verbatim>\<open>setupkvm\<close> gives every address space the kernel's mappings and nothing else. Of the \<open>2 ^ 20\<close> pages:
  those from \<^verbatim>\<open>KERNBASE\<close> on show physical memory up to \<^verbatim>\<open>PHYSTOP\<close>, writable except from \<^verbatim>\<open>KERNLINK\<close> to
  \<^verbatim>\<open>data\<close>, the kernel's text, which is read-only; those from \<^verbatim>\<open>DEVSPACE\<close> on show the devices at their own
  addresses, writable; none of them is accessible to user code; every other page, the user half
  included, has a null entry. Nothing was written but pages taken off the free list.
\<close>

theorem setupkvm_maps:
  fixes s :: "'z kmem_scheme"
  assumes "link_ok lk" and "kmem_inv (l_end lk) s xs" and "1025 \<le> length xs"
  shows "wp (setupkvm lk) (\<lambda>d t. d \<noteq> 0 \<and> only (set xs) s t \<and>
    (\<forall>q. pn KERNBASE \<le> q \<and> q < pn (KERNBASE + PHYSTOP) \<longrightarrow>
       PTE_ADDR (ptn t d q) = of_nat ((q - pn KERNBASE) * PGSIZE) \<and>
       PTE_FLAGS (ptn t d q) = (if pn KERNLINK \<le> q \<and> q < pn (l_data lk) then PTE_P else PTE_W OR PTE_P)) \<and>
    (\<forall>q. pn DEVSPACE \<le> q \<and> q < 2 ^ 20 \<longrightarrow>
       PTE_ADDR (ptn t d q) = of_nat (q * PGSIZE) \<and> PTE_FLAGS (ptn t d q) = PTE_W OR PTE_P) \<and>
    (\<forall>q<2 ^ 20. q < pn KERNBASE \<or> pn (KERNBASE + PHYSTOP) \<le> q \<and> q < pn DEVSPACE \<longrightarrow> ptn t d q = 0)) s"
proof -
  obtain x ys where xs: "xs = x # ys" using assms(3) by (cases xs) auto
  have k: "kmem_inv (l_end lk) s (x # ys)" "1024 \<le> length ys" using assms xs by auto
  have x: "x < MAXPAGES" using k(1) by (simp add: kmem_inv_def)
  have lim: "pn (KERNBASE + PHYSTOP) = 524288 + MAXPAGES" "pn KERNBASE = 524288" "pn DEVSPACE = 1040384" by (simp_all add: pn_def)
  show ?thesis
  proof (rule wp_mono [OF setupkvm_wp [OF assms(1) k]], elim conjE exE)
    fix d and t :: "'z kmem_scheme" and zs ws
    assume d: "d = page_of x" "ys = zs @ ws" "only (set (x # zs)) s t" "\<forall>q<2 ^ 20. ptn t d q = kern_pte lk q"
    have e: "ptn t d q = kern_pte lk q" if "q < 2 ^ 20" for q using d(4) that by blast
    have "only (set xs) s t" using d(3) by (rule only_mono) (use d xs in auto)
    moreover have "PTE_ADDR (ptn t d q) = of_nat ((q - pn KERNBASE) * PGSIZE) \<and>
       PTE_FLAGS (ptn t d q) = (if pn KERNLINK \<le> q \<and> q < pn (l_data lk) then PTE_P else PTE_W OR PTE_P)"
      if "pn KERNBASE \<le> q \<and> q < pn (KERNBASE + PHYSTOP)" for q
    proof -
      have "q < 2 ^ 20" using that unfolding lim by simp
      then show ?thesis using kern_pte_memory [of q lk] that unfolding e [OF \<open>q < 2 ^ 20\<close>] by blast
    qed
    moreover have "PTE_ADDR (ptn t d q) = of_nat (q * PGSIZE) \<and> PTE_FLAGS (ptn t d q) = PTE_W OR PTE_P"
      if "pn DEVSPACE \<le> q \<and> q < 2 ^ 20" for q
      using kern_pte_devices [of q lk] that e [of q] by simp
    moreover have "ptn t d q = 0" if "q < 2 ^ 20" "q < pn KERNBASE \<or> pn (KERNBASE + PHYSTOP) \<le> q \<and> q < pn DEVSPACE" for q
      using that(2) unfolding e [OF that(1)] lim by (auto simp: kern_pte_def)
    moreover have "d \<noteq> 0" using page_of_nz [OF x] d(1) by simp
    ultimately show "d \<noteq> 0 \<and> only (set xs) s t \<and>
      (\<forall>q. pn KERNBASE \<le> q \<and> q < pn (KERNBASE + PHYSTOP) \<longrightarrow>
         PTE_ADDR (ptn t d q) = of_nat ((q - pn KERNBASE) * PGSIZE) \<and>
         PTE_FLAGS (ptn t d q) = (if pn KERNLINK \<le> q \<and> q < pn (l_data lk) then PTE_P else PTE_W OR PTE_P)) \<and>
      (\<forall>q. pn DEVSPACE \<le> q \<and> q < 2 ^ 20 \<longrightarrow>
         PTE_ADDR (ptn t d q) = of_nat (q * PGSIZE) \<and> PTE_FLAGS (ptn t d q) = PTE_W OR PTE_P) \<and>
      (\<forall>q<2 ^ 20. q < pn KERNBASE \<or> pn (KERNBASE + PHYSTOP) \<le> q \<and> q < pn DEVSPACE \<longrightarrow> ptn t d q = 0)" by blast
  qed
qed

section \<open>A concrete memory\<close>

lemma page_of_good:
  assumes "x < MAXPAGES" "unat kend \<le> 2 ^ 31 + x * PGSIZE"
  shows "\<not> kfree_bad kend (page_of x)"
proof -
  have "unat (page_of x) = (524288 + x) * PGSIZE" using page_of_unat [OF assms(1)] by simp
  then have "unat (page_of x) mod PGSIZE = 0" by (simp only: mod_mult_self2_is_0)
  moreover have "v2p (page_of x) < PHYSTOP" using assms by (simp add: word_less_nat_alt page_of_phys)
  moreover have "kend \<le> page_of x" using assms by (simp add: word_le_nat_alt page_of_unat)
  ultimately show ?thesis by (simp add: kfree_bad_def not_less not_le)
qed

lemma chain_upt:
  assumes "a < b" "\<And>r. a \<le> r \<Longrightarrow> r < b - 1 \<Longrightarrow> nx r = Some (r + 1)" "nx (b - 1) = None"
  shows "chain nx (Some a) [a..<b]"
  using assms
proof (induction "b - a" arbitrary: a)
  case (Suc n)
  show ?case
  proof (cases "a = b - 1")
    case True
    then show ?thesis using Suc.prems by (simp add: upt_conv_Cons)
  next
    case False
    then have "chain nx (Some (a + 1)) [a + 1..<b]" using Suc by (intro Suc.hyps(1)) auto
    then show ?thesis using Suc.prems False by (simp add: upt_conv_Cons)
  qed
qed simp

definition demo_link :: linkmap where
  "demo_link = \<lparr>l_end = 0x80100000, l_runs = 0x80200000, l_data = 0x80108000\<rparr>"

definition demo_vm :: kmem where
  "demo_vm = \<lparr>use_lock = True, freelist = Some 2000, run_next = (\<lambda>r. if r < 3099 then Some (r + 1) else None),
     ref_count = (\<lambda>_. 0), kbytes = (\<lambda>_. 0)\<rparr>"

lemma demo_link_facts: "link_ok demo_link" "l_end demo_link = 0x80100000"
  by (simp_all add: link_ok_def demo_link_def)

lemma demo_vm_inv: "kmem_inv (l_end demo_link) demo_vm [2000..<3100]"
proof -
  have "chain (run_next demo_vm) (freelist demo_vm) [2000..<3100]"
    using chain_upt [of 2000 3100 "run_next demo_vm"] by (simp add: demo_vm_def del: upt_rec_numeral)
  moreover have "\<not> kfree_bad (l_end demo_link) (page_of r) \<and> r < MAXPAGES" if "r \<in> set [2000..<3100]" for r
  proof -
    have "2000 \<le> r" "r < 3100" using that by (simp_all del: upt_rec_numeral)
    then show ?thesis by (intro conjI page_of_good) (auto simp: demo_link_facts)
  qed
  ultimately show ?thesis unfolding kmem_inv_def by (intro conjI ballI distinct_upt) blast+
qed

lemma demo_W: "W demo_vm r i = 0"
  by (simp add: W_def demo_vm_def load32_def)

lemma demo_pgd: "pgd_inv demo_link demo_vm (page_of 1999) [2000..<3100]" "absent demo_vm (page_of 1999) = 1024"
proof -
  have np: "\<not> present (pde demo_vm (page_of 1999) i)" for i by (simp add: pde_def demo_W present_def)
  have "{i. i < 1024 \<and> \<not> present (pde demo_vm (page_of 1999) i)} = {..<1024}" using np by auto
  then show "absent demo_vm (page_of 1999) = 1024" by (simp add: absent_def)
  have "\<not> kfree_bad (l_end demo_link) (page_of 1999)" by (rule page_of_good) (simp_all add: demo_link_facts)
  then show "pgd_inv demo_link demo_vm (page_of 1999) [2000..<3100]"
    using demo_vm_inv np by (simp add: pgd_inv_def del: upt_rec_numeral)
qed

theorem mappages_maps_witness:
  "wp (mappages demo_link (page_of 1999) 0x3000 0x2001 0x7000 6) (\<lambda>r t. r = 0 \<and> ptn t (page_of 1999) 5 = 0x9007) demo_vm"
proof -
  have u: "pn 0x3000 = 3" "(unat (0x3000 :: uint32) + unat (0x2001 :: uint32) - 1) div PGSIZE = 5" by (simp_all add: pn_def)
  have "absent demo_vm (page_of 1999) \<le> length [2000..<3100]" by (simp add: demo_pgd del: upt_rec_numeral)
  note m = mappages_maps [OF demo_pgd(1) this, where sz = "0x2001" and va = "0x3000" and pa = "0x7000" and perm = 6, unfolded u]
  have np: "\<not> present (ptn demo_vm (page_of 1999) q)" for q by (simp add: ptn_def pde_def demo_W present_def)
  show ?thesis
  proof (rule wp_mono [OF m])
    fix r :: int and t :: kmem
    assume "r = 0 \<and> (\<exists>zs ys. [2000..<3100] = zs @ ys \<and> pgd_inv demo_link t (page_of 1999) ys \<and>
        only (pt_pages demo_vm (page_of 1999) \<union> set zs) demo_vm t) \<and>
      (\<forall>q<2 ^ 20. ptn t (page_of 1999) q = (if 3 \<le> q \<and> q \<le> 5 then (0x7000 + of_nat ((q - 3) * PGSIZE)) OR 6 OR PTE_P
        else ptn demo_vm (page_of 1999) q))"
    then have "r = 0" "\<forall>q<2 ^ 20. ptn t (page_of 1999) q = (if 3 \<le> q \<and> q \<le> 5
        then (0x7000 + of_nat ((q - 3) * PGSIZE)) OR 6 OR PTE_P else ptn demo_vm (page_of 1999) q)" by blast+
    then show "r = 0 \<and> ptn t (page_of 1999) 5 = 0x9007" by simp
  qed (use np in simp_all)
qed

theorem setupkvm_maps_witness:
  "wp (setupkvm demo_link) (\<lambda>d t. d \<noteq> 0 \<and> PTE_ADDR (ptn t d 524289) = 4096 \<and> PTE_FLAGS (ptn t d 1040384) = PTE_W OR PTE_P \<and>
     ptn t d 3 = 0) demo_vm"
proof -
  have "1025 \<le> length [2000..<3100]" by (simp del: upt_rec_numeral)
  from setupkvm_maps [OF demo_link_facts(1) demo_vm_inv this] show ?thesis
    by (rule wp_mono) (simp add: pn_def del: upt_rec_numeral)
qed

end
