(* ===== verification/Fork_Vm.thy ===== *)
theory Fork_Vm
  imports Vm_Spec
begin

text \<open>
  \<^verbatim>\<open>copyuvm\<close> (vm.c), by which \<^verbatim>\<open>fork\<close> gives the child its memory: the child's pages have the content
  and the permissions of the parent's, in frames of their own, and nothing that was in use before
  is written. \<open>copied\<close> is the invariant of its loop after \<open>i\<close> of \<open>n\<close> pages.
\<close>

unbundle bit_operations_syntax

lemma walkpgdir_lookup:
  assumes "\<not> kfree_bad kend pgdir"
    and "present (pde s pgdir (PDX va)) \<Longrightarrow> page_of (frame_of (pde s pgdir (PDX va))) = p2v (PTE_ADDR (pde s pgdir (PDX va)))"
  shows "wp (walkpgdir lk pgdir va False) (\<lambda>p t. t = s \<and>
    p = (if present (pde s pgdir (PDX va)) then Some (unat (page_of (frame_of (pde s pgdir (PDX va)))) + 4 * PTX va) else None)) s"
  using assms by (simp add: walkpgdir_def wp_simps pde_load [OF assms(1)] present_def)

lemma only_ptn:
  fixes s t :: "'z kmem_scheme"
  assumes inv: "pgd_inv lk s pgdir xs" and o: "only R s t" "R \<subseteq> set xs"
  shows "\<And>i. i < 1024 \<Longrightarrow> pde t pgdir i = pde s pgdir i" "\<And>q. q < 2 ^ 20 \<Longrightarrow> ptn t pgdir q = ptn s pgdir q"
proof -
  have r0: "run_of pgdir < MAXPAGES" "run_of pgdir \<notin> R" using inv o good_page(1) by (auto simp: pgd_inv_def)
  show p: "pde t pgdir i = pde s pgdir i" if "i < 1024" for i
    unfolding pde_def by (rule only_W [OF o(1) r0(2,1) that])
  show "ptn t pgdir q = ptn s pgdir q" if "q < 2 ^ 20" for q
  proof -
    have d: "q div 1024 < 1024" "q mod 1024 < 1024" using that by (auto simp: div_less_iff_less_mult)
    show ?thesis
    proof (cases "present (pde s pgdir (q div 1024))")
      case True
      note f = pgd_frame [OF inv d(1) True]
      have "W t (frame_of (pde s pgdir (q div 1024))) (q mod 1024) = W s (frame_of (pde s pgdir (q div 1024))) (q mod 1024)"
        by (rule only_W [OF o(1) _ f(1) d(2)]) (use f(3) o(2) in auto)
      then show ?thesis by (simp add: ptn_def p [OF d(1)])
    next
      case False
      then show ?thesis by (simp add: ptn_def p [OF d(1)])
    qed
  qed
qed

definition frame_byte :: "'z kmem_scheme \<Rightarrow> nat \<Rightarrow> nat \<Rightarrow> byte" where
  "frame_byte s r k = kbytes s (2 ^ 31 + r * PGSIZE + k)"

lemma only_frame_byte: "only R s t \<Longrightarrow> r \<notin> R \<Longrightarrow> k < PGSIZE \<Longrightarrow> frame_byte t r k = frame_byte s r k"
proof -
  assume o: "only R s t" "r \<notin> R" "k < PGSIZE"
  then have "in_page r (2 ^ 31 + r * PGSIZE + k)" by (simp add: in_page_def)
  then have "\<forall>q\<in>R. \<not> in_page q (2 ^ 31 + r * PGSIZE + k)" using o(2) in_page_unique by blast
  then show ?thesis using o(1) by (simp add: only_def frame_byte_def)
qed

text \<open>Page \<open>q\<close> of the child has the flags and the content that page \<open>q\<close> of the parent had.\<close>

definition same_page :: "'z kmem_scheme \<Rightarrow> 'z kmem_scheme \<Rightarrow> uint32 \<Rightarrow> uint32 \<Rightarrow> nat \<Rightarrow> bool" where
  "same_page s t pgdir d q \<longleftrightarrow> present (ptn t d q) \<and> PTE_FLAGS (ptn t d q) = PTE_FLAGS (ptn s pgdir q) \<and>
     (\<forall>k<PGSIZE. frame_byte t (frame_of (ptn t d q)) k = frame_byte s (frame_of (ptn s pgdir q)) k)"

text \<open>A process of \<open>n\<close> pages: all present, in frames that are not free.\<close>

definition user_pages :: "linkmap \<Rightarrow> 'z kmem_scheme \<Rightarrow> uint32 \<Rightarrow> nat list \<Rightarrow> nat \<Rightarrow> bool" where
  "user_pages lk s pgdir xs n \<longleftrightarrow> pgd_inv lk s pgdir xs \<and> n \<le> 524288 \<and>
     (\<forall>q<n. present (ptn s pgdir q) \<and> \<not> kfree_bad (l_end lk) (p2v (PTE_ADDR (ptn s pgdir q))) \<and>
        frame_of (ptn s pgdir q) \<notin> set xs)"

definition copied :: "linkmap \<Rightarrow> 'z kmem_scheme \<Rightarrow> 'z kmem_scheme \<Rightarrow> uint32 \<Rightarrow> uint32 \<Rightarrow> nat list \<Rightarrow> nat \<Rightarrow> nat \<Rightarrow> bool" where
  "copied lk s t pgdir d xs n i \<longleftrightarrow>
     (\<exists>ws ys. xs = ws @ ys \<and> pgd_inv lk t d ys \<and> absent t d + (n - i) \<le> length ys \<and> only (set ws) s t \<and>
        run_of d \<in> set ws \<and> pt_pages t d \<subseteq> set ws \<and>
        (\<forall>q<i. same_page s t pgdir d q \<and> frame_of (ptn t d q) \<in> set ws - pt_pages t d)) \<and>
     inj_on (\<lambda>q. frame_of (ptn t d q)) {..<i} \<and>
     (\<forall>q<2 ^ 20. i \<le> q \<longrightarrow> ptn t d q = kern_pte lk q)"

lemma fill_free_page:
  fixes t u :: "'z kmem_scheme"
  assumes inv: "pgd_inv lk t d (y # ys)" and u: "kmem_inv (l_end lk) u ys" and o: "only {y} t u"
  shows "pgd_inv lk u d ys" "\<And>q. q < 2 ^ 20 \<Longrightarrow> ptn u d q = ptn t d q" "absent u d = absent t d" "pt_pages u d = pt_pages t d"
proof -
  have p: "\<And>i. i < 1024 \<Longrightarrow> pde u d i = pde t d i" "\<And>q. q < 2 ^ 20 \<Longrightarrow> ptn u d q = ptn t d q"
    using only_ptn [OF inv o] by auto
  show "ptn u d q = ptn t d q" if "q < 2 ^ 20" for q by (rule p(2) [OF that])
  show "absent u d = absent t d" unfolding absent_def by (rule arg_cong [of _ _ card]) (use p in auto)
  show "pt_pages u d = pt_pages t d" using p(1) unfolding pt_pages_def by (auto; metis)
  show "pgd_inv lk u d ys" using inv u unfolding pgd_inv_def by (auto simp: p)
qed

lemma copy_bytes:
  fixes u :: "'z kmem_scheme"
  assumes y: "y < MAXPAGES" and r: "r < MAXPAGES" "r \<noteq> y"
  defines "v \<equiv> u\<lparr>kbytes := memmove (kbytes u) (unat (page_of y)) (unat (page_of r)) PGSIZE\<rparr>"
  shows "only {y} u v" "\<And>k. k < PGSIZE \<Longrightarrow> frame_byte v y k = frame_byte u r k"
proof -
  show "only {y} u v" using y by (auto simp: only_def v_def memmove_bytes in_page_def page_of_unat)
  show "frame_byte v y k = frame_byte u r k" if "k < PGSIZE" for k
    using that y r by (simp add: frame_byte_def v_def memmove_bytes page_of_unat)
qed

lemma flags_present: "present e \<Longrightarrow> PTE_FLAGS e OR PTE_P = PTE_FLAGS e" "take_bit 12 (PTE_FLAGS e) = PTE_FLAGS e"
proof -
  assume "present e"
  then have b: "bit e 0" by (simp add: present_def and_one_eq bit_0 odd_iff_mod_2_eq_one)
  show "PTE_FLAGS e OR PTE_P = PTE_FLAGS e"
    unfolding PTE_FLAGS_take by (rule bit_word_eqI) (use b in \<open>auto simp: bit_simps bit_1_iff\<close>)
qed (simp add: PTE_FLAGS_take)

lemma new_entry:
  assumes y: "y < MAXPAGES" and e: "present e"
  defines "n \<equiv> v2p (page_of y) OR PTE_FLAGS e OR PTE_P"
  shows "present n" "PTE_FLAGS n = PTE_FLAGS e" "frame_of n = y"
proof -
  have n: "n = v2p (page_of y) OR PTE_FLAGS e" unfolding n_def flags_present(1) [OF e] ..
  have al: "unat (v2p (page_of y)) mod PGSIZE = 0" using y by (simp add: page_of_phys)
  show "PTE_FLAGS n = PTE_FLAGS e" unfolding n by (rule PTE_bits(2) [OF al flags_present(2)])
  have "PTE_ADDR n = v2p (page_of y)" unfolding n by (rule PTE_bits(1) [OF al flags_present(2)])
  then show "frame_of n = y" using y by (simp add: frame_of_def)
  have "n = (v2p (page_of y) OR PTE_FLAGS e) OR PTE_P" by (simp only: n_def or.assoc)
  then show "present n" using present_or by simp
qed

lemma copied_step:
  fixes s t u w :: "'z kmem_scheme"
  assumes up: "user_pages lk s pgdir xs n" and i: "i < n"
    and t: "xs = ws @ y # ys" "pgd_inv lk t d (y # ys)" "absent t d + (n - i) \<le> Suc (length ys)" "only (set ws) s t"
      "run_of d \<in> set ws" "pt_pages t d \<subseteq> set ws"
      "\<forall>q<i. same_page s t pgdir d q \<and> frame_of (ptn t d q) \<in> set ws - pt_pages t d"
      "inj_on (\<lambda>q. frame_of (ptn t d q)) {..<i}" "\<forall>q<2 ^ 20. i \<le> q \<longrightarrow> ptn t d q = kern_pte lk q"
    and u: "kmem_inv (l_end lk) u ys" "only {y} t u" "\<And>k. k < PGSIZE \<Longrightarrow> frame_byte u y k = frame_byte t (frame_of (ptn s pgdir i)) k"
    and w: "pt_step lk d u w ys vs"
      "\<forall>q<2 ^ 20. ptn w d q = (if q = i then v2p (page_of y) OR PTE_FLAGS (ptn s pgdir i) OR PTE_P else ptn u d q)"
  shows "copied lk s w pgdir d xs n (Suc i)"
proof -
  note f = fill_free_page [OF t(2) u(1,2)]
  obtain zs where z: "ys = zs @ vs" "only (pt_pages u d \<union> set zs) u w" "pt_pages w d \<subseteq> pt_pages u d \<union> set zs"
    "pgd_inv lk w d vs" "absent w d \<le> length vs"
    using w(1) by (auto simp: pt_step_def)
  have dist: "distinct (ws @ y # ys)" using up t(1) by (auto simp: user_pages_def pgd_inv_def kmem_inv_def)
  have y: "y < MAXPAGES" "y \<notin> pt_pages t d" "y \<notin> set ws" "y \<notin> set ys"
    using t(2,6) dist by (auto simp: pgd_inv_def kmem_inv_def)
  have i20: "i < 2 ^ 20" "\<And>q. q < i \<Longrightarrow> q < 2 ^ 20" using up i by (auto simp: user_pages_def)
  have e: "present (ptn s pgdir i)" "frame_of (ptn s pgdir i) \<notin> set xs" using up i by (auto simp: user_pages_def)
  note ne = new_entry [OF y(1) e(1)]
  have pw: "ptn w d q = ptn t d q" if "q < 2 ^ 20" "q \<noteq> i" for q using w(2) f(2) that by simp
  have pi: "ptn w d i = v2p (page_of y) OR PTE_FLAGS (ptn s pgdir i) OR PTE_P" using w(2) i20(1) by simp
  have ow: "only (pt_pages t d \<union> set zs \<union> {y}) t w"
    by (rule only_mono [OF only_trans [OF u(2) z(2)]]) (use f(4) in auto)
  have keep: "frame_byte w r k = frame_byte t r k" if "r \<in> set ws - pt_pages t d" "k < PGSIZE" for r k
    by (rule only_frame_byte [OF ow]) (use that y dist z(1) in auto)
  have newc: "frame_byte w y k = frame_byte s (frame_of (ptn s pgdir i)) k" if "k < PGSIZE" for k
  proof -
    have "frame_byte w y k = frame_byte u y k"
      by (rule only_frame_byte [OF z(2)]) (use that y f(4) z(1) in auto)
    also have "\<dots> = frame_byte t (frame_of (ptn s pgdir i)) k" by (rule u(3) [OF that])
    also have "\<dots> = frame_byte s (frame_of (ptn s pgdir i)) k"
      by (rule only_frame_byte [OF t(4)]) (use that e(2) t(1) in auto)
    finally show ?thesis .
  qed
  have ptw: "pt_pages w d \<subseteq> pt_pages t d \<union> set zs" using z(3) f(4) by simp
  have "same_page s w pgdir d q \<and> frame_of (ptn w d q) \<in> set (ws @ y # zs) - pt_pages w d" if "q < Suc i" for q
  proof (cases "q = i")
    case True
    then show ?thesis using ne newc ptw y z(1) unfolding same_page_def True pi by auto
  next
    case False
    then have q: "q < i" using that by simp
    then have h: "same_page s t pgdir d q" "frame_of (ptn t d q) \<in> set ws - pt_pages t d" using t(7) by auto
    have "frame_of (ptn t d q) \<notin> set zs" using h(2) dist z(1) by auto
    then show ?thesis using h keep [OF h(2)] pw [OF i20(2) [OF q] False] ptw unfolding same_page_def by auto
  qed
  moreover have "inj_on (\<lambda>q. frame_of (ptn w d q)) {..<Suc i}"
  proof -
    have "frame_of (ptn w d i) = y" using ne(3) by (simp only: pi)
    moreover have "\<forall>q<i. frame_of (ptn w d q) \<in> set ws" using t(7) pw i20(2) by auto
    moreover have "inj_on (\<lambda>q. frame_of (ptn w d q)) {..<i}"
      using t(8) pw i20(2) by (subst inj_on_cong [where g = "\<lambda>q. frame_of (ptn t d q)"]) auto
    ultimately show ?thesis using y(3) unfolding lessThan_Suc by (auto simp: inj_on_insert)
  qed
  moreover have "only (set (ws @ y # zs)) s w"
    by (rule only_mono [OF only_trans [OF t(4) ow]]) (use t(6) in auto)
  moreover have "absent w d + (n - Suc i) \<le> length vs"
  proof -
    have "absent u d + length vs = absent w d + length ys" using w(1) by (simp add: pt_step_def)
    then show ?thesis using t(3) f(3) i by linarith
  qed
  moreover have "pt_pages w d \<subseteq> set (ws @ y # zs)" using ptw t(6) by auto
  moreover have "\<forall>q<2 ^ 20. Suc i \<le> q \<longrightarrow> ptn w d q = kern_pte lk q" using pw t(9) by auto
  ultimately show ?thesis
    using t(1,5) z(1,4) unfolding copied_def
    by (intro conjI exI [of _ "ws @ y # zs"] exI [of _ vs]) auto
qed

lemma copyuvm_body:
  fixes s t :: "'z kmem_scheme"
  assumes up: "user_pages lk s pgdir xs n" and i: "i < n" and c: "copied lk s t pgdir d xs n i"
    and K: "\<And>w. copied lk s w pgdir d xs n (Suc i) \<Longrightarrow> wp (copyuvm_loop lk pgdir d is) Q w"
  shows "wp (copyuvm_loop lk pgdir d (of_nat (i * PGSIZE) # is)) Q t"
proof -
  define va :: uint32 where "va = of_nat (i * PGSIZE)"
  have i19: "i < 524288" using up i by (simp add: user_pages_def)
  have uva: "unat va = i * PGSIZE" using i19 unfolding va_def by (simp only: unat_of_nat) simp
  have pva: "pn va = i" by (simp add: pn_def uva)
  obtain ws ys0 where t0: "xs = ws @ ys0" "pgd_inv lk t d ys0" "absent t d + (n - i) \<le> length ys0" "only (set ws) s t"
      "run_of d \<in> set ws" "pt_pages t d \<subseteq> set ws"
      "\<forall>q<i. same_page s t pgdir d q \<and> frame_of (ptn t d q) \<in> set ws - pt_pages t d"
    and t1: "inj_on (\<lambda>q. frame_of (ptn t d q)) {..<i}" "\<forall>q<2 ^ 20. i \<le> q \<longrightarrow> ptn t d q = kern_pte lk q"
    using c unfolding copied_def by blast
  obtain y ys where ys: "ys0 = y # ys" using t0(3) i by (cases ys0) auto
  have inv: "pgd_inv lk s pgdir xs" and e: "present (ptn s pgdir i)" "\<not> kfree_bad (l_end lk) (p2v (PTE_ADDR (ptn s pgdir i)))"
    "frame_of (ptn s pgdir i) \<notin> set xs"
    using up i by (auto simp: user_pages_def)
  have sub: "set ws \<subseteq> set xs" using t0(1) by simp
  note op = only_ptn [OF inv t0(4) sub]
  have px: "PDX va < 1024" using pn_less [of va] by (simp add: PDX_pn div_less_iff_less_mult)
  have pr: "present (pde t pgdir (PDX va))" using e(1) op(1) [OF px] by (auto simp: ptn_def PDX_pn pva present_def split: if_splits)
  have prs: "present (pde s pgdir (PDX va))" using pr op(1) [OF px] by simp
  have tab: "page_of (frame_of (pde t pgdir (PDX va))) = p2v (PTE_ADDR (pde t pgdir (PDX va)))"
    using pgd_frame(4) [OF inv px prs] op(1) [OF px] by simp
  have good: "\<not> kfree_bad (l_end lk) pgdir" using inv by (simp add: pgd_inv_def)
  have g: "load32 (kbytes t) (unat (page_of (frame_of (pde t pgdir (PDX va)))) + 4 * PTX va) = ptn s pgdir i"
    unfolding get_pte [OF pr] pva using op(2) i19 by simp
  have kt: "kmem_inv (l_end lk) t (y # ys)" using t0(2) ys by (simp add: pgd_inv_def)
  have y: "y < MAXPAGES" using kt by (simp add: kmem_inv_def)
  note fr = good_page [OF e(2), folded frame_of_def]
  have yr: "frame_of (ptn s pgdir i) \<noteq> y" using e(3) t0(1) ys by auto
  let ?e = "ptn s pgdir i"
  have "wp (kalloc (l_runs lk)) (\<lambda>mem. wp (if mem = 0 then bind (freevm lk d) (\<lambda>_. return 0)
         else
           bind (modify (\<lambda>s. s\<lparr>kbytes := memmove (kbytes s) (unat mem) (unat (p2v (PTE_ADDR ?e))) PGSIZE\<rparr>)) (\<lambda>_.
           bind (mappages lk d va (of_nat PGSIZE) (v2p mem) (PTE_FLAGS ?e)) (\<lambda>r.
           if r < 0 then bind (freevm lk d) (\<lambda>_. return 0)
           else copyuvm_loop lk pgdir d is))) Q) t"
  proof (rule wp_mono [OF kalloc_wp [OF kt]])
    fix v and k :: "'z kmem_scheme"
    assume k: "v = page_of y \<and> kmem_inv (l_end lk) k ys \<and> kbytes k = kbytes t"
    define u where "u = k\<lparr>kbytes := memmove (kbytes k) (unat (page_of y)) (unat (page_of (frame_of ?e))) PGSIZE\<rparr>"
    note cb = copy_bytes [OF y fr(1) yr, where u = k, folded u_def]
    have u: "kmem_inv (l_end lk) u ys" "only {y} t u"
      using k cb(1) by (auto simp: u_def only_def)
    have uc: "frame_byte u y b = frame_byte t (frame_of ?e) b" if "b < PGSIZE" for b
      using cb(2) [OF that] k by (simp add: frame_byte_def)
    note ff = fill_free_page [OF t0(2) [unfolded ys] u]
    have eno: "absent u d \<le> length ys" using ff(3) t0(3) ys i by simp
    have dm: "(unat va + unat (of_nat PGSIZE :: uint32) - 1) div PGSIZE = i" unfolding uva by simp
    have "wp (mappages lk d va (of_nat PGSIZE) (v2p (page_of y)) (PTE_FLAGS ?e))
      (\<lambda>r. wp (if r < 0 then bind (freevm lk d) (\<lambda>_. return 0) else copyuvm_loop lk pgdir d is) Q) u"
    proof (rule wp_mono [OF mappages_wp [OF ff(1) eno]])
      show "0 < (of_nat PGSIZE :: uint32)" by simp
      show "unat va + unat (of_nat PGSIZE :: uint32) \<le> 2 ^ 32" using i19 by (simp add: uva)
      show "\<not> present (ptn u d q)" if "pn va \<le> q" "q \<le> (unat va + unat (of_nat PGSIZE :: uint32) - 1) div PGSIZE" for q
      proof -
        have "q = i" using that pva dm by simp
        moreover have "ptn u d i = kern_pte lk i" using ff(2) t1(2) i19 by simp
        ultimately show ?thesis using i19 by (simp add: kern_pte_def present_def)
      qed
      fix r :: int and w :: "'z kmem_scheme"
      assume h: "r = 0 \<and> (\<exists>vs. pt_step lk d u w ys vs) \<and>
        (\<forall>q<2 ^ 20. ptn w d q = (if pn va \<le> q \<and> q \<le> (unat va + unat (of_nat PGSIZE :: uint32) - 1) div PGSIZE
          then (v2p (page_of y) + of_nat ((q - pn va) * PGSIZE)) OR PTE_FLAGS ?e OR PTE_P else ptn u d q))"
      then obtain vs where w: "pt_step lk d u w ys vs" by blast
      have "\<forall>q<2 ^ 20. ptn w d q = (if q = i then v2p (page_of y) OR PTE_FLAGS ?e OR PTE_P else ptn u d q)"
        using h [unfolded dm pva] by auto
      from copied_step [OF up i t0(1) [unfolded ys] t0(2) [unfolded ys] _ t0(4-7) t1 u uc w this] t0(3) ys
      have "copied lk s w pgdir d xs n (Suc i)" by simp
      from K [OF this] h show "wp (if r < 0 then bind (freevm lk d) (\<lambda>_. return 0) else copyuvm_loop lk pgdir d is) Q w" by simp
    qed
    then show "wp (if v = 0 then bind (freevm lk d) (\<lambda>_. return 0)
         else
           bind (modify (\<lambda>s. s\<lparr>kbytes := memmove (kbytes s) (unat v) (unat (p2v (PTE_ADDR ?e))) PGSIZE\<rparr>)) (\<lambda>_.
           bind (mappages lk d va (of_nat PGSIZE) (v2p v) (PTE_FLAGS ?e)) (\<lambda>r.
           if r < 0 then bind (freevm lk d) (\<lambda>_. return 0)
           else copyuvm_loop lk pgdir d is))) Q k"
      unfolding conjunct1 [OF k] using page_of_nz [OF y] by (simp add: wp_simps wp_bind_fun u_def fr(2))
  qed
  moreover
  define a where "a = unat (page_of (frame_of (pde t pgdir (PDX va)))) + 4 * PTX va"
  have "walkpgdir lk pgdir va False t = Ok (Some a) t"
    using walkpgdir_lookup [OF good tab, of lk] pr by (auto simp: wp_Ok a_def)
  then have wk: "wp (walkpgdir lk pgdir va False) R t = R (Some a) t" for R by (simp add: wp_def)
  have ld: "load32 (kbytes t) a = ?e" unfolding a_def by (rule g)
  have "\<not> ?e AND PTE_P = 0" using e(1) by (simp add: present_def)
  ultimately show ?thesis
    unfolding copyuvm_loop.simps va_def [symmetric] wp_bind_fun wk option.case wp_gets [of "\<lambda>s. load32 (kbytes s) a"]
      wp_panic_if ld by simp
qed

lemma copyuvm_loop_wp:
  fixes s t :: "'z kmem_scheme"
  assumes up: "user_pages lk s pgdir xs n" and "i \<le> n" and "copied lk s t pgdir d xs n i"
  shows "wp (copyuvm_loop lk pgdir d (map (\<lambda>k. of_nat (k * PGSIZE)) [i..<n])) (\<lambda>r w. r = d \<and> copied lk s w pgdir d xs n n) t"
  using assms(2,3)
proof (induction "n - i" arbitrary: i t)
  case 0
  then show ?case by (simp add: wp_simps)
next
  case (Suc m)
  then have i: "i < n" by simp
  have "wp (copyuvm_loop lk pgdir d (of_nat (i * PGSIZE) # map (\<lambda>k. of_nat (k * PGSIZE)) [Suc i..<n]))
      (\<lambda>r w. r = d \<and> copied lk s w pgdir d xs n n) t"
    by (rule copyuvm_body [OF up i Suc.prems(2)], rule Suc.hyps(1)) (use Suc.hyps(2) i in auto)
  then show ?case using i by (simp only: upt_conv_Cons list.map)
qed

lemma copyuvm_wp:
  fixes s :: "'z kmem_scheme"
  assumes "link_ok lk" and "user_pages lk s pgdir xs n" and "n = (unat sz + 4095) div PGSIZE" and "1025 + n \<le> length xs"
  shows "wp (copyuvm lk pgdir sz) (\<lambda>d t. d \<noteq> 0 \<and>
    (\<forall>q<n. same_page s t pgdir d q \<and> frame_of (ptn t d q) \<in> set xs) \<and> inj_on (\<lambda>q. frame_of (ptn t d q)) {..<n} \<and>
    (\<forall>q. n \<le> q \<and> q < 524288 \<longrightarrow> ptn t d q = 0) \<and> only (set xs) s t \<and> (\<forall>q<2 ^ 20. ptn t pgdir q = ptn s pgdir q)) s"
proof -
  obtain x ys where xs: "xs = x # ys" using assms(4) by (cases xs) auto
  have inv: "pgd_inv lk s pgdir xs" using assms(2) by (simp add: user_pages_def)
  then have k: "kmem_inv (l_end lk) s (x # ys)" using xs by (simp add: pgd_inv_def)
  have len: "1024 \<le> length ys" using assms(4) xs by simp
  have x: "x < MAXPAGES" using k by (simp add: kmem_inv_def)
  have ps: "page_steps 0 sz = map (\<lambda>k. of_nat (k * PGSIZE)) [0..<n]" by (simp add: page_steps_def assms(3))
  show ?thesis
    unfolding copyuvm_def wp_bind_fun
  proof (rule wp_mono [OF setupkvm_wp [OF assms(1) k len]], elim conjE exE)
    fix d and t :: "'z kmem_scheme" and zs vs
    assume d: "d = page_of x" "ys = zs @ vs" "pgd_inv lk t d vs" "1024 + length vs = absent t d + length ys"
      "pt_pages t d \<subseteq> set (x # zs)" "only (set (x # zs)) s t" "\<forall>q<2 ^ 20. ptn t d q = kern_pte lk q"
    have "copied lk s t pgdir d xs n 0"
      unfolding copied_def
      by (intro conjI exI [of _ "x # zs"] exI [of _ vs]) (use d xs x assms(4) in auto)
    then have "wp (copyuvm_loop lk pgdir d (page_steps 0 sz)) (\<lambda>r w. r = d \<and> copied lk s w pgdir d xs n n) t"
      unfolding ps by (intro copyuvm_loop_wp [OF assms(2)]) auto
    then have "wp (copyuvm_loop lk pgdir d (page_steps 0 sz)) (\<lambda>d t. d \<noteq> 0 \<and>
      (\<forall>q<n. same_page s t pgdir d q \<and> frame_of (ptn t d q) \<in> set xs) \<and> inj_on (\<lambda>q. frame_of (ptn t d q)) {..<n} \<and>
      (\<forall>q. n \<le> q \<and> q < 524288 \<longrightarrow> ptn t d q = 0) \<and> only (set xs) s t \<and> (\<forall>q<2 ^ 20. ptn t pgdir q = ptn s pgdir q)) t"
    proof (rule wp_mono)
      fix r and w :: "'z kmem_scheme"
      assume w: "r = d \<and> copied lk s w pgdir d xs n n"
      then obtain ws us where c: "xs = ws @ us" "only (set ws) s w"
        "\<forall>q<n. same_page s w pgdir d q \<and> frame_of (ptn w d q) \<in> set ws - pt_pages w d"
        by (auto simp: copied_def)
      have i: "inj_on (\<lambda>q. frame_of (ptn w d q)) {..<n}" "\<forall>q<2 ^ 20. n \<le> q \<longrightarrow> ptn w d q = kern_pte lk q"
        using w by (auto simp: copied_def)
      have "only (set xs) s w" using c(2) by (rule only_mono) (simp add: c(1))
      then show "r \<noteq> 0 \<and> (\<forall>q<n. same_page s w pgdir r q \<and> frame_of (ptn w r q) \<in> set xs) \<and>
        inj_on (\<lambda>q. frame_of (ptn w r q)) {..<n} \<and> (\<forall>q. n \<le> q \<and> q < 524288 \<longrightarrow> ptn w r q = 0) \<and>
        only (set xs) s w \<and> (\<forall>q<2 ^ 20. ptn w pgdir q = ptn s pgdir q)"
        using w c i page_of_nz [OF x] d(1) only_ptn(2) [OF inv] by (auto simp: kern_pte_def)
    qed
    then show "wp (if d = 0 then return 0 else copyuvm_loop lk pgdir d (page_steps 0 sz)) (\<lambda>d t. d \<noteq> 0 \<and>
      (\<forall>q<n. same_page s t pgdir d q \<and> frame_of (ptn t d q) \<in> set xs) \<and> inj_on (\<lambda>q. frame_of (ptn t d q)) {..<n} \<and>
      (\<forall>q. n \<le> q \<and> q < 524288 \<longrightarrow> ptn t d q = 0) \<and> only (set xs) s t \<and> (\<forall>q<2 ^ 20. ptn t pgdir q = ptn s pgdir q)) t"
      using page_of_nz [OF x] d(1) by simp
  qed
qed

text \<open>
  C22. \<^verbatim>\<open>copyuvm\<close> gives the child of a fork a private copy of the parent's memory. With enough free
  pages it succeeds; every page of the parent is present in the new address space with the same
  flags and the same content, in a frame that was free before, different pages in different frames;
  the rest of the user half is empty; and only pages that were free are written, so that the
  parent's mappings and memory, and everybody else's, stay as they were.
\<close>

theorem copyuvm_copies:
  fixes s :: "'z kmem_scheme"
  assumes "link_ok lk" and "user_pages lk s pgdir xs n" and "n = (unat sz + 4095) div PGSIZE" and "1025 + n \<le> length xs"
  shows "wp (copyuvm lk pgdir sz) (\<lambda>d t. d \<noteq> 0 \<and>
    (\<forall>q<n. same_page s t pgdir d q \<and> frame_of (ptn t d q) \<in> set xs) \<and> inj_on (\<lambda>q. frame_of (ptn t d q)) {..<n} \<and>
    (\<forall>q. n \<le> q \<and> q < 524288 \<longrightarrow> ptn t d q = 0) \<and> only (set xs) s t \<and> (\<forall>q<2 ^ 20. ptn t pgdir q = ptn s pgdir q)) s"
  using assms by (rule copyuvm_wp)

text \<open>A parent with one page, in frame 1996, under the directory in frame 1998 and the table in frame 1997.\<close>

definition demo_parent :: kmem where
  "demo_parent = (let s = demo_vm\<lparr>kbytes := store32 (kbytes demo_vm) (unat (page_of 1998) + 4 * 0) (new_pde 1997)\<rparr> in
     s\<lparr>kbytes := store32 (kbytes s) (unat (page_of 1997) + 4 * 0) (new_pde 1996)\<rparr>)"

lemma demo_parent_W:
  assumes "r < MAXPAGES" "i < 1024"
  shows "W demo_parent r i = (if i = 0 \<and> r = 1998 then new_pde 1997 else if i = 0 \<and> r = 1997 then new_pde 1996 else 0)"
proof -
  define s where "s = demo_vm\<lparr>kbytes := store32 (kbytes demo_vm) (unat (page_of 1998) + 4 * 0) (new_pde 1997)\<rparr>"
  have "W demo_parent r i = (if r = 1997 \<and> i = 0 then new_pde 1996 else W s r i)"
    unfolding demo_parent_def Let_def s_def [symmetric] by (rule W_put) (use assms in auto)
  also have "W s r i = (if r = 1998 \<and> i = 0 then new_pde 1997 else W demo_vm r i)"
    unfolding s_def by (rule W_put) (use assms in auto)
  finally show ?thesis by (auto simp: demo_W)
qed

lemma demo_user_pages: "user_pages demo_link demo_parent (page_of 1998) [2000..<3100] 1"
proof -
  have k: "kmem_inv (l_end demo_link) demo_parent [2000..<3100]"
    using demo_vm_inv by (simp add: demo_parent_def Let_def del: upt_rec_numeral)
  have g: "\<not> kfree_bad (l_end demo_link) (page_of r)" if "r = 1996 \<or> r = 1997 \<or> r = 1998" for r
    using that by (intro page_of_good) (auto simp: demo_link_facts)
  have pd: "pde demo_parent (page_of 1998) i = (if i = 0 then new_pde 1997 else 0)" if "i < 1024" for i
    using that by (simp add: pde_def demo_parent_W)
  have n7: "present (new_pde 1997)" "PTE_ADDR (new_pde 1997) = v2p (page_of 1997)" "frame_of (new_pde 1997) = 1997"
    and n6: "present (new_pde 1996)" "PTE_ADDR (new_pde 1996) = v2p (page_of 1996)" "frame_of (new_pde 1996) = 1996"
    by (rule new_pde_facts; simp)+
  have "ptn demo_parent (page_of 1998) 0 = new_pde 1996" using pd n7 by (simp add: ptn_def demo_parent_W)
  moreover have "pgd_inv demo_link demo_parent (page_of 1998) [2000..<3100]"
    using k g pd n7 by (auto simp: pgd_inv_def present_def simp del: upt_rec_numeral)
  ultimately show ?thesis using n6 g by (simp add: user_pages_def del: upt_rec_numeral)
qed

theorem copyuvm_copies_witness:
  "wp (copyuvm demo_link (page_of 1998) 0x800) (\<lambda>d t. d \<noteq> 0 \<and> same_page demo_parent t (page_of 1998) d 0) demo_parent"
proof -
  have n: "(1 :: nat) = (unat (0x800 :: uint32) + 4095) div PGSIZE" by simp
  have l: "1025 + 1 \<le> length [2000..<3100]" by (simp del: upt_rec_numeral)
  show ?thesis
    by (rule wp_mono [OF copyuvm_copies [OF demo_link_facts(1) demo_user_pages n l]]) simp
qed

end
