(* ===== verification/Ring.thy ===== *)
theory Ring
  imports Prelude
begin

text \<open>
  Ring buffers indexed by free-running 32-bit counters. pipe.c keeps its data in \<^verbatim>\<open>data[nread % PIPESIZE]\<close> and
  console.c its input in \<^verbatim>\<open>buf[r % INPUT_BUF]\<close>: in both the counters are \<^verbatim>\<open>uint\<close>s that are never reduced, and
  the array position is the remainder. The one thing this relies on is that the size of the array divides
  \<open>2 ^ 32\<close>; the locale \<open>ring\<close> takes it as its law and shows that the positions then form a queue, also across
  the wrap-around of the counters. Pipe and Console interpret it at their sizes.
\<close>

text \<open>The \<open>m\<close> elements of an array of \<open>n\<close> slots from counter \<open>a\<close> on.\<close>

definition ring_list :: "nat \<Rightarrow> 'a list \<Rightarrow> uint32 \<Rightarrow> nat \<Rightarrow> 'a list" where
  "ring_list n buf a m = map (\<lambda>k. buf ! (unat (a + of_nat k) mod n)) [0..<m]"

lemma length_ring_list [simp]: "length (ring_list n buf a m) = m"
  by (simp add: ring_list_def)

lemma ring_list_0 [simp]: "ring_list n buf a 0 = []"
  by (simp add: ring_list_def)

lemma ring_list_eq_Nil [simp]: "ring_list n buf a m = [] \<longleftrightarrow> m = 0"
  by (simp add: ring_list_def)

lemma ring_list_Suc: "ring_list n buf a (Suc m) = ring_list n buf a m @ [buf ! (unat (a + of_nat m) mod n)]"
  by (simp add: ring_list_def)

lemma ring_list_add: "ring_list n buf a (m + k) = ring_list n buf a m @ ring_list n buf (a + of_nat m) k"
  by (induction k) (simp_all add: ring_list_Suc add.assoc)

lemma ring_list_Cons: "ring_list n buf a (Suc m) = buf ! (unat a mod n) # ring_list n buf (a + 1) m"
  using ring_list_add [of n buf a "Suc 0" m] by (simp add: ring_list_Suc)

text \<open>Distances between counters: the number of slots between them.\<close>

lemma counter_dist_Suc:
  assumes "unat (b - a :: uint32) < 2 ^ 32 - 1"
  shows "unat (b + 1 - a) = Suc (unat (b - a))"
proof -
  have "b + 1 - a = of_nat (Suc (unat (b - a)))" by simp
  then show ?thesis using assms by (simp only: unat_of_nat) simp
qed

lemma counter_dist_pred:
  assumes "a \<noteq> (b :: uint32)"
  shows "Suc (unat (b - (a + 1))) = unat (b - a)"
proof -
  have "b - a \<noteq> 0" using assms by simp
  then have "unat (b - a - 1) = unat (b - a) - 1" and "0 < unat (b - a)"
    by (simp_all add: unat_minus_one unat_gt_0)
  then show ?thesis by (simp add: algebra_simps)
qed

lemma counter_eq_dist: "(b :: uint32) = a + of_nat (unat (b - a))"
  by simp

locale ring =
  fixes n :: nat
  assumes size_pos: "0 < n" and size_dvd: "n dvd 2 ^ 32"
begin

lemma index: "unat (a + of_nat k :: uint32) mod n = (unat a + k) mod n"
proof -
  have "unat (a + of_nat k :: uint32) = (unat a + k mod 2 ^ 32) mod 2 ^ 32"
    by (simp add: unat_word_ariths unat_of_nat)
  also have "\<dots> = (unat a + k) mod 2 ^ 32" by (rule mod_add_right_eq)
  finally show ?thesis using size_dvd by (simp only: mod_mod_cancel)
qed

lemma index_neq:
  assumes "k < m" "m - k < n"
  shows "unat (a + of_nat k :: uint32) mod n \<noteq> unat (a + of_nat m) mod n"
proof
  assume "unat (a + of_nat k) mod n = unat (a + of_nat m) mod n"
  then have "(unat a + m) mod n = (unat a + k) mod n" by (simp add: index)
  then have "n dvd (unat a + m) - (unat a + k)" by (rule mod_eq_dvd_iff_nat [THEN iffD1, rotated]) (use assms in simp)
  then have "n dvd m - k" by simp
  then show False using assms by (auto dest: dvd_imp_le)
qed

text \<open>A store past the end does not reach the elements in front of it.\<close>

lemma store_keeps:
  assumes "k \<le> m" "m < n"
  shows "ring_list n (buf[unat (a + of_nat m) mod n := c]) a k = ring_list n buf a k"
proof -
  have "unat (a + of_nat m :: uint32) mod n \<noteq> unat (a + of_nat i) mod n" if "i < k" for i
    by (rule index_neq [THEN not_sym]) (use that assms in auto)
  then show ?thesis by (auto simp: ring_list_def nth_list_update_neq)
qed

lemma store_appends:
  assumes "m < n" "length buf = n"
  shows "ring_list n (buf[unat (a + of_nat m) mod n := c]) a (Suc m) = ring_list n buf a m @ [c]"
  using assms size_pos by (simp add: ring_list_Suc store_keeps)

end

end
