(* ===== verification/Pipe.thy ===== *)
theory Pipe
  imports Ring
begin

text \<open>
  Pipes (pipe.c). The counters \<^verbatim>\<open>nread\<close> and \<^verbatim>\<open>nwrite\<close> are 32-bit words that run on and wrap around;
  the buffer position is their value modulo \<^verbatim>\<open>PIPESIZE\<close>. One call of a definition below is the code
  between taking and giving up \<^verbatim>\<open>p->lock\<close>, so that it is atomic; where the code calls \<^verbatim>\<open>sleep\<close> inside
  the lock the definition stops with \<open>PSleep\<close> and the loop index, and the definition called again with
  that index is what the process does after it is woken up. The last component of a result lists
  the channels given to \<^verbatim>\<open>wakeup\<close>. \<^verbatim>\<open>proc->killed\<close> of the calling process is an argument.

  The first half refines the ring buffer to a bounded queue; the second half runs a reader and a
  writer against each other, with \<^verbatim>\<open>close\<close> and \<^verbatim>\<open>kill\<close> at any time.
\<close>

abbreviation PIPESIZE :: nat where "PIPESIZE \<equiv> 512"

record pipe =
  p_data :: "byte list"
  nread :: uint32
  nwrite :: uint32
  readopen :: bool
  writeopen :: bool

text \<open>The two channels of a pipe, \<^verbatim>\<open>&p->nread\<close> and \<^verbatim>\<open>&p->nwrite\<close>.\<close>

datatype pchan = Nread | Nwrite

datatype wres = PRet int | PSleep nat

datatype rres = RRet int "byte list" | RSleep

text \<open>\<^verbatim>\<open>pipealloc\<close>, the part that sets the pipe up; the page it lives in is not cleared.\<close>

definition pipeinit :: "byte list \<Rightarrow> pipe" where
  "pipeinit d = \<lparr>p_data = d, nread = 0, nwrite = 0, readopen = True, writeopen = True\<rparr>"

definition pipe_full :: "pipe \<Rightarrow> bool" where
  "pipe_full p \<longleftrightarrow> nwrite p = nread p + of_nat PIPESIZE"

definition put_byte :: "byte \<Rightarrow> pipe \<Rightarrow> pipe" where
  "put_byte c p = p\<lparr>p_data := (p_data p)[unat (nwrite p) mod PIPESIZE := c], nwrite := nwrite p + 1\<rparr>"

function pipewrite_from :: "bool \<Rightarrow> (nat \<Rightarrow> byte) \<Rightarrow> int \<Rightarrow> nat \<Rightarrow> pipe \<Rightarrow> pipe \<times> wres \<times> pchan list" where
  "pipewrite_from killed addr n i p =
     (if int i < n then
        if pipe_full p then
          if \<not> readopen p \<or> killed then (p, PRet (-1), [])
          else (p, PSleep i, [Nread])
        else pipewrite_from killed addr n (i + 1) (put_byte (addr i) p)
      else (p, PRet n, [Nread]))"
  by pat_completeness auto
termination
  by (relation "measure (\<lambda>(killed, addr, n, i, p). nat (n - int i))") auto

declare pipewrite_from.simps [simp del]

definition pipewrite :: "bool \<Rightarrow> (nat \<Rightarrow> byte) \<Rightarrow> int \<Rightarrow> pipe \<Rightarrow> pipe \<times> wres \<times> pchan list" where
  "pipewrite killed addr n p = pipewrite_from killed addr n 0 p"

fun piperead_copy :: "nat \<Rightarrow> pipe \<Rightarrow> pipe \<times> byte list" where
  "piperead_copy 0 p = (p, [])"
| "piperead_copy (Suc n) p =
     (if nread p = nwrite p then (p, [])
      else let (p', d) = piperead_copy n (p\<lparr>nread := nread p + 1\<rparr>) in
           (p', p_data p ! (unat (nread p) mod PIPESIZE) # d))"

definition piperead :: "bool \<Rightarrow> int \<Rightarrow> pipe \<Rightarrow> pipe \<times> rres \<times> pchan list" where
  "piperead killed n p =
     (if nread p = nwrite p \<and> writeopen p then
        if killed then (p, RRet (-1) [], []) else (p, RSleep, [])
      else let (p', d) = piperead_copy (nat n) p in (p', RRet (int (length d)) d, [Nwrite]))"

text \<open>The last component says whether the page of the pipe is freed.\<close>

definition pipeclose :: "bool \<Rightarrow> pipe \<Rightarrow> pipe \<times> pchan list \<times> bool" where
  "pipeclose writable p =
     (let (p', ws) = (if writable then (p\<lparr>writeopen := False\<rparr>, [Nread]) else (p\<lparr>readopen := False\<rparr>, [Nwrite])) in
      (p', ws, \<not> readopen p' \<and> \<not> writeopen p'))"

section \<open>The ring buffer is a queue\<close>

definition pipe_inv :: "pipe \<Rightarrow> bool" where
  "pipe_inv p \<longleftrightarrow> length (p_data p) = PIPESIZE \<and> unat (nwrite p - nread p) \<le> PIPESIZE"

definition pqueue :: "pipe \<Rightarrow> byte list" where
  "pqueue p = ring_list PIPESIZE (p_data p) (nread p) (unat (nwrite p - nread p))"

lemma length_pqueue: "length (pqueue p) = unat (nwrite p - nread p)"
  by (simp add: pqueue_def)

lemma pipe_full_iff: "pipe_full p \<longleftrightarrow> length (pqueue p) = PIPESIZE"
proof -
  have "nwrite p = nread p + 512 \<longleftrightarrow> nwrite p - nread p = 512" by (simp add: algebra_simps)
  also have "\<dots> \<longleftrightarrow> unat (nwrite p - nread p) = unat (512 :: uint32)" by (simp only: word_unat_eq_iff)
  finally show ?thesis by (simp add: pipe_full_def length_pqueue)
qed

lemma pipe_empty_iff: "nread p = nwrite p \<longleftrightarrow> pqueue p = []"
proof -
  have "pqueue p = [] \<longleftrightarrow> nwrite p - nread p = 0" by (simp add: pqueue_def unat_eq_0)
  then show ?thesis by auto
qed

interpretation pipe_ring: ring PIPESIZE
  by unfold_locales simp_all

lemma put_byte_queue:
  assumes inv: "pipe_inv p" and room: "\<not> pipe_full p"
  shows "pipe_inv (put_byte c p)" "pqueue (put_byte c p) = pqueue p @ [c]"
proof -
  let ?m = "unat (nwrite p - nread p)"
  have m: "?m < PIPESIZE" using inv room by (simp add: pipe_full_iff pipe_inv_def length_pqueue)
  then have sz: "unat (nwrite p + 1 - nread p) = Suc ?m" by (simp add: counter_dist_Suc)
  show "pipe_inv (put_byte c p)" using inv m sz by (simp add: pipe_inv_def put_byte_def)
  have "length (p_data p) = PIPESIZE" using inv by (simp add: pipe_inv_def)
  from pipe_ring.store_appends [OF m this, of "nread p" c]
  show "pqueue (put_byte c p) = pqueue p @ [c]" by (simp add: pqueue_def put_byte_def sz)
qed

lemma get_byte_queue:
  assumes inv: "pipe_inv p" and ne: "nread p \<noteq> nwrite p"
  defines "q \<equiv> p\<lparr>nread := nread p + 1\<rparr>"
  shows "pipe_inv q" "pqueue p = p_data p ! (unat (nread p) mod PIPESIZE) # pqueue q"
proof -
  note sz = counter_dist_pred [OF ne]
  show "pipe_inv q" using inv sz by (simp add: pipe_inv_def q_def)
  show "pqueue p = p_data p ! (unat (nread p) mod PIPESIZE) # pqueue q"
    by (simp add: pqueue_def q_def flip: sz ring_list_Cons)
qed

lemma piperead_copy_queue:
  assumes "pipe_inv p" and "piperead_copy n p = (q, d)"
  shows "pipe_inv q \<and> d = take n (pqueue p) \<and> pqueue q = drop n (pqueue p) \<and>
    nwrite q = nwrite p \<and> readopen q = readopen p \<and> writeopen q = writeopen p"
  using assms
proof (induction n arbitrary: p q d)
  case (Suc n)
  show ?case
  proof (cases "nread p = nwrite p")
    case True
    then show ?thesis using Suc.prems pipe_empty_iff [of p] by auto
  next
    case False
    let ?p = "p\<lparr>nread := nread p + 1\<rparr>"
    obtain e where e: "piperead_copy n ?p = (q, e)" "d = p_data p ! (unat (nread p) mod PIPESIZE) # e"
      using Suc.prems False by (auto split: prod.splits)
    with Suc.IH [OF get_byte_queue(1) [OF Suc.prems(1) False] e(1)] get_byte_queue(2) [OF Suc.prems(1) False]
    show ?thesis by simp
  qed
qed auto

lemma pipewrite_from_queue:
  assumes "pipe_inv p" and "pipewrite_from killed addr n i p = (q, r, ws)"
  shows "\<exists>j. i \<le> j \<and> int j \<le> max n (int i) \<and> pipe_inv q \<and> pqueue q = pqueue p @ map addr [i..<j] \<and>
    readopen q = readopen p \<and> writeopen q = writeopen p \<and> nread q = nread p \<and>
    (r = PRet n \<and> n \<le> int j \<and> ws = [Nread] \<or>
     r = PSleep j \<and> int j < n \<and> pipe_full q \<and> readopen q \<and> \<not> killed \<and> ws = [Nread] \<or>
     r = PRet (-1) \<and> int j < n \<and> pipe_full q \<and> (\<not> readopen q \<or> killed) \<and> ws = [])"
  using assms
proof (induction killed addr n i p rule: pipewrite_from.induct)
  case (1 killed addr n i p)
  show ?case
  proof (cases "int i < n \<and> \<not> pipe_full p")
    case True
    then have c: "int i < n" "\<not> pipe_full p" by auto
    let ?p = "put_byte (addr i) p"
    note pb = put_byte_queue [OF 1(2) c(2), of "addr i"]
    have "pipewrite_from killed addr n (i + 1) ?p = (q, r, ws)"
      using 1(3) c by (simp add: pipewrite_from.simps [of killed addr n i p])
    from 1(1) [OF c pb(1) this] obtain j where j: "i + 1 \<le> j" "int j \<le> max n (int (i + 1))" "pipe_inv q"
      "pqueue q = pqueue ?p @ map addr [i + 1..<j]" and
      f: "readopen q = readopen ?p" "writeopen q = writeopen ?p" "nread q = nread ?p" and
      o: "r = PRet n \<and> n \<le> int j \<and> ws = [Nread] \<or>
        r = PSleep j \<and> int j < n \<and> pipe_full q \<and> readopen q \<and> \<not> killed \<and> ws = [Nread] \<or>
        r = PRet (-1) \<and> int j < n \<and> pipe_full q \<and> (\<not> readopen q \<or> killed) \<and> ws = []"
      by blast
    have "pqueue q = pqueue p @ map addr [i..<j]" using j pb(2) by (simp add: upt_conv_Cons)
    then show ?thesis using j f o c by (intro exI [of _ j]) (auto simp: put_byte_def)
  next
    case False
    then show ?thesis
      using 1(2,3) by (intro exI [of _ i]) (auto simp: pipewrite_from.simps [of killed addr n i p] split: if_splits)
  qed
qed

text \<open>
  C11. A pipe is a queue of at most \<^verbatim>\<open>PIPESIZE\<close> bytes, also when its 32-bit counters wrap around:
  \<^verbatim>\<open>pipewrite\<close> appends a prefix of the bytes it is given, the whole of them if and only if it returns
  their number, and stops early only when the queue is full; \<^verbatim>\<open>piperead\<close> on a queue that is not
  empty, or whose write end is closed, removes and returns as many bytes from its front as it was
  asked for and the queue has.
\<close>

theorem pipe_is_queue:
  assumes "pipe_inv p"
  shows "(case pipewrite_from killed addr n i p of (q, r, ws) \<Rightarrow> pipe_inv q \<and>
      (\<exists>j. i \<le> j \<and> pqueue q = pqueue p @ map addr [i..<j] \<and>
        (r = PRet n \<and> j = max i (nat n) \<or> int j < n \<and> length (pqueue q) = PIPESIZE \<and>
           r = (if readopen p \<and> \<not> killed then PSleep j else PRet (-1))))) \<and>
    (case piperead killed m p of (q, r, ws) \<Rightarrow> pipe_inv q \<and>
      (if pqueue p = [] \<and> writeopen p then q = p \<and> r = (if killed then RRet (-1) [] else RSleep)
       else r = RRet (int (min (nat m) (length (pqueue p)))) (take (nat m) (pqueue p)) \<and>
            pqueue q = drop (nat m) (pqueue p)))"
proof -
  obtain q r ws where w: "pipewrite_from killed addr n i p = (q, r, ws)" by (cases "pipewrite_from killed addr n i p") auto
  obtain q' d where c: "piperead_copy (nat m) p = (q', d)" by (cases "piperead_copy (nat m) p") auto
  from pipewrite_from_queue [OF assms w] obtain j where j: "i \<le> j" "int j \<le> max n (int i)" "pipe_inv q"
      "pqueue q = pqueue p @ map addr [i..<j]" "readopen q = readopen p" and
      o: "r = PRet n \<and> n \<le> int j \<and> ws = [Nread] \<or>
        r = PSleep j \<and> int j < n \<and> pipe_full q \<and> readopen q \<and> \<not> killed \<and> ws = [Nread] \<or>
        r = PRet (-1) \<and> int j < n \<and> pipe_full q \<and> (\<not> readopen q \<or> killed) \<and> ws = []"
      by blast
  have "r = PRet n \<and> j = max i (nat n) \<or> int j < n \<and> length (pqueue q) = PIPESIZE \<and>
           r = (if readopen p \<and> \<not> killed then PSleep j else PRet (-1))"
    using o j(1,2,5) pipe_full_iff [of q] by auto
  then have "case pipewrite_from killed addr n i p of (q, r, ws) \<Rightarrow> pipe_inv q \<and>
      (\<exists>j. i \<le> j \<and> pqueue q = pqueue p @ map addr [i..<j] \<and>
        (r = PRet n \<and> j = max i (nat n) \<or> int j < n \<and> length (pqueue q) = PIPESIZE \<and>
           r = (if readopen p \<and> \<not> killed then PSleep j else PRet (-1))))"
    unfolding w prod.case using j(1,3,4) by blast
  moreover have "case piperead killed m p of (q, r, ws) \<Rightarrow> pipe_inv q \<and>
      (if pqueue p = [] \<and> writeopen p then q = p \<and> r = (if killed then RRet (-1) [] else RSleep)
       else r = RRet (int (min (nat m) (length (pqueue p)))) (take (nat m) (pqueue p)) \<and>
            pqueue q = drop (nat m) (pqueue p))"
    using piperead_copy_queue [OF assms c] assms pipe_empty_iff [of p] by (auto simp: piperead_def c min.commute)
  ultimately show ?thesis by blast
qed

text \<open>A pipe whose counters are about to wrap around.\<close>

definition demo_pipe :: pipe where
  "demo_pipe = \<lparr>p_data = replicate PIPESIZE 7, nread = -1, nwrite = -1, readopen = True, writeopen = True\<rparr>"

theorem pipe_is_queue_witness:
  "pipe_inv demo_pipe \<and> pqueue (fst (pipewrite_from False (\<lambda>k. of_nat k) 3 0 demo_pipe)) = [0, 1, 2]"
proof -
  have inv: "pipe_inv demo_pipe" and q: "pqueue demo_pipe = []" by (simp_all add: pipe_inv_def demo_pipe_def pqueue_def)
  obtain q r ws where w: "pipewrite_from False (\<lambda>k. of_nat k) 3 0 demo_pipe = (q, r, ws)"
    by (cases "pipewrite_from False (\<lambda>k. of_nat k) 3 0 demo_pipe") auto
  obtain j where j: "pqueue q = map of_nat [0..<j]" "j = 3 \<or> int j < 3 \<and> length (pqueue q) = PIPESIZE"
    using pipe_is_queue [OF inv, where killed = False and addr = "\<lambda>k. of_nat k" and n = 3 and i = 0 and m = 0] by (auto simp: w q)
  then have "j = 3" by (auto)
  then show ?thesis using inv j by (simp add: w upt_rec)
qed

section \<open>A reader and a writer\<close>

datatype writer = WIdle | WRun "byte list" nat | WAsleep "byte list" nat

datatype reader = RIdle | RRun int | RAsleep int

text \<open>\<open>sent\<close> and \<open>received\<close> record the bytes that went through the ends of the pipe.\<close>

record psys =
  pp :: pipe
  wr :: writer
  rd :: reader
  wkilled :: bool
  rkilled :: bool
  sent :: "byte list"
  received :: "byte list"

fun wake_writer :: "writer \<Rightarrow> writer" where
  "wake_writer (WAsleep bs i) = WRun bs i"
| "wake_writer w = w"

fun wake_reader :: "reader \<Rightarrow> reader" where
  "wake_reader (RAsleep n) = RRun n"
| "wake_reader r = r"

definition wake_all :: "pchan list \<Rightarrow> psys \<Rightarrow> psys" where
  "wake_all ws s = s\<lparr>wr := if Nwrite \<in> set ws then wake_writer (wr s) else wr s,
     rd := if Nread \<in> set ws then wake_reader (rd s) else rd s\<rparr>"

inductive pstep :: "psys \<Rightarrow> psys \<Rightarrow> bool" where
  w_call: "wr s = WIdle \<Longrightarrow> writeopen (pp s) \<Longrightarrow> pstep s (s\<lparr>wr := WRun bs 0\<rparr>)"
| w_run: "wr s = WRun bs i \<Longrightarrow> pipewrite_from (wkilled s) (nth bs) (int (length bs)) i (pp s) = (q, r, ws) \<Longrightarrow>
    pstep s (wake_all ws (s\<lparr>pp := q, sent := sent s @ drop (length (pqueue (pp s))) (pqueue q),
      wr := (case r of PRet _ \<Rightarrow> WIdle | PSleep j \<Rightarrow> WAsleep bs j)\<rparr>))"
| r_call: "rd s = RIdle \<Longrightarrow> readopen (pp s) \<Longrightarrow> pstep s (s\<lparr>rd := RRun n\<rparr>)"
| r_run: "rd s = RRun n \<Longrightarrow> piperead (rkilled s) n (pp s) = (q, r, ws) \<Longrightarrow>
    pstep s (wake_all ws (s\<lparr>pp := q, received := received s @ (case r of RRet _ d \<Rightarrow> d | RSleep \<Rightarrow> []),
      rd := (case r of RRet _ _ \<Rightarrow> RIdle | RSleep \<Rightarrow> RAsleep n)\<rparr>))"
| w_close: "wr s = WIdle \<Longrightarrow> pipeclose True (pp s) = (q, ws, fr) \<Longrightarrow> pstep s (wake_all ws (s\<lparr>pp := q\<rparr>))"
| r_close: "rd s = RIdle \<Longrightarrow> pipeclose False (pp s) = (q, ws, fr) \<Longrightarrow> pstep s (wake_all ws (s\<lparr>pp := q\<rparr>))"
| w_kill: "pstep s (s\<lparr>wkilled := True, wr := wake_writer (wr s)\<rparr>)"
| r_kill: "pstep s (s\<lparr>rkilled := True, rd := wake_reader (rd s)\<rparr>)"

definition psys_init :: "byte list \<Rightarrow> psys" where
  "psys_init d = \<lparr>pp = pipeinit d, wr = WIdle, rd = RIdle, wkilled = False, rkilled = False, sent = [], received = []\<rparr>"

inductive preach :: "byte list \<Rightarrow> psys \<Rightarrow> bool" for d where
  p_init: "preach d (psys_init d)"
| p_step: "preach d s \<Longrightarrow> pstep s t \<Longrightarrow> preach d t"

definition psys_inv :: "psys \<Rightarrow> bool" where
  "psys_inv s \<longleftrightarrow> pipe_inv (pp s) \<and> sent s = received s @ pqueue (pp s) \<and>
     (\<forall>bs i. wr s = WAsleep bs i \<longrightarrow> length (pqueue (pp s)) = PIPESIZE \<and> readopen (pp s) \<and> \<not> wkilled s) \<and>
     (rd s \<noteq> RIdle \<longrightarrow> readopen (pp s)) \<and>
     (\<forall>n. rd s = RAsleep n \<longrightarrow> (pqueue (pp s) = [] \<or> wkilled s) \<and> writeopen (pp s) \<and> \<not> rkilled s)"

lemma wake_neq [simp]: "wake_writer w \<noteq> WAsleep bs i" "wake_reader r \<noteq> RAsleep n"
  by (cases w; simp) (cases r; simp)

lemma wake_all_simps [simp]:
  "pp (wake_all ws s) = pp s" "sent (wake_all ws s) = sent s" "received (wake_all ws s) = received s"
  "wkilled (wake_all ws s) = wkilled s" "rkilled (wake_all ws s) = rkilled s"
  "wr (wake_all ws s) = (if Nwrite \<in> set ws then wake_writer (wr s) else wr s)"
  "rd (wake_all ws s) = (if Nread \<in> set ws then wake_reader (rd s) else rd s)"
  by (simp_all add: wake_all_def)

lemma wake_reader_idle [simp]: "wake_reader r = RIdle \<longleftrightarrow> r = RIdle"
  by (cases r) auto

lemma pstep_inv:
  assumes "pstep s t" and inv: "psys_inv s"
  shows "psys_inv t"
  using assms(1)
proof cases
  case (w_run bs i q r ws)
  have p: "pipe_inv (pp s)" using inv by (simp add: psys_inv_def)
  from pipewrite_from_queue [OF p w_run(3)] obtain j where
    j: "pipe_inv q" "pqueue q = pqueue (pp s) @ map (nth bs) [i..<j]" "readopen q = readopen (pp s)" "writeopen q = writeopen (pp s)"
    and o: "ws = [Nread] \<and> (\<exists>n. r = PRet n) \<or> r = PSleep j \<and> pipe_full q \<and> readopen q \<and> \<not> wkilled s \<and> ws = [Nread] \<or>
      r = PRet (-1) \<and> pipe_full q \<and> (\<not> readopen q \<or> wkilled s) \<and> ws = []"
    by blast
  show ?thesis
    using inv j o pipe_full_iff [of q] unfolding w_run(1) psys_inv_def
    by (auto split: wres.splits)
next
  case (r_run n q r ws)
  have p: "pipe_inv (pp s)" using inv by (simp add: psys_inv_def)
  obtain q' d where c: "piperead_copy (nat n) (pp s) = (q', d)" by (cases "piperead_copy (nat n) (pp s)") auto
  show ?thesis
    using inv r_run(2,3) piperead_copy_queue [OF p c] pipe_empty_iff [of "pp s"] unfolding r_run(1) psys_inv_def
    by (auto simp: piperead_def c split: if_splits)
next
  case (w_close q ws fr)
  have "pqueue q = pqueue (pp s)" "pipe_inv q = pipe_inv (pp s)"
    using w_close(3) by (auto simp: pipeclose_def pqueue_def pipe_inv_def)
  then show ?thesis
    using inv w_close(2,3) unfolding w_close(1) psys_inv_def by (auto simp: pipeclose_def)
next
  case (r_close q ws fr)
  have "pqueue q = pqueue (pp s)" "pipe_inv q = pipe_inv (pp s)"
    using r_close(3) by (auto simp: pipeclose_def pqueue_def pipe_inv_def)
  then show ?thesis
    using inv r_close(2,3) unfolding r_close(1) psys_inv_def by (auto simp: pipeclose_def)
qed (use inv in \<open>auto simp: psys_inv_def\<close>)

lemma psys_init_inv: "length d = PIPESIZE \<Longrightarrow> psys_inv (psys_init d)"
  by (simp add: psys_inv_def psys_init_def pipeinit_def pipe_inv_def pqueue_def)

lemma preach_inv: "preach d s \<Longrightarrow> length d = PIPESIZE \<Longrightarrow> psys_inv s"
proof (induction rule: preach.induct)
  case p_init
  then show ?case by (rule psys_init_inv)
next
  case (p_step s t)
  then show ?case using pstep_inv by blast
qed

text \<open>
  C12. No wakeup is lost on a pipe as long as no writer is killed. However the reads, writes, closes and
  kills of a reader and a writer are interleaved, the bytes received are a prefix of the bytes sent,
  in order, and the rest is in the pipe; and a process asleep has reason to be: a sleeping writer
  faces a full pipe whose read end is open and has not been killed, a sleeping reader has not been
  killed and faces a pipe whose write end is open and that is empty, unless the writer was killed.
  In particular the two never sleep at the same time.
\<close>

theorem pipe_no_lost_wakeup:
  assumes "preach d s" and "length d = PIPESIZE"
  shows "sent s = received s @ pqueue (pp s) \<and> length (pqueue (pp s)) \<le> PIPESIZE \<and>
    (\<forall>bs i. wr s = WAsleep bs i \<longrightarrow>
       length (pqueue (pp s)) = PIPESIZE \<and> readopen (pp s) \<and> \<not> wkilled s \<and> (\<forall>n. rd s \<noteq> RAsleep n)) \<and>
    (\<forall>n. rd s = RAsleep n \<longrightarrow>
       (pqueue (pp s) = [] \<or> wkilled s) \<and> writeopen (pp s) \<and> \<not> rkilled s \<and> (\<forall>bs i. wr s \<noteq> WAsleep bs i))"
  using preach_inv [OF assms] length_pqueue [of "pp s"] unfolding psys_inv_def pipe_inv_def by auto

lemma demo_asleep: "preach (replicate PIPESIZE 0) ((psys_init (replicate PIPESIZE 0))\<lparr>rd := RAsleep 5\<rparr>)"
proof -
  let ?s = "psys_init (replicate PIPESIZE 0)"
  have "preach (replicate PIPESIZE 0) (?s\<lparr>rd := RRun 5\<rparr>)"
    by (rule p_step [OF p_init]) (rule r_call, simp_all add: psys_init_def pipeinit_def)
  moreover have "pstep (?s\<lparr>rd := RRun 5\<rparr>) (?s\<lparr>rd := RAsleep 5\<rparr>)"
    using r_run [of "?s\<lparr>rd := RRun 5\<rparr>" 5 "pp ?s" RSleep "[]"]
    by (simp add: psys_init_def pipeinit_def piperead_def wake_all_def)
  ultimately show ?thesis by (rule p_step)
qed

theorem pipe_no_lost_wakeup_witness:
  "preach (replicate PIPESIZE 0) ((psys_init (replicate PIPESIZE 0))\<lparr>rd := RAsleep 5\<rparr>) \<and>
   pqueue (pp ((psys_init (replicate PIPESIZE 0))\<lparr>rd := RAsleep 5\<rparr>)) = []"
  using pipe_no_lost_wakeup [OF demo_asleep] demo_asleep by (simp add: psys_init_def)

text \<open>
  C13. A killed writer does lose a wakeup: when it finds the pipe full after having filled it,
  \<^verbatim>\<open>pipewrite\<close> returns -1 without calling \<^verbatim>\<open>wakeup(&p->nread)\<close>, and a reader that went to sleep on the
  empty pipe stays asleep although the pipe is full of data.
\<close>

theorem pipe_killed_writer:
  "\<exists>s. preach (replicate PIPESIZE 0) s \<and> rd s = RAsleep 5 \<and> wr s = WIdle \<and> length (pqueue (pp s)) = PIPESIZE"
proof -
  let ?d = "replicate PIPESIZE (0 :: byte)" and ?bs = "replicate 513 (1 :: byte)"
  define s where "s = (psys_init ?d)\<lparr>rd := RAsleep 5\<rparr>"
  define t where "t = s\<lparr>wkilled := True, wr := WRun ?bs 0\<rparr>"
  have "preach ?d (s\<lparr>wr := WRun ?bs 0\<rparr>)"
    unfolding s_def by (rule p_step [OF demo_asleep]) (rule w_call, simp_all add: psys_init_def pipeinit_def)
  then have t: "preach ?d t" using p_step [OF _ w_kill [of "s\<lparr>wr := WRun ?bs 0\<rparr>"]] by (simp add: t_def)
  have p: "pp t = pipeinit ?d" "rd t = RAsleep 5" by (simp_all add: t_def s_def psys_init_def)
  have inv: "pipe_inv (pp t)" and e: "pqueue (pp t) = []" by (simp_all add: p pipe_inv_def pipeinit_def pqueue_def)
  obtain q r ws where w: "pipewrite_from (wkilled t) (nth ?bs) (int (length ?bs)) 0 (pp t) = (q, r, ws)"
    by (cases "pipewrite_from (wkilled t) (nth ?bs) (int (length ?bs)) 0 (pp t)") auto
  have k: "wkilled t" by (simp add: t_def)
  from pipewrite_from_queue [OF inv w] e k obtain j where j: "pipe_inv q" "length (pqueue q) = j"
    "513 \<le> j \<or> r = PRet (-1) \<and> pipe_full q \<and> ws = []"
    by auto
  then have r: "r = PRet (-1)" "length (pqueue q) = PIPESIZE" "ws = []"
    using pipe_full_iff [of q] by (auto simp: pipe_inv_def length_pqueue)
  have "pstep t (wake_all ws (t\<lparr>pp := q, sent := sent t @ drop (length (pqueue (pp t))) (pqueue q),
      wr := (case r of PRet _ \<Rightarrow> WIdle | PSleep j \<Rightarrow> WAsleep ?bs j)\<rparr>))"
    by (rule w_run [OF _ w]) (simp add: t_def)
  from p_step [OF t this] r p show ?thesis by (intro exI conjI) (assumption, simp_all)
qed

end
