(* ===== verification/File.thy ===== *)
theory File
  imports Dir Pipe Vm
begin

text \<open>
  Open files (file.c) and the creation of pipes (\<^verbatim>\<open>pipealloc\<close> in pipe.c). The state puts the
  components side by side: the file system, the table of open files, the pipes by the address of the
  page they live in, and the memory of the page allocator. An operation of the memory runs on the
  whole state by \<open>in_vm\<close>.

  \<^verbatim>\<open>proc->killed\<close>, which the pipe code reads, is an argument. Data read is returned; data to be
  written is a function from offsets to bytes, as the source is an address.
\<close>

section \<open>State\<close>

abbreviation NFILE :: nat where "NFILE \<equiv> 100"

datatype ftype = FD_NONE | FD_PIPE | FD_INODE

record kfile =
  f_type :: ftype
  f_ref :: int
  f_readable :: bool
  f_writable :: bool
  f_pipe :: uint32
  f_ip :: nat
  f_off :: nat

record filest = fsst +
  ftable :: "nat \<Rightarrow> kfile"
  pipes :: "uint32 \<Rightarrow> pipe"
  vm :: vmst

definition in_vm :: "(vmst, 'a) kop \<Rightarrow> ('z filest_scheme, 'a) kop" where
  "in_vm m s = (case m (vm s) of
     Ok x v \<Rightarrow> Ok x (s\<lparr>vm := v\<rparr>)
   | Panic e \<Rightarrow> Panic e
   | Sleep c v \<Rightarrow> Sleep c (s\<lparr>vm := v\<rparr>))"

definition upd_file :: "nat \<Rightarrow> (kfile \<Rightarrow> kfile) \<Rightarrow> 'z filest_scheme \<Rightarrow> 'z filest_scheme" where
  "upd_file f g s = s\<lparr>ftable := (ftable s)(f := g (ftable s f))\<rparr>"

abbreviation the_file :: "nat \<Rightarrow> ('z filest_scheme, kfile) kop" where
  "the_file f \<equiv> gets (\<lambda>s. ftable s f)"

lemma wp_in_vm [wp_simps]: "wp (in_vm m) Q s = wp m (\<lambda>x v. Q x (s\<lparr>vm := v\<rparr>)) (vm s)"
  by (simp add: wp_def in_vm_def split: result.split)

section \<open>Pipes in the kernel state\<close>

fun pchan_at :: "uint32 \<Rightarrow> pchan \<Rightarrow> chan" where
  "pchan_at a Nread = ChanPipeRead (unat a)"
| "pchan_at a Nwrite = ChanPipeWrite (unat a)"

text \<open>The effect of an operation of pipe.c: the new pipe and the wakeups.\<close>

definition set_pipe :: "uint32 \<Rightarrow> pipe \<Rightarrow> pchan list \<Rightarrow> ('z filest_scheme, unit) kop" where
  "set_pipe a p ws = modify (\<lambda>s. s\<lparr>pipes := (pipes s)(a := p), wakes := wakes s @ map (pchan_at a) ws\<rparr>)"

definition close_pipe :: "linkmap \<Rightarrow> uint32 \<Rightarrow> bool \<Rightarrow> ('z filest_scheme, unit) kop" where
  "close_pipe lk a writable =
     bind (gets (\<lambda>s. pipeclose writable (pipes s a))) (\<lambda>(p, ws, dead).
     bind (set_pipe a p ws) (\<lambda>_.
     whenk dead (in_vm (kfree (l_end lk) a))))"

definition read_pipe :: "bool \<Rightarrow> uint32 \<Rightarrow> int \<Rightarrow> ('z filest_scheme, int \<times> byte list) kop" where
  "read_pipe killed a n =
     bind (gets (\<lambda>s. piperead killed n (pipes s a))) (\<lambda>(p, r, ws).
     bind (set_pipe a p ws) (\<lambda>_.
     case r of RRet k d \<Rightarrow> return (k, d) | RSleep \<Rightarrow> sleep_on (ChanPipeRead (unat a))))"

definition write_pipe :: "bool \<Rightarrow> uint32 \<Rightarrow> (nat \<Rightarrow> byte) \<Rightarrow> int \<Rightarrow> ('z filest_scheme, int) kop" where
  "write_pipe killed a addr n =
     bind (gets (\<lambda>s. pipewrite killed addr n (pipes s a))) (\<lambda>(p, r, ws).
     bind (set_pipe a p ws) (\<lambda>_.
     case r of PRet k \<Rightarrow> return k | PSleep i \<Rightarrow> sleep_on (ChanPipeWrite (unat a))))"

section \<open>Operations\<close>

definition filealloc :: "('z filest_scheme, nat option) kop" where
  "filealloc =
     bind (gets ftable) (\<lambda>ft.
     case find (\<lambda>f. f_ref (ft f) = 0) [0..<NFILE] of
       None \<Rightarrow> return None
     | Some f \<Rightarrow> bind (modify (upd_file f (f_ref_update (\<lambda>_. 1)))) (\<lambda>_. return (Some f)))"

definition filedup :: "nat \<Rightarrow> ('z filest_scheme, nat) kop" where
  "filedup f =
     bind (the_file f) (\<lambda>x.
     bind (panic_if (f_ref x < 1) ''filedup'') (\<lambda>_.
     bind (modify (upd_file f (f_ref_update (\<lambda>r. r + 1)))) (\<lambda>_.
     return f)))"

definition fileclose :: "linkmap \<Rightarrow> nat \<Rightarrow> ('z filest_scheme, unit) kop" where
  "fileclose lk f =
     bind (the_file f) (\<lambda>x.
     bind (panic_if (f_ref x < 1) ''fileclose'') (\<lambda>_.
     bind (modify (upd_file f (f_ref_update (\<lambda>r. r - 1)))) (\<lambda>_.
     if f_ref x - 1 > 0 then return ()
     else
       bind (the_file f) (\<lambda>ff.
       bind (modify (upd_file f (\<lambda>y. y\<lparr>f_ref := 0, f_type := FD_NONE\<rparr>))) (\<lambda>_.
       case f_type ff of
         FD_PIPE \<Rightarrow> close_pipe lk (f_pipe ff) (f_writable ff)
       | FD_INODE \<Rightarrow> bind begin_op (\<lambda>_. bind (iput (f_ip ff)) (\<lambda>_. end_op))
       | FD_NONE \<Rightarrow> return ())))))"

definition filestat :: "nat \<Rightarrow> ('z filest_scheme, stat option) kop" where
  "filestat f =
     bind (the_file f) (\<lambda>x.
     if f_type x = FD_INODE then
       bind (ilock (f_ip x)) (\<lambda>_.
       bind (stati (f_ip x)) (\<lambda>st.
       bind (iunlock (f_ip x)) (\<lambda>_.
       return (Some st))))
     else return None)"

text \<open>The conversion of a C \<^verbatim>\<open>int\<close> to the \<^verbatim>\<open>uint\<close> parameter of \<^verbatim>\<open>readi\<close>.\<close>

definition as_uint :: "int \<Rightarrow> nat" where
  "as_uint n = nat (n mod 2 ^ 32)"

definition fileread :: "'z filest_scheme devsw \<Rightarrow> bool \<Rightarrow> nat \<Rightarrow> int \<Rightarrow> ('z filest_scheme, int \<times> byte list) kop" where
  "fileread dv killed f n =
     bind (the_file f) (\<lambda>x.
     if \<not> f_readable x then return (-1, [])
     else case f_type x of
       FD_PIPE \<Rightarrow> read_pipe killed (f_pipe x) n
     | FD_INODE \<Rightarrow>
         bind (ilock (f_ip x)) (\<lambda>_.
         bind (readi dv (f_ip x) (f_off x) (as_uint n)) (\<lambda>(r, d).
         bind (whenk (r > 0) (modify (upd_file f (f_off_update (\<lambda>off. (off + nat r) mod 2 ^ 32))))) (\<lambda>_.
         bind (iunlock (f_ip x)) (\<lambda>_.
         return (r, d)))))
     | FD_NONE \<Rightarrow> panic ''fileread'')"

abbreviation FWMAX :: nat where "FWMAX \<equiv> ((LOGSIZE - 1 - 1 - 2) div 2) * 512"

function filewrite_loop ::
  "'z filest_scheme devsw \<Rightarrow> nat \<Rightarrow> (nat \<Rightarrow> byte) \<Rightarrow> int \<Rightarrow> nat \<Rightarrow> ('z filest_scheme, int) kop" where
  "filewrite_loop dv f addr n i =
     (if int i < n then
        let n1 = min (nat n - i) FWMAX in
        bind begin_op (\<lambda>_.
        bind (the_file f) (\<lambda>x.
        bind (ilock (f_ip x)) (\<lambda>_.
        bind (writei dv (f_ip x) (map addr [i..<i + n1]) (f_off x)) (\<lambda>r.
        bind (whenk (r > 0) (modify (upd_file f (f_off_update (\<lambda>off. (off + nat r) mod 2 ^ 32))))) (\<lambda>_.
        bind (iunlock (f_ip x)) (\<lambda>_.
        bind end_op (\<lambda>_.
        if r < 0 then return (int i)
        else
          bind (panic_if (r \<noteq> int n1) ''short filewrite'') (\<lambda>_.
          filewrite_loop dv f addr n (i + n1)))))))))
      else return (int i))"
  by pat_completeness auto
termination
  by (relation "measure (\<lambda>(dv, f, addr, n, i). nat n - i)") auto

definition filewrite ::
  "'z filest_scheme devsw \<Rightarrow> bool \<Rightarrow> nat \<Rightarrow> (nat \<Rightarrow> byte) \<Rightarrow> int \<Rightarrow> ('z filest_scheme, int) kop" where
  "filewrite dv killed f addr n =
     bind (the_file f) (\<lambda>x.
     if \<not> f_writable x then return (-1)
     else case f_type x of
       FD_PIPE \<Rightarrow> write_pipe killed (f_pipe x) addr n
     | FD_INODE \<Rightarrow> bind (filewrite_loop dv f addr n 0) (\<lambda>i. return (if i = n then n else -1))
     | FD_NONE \<Rightarrow> panic ''filewrite'')"

definition pipealloc :: "linkmap \<Rightarrow> ('z filest_scheme, (nat \<times> nat) option) kop" where
  "pipealloc lk =
     bind filealloc (\<lambda>f0.
     case f0 of
       None \<Rightarrow> return None
     | Some r \<Rightarrow>
         bind filealloc (\<lambda>f1.
         case f1 of
           None \<Rightarrow> bind (fileclose lk r) (\<lambda>_. return None)
         | Some w \<Rightarrow>
             bind (in_vm (kalloc (l_runs lk))) (\<lambda>a.
             if a = 0 then bind (fileclose lk r) (\<lambda>_. bind (fileclose lk w) (\<lambda>_. return None))
             else
               bind (gets (\<lambda>s. pipeinit (p_data (pipes s a)))) (\<lambda>p.
               bind (set_pipe a p []) (\<lambda>_.
               bind (modify (upd_file r (\<lambda>x. x\<lparr>f_type := FD_PIPE, f_readable := True, f_writable := False, f_pipe := a\<rparr>))) (\<lambda>_.
               bind (modify (upd_file w (\<lambda>x. x\<lparr>f_type := FD_PIPE, f_readable := False, f_writable := True, f_pipe := a\<rparr>))) (\<lambda>_.
               return (Some (r, w)))))))))"

end
