(* ===== verification/Lottery.thy ===== *)
theory Lottery
  imports Prelude
begin

text \<open>
  The lottery scheduler's arithmetic (proc.c): tickets from nice values, the choice of a winner, the
  generator of random numbers, and the table of ticket holders with its binary search, which nothing
  calls. Tickets are C \<^verbatim>\<open>int\<close>s; a comparison with the \<^verbatim>\<open>uint random\<close> converts them to \<^verbatim>\<open>uint\<close>.

  The lemmas show that a process wins with as many of the random numbers as it has tickets, that the
  generator squares modulo 16873 and stays in a cycle, and when the binary search finds a holder and
  when it does not return.
\<close>

abbreviation NPROC :: nat where "NPROC \<equiv> 64"

section \<open>Tickets\<close>

text \<open>The result of \<^verbatim>\<open>getTicketAmount\<close> and the nice value it leaves in the process.\<close>

definition ticket_amount :: "int \<Rightarrow> int \<times> int" where
  "ticket_amount nice =
     (if nice > 139 then (3, 120)
      else if nice = 139 then (1, nice)
      else if nice > 129 then (2, nice)
      else if nice > 119 then (3, nice)
      else if nice > 109 then (4, nice)
      else if nice > 100 then (5, nice)
      else if nice = 100 then (6, nice)
      else (3, 120))"

abbreviation tickets_of :: "int \<Rightarrow> nat" where
  "tickets_of nice \<equiv> nat (fst (ticket_amount nice))"

text \<open>The loop of \<^verbatim>\<open>scheduler_lottery\<close>: \<open>ok\<close> tells the runnable processes, \<open>nc\<close> the nice values.\<close>

fun lottery_scan :: "(nat \<Rightarrow> bool) \<Rightarrow> uint32 \<Rightarrow> nat list \<Rightarrow> uint32 \<Rightarrow> (nat \<Rightarrow> int) \<Rightarrow> nat option \<times> (nat \<Rightarrow> int)" where
  "lottery_scan ok rnd [] runningTotal nc = (None, nc)"
| "lottery_scan ok rnd (p # ps) runningTotal nc =
     (if \<not> ok p then lottery_scan ok rnd ps runningTotal nc
      else let (a, n') = ticket_amount (nc p); total = runningTotal + word_of_int a in
           if total > rnd then (Some p, nc(p := n'))
           else lottery_scan ok rnd ps total (nc(p := n')))"

section \<open>Random numbers\<close>

abbreviation PRNG_M :: uint32 where "PRNG_M \<equiv> 16873"

text \<open>\<^verbatim>\<open>prng\<close>: the result and the new \<^verbatim>\<open>random_number\<close>.\<close>

definition prng :: "uint32 \<Rightarrow> uint32 \<Rightarrow> uint32 \<times> uint32" where
  "prng upper random_number =
     (if upper \<noteq> 0 then let r = random_number * random_number mod PRNG_M in (r mod upper, r)
      else (0, random_number))"

section \<open>Ticket holders\<close>

datatype ticketstate = AVAILABLE | BOUGHT

record TicketHolder =
  th_total :: int
  th_running :: int
  th_status :: ticketstate
  th_proc :: "nat option"

record tickettable =
  tt_total :: int
  tt_count :: int
  tt_holders :: "int \<Rightarrow> TicketHolder"

definition upd_holder :: "int \<Rightarrow> (TicketHolder \<Rightarrow> TicketHolder) \<Rightarrow> tickettable \<Rightarrow> tickettable" where
  "upd_holder i g s = s\<lparr>tt_holders := (tt_holders s)(i := g (tt_holders s i))\<rparr>"

definition updateTicketHolders :: "int \<Rightarrow> (tickettable, unit) kop" where
  "updateTicketHolders h =
     (if h < 0 \<or> h > int NPROC then return ()
      else
        bind (gets tt_count) (\<lambda>n.
        bind (gets tt_total) (\<lambda>num.
        bind (modify (\<lambda>s. upd_holder h (\<lambda>_. tt_holders s n) s)) (\<lambda>_.
        bind (modify (upd_holder n (\<lambda>x. x\<lparr>th_status := AVAILABLE, th_proc := None\<rparr>))) (\<lambda>_.
        bind (modify (\<lambda>s. upd_holder h (\<lambda>x. x\<lparr>th_running :=
           if h > 0 then th_running (tt_holders s (h - 1)) + th_total x else th_total x\<rparr>) s)) (\<lambda>_.
        bind (for_each [h + 1..n - 1] (\<lambda>t2.
           bind (gets tt_holders) (\<lambda>hs.
           bind (panic_if (th_status (hs t2) = AVAILABLE) ''No holes in ticket holder array allowed'') (\<lambda>_.
           modify (upd_holder t2 (\<lambda>x. x\<lparr>th_running := th_running (hs (t2 - 1)) + th_total x\<rparr>)))))) (\<lambda>_.
        modify (\<lambda>s. s\<lparr>tt_total := tt_total s - num, tt_count := tt_count s - 1\<rparr>))))))))"

text \<open>The search; the outer option is \<open>None\<close> when the recursion does not end.\<close>

partial_function (option) binarySearch :: "(int \<Rightarrow> TicketHolder) \<Rightarrow> uint32 \<Rightarrow> int \<Rightarrow> int \<Rightarrow> int option option" where
  "binarySearch hs random start end =
     (if start > end then Some None
      else
        let mid = (if start + end < 0 then - ((- (start + end)) div 2) else (start + end) div 2);
            ticketStart = word_of_int (th_running (hs mid) - th_total (hs mid));
            ticketEnd = word_of_int (th_running (hs mid))
        in
          if ticketEnd \<ge> random \<and> ticketStart \<le> random then Some (Some mid)
          else if ticketEnd < random then binarySearch hs random (mid + 1) end
          else if ticketStart > random then binarySearch hs random start mid
          else Some None)"

section \<open>The winner of the lottery\<close>

definition tickets_in :: "(nat \<Rightarrow> bool) \<Rightarrow> (nat \<Rightarrow> int) \<Rightarrow> nat list \<Rightarrow> nat" where
  "tickets_in ok nc ps = sum_list (map (\<lambda>p. if ok p then tickets_of (nc p) else 0) ps)"

lemma ticket_amount_range: "1 \<le> fst (ticket_amount n)" "fst (ticket_amount n) \<le> 6"
  by (simp_all add: ticket_amount_def)

lemma word_of_tickets: "word_of_int (fst (ticket_amount n)) = (of_nat (tickets_of n) :: uint32)"
  using ticket_amount_range(1) [of n] by (simp add: of_nat_nat)

lemma tickets_in_upd: "p \<notin> set ps \<Longrightarrow> tickets_in ok (nc(p := n)) ps = tickets_in ok nc ps"
  by (auto simp: tickets_in_def intro!: arg_cong [where f = sum_list])

lemma tickets_in_Cons: "tickets_in ok nc (p # ps) = (if ok p then tickets_of (nc p) else 0) + tickets_in ok nc ps"
  by (simp add: tickets_in_def)

lemma tickets_in_Nil: "tickets_in ok nc [] = 0"
  by (simp add: tickets_in_def)

text \<open>Process \<open>p\<close> wins for the numbers from the tickets before it up to its own.\<close>

lemma lottery_scan_winner:
  assumes "distinct ps" and "t + tickets_in ok nc ps < 2 ^ 32" and "t \<le> unat r"
  shows "fst (lottery_scan ok r ps (of_nat t) nc) = Some p \<longleftrightarrow> p \<in> set ps \<and> ok p \<and>
    t + tickets_in ok nc (takeWhile (\<lambda>q. q \<noteq> p) ps) \<le> unat r \<and>
    unat r < t + tickets_in ok nc (takeWhile (\<lambda>q. q \<noteq> p) ps) + tickets_of (nc p)"
  using assms
proof (induction ps arbitrary: t nc)
  case Nil
  then show ?case by simp
next
  case (Cons q ps)
  show ?case
  proof (cases "ok q")
    case False
    then show ?thesis using Cons.IH [of t nc] Cons.prems by (auto simp: tickets_in_Cons tickets_in_Nil)
  next
    case True
    obtain a n' where a: "ticket_amount (nc q) = (a, n')" by (cases "ticket_amount (nc q)")
    define k where "k = tickets_of (nc q)"
    have k: "t + k + tickets_in ok nc ps < 2 ^ 32" using Cons.prems(2) True by (simp add: tickets_in_Cons k_def)
    have w: "of_nat t + word_of_int a = (of_nat (t + k) :: uint32)" using word_of_tickets [of "nc q"] a by (simp add: k_def)
    have u: "unat (of_nat (t + k) :: uint32) = t + k" using k by (simp only: unat_of_nat) simp
    have win: "(of_nat (t + k) :: uint32) > r \<longleftrightarrow> unat r < t + k" by (simp only: word_less_nat_alt u)
    have q: "q \<notin> set ps" using Cons.prems(1) by simp
    have e: "tickets_in ok (nc(q := n')) (takeWhile (\<lambda>x. x \<noteq> p) ps) = tickets_in ok nc (takeWhile (\<lambda>x. x \<noteq> p) ps)"
      by (rule tickets_in_upd) (use q in \<open>auto dest: set_takeWhileD\<close>)
    show ?thesis
    proof (cases "unat r < t + k")
      case won: True
      then have "fst (lottery_scan ok r (q # ps) (of_nat t) nc) = Some q" using True win by (simp add: a w Let_def)
      moreover have "p = q" if "t + tickets_in ok nc (takeWhile (\<lambda>x. x \<noteq> p) (q # ps)) \<le> unat r"
        using that won True by (auto simp: tickets_in_Cons k_def split: if_splits)
      ultimately show ?thesis using won Cons.prems(3) True by (auto simp: tickets_in_Nil k_def)
    next
      case lost: False
      have scan: "fst (lottery_scan ok r (q # ps) (of_nat t) nc) = fst (lottery_scan ok r ps (of_nat (t + k)) (nc(q := n')))"
        using True win lost by (simp add: a w Let_def)
      have "t + k + tickets_in ok (nc(q := n')) ps < 2 ^ 32" using k tickets_in_upd [OF q] by simp
      note IH = Cons.IH [of "t + k" "nc(q := n')", OF _ this]
      have fact: "fst (lottery_scan ok r (q # ps) (of_nat t) nc) = Some p \<longleftrightarrow> p \<in> set ps \<and> ok p \<and>
        t + k + tickets_in ok nc (takeWhile (\<lambda>x. x \<noteq> p) ps) \<le> unat r \<and>
        unat r < t + k + tickets_in ok nc (takeWhile (\<lambda>x. x \<noteq> p) ps) + tickets_of ((nc(q := n')) p)"
        unfolding scan e [symmetric] by (rule IH) (use lost Cons.prems(1) in simp_all)
      show ?thesis
      proof (cases "p = q")
        case True
        then show ?thesis unfolding fact using q lost by (simp add: tickets_in_Nil k_def)
      next
        case False
        then show ?thesis unfolding fact using \<open>ok q\<close> by (simp add: tickets_in_Cons k_def add.assoc)
      qed
    qed
  qed
qed

lemma tickets_in_bound: "tickets_in ok nc ps \<le> 6 * length ps"
proof (induction ps)
  case (Cons p ps)
  then show ?case using ticket_amount_range(2) [of "nc p"] by (auto simp: tickets_in_Cons)
qed (simp add: tickets_in_Nil)

lemma card_word_interval:
  assumes "a + k \<le> 2 ^ 32"
  shows "card {r :: uint32. a \<le> unat r \<and> unat r < a + k} = k"
proof -
  have u: "unat (of_nat n :: uint32) = n" if "n < a + k" for n
    using that assms by (simp only: unat_of_nat) simp
  have "{r :: uint32. a \<le> unat r \<and> unat r < a + k} = of_nat ` {a..<a + k}"
  proof (intro set_eqI iffI)
    fix r :: uint32 assume "r \<in> {r. a \<le> unat r \<and> unat r < a + k}"
    then show "r \<in> of_nat ` {a..<a + k}" by (intro image_eqI [of _ _ "unat r"]) auto
  next
    fix r :: uint32 assume "r \<in> of_nat ` {a..<a + k}"
    then show "r \<in> {r. a \<le> unat r \<and> unat r < a + k}" using u by auto
  qed
  moreover have "inj_on (of_nat :: nat \<Rightarrow> uint32) {a..<a + k}" by (rule inj_on_inverseI [of _ unat]) (use u in auto)
  ultimately show ?thesis by (simp add: card_image)
qed

text \<open>
  C23. The lottery is fair: of the random numbers, a runnable process wins with exactly as many as
  \<^verbatim>\<open>getTicketAmount\<close> gives it tickets, a process that is not runnable with none, and there is no winner
  exactly for the numbers that are not below the number of tickets of the runnable processes.
\<close>

theorem lottery_proportional:
  assumes "p < NPROC"
  shows "card {r. fst (lottery_scan ok r [0..<NPROC] 0 nc) = Some p} = (if ok p then tickets_of (nc p) else 0) \<and>
    (fst (lottery_scan ok r [0..<NPROC] 0 nc) = None \<longleftrightarrow> tickets_in ok nc [0..<NPROC] \<le> unat r)"
proof -
  have bound: "0 + tickets_in ok nc [0..<NPROC] < 2 ^ 32"
    using tickets_in_bound [of ok nc "[0..<NPROC]"] by simp
  have tw: "takeWhile (\<lambda>q. q \<noteq> p) [0..<NPROC] = [0..<p]" if "p < NPROC" for p
  proof -
    have "[0..<NPROC] = [0..<p] @ p # [Suc p..<NPROC]" using that by (metis less_imp_le upt_conv_Cons upt_add_eq_append le0 le_add_diff_inverse)
    moreover have "takeWhile (\<lambda>q. q \<noteq> p) ([0..<p] @ p # [Suc p..<NPROC]) = [0..<p]" by (subst takeWhile_append2) auto
    ultimately show ?thesis by simp
  qed
  have win: "fst (lottery_scan ok r [0..<NPROC] 0 nc) = Some p \<longleftrightarrow> p < NPROC \<and> ok p \<and>
    tickets_in ok nc [0..<p] \<le> unat r \<and> unat r < tickets_in ok nc [0..<p] + tickets_of (nc p)" for r p
    using lottery_scan_winner [OF distinct_upt bound, of r p] tw [of p] by (auto simp del: upt_rec_numeral)
  have snoc: "tickets_in ok nc (ps @ [n]) = tickets_in ok nc ps + (if ok n then tickets_of (nc n) else 0)" for ps n
    by (simp add: tickets_in_def)
  have ex: "\<exists>p<n. ok p \<and> tickets_in ok nc [0..<p] \<le> unat r \<and> unat r < tickets_in ok nc [0..<p] + tickets_of (nc p)"
    if "unat r < tickets_in ok nc [0..<n]" for n
    using that
  proof (induction n)
    case (Suc n)
    then show ?case by (cases "unat r < tickets_in ok nc [0..<n]") (auto simp: snoc less_Suc_eq split: if_splits)
  qed (simp add: tickets_in_Nil)
  have mono: "m \<le> n \<Longrightarrow> tickets_in ok nc [0..<m] \<le> tickets_in ok nc [0..<n]" for m n
    by (induction n) (auto simp: snoc le_Suc_eq)
  have "fst (lottery_scan ok r [0..<NPROC] 0 nc) = None \<longleftrightarrow> tickets_in ok nc [0..<NPROC] \<le> unat r"
  proof
    assume "fst (lottery_scan ok r [0..<NPROC] 0 nc) = None"
    then have "\<not> (\<exists>p<NPROC. ok p \<and> tickets_in ok nc [0..<p] \<le> unat r \<and> unat r < tickets_in ok nc [0..<p] + tickets_of (nc p))"
      using win [of r] by (metis option.distinct(1))
    then show "tickets_in ok nc [0..<NPROC] \<le> unat r" using ex [of NPROC] not_less by blast
  next
    assume le: "tickets_in ok nc [0..<NPROC] \<le> unat r"
    show "fst (lottery_scan ok r [0..<NPROC] 0 nc) = None"
    proof (rule ccontr)
      assume "fst (lottery_scan ok r [0..<NPROC] 0 nc) \<noteq> None"
      then obtain q where "fst (lottery_scan ok r [0..<NPROC] 0 nc) = Some q" by blast
      then have q: "q < NPROC" "ok q" "unat r < tickets_in ok nc [0..<Suc q]" using win by (auto simp: snoc)
      then show False using mono [of "Suc q" NPROC] le by linarith
    qed
  qed
  moreover have "card {r. fst (lottery_scan ok r [0..<NPROC] 0 nc) = Some p} = (if ok p then tickets_of (nc p) else 0)"
  proof (cases "ok p")
    case True
    have "tickets_in ok nc [0..<p] + tickets_of (nc p) \<le> 2 ^ 32"
      using mono [of "Suc p" NPROC] bound assms True by (simp add: snoc del: upt_rec_numeral)
    then show ?thesis using card_word_interval True assms unfolding win by simp
  qed (simp add: win del: upt_rec_numeral)
  ultimately show ?thesis by blast
qed

theorem lottery_proportional_witness:
  "card {r. fst (lottery_scan (\<lambda>p. p = 2 \<or> p = 5) r [0..<NPROC] 0 (\<lambda>p. if p = 2 then 100 else 139)) = Some 2} = 6"
  using lottery_proportional [of 2 "\<lambda>p. p = 2 \<or> p = 5" "\<lambda>p. if p = 2 then 100 else 139"]
  by (simp add: ticket_amount_def del: upt_rec_numeral)

section \<open>The sequence of random numbers\<close>

text \<open>The state after \<open>n\<close> calls, from the initial value 8 of \<^verbatim>\<open>random_number\<close>.\<close>

definition prng_state :: "uint32 \<Rightarrow> nat \<Rightarrow> uint32" where
  "prng_state upper n = ((\<lambda>r. snd (prng upper r)) ^^ n) 8"

lemma prng_step:
  assumes "upper \<noteq> 0" and "unat r < 16873"
  shows "unat (snd (prng upper r)) = (unat r)\<^sup>2 mod 16873"
proof -
  have "unat r * unat r \<le> 16872 * 16872" using assms(2) by (intro mult_le_mono) auto
  then have "unat (r * r) = unat r * unat r" by (simp add: unat_word_ariths)
  then show ?thesis using assms(1) by (simp add: prng_def Let_def unat_mod power2_eq_square)
qed

lemma prng_state_eq: "upper \<noteq> 0 \<Longrightarrow> unat (prng_state upper n) = 8 ^ 2 ^ n mod 16873"
proof (induction n)
  case (Suc n)
  have "prng_state upper (Suc n) = snd (prng upper (prng_state upper n))" by (simp add: prng_state_def)
  then have "unat (prng_state upper (Suc n)) = (8 ^ 2 ^ n mod 16873)\<^sup>2 mod 16873"
    using prng_step [OF Suc.prems, of "prng_state upper n"] Suc by simp
  also have "\<dots> = (8 ^ 2 ^ n)\<^sup>2 mod 16873" by (rule power_mod)
  also have "((8::nat) ^ 2 ^ n)\<^sup>2 = 8 ^ 2 ^ Suc n" by (simp add: power_mult [symmetric] mult.commute)
  finally show ?case .
qed (simp add: prng_state_def)

text \<open>The order of 8 divides 4117, which \<open>2 ^ 1958\<close> exceeds by one modulo 4117.\<close>

lemma order_of_8: "8 ^ 4117 mod 16873 = (1 :: nat)"
proof -
  define f where "f k = 8 ^ k mod (16873 :: nat)" for k :: nat
  have add: "f (a + b) = f a * f b mod 16873" for a b by (simp add: f_def power_add mod_mult_eq)
  have dbl: "f (2 * a) = f a * f a mod 16873" for a using add [of a a] by (simp add: mult_2)
  have f0: "f 1 = 8" by (simp add: f_def)
  have e2: "f 2 = 64" using dbl [of 1] f0 by simp
  have e4: "f 4 = 4096" using dbl [of 2] e2 by simp
  have e8: "f 8 = 5454" using dbl [of 4] e4 by simp
  have e16: "f 16 = 15890" using dbl [of 8] e8 by simp
  have e32: "f 32 = 4528" using dbl [of 16] e16 by simp
  have e64: "f 64 = 2089" using dbl [of 32] e32 by simp
  have e128: "f 128 = 10687" using dbl [of 64] e64 by simp
  have e256: "f 256 = 15505" using dbl [of 128] e128 by simp
  have e257: "f 257 = 5929" using add [of 256 1] e256 f0 by simp
  have e514: "f 514 = 6582" using dbl [of 257] e257 by simp
  have e1028: "f 1028 = 9733" using dbl [of 514] e514 by simp
  have e1029: "f 1029 = 10372" using add [of 1028 1] e1028 f0 by simp
  have e2058: "f 2058 = 13009" using dbl [of 1029] e1029 by simp
  have e4116: "f 4116 = 14764" using dbl [of 2058] e2058 by simp
  have e4117: "f 4117 = 1" using add [of 4116 1] e4116 f0 by simp
  then show ?thesis by (simp only: f_def)
qed

lemma power_of_2: "2 ^ 1958 mod 4117 = (1 :: nat)"
proof -
  define f where "f k = 2 ^ k mod (4117 :: nat)" for k :: nat
  have add: "f (a + b) = f a * f b mod 4117" for a b by (simp add: f_def power_add mod_mult_eq)
  have dbl: "f (2 * a) = f a * f a mod 4117" for a using add [of a a] by (simp add: mult_2)
  have f0: "f 1 = 2" by (simp add: f_def)
  have e2: "f 2 = 4" using dbl [of 1] f0 by simp
  have e3: "f 3 = 8" using add [of 2 1] e2 f0 by simp
  have e6: "f 6 = 64" using dbl [of 3] e3 by simp
  have e7: "f 7 = 128" using add [of 6 1] e6 f0 by simp
  have e14: "f 14 = 4033" using dbl [of 7] e7 by simp
  have e15: "f 15 = 3949" using add [of 14 1] e14 f0 by simp
  have e30: "f 30 = 3522" using dbl [of 15] e15 by simp
  have e60: "f 60 = 4080" using dbl [of 30] e30 by simp
  have e61: "f 61 = 4043" using add [of 60 1] e60 f0 by simp
  have e122: "f 122 = 1359" using dbl [of 61] e61 by simp
  have e244: "f 244 = 2465" using dbl [of 122] e122 by simp
  have e488: "f 488 = 3650" using dbl [of 244] e244 by simp
  have e489: "f 489 = 3183" using add [of 488 1] e488 f0 by simp
  have e978: "f 978 = 3669" using dbl [of 489] e489 by simp
  have e979: "f 979 = 3221" using add [of 978 1] e978 f0 by simp
  have e1958: "f 1958 = 1" using dbl [of 979] e979 by simp
  then show ?thesis by (simp only: f_def)
qed

lemma prng_period: "8 ^ 2 ^ 1958 mod 16873 = (8 :: nat)"
proof -
  define k where "k = (2 ^ 1958 :: nat) div 4117"
  have "(2 ^ 1958 :: nat) = 4117 * k + 1" unfolding k_def using mult_div_mod_eq [of 4117 "2 ^ 1958 :: nat"] unfolding power_of_2 by (rule sym)
  then have "(8 :: nat) ^ 2 ^ 1958 = (8 ^ 4117) ^ k * 8" by (simp only: power_add power_mult power_one_right)
  also have "\<dots> mod 16873 = ((8 ^ 4117 mod 16873) ^ k mod 16873) * 8 mod 16873" by (simp only: power_mod mod_mult_left_eq)
  also have "\<dots> = 1 mod 16873 * 8 mod 16873" by (simp only: order_of_8 power_one)
  also have "1 mod 16873 * 8 mod 16873 = (8 :: nat)" by simp
  finally show ?thesis .
qed

text \<open>
  C24. Random numbers are below the bound asked for and come from squaring modulo 16873: the 32-bit
  product does not overflow, so that the state after \<open>n\<close> calls is \<open>8 ^ 2 ^ n mod 16873\<close>; the sequence
  starts again after 1958 calls.
\<close>

theorem prng_sequence:
  assumes "upper \<noteq> 0"
  shows "fst (prng upper r) < upper \<and> unat (prng_state upper n) = 8 ^ 2 ^ n mod 16873 \<and>
    prng_state upper (n + 1958) = prng_state upper n"
proof -
  have "8 ^ 2 ^ (n + 1958) mod (16873 :: nat) = (8 ^ 2 ^ 1958) ^ 2 ^ n mod 16873"
    by (simp only: power_add power_mult [symmetric] mult.commute)
  also have "\<dots> = (8 ^ 2 ^ 1958 mod 16873) ^ 2 ^ n mod 16873" by (simp only: power_mod)
  finally have "unat (prng_state upper (n + 1958)) = unat (prng_state upper n)"
    unfolding prng_state_eq [OF assms] prng_period .
  then have "prng_state upper (n + 1958) = prng_state upper n" by (simp only: word_unat_eq_iff)
  moreover have "fst (prng upper r) < upper" using assms by (simp add: prng_def Let_def word_less_nat_alt unat_mod unat_gt_0)
  ultimately show ?thesis using prng_state_eq [OF assms] by blast
qed

theorem prng_sequence_witness: "fst (prng 20 8) < 20 \<and> unat (prng_state 20 2) = 4096 \<and> prng_state 20 1958 = 8"
  using prng_sequence [of 20 8 2] prng_sequence [of 20 8 0] by (simp add: prng_state_def)

section \<open>The binary search\<close>

text \<open>The running totals are the sums of the tickets up to a holder.\<close>

definition holders_ok :: "(int \<Rightarrow> TicketHolder) \<Rightarrow> int \<Rightarrow> bool" where
  "holders_ok hs n \<longleftrightarrow> (\<forall>i. 0 \<le> i \<and> i < n \<longrightarrow> 0 \<le> th_total (hs i) \<and> th_running (hs i) < 2 ^ 31 \<and>
     th_running (hs i) = (if i = 0 then 0 else th_running (hs (i - 1))) + th_total (hs i))"

abbreviation first_ticket :: "(int \<Rightarrow> TicketHolder) \<Rightarrow> int \<Rightarrow> int" where
  "first_ticket hs i \<equiv> th_running (hs i) - th_total (hs i)"

lemma uint_small: "0 \<le> a \<Longrightarrow> a < 2 ^ 31 \<Longrightarrow> uint (word_of_int a :: uint32) = a"
  by (simp add: uint_word_of_int)

lemma first_ticket_eq: "holders_ok hs n \<Longrightarrow> 0 \<le> i \<Longrightarrow> i < n \<Longrightarrow> first_ticket hs i = (if i = 0 then 0 else th_running (hs (i - 1)))"
  by (simp add: holders_ok_def)

lemma running_nonneg: "holders_ok hs n \<Longrightarrow> int k < n \<Longrightarrow> 0 \<le> th_running (hs (int k))"
proof (induction k)
  case 0
  then have "th_running (hs 0) = th_total (hs 0)" "0 \<le> th_total (hs 0)" using 0 unfolding holders_ok_def by (auto dest: spec [of _ 0])
  then show ?case by simp
next
  case (Suc k)
  have "th_running (hs (int (Suc k))) = th_running (hs (int k)) + th_total (hs (int (Suc k)))" "0 \<le> th_total (hs (int (Suc k)))"
    using Suc.prems unfolding holders_ok_def by (auto dest: spec [of _ "int (Suc k)"])
  then show ?case using Suc by simp
qed

lemma holder_words:
  assumes "holders_ok hs n" and "0 \<le> i" and "i < n"
  shows "(word_of_int (first_ticket hs i) :: uint32) \<le> r \<longleftrightarrow> first_ticket hs i \<le> uint r"
    and "r \<le> (word_of_int (th_running (hs i)) :: uint32) \<longleftrightarrow> uint r \<le> th_running (hs i)"
    and "0 \<le> first_ticket hs i" and "first_ticket hs i \<le> th_running (hs i)"
proof -
  have a: "0 \<le> th_total (hs i)" "th_running (hs i) < 2 ^ 31" using assms unfolding holders_ok_def by blast+
  have b: "0 \<le> first_ticket hs i"
  proof (cases "i = 0")
    case True
    then show ?thesis using first_ticket_eq [OF assms] by simp
  next
    case False
    then show ?thesis using first_ticket_eq [OF assms] running_nonneg [OF assms(1), of "nat (i - 1)"] assms(2,3) by simp
  qed
  show "0 \<le> first_ticket hs i" "first_ticket hs i \<le> th_running (hs i)" using a b by auto
  show "(word_of_int (first_ticket hs i) :: uint32) \<le> r \<longleftrightarrow> first_ticket hs i \<le> uint r"
    using a b uint_small [of "first_ticket hs i"] by (simp add: word_le_def)
  show "r \<le> (word_of_int (th_running (hs i)) :: uint32) \<longleftrightarrow> uint r \<le> th_running (hs i)"
    using a b uint_small [of "th_running (hs i)"] by (simp add: word_le_def)
qed

lemma binarySearch_found:
  assumes "holders_ok hs n" and "0 \<le> start" and "start \<le> stop" and "stop < n"
    and "first_ticket hs start \<le> uint r" and "uint r \<le> th_running (hs stop)"
  shows "\<exists>i. binarySearch hs r start stop = Some (Some i) \<and> start \<le> i \<and> i \<le> stop \<and>
    first_ticket hs i \<le> uint r \<and> uint r \<le> th_running (hs i)"
  using assms
proof (induction "nat (stop - start)" arbitrary: start stop rule: less_induct)
  case less
  define mid where "mid = (start + stop) div 2"
  have mid: "start \<le> mid" "mid \<le> stop" "start < stop \<Longrightarrow> mid < stop" using less.prems by (auto simp: mid_def)
  have w: "(word_of_int (first_ticket hs mid) :: uint32) \<le> r \<longleftrightarrow> first_ticket hs mid \<le> uint r"
    "r \<le> (word_of_int (th_running (hs mid)) :: uint32) \<longleftrightarrow> uint r \<le> th_running (hs mid)"
    by (rule holder_words [OF less.prems(1)]; use less.prems mid in linarith)+
  have unf: "binarySearch hs r start stop =
    (if uint r \<le> th_running (hs mid) \<and> first_ticket hs mid \<le> uint r then Some (Some mid)
     else if \<not> uint r \<le> th_running (hs mid) then binarySearch hs r (mid + 1) stop
     else binarySearch hs r start mid)"
    using less.prems w by (subst binarySearch.simps) (auto simp: Let_def mid_def not_le [symmetric])
  consider "uint r \<le> th_running (hs mid) \<and> first_ticket hs mid \<le> uint r" | "th_running (hs mid) < uint r"
    | "uint r \<le> th_running (hs mid) \<and> uint r < first_ticket hs mid" by linarith
  then show ?case
  proof cases
    case 1
    then show ?thesis using unf mid by auto
  next
    case 2
    then have lt: "mid < stop" using less.prems(6) mid by (cases "mid = stop") auto
    have "first_ticket hs (mid + 1) = th_running (hs mid)"
      using first_ticket_eq [OF less.prems(1), of "mid + 1"] lt mid less.prems by simp
    then have "\<exists>i. binarySearch hs r (mid + 1) stop = Some (Some i) \<and> mid + 1 \<le> i \<and> i \<le> stop \<and>
      first_ticket hs i \<le> uint r \<and> uint r \<le> th_running (hs i)"
      using less.prems 2 lt mid by (intro less.hyps) auto
    then show ?thesis using unf 2 mid by auto
  next
    case 3
    then have "mid \<noteq> start" using less.prems(5) by auto
    then have lt: "mid < stop" using mid by linarith
    have "\<exists>i. binarySearch hs r start mid = Some (Some i) \<and> start \<le> i \<and> i \<le> mid \<and>
      first_ticket hs i \<le> uint r \<and> uint r \<le> th_running (hs i)"
      using less.prems 3 lt mid by (intro less.hyps) auto
    then show ?thesis using unf 3 mid by auto
  qed
qed

lemma binarySearch_diverges:
  assumes "holders_ok hs n" and "0 \<le> start" and "start \<le> stop" and "stop < n"
    and "\<forall>i. start \<le> i \<and> i \<le> stop \<longrightarrow> uint r < first_ticket hs i"
  shows "binarySearch hs r start stop = None"
proof (rule ccontr)
  assume "binarySearch hs r start stop \<noteq> None"
  then obtain y where "binarySearch hs r start stop = Some y" by blast
  then have "hs = hs \<and> r = r \<longrightarrow> \<not> (0 \<le> start \<and> start \<le> stop \<and> stop < n \<and> (\<forall>i. start \<le> i \<and> i \<le> stop \<longrightarrow> uint r < first_ticket hs i))"
  proof (rule binarySearch.raw_induct [where P = "\<lambda>h q a b _. h = hs \<and> q = r \<longrightarrow>
      \<not> (0 \<le> a \<and> a \<le> b \<and> b < n \<and> (\<forall>i. a \<le> i \<and> i \<le> b \<longrightarrow> uint q < first_ticket h i))", rotated])
    fix f h q start stop y
    assume IH: "\<And>h q a b y. f h q a b = Some y \<Longrightarrow> h = hs \<and> q = r \<longrightarrow>
        \<not> (0 \<le> a \<and> a \<le> b \<and> b < n \<and> (\<forall>i. a \<le> i \<and> i \<le> b \<longrightarrow> uint q < first_ticket h i))"
      and body: "(if start > stop then Some None
        else let mid = (if start + stop < 0 then - ((- (start + stop)) div 2) else (start + stop) div 2);
            ticketStart = word_of_int (th_running (h mid) - th_total (h mid));
            ticketEnd = word_of_int (th_running (h mid))
        in if ticketEnd \<ge> q \<and> ticketStart \<le> q then Some (Some mid)
          else if ticketEnd < q then f h q (mid + 1) stop
          else if ticketStart > q then f h q start mid
          else Some None) = Some y"
    show "h = hs \<and> q = r \<longrightarrow>
        \<not> (0 \<le> start \<and> start \<le> stop \<and> stop < n \<and> (\<forall>i. start \<le> i \<and> i \<le> stop \<longrightarrow> uint q < first_ticket h i))"
    proof (intro impI notI, elim conjE)
      assume e: "h = hs" "q = r"
        and a: "0 \<le> start" "start \<le> stop" "stop < n" "\<forall>i. start \<le> i \<and> i \<le> stop \<longrightarrow> uint q < first_ticket h i"
      define mid where "mid = (start + stop) div 2"
      have mid: "start \<le> mid" "mid \<le> stop" using a by (auto simp: mid_def)
      have lt: "uint r < first_ticket hs mid" using a(4) mid e by blast
      have w: "(word_of_int (first_ticket hs mid) :: uint32) \<le> r \<longleftrightarrow> first_ticket hs mid \<le> uint r"
        "r \<le> (word_of_int (th_running (hs mid)) :: uint32) \<longleftrightarrow> uint r \<le> th_running (hs mid)"
        "first_ticket hs mid \<le> th_running (hs mid)"
        by (rule holder_words [OF assms(1)]; use a mid in linarith)+
      have "f h q start mid = Some y" using body a w lt e by (simp add: Let_def mid_def [symmetric] not_le [symmetric])
      from IH [OF this] show False using a mid e by (auto dest: order_trans)
    qed
  qed
  then show False using assms by blast
qed

text \<open>
  C25. \<^verbatim>\<open>binarySearch\<close> over a table whose running totals are the sums of the tickets returns, for every
  number up to the number of tickets, a holder whose interval contains it. But on a range whose
  holders all lie above the number it does not return: it calls itself with the middle as the new end,
  which stays what it is once the range is a single holder.
\<close>

theorem binarySearch_ends:
  assumes "holders_ok hs n" and "0 < n"
  shows "(uint r \<le> th_running (hs (n - 1)) \<longrightarrow> (\<exists>i. binarySearch hs r 0 (n - 1) = Some (Some i) \<and> 0 \<le> i \<and> i < n \<and>
      first_ticket hs i \<le> uint r \<and> uint r \<le> th_running (hs i))) \<and>
    (\<forall>start stop. 0 \<le> start \<and> start \<le> stop \<and> stop < n \<and> (\<forall>i. start \<le> i \<and> i \<le> stop \<longrightarrow> uint r < first_ticket hs i) \<longrightarrow>
      binarySearch hs r start stop = None)"
proof -
  have "\<exists>i. binarySearch hs r 0 (n - 1) = Some (Some i) \<and> 0 \<le> i \<and> i \<le> n - 1 \<and>
      first_ticket hs i \<le> uint r \<and> uint r \<le> th_running (hs i)" if "uint r \<le> th_running (hs (n - 1))"
    by (rule binarySearch_found [OF assms(1)]) (use assms that first_ticket_eq [OF assms(1), of 0] in auto)
  moreover have "binarySearch hs r start stop = None"
    if "0 \<le> start \<and> start \<le> stop \<and> stop < n \<and> (\<forall>i. start \<le> i \<and> i \<le> stop \<longrightarrow> uint r < first_ticket hs i)" for start stop
    using that binarySearch_diverges [OF assms(1)] by blast
  ultimately show ?thesis by fastforce
qed

definition demo_holders :: "int \<Rightarrow> TicketHolder" where
  "demo_holders i = \<lparr>th_total = 3, th_running = 3 * i + 3, th_status = BOUGHT, th_proc = Some (nat i)\<rparr>"

theorem binarySearch_ends_witness:
  "(\<exists>i. binarySearch demo_holders 7 0 9 = Some (Some i) \<and> 3 * i \<le> 7 \<and> 7 \<le> 3 * i + 3) \<and> binarySearch demo_holders 7 4 4 = None"
proof -
  have "holders_ok demo_holders 10" by (auto simp: holders_ok_def demo_holders_def)
  from binarySearch_ends [OF this, of 7] show ?thesis by (auto simp: demo_holders_def dest!: spec [of _ 4])
qed

end
