(* ===== verification/Spinlock.thy ===== *)
theory Spinlock
  imports Vm
begin

text \<open>
  Spin locks and interrupt masking (spinlock.c, with \<^verbatim>\<open>readeflags\<close>, \<^verbatim>\<open>cli\<close>, \<^verbatim>\<open>sti\<close> and \<^verbatim>\<open>xchg\<close> of x86.h).
  \<open>mach\<close> is the state of the machine as this file sees it: the processors, one lock, and the array
  \<^verbatim>\<open>seeds\<close> that \<^verbatim>\<open>pushcli\<close> writes to, indexed by what the C expression gives. The operations are those
  of processor \<open>c\<close>. \<^verbatim>\<open>acquire\<close> and \<^verbatim>\<open>release\<close> are cut into the accesses to the shared lock that other
  processors can observe, and \<open>lstep\<close> interleaves them.
\<close>

unbundle bit_operations_syntax

abbreviation FL_IF :: uint32 where "FL_IF \<equiv> 0x200"

record cpu =
  eflags :: uint32
  ncli :: int
  intena :: uint32

record spinlock =
  lk_locked :: uint32
  lk_cpu :: "nat option"

record mach =
  cpus :: "nat \<Rightarrow> cpu"
  lk :: spinlock
  seeds :: "int \<Rightarrow> uint32"
  write_pointer :: int

definition upd_cpu :: "nat \<Rightarrow> (cpu \<Rightarrow> cpu) \<Rightarrow> mach \<Rightarrow> mach" where
  "upd_cpu c f s = s\<lparr>cpus := (cpus s)(c := f (cpus s c))\<rparr>"

definition readeflags :: "nat \<Rightarrow> (mach, uint32) kop" where
  "readeflags c = gets (\<lambda>s. eflags (cpus s c))"

definition cli :: "nat \<Rightarrow> (mach, unit) kop" where
  "cli c = modify (upd_cpu c (\<lambda>p. p\<lparr>eflags := eflags p AND NOT FL_IF\<rparr>))"

definition sti :: "nat \<Rightarrow> (mach, unit) kop" where
  "sti c = modify (upd_cpu c (\<lambda>p. p\<lparr>eflags := eflags p OR FL_IF\<rparr>))"

text \<open>
  \<^verbatim>\<open>(write_pointer++) % 10\<close>: the remainder has the sign of the pointer, a 32-bit int that wraps around
  on this machine.
\<close>

definition seed_index :: "int \<Rightarrow> int" where
  "seed_index p = (if p < 0 then - ((- p) mod 10) else p mod 10)"

definition next_pointer :: "int \<Rightarrow> int" where
  "next_pointer p = (if p = 2 ^ 31 - 1 then - (2 ^ 31) else p + 1)"

definition pushcli :: "nat \<Rightarrow> (mach, unit) kop" where
  "pushcli c =
     bind (readeflags c) (\<lambda>e.
     bind (modify (\<lambda>s. s\<lparr>seeds := (seeds s)(seed_index (write_pointer s) := e), write_pointer := next_pointer (write_pointer s)\<rparr>)) (\<lambda>_.
     bind (cli c) (\<lambda>_.
     modify (upd_cpu c (\<lambda>p. p\<lparr>ncli := ncli p + 1, intena := if ncli p = 0 then e AND FL_IF else intena p\<rparr>)))))"

definition popcli :: "nat \<Rightarrow> (mach, unit) kop" where
  "popcli c =
     bind (readeflags c) (\<lambda>e.
     bind (panic_if (e AND FL_IF \<noteq> 0) ''popcli - interruptible'') (\<lambda>_.
     bind (modify (upd_cpu c (\<lambda>p. p\<lparr>ncli := ncli p - 1\<rparr>))) (\<lambda>_.
     bind (gets (\<lambda>s. cpus s c)) (\<lambda>p.
     bind (panic_if (ncli p < 0) ''popcli'') (\<lambda>_.
     whenk (ncli p = 0 \<and> intena p \<noteq> 0) (sti c))))))"

definition initlock :: "(mach, unit) kop" where
  "initlock = modify (\<lambda>s. s\<lparr>lk := \<lparr>lk_locked = 0, lk_cpu = None\<rparr>\<rparr>)"

definition holding :: "nat \<Rightarrow> mach \<Rightarrow> bool" where
  "holding c s \<longleftrightarrow> lk_locked (lk s) \<noteq> 0 \<and> lk_cpu (lk s) = Some c"

definition xchg :: "uint32 \<Rightarrow> (mach, uint32) kop" where
  "xchg v = bind (gets (\<lambda>s. lk_locked (lk s))) (\<lambda>old.
     bind (modify (\<lambda>s. s\<lparr>lk := (lk s)\<lparr>lk_locked := v\<rparr>\<rparr>)) (\<lambda>_. return old))"

text \<open>\<^verbatim>\<open>acquire\<close> up to the loop, one round of the loop, and what follows it.\<close>

definition acquire_enter :: "nat \<Rightarrow> (mach, unit) kop" where
  "acquire_enter c =
     bind (pushcli c) (\<lambda>_. bind (gets (holding c)) (\<lambda>h. panic_if h ''acquire''))"

definition acquire_try :: "(mach, bool) kop" where
  "acquire_try = bind (xchg 1) (\<lambda>old. return (old = 0))"

definition acquire_done :: "nat \<Rightarrow> (mach, unit) kop" where
  "acquire_done c = modify (\<lambda>s. s\<lparr>lk := (lk s)\<lparr>lk_cpu := Some c\<rparr>\<rparr>)"

text \<open>\<^verbatim>\<open>release\<close> up to the exchange, and the exchange with what follows it.\<close>

definition release_enter :: "nat \<Rightarrow> (mach, unit) kop" where
  "release_enter c =
     bind (gets (holding c)) (\<lambda>h.
     bind (panic_if (\<not> h) ''release'') (\<lambda>_.
     modify (\<lambda>s. s\<lparr>lk := (lk s)\<lparr>lk_cpu := None\<rparr>\<rparr>)))"

definition release_done :: "nat \<Rightarrow> (mach, unit) kop" where
  "release_done c = bind (xchg 0) (\<lambda>_. popcli c)"

text \<open>\<^verbatim>\<open>getcallerpcs\<close>: follow the saved frame pointers in memory.\<close>

fun callers :: "mem \<Rightarrow> uint32 \<Rightarrow> nat \<Rightarrow> uint32 list" where
  "callers m ebp 0 = []"
| "callers m ebp (Suc n) =
     (if ebp = 0 \<or> ebp < KERNBASE \<or> ebp = 0xFFFFFFFF then replicate (Suc n) 0
      else load32 m (unat ebp + 4) # callers m (load32 m (unat ebp)) n)"

definition getcallerpcs :: "mem \<Rightarrow> uint32 \<Rightarrow> uint32 list" where
  "getcallerpcs m v = callers m (v - 8) 10"

section \<open>Interrupt masking nests\<close>

lemmas cli_defs = pushcli_def popcli_def readeflags_def cli_def sti_def upd_cpu_def

datatype cliop = Push | Pop

fun run_cli :: "nat \<Rightarrow> cliop list \<Rightarrow> (mach, unit) kop" where
  "run_cli c [] = return ()"
| "run_cli c (Push # ops) = bind (pushcli c) (\<lambda>_. run_cli c ops)"
| "run_cli c (Pop # ops) = bind (popcli c) (\<lambda>_. run_cli c ops)"

inductive balanced :: "cliop list \<Rightarrow> bool" where
  b_nil: "balanced []"
| b_nest: "balanced xs \<Longrightarrow> balanced ys \<Longrightarrow> balanced (Push # xs @ Pop # ys)"

text \<open>Interrupts are off inside a section, and \<open>intena\<close> remembers how it was entered.\<close>

definition cli_ok :: "cpu \<Rightarrow> bool" where
  "cli_ok p \<longleftrightarrow> 0 \<le> ncli p \<and> (0 < ncli p \<longrightarrow> eflags p AND FL_IF = 0)"

lemma run_cli_append: "run_cli c (xs @ ys) = bind (run_cli c xs) (\<lambda>_. run_cli c ys)"
proof (induction xs)
  case (Cons x xs)
  then show ?case by (cases x) (auto simp: bind_def fun_eq_iff split: result.splits)
qed (simp add: bind_def return_def)

lemma bit_IF: "bit (FL_IF) n \<longleftrightarrow> n = 9"
proof -
  have "(FL_IF) = 2 ^ 9" by simp
  then show ?thesis by (simp only: bit_exp_iff) auto
qed

lemma IF_clear: "e AND FL_IF = 0 \<Longrightarrow> e AND NOT FL_IF = e"
proof (rule bit_word_eqI)
  fix n
  assume "e AND FL_IF = 0"
  then have "\<not> bit (e AND FL_IF) 9" by simp
  then have "\<not> bit e 9" by (simp only: bit_and_iff bit_IF) simp
  then show "n < LENGTH(32) \<Longrightarrow> bit (e AND NOT FL_IF) n = bit e n"
    by (simp only: bit_and_iff bit_not_iff bit_IF) auto
qed

lemma IF_set: "e AND FL_IF \<noteq> 0 \<Longrightarrow> (e AND NOT FL_IF) OR FL_IF = e"
proof (rule bit_word_eqI)
  fix n
  assume ne: "e AND FL_IF \<noteq> 0"
  have "bit e 9"
  proof (rule ccontr)
    assume "\<not> bit e 9"
    then have "e AND FL_IF = 0" by (intro bit_word_eqI) (simp only: bit_and_iff bit_IF bit_0_eq, auto)
    with ne show False by simp
  qed
  then show "n < LENGTH(32) \<Longrightarrow> bit ((e AND NOT FL_IF) OR FL_IF) n = bit e n"
    by (simp only: bit_or_iff bit_and_iff bit_not_iff bit_IF) auto
qed

lemma IF_masked: "(e AND NOT FL_IF) AND FL_IF = 0"
  by (simp add: and.assoc)

lemma pushcli_wp:
  "wp (pushcli c) (\<lambda>_ t. cpus t = (cpus s)(c := (cpus s c)\<lparr>eflags := eflags (cpus s c) AND NOT FL_IF, ncli := ncli (cpus s c) + 1,
     intena := if ncli (cpus s c) = 0 then eflags (cpus s c) AND FL_IF else intena (cpus s c)\<rparr>) \<and> lk t = lk s) s"
  by (simp add: cli_defs wp_simps)

lemma popcli_wp:
  assumes "eflags (cpus s c) AND FL_IF = 0" and "0 < ncli (cpus s c)"
  shows "wp (popcli c) (\<lambda>_ t. cpus t = (cpus s)(c := (cpus s c)\<lparr>ncli := ncli (cpus s c) - 1,
     eflags := if ncli (cpus s c) = 1 \<and> intena (cpus s c) \<noteq> 0 then eflags (cpus s c) OR FL_IF else eflags (cpus s c)\<rparr>) \<and> lk t = lk s) s"
  using assms by (auto simp: cli_defs wp_simps)

lemma run_cli_wp:
  assumes "balanced ops" and "cli_ok (cpus s c)"
  shows "wp (run_cli c ops) (\<lambda>_ t. eflags (cpus t c) = eflags (cpus s c) \<and> ncli (cpus t c) = ncli (cpus s c) \<and>
    (0 < ncli (cpus s c) \<longrightarrow> intena (cpus t c) = intena (cpus s c))) s"
  using assms
proof (induction arbitrary: s)
  case b_nil
  then show ?case by (simp add: wp_simps)
next
  case (b_nest xs ys)
  let ?p = "cpus s c"
  have ok: "0 \<le> ncli ?p" "0 < ncli ?p \<Longrightarrow> eflags ?p AND FL_IF = 0" using b_nest.prems by (auto simp: cli_ok_def)
  show ?case
    unfolding run_cli.simps append_Cons run_cli_append wp_bind_fun
  proof (rule wp_mono [OF pushcli_wp])
    fix x and t :: mach
    assume t: "cpus t = (cpus s)(c := ?p\<lparr>eflags := eflags ?p AND NOT FL_IF, ncli := ncli ?p + 1,
      intena := if ncli ?p = 0 then eflags ?p AND FL_IF else intena ?p\<rparr>) \<and> lk t = lk s"
    then have tc: "eflags (cpus t c) = eflags ?p AND NOT FL_IF" "ncli (cpus t c) = ncli ?p + 1"
      "intena (cpus t c) = (if ncli ?p = 0 then eflags ?p AND FL_IF else intena ?p)" by simp_all
    have okt: "cli_ok (cpus t c)" unfolding cli_ok_def tc IF_masked using ok by simp
    show "wp (run_cli c xs) (\<lambda>_. wp (popcli c) (\<lambda>_. wp (run_cli c ys) (\<lambda>_ t. eflags (cpus t c) = eflags ?p \<and>
      ncli (cpus t c) = ncli ?p \<and> (0 < ncli ?p \<longrightarrow> intena (cpus t c) = intena ?p)))) t"
    proof (rule wp_mono [OF b_nest.IH(1) [OF okt]])
      fix y and u :: mach
      assume "eflags (cpus u c) = eflags (cpus t c) \<and> ncli (cpus u c) = ncli (cpus t c) \<and>
        (0 < ncli (cpus t c) \<longrightarrow> intena (cpus u c) = intena (cpus t c))"
      then have u: "eflags (cpus u c) = eflags ?p AND NOT FL_IF" "ncli (cpus u c) = ncli ?p + 1"
        "intena (cpus u c) = (if ncli ?p = 0 then eflags ?p AND FL_IF else intena ?p)" using tc ok by auto
      have m: "eflags (cpus u c) AND FL_IF = 0" unfolding u by (rule IF_masked)
      have pos: "0 < ncli (cpus u c)" using u ok by simp
      show "wp (popcli c) (\<lambda>_. wp (run_cli c ys) (\<lambda>_ t. eflags (cpus t c) = eflags ?p \<and>
        ncli (cpus t c) = ncli ?p \<and> (0 < ncli ?p \<longrightarrow> intena (cpus t c) = intena ?p))) u"
      proof (rule wp_mono [OF popcli_wp [OF m pos]])
        fix z and v :: mach
        assume "cpus v = (cpus u)(c := (cpus u c)\<lparr>ncli := ncli (cpus u c) - 1, eflags := if ncli (cpus u c) = 1 \<and>
          intena (cpus u c) \<noteq> 0 then eflags (cpus u c) OR FL_IF else eflags (cpus u c)\<rparr>) \<and> lk v = lk u"
        then have v: "ncli (cpus v c) = ncli ?p" "intena (cpus v c) = intena (cpus u c)"
          "eflags (cpus v c) = (if ncli ?p = 0 \<and> intena (cpus u c) \<noteq> 0 then (eflags ?p AND NOT FL_IF) OR FL_IF else eflags ?p AND NOT FL_IF)"
          using u by simp_all
        have e: "eflags (cpus v c) = eflags ?p"
          unfolding v u using ok IF_clear [of "eflags ?p"] IF_set [of "eflags ?p"] by (cases "ncli ?p = 0") auto
        have "cli_ok (cpus v c)" using b_nest.prems by (simp add: cli_ok_def v(1) e)
        from b_nest.IH(2) [OF this]
        show "wp (run_cli c ys) (\<lambda>_ t. eflags (cpus t c) = eflags ?p \<and> ncli (cpus t c) = ncli ?p \<and>
          (0 < ncli ?p \<longrightarrow> intena (cpus t c) = intena ?p)) v"
          by (rule wp_mono) (use v(1,2) e u ok in auto)
      qed
    qed
  qed
qed

text \<open>
  C15. \<^verbatim>\<open>pushcli\<close> and \<^verbatim>\<open>popcli\<close> are matched: any balanced sequence of them, however deeply nested, runs
  without panicking and leaves the interrupt flag and the nesting depth as they were, whether
  interrupts were on or off at the start.
\<close>

theorem cli_balanced:
  assumes "balanced ops" and "cli_ok (cpus s c)"
  shows "wp (run_cli c ops) (\<lambda>_ t. eflags (cpus t c) = eflags (cpus s c) \<and> ncli (cpus t c) = ncli (cpus s c)) s"
  by (rule wp_mono [OF run_cli_wp [OF assms]]) simp

definition demo_mach :: mach where
  "demo_mach = \<lparr>cpus = (\<lambda>_. \<lparr>eflags = FL_IF, ncli = 0, intena = 0\<rparr>), lk = \<lparr>lk_locked = 0, lk_cpu = None\<rparr>,
     seeds = (\<lambda>_. 0), write_pointer = 0\<rparr>"

theorem cli_balanced_witness:
  "wp (run_cli 0 [Push, Push, Pop, Pop]) (\<lambda>_ t. eflags (cpus t 0) = FL_IF \<and> ncli (cpus t 0) = 0) demo_mach"
proof -
  have "balanced (Push # (Push # [] @ Pop # []) @ Pop # [])" by (intro b_nest b_nil)
  then show ?thesis using cli_balanced [of "[Push, Push, Pop, Pop]" demo_mach 0] by (simp add: cli_ok_def demo_mach_def)
qed

section \<open>Mutual exclusion\<close>

text \<open>
  Where a processor is: outside, in the loop of \<^verbatim>\<open>acquire\<close>, after its successful exchange, in the
  critical section, in \<^verbatim>\<open>release\<close> before its exchange.
\<close>

datatype lpc = Out | Spin | Got | Crit | Leaving

record lsys =
  mc :: mach
  pc :: "nat \<Rightarrow> lpc"

definition owner :: "lpc \<Rightarrow> bool" where
  "owner p \<longleftrightarrow> p = Got \<or> p = Crit \<or> p = Leaving"

inductive lstep :: "lsys \<Rightarrow> lsys \<Rightarrow> bool" where
  l_enter: "pc s c = Out \<Longrightarrow> acquire_enter c (mc s) = Ok u t \<Longrightarrow> lstep s (s\<lparr>mc := t, pc := (pc s)(c := Spin)\<rparr>)"
| l_try: "pc s c = Spin \<Longrightarrow> acquire_try (mc s) = Ok b t \<Longrightarrow>
    lstep s (s\<lparr>mc := t, pc := (pc s)(c := if b then Got else Spin)\<rparr>)"
| l_done: "pc s c = Got \<Longrightarrow> acquire_done c (mc s) = Ok u t \<Longrightarrow> lstep s (s\<lparr>mc := t, pc := (pc s)(c := Crit)\<rparr>)"
| l_leave: "pc s c = Crit \<Longrightarrow> release_enter c (mc s) = Ok u t \<Longrightarrow> lstep s (s\<lparr>mc := t, pc := (pc s)(c := Leaving)\<rparr>)"
| l_out: "pc s c = Leaving \<Longrightarrow> release_done c (mc s) = Ok u t \<Longrightarrow> lstep s (s\<lparr>mc := t, pc := (pc s)(c := Out)\<rparr>)"

inductive lreach :: "lsys \<Rightarrow> bool" where
  lr_init: "(\<forall>c. pc s c = Out \<and> cli_ok (cpus (mc s) c)) \<Longrightarrow> lk (mc s) = \<lparr>lk_locked = 0, lk_cpu = None\<rparr> \<Longrightarrow> lreach s"
| lr_step: "lreach s \<Longrightarrow> lstep s t \<Longrightarrow> lreach t"

definition linv :: "lsys \<Rightarrow> bool" where
  "linv s \<longleftrightarrow> (\<forall>c d. owner (pc s c) \<longrightarrow> owner (pc s d) \<longrightarrow> c = d) \<and>
     (lk_locked (lk (mc s)) \<noteq> 0 \<longleftrightarrow> (\<exists>c. owner (pc s c))) \<and>
     (\<forall>c. lk_cpu (lk (mc s)) = Some c \<longleftrightarrow> pc s c = Crit) \<and>
     (\<forall>c. cli_ok (cpus (mc s) c) \<and> (pc s c \<noteq> Out \<longrightarrow> 0 < ncli (cpus (mc s) c)))"

lemma acquire_enter_wp:
  assumes "\<not> holding c s"
  shows "wp (acquire_enter c) (\<lambda>_ t. cpus t = (cpus s)(c := (cpus s c)\<lparr>eflags := eflags (cpus s c) AND NOT FL_IF,
     ncli := ncli (cpus s c) + 1, intena := if ncli (cpus s c) = 0 then eflags (cpus s c) AND FL_IF else intena (cpus s c)\<rparr>) \<and> lk t = lk s) s"
  unfolding acquire_enter_def wp_bind_fun
  by (rule wp_mono [OF pushcli_wp]) (use assms in \<open>simp add: wp_simps holding_def\<close>)

lemma acquire_try_eq: "acquire_try s = Ok (lk_locked (lk s) = 0) (s\<lparr>lk := (lk s)\<lparr>lk_locked := 1\<rparr>\<rparr>)"
  by (simp add: acquire_try_def xchg_def bind_def gets_def modify_def return_def)

lemma acquire_done_eq: "acquire_done c s = Ok () (s\<lparr>lk := (lk s)\<lparr>lk_cpu := Some c\<rparr>\<rparr>)"
  by (simp add: acquire_done_def modify_def)

lemma release_enter_wp:
  "holding c s \<Longrightarrow> wp (release_enter c) (\<lambda>_ t. t = s\<lparr>lk := (lk s)\<lparr>lk_cpu := None\<rparr>\<rparr>) s"
  by (simp add: release_enter_def wp_simps)

lemma release_done_wp:
  assumes "eflags (cpus s c) AND FL_IF = 0" and "0 < ncli (cpus s c)"
  shows "wp (release_done c) (\<lambda>_ t. cpus t = (cpus s)(c := (cpus s c)\<lparr>ncli := ncli (cpus s c) - 1,
     eflags := if ncli (cpus s c) = 1 \<and> intena (cpus s c) \<noteq> 0 then eflags (cpus s c) OR FL_IF else eflags (cpus s c)\<rparr>) \<and>
     lk t = (lk s)\<lparr>lk_locked := 0\<rparr>) s"
  unfolding release_done_def xchg_def wp_bind_fun wp_gets_fun wp_modify_fun wp_return_fun
  by (rule wp_mono [OF popcli_wp]) (use assms in auto)

lemma linv_not_holding: "linv s \<Longrightarrow> pc s c = Out \<Longrightarrow> \<not> holding c (mc s)"
  by (auto simp: linv_def holding_def)

lemma linv_holding: "linv s \<Longrightarrow> pc s c = Crit \<Longrightarrow> holding c (mc s)"
  by (auto simp: linv_def holding_def owner_def)

lemma linv_off:
  assumes "linv s" "pc s c \<noteq> Out"
  shows "eflags (cpus (mc s) c) AND FL_IF = 0" "0 < ncli (cpus (mc s) c)"
  using assms by (auto simp: linv_def cli_ok_def)

lemma owner_simps [simp]: "\<not> owner Out" "\<not> owner Spin" "owner Got" "owner Crit" "owner Leaving"
  by (simp_all add: owner_def)

lemma lstep_inv:
  assumes "lstep s t" and inv: "linv s"
  shows "linv t"
  using assms(1)
proof cases
  case (l_enter c u v)
  from wp_OkD [OF acquire_enter_wp [OF linv_not_holding [OF inv l_enter(2)]] l_enter(3)]
  have v: "cpus v = (cpus (mc s))(c := (cpus (mc s) c)\<lparr>eflags := eflags (cpus (mc s) c) AND NOT FL_IF,
     ncli := ncli (cpus (mc s) c) + 1, intena := if ncli (cpus (mc s) c) = 0 then eflags (cpus (mc s) c) AND FL_IF
       else intena (cpus (mc s) c)\<rparr>)" "lk v = lk (mc s)" by auto
  have "cli_ok (cpus v c) \<and> 0 < ncli (cpus v c)"
    using inv IF_masked [of "eflags (cpus (mc s) c)"] unfolding v(1) by (auto simp: linv_def cli_ok_def)
  then show ?thesis
    using inv l_enter(2) unfolding linv_def l_enter(1) by (auto simp: v) (metis owner_simps(1))+
next
  case (l_try c b v)
  then show ?thesis
    using inv unfolding linv_def l_try(1) by (auto simp: acquire_try_eq) (metis owner_simps(2))
next
  case (l_done c u v)
  then show ?thesis
    using inv unfolding linv_def l_done(1) by (auto simp: acquire_done_eq) (metis owner_simps(3))+
next
  case (l_leave c u v)
  from wp_OkD [OF release_enter_wp [OF linv_holding [OF inv l_leave(2)]] l_leave(3)] show ?thesis
    using inv l_leave(2) unfolding linv_def l_leave(1) by auto (metis owner_simps(4) option.inject)+
next
  case (l_out c u v)
  have ne: "pc s c \<noteq> Out" using l_out(2) by simp
  note off = linv_off [OF inv ne]
  from wp_OkD [OF release_done_wp [OF off] l_out(3)]
  have v: "cpus v = (cpus (mc s))(c := (cpus (mc s) c)\<lparr>ncli := ncli (cpus (mc s) c) - 1,
     eflags := if ncli (cpus (mc s) c) = 1 \<and> intena (cpus (mc s) c) \<noteq> 0 then eflags (cpus (mc s) c) OR FL_IF
       else eflags (cpus (mc s) c)\<rparr>)" "lk v = (lk (mc s))\<lparr>lk_locked := 0\<rparr>" by auto
  have "cli_ok (cpus v c)" using off unfolding v(1) by (auto simp: cli_ok_def)
  then show ?thesis
    using inv l_out(2) unfolding linv_def l_out(1) by (auto simp: v)
qed

lemma lreach_inv: "lreach s \<Longrightarrow> linv s"
proof (induction rule: lreach.induct)
  case (lr_init s)
  then show ?case by (auto simp: linv_def)
next
  case (lr_step s t)
  then show ?case using lstep_inv by blast
qed

text \<open>
  C14. Spin locks exclude each other. However the processors' accesses to the lock are interleaved,
  at most one of them is between its successful exchange in \<^verbatim>\<open>acquire\<close> and its exchange in \<^verbatim>\<open>release\<close>,
  it runs there with interrupts off, and none of the sanity checks fires: \<^verbatim>\<open>acquire\<close> does not take the
  lock for held by a processor outside, \<^verbatim>\<open>release\<close> finds it held, \<^verbatim>\<open>popcli\<close> finds interrupts off.
\<close>

theorem spinlock_mutual_exclusion:
  assumes "lreach s"
  shows "(owner (pc s c) \<and> owner (pc s d) \<longrightarrow> c = d) \<and>
    (owner (pc s c) \<longrightarrow> eflags (cpus (mc s) c) AND FL_IF = 0) \<and>
    (pc s c = Out \<longrightarrow> wp (acquire_enter c) (\<lambda>_ _. True) (mc s)) \<and>
    (pc s c = Crit \<longrightarrow> wp (release_enter c) (\<lambda>_ _. True) (mc s)) \<and>
    (pc s c = Leaving \<longrightarrow> wp (release_done c) (\<lambda>_ _. True) (mc s))"
proof -
  have inv: "linv s" by (rule lreach_inv [OF assms])
  have "wp (acquire_enter c) (\<lambda>_ _. True) (mc s)" if "pc s c = Out"
    by (rule wp_mono [OF acquire_enter_wp [OF linv_not_holding [OF inv that]]]) simp
  moreover have "wp (release_enter c) (\<lambda>_ _. True) (mc s)" if "pc s c = Crit"
    by (rule wp_mono [OF release_enter_wp [OF linv_holding [OF inv that]]]) simp
  moreover have "wp (release_done c) (\<lambda>_ _. True) (mc s)" if "pc s c = Leaving"
  proof -
    have ne: "pc s c \<noteq> Out" using that by simp
    show ?thesis by (rule wp_mono [OF release_done_wp [OF linv_off [OF inv ne]]]) simp
  qed
  moreover have "eflags (cpus (mc s) c) AND FL_IF = 0" if "owner (pc s c)"
  proof -
    have ne: "pc s c \<noteq> Out" using that by auto
    show ?thesis by (rule linv_off(1) [OF inv ne])
  qed
  moreover have "owner (pc s c) \<and> owner (pc s d) \<longrightarrow> c = d" using inv by (auto simp: linv_def)
  ultimately show ?thesis by blast
qed

theorem spinlock_mutual_exclusion_witness:
  "\<exists>s. lreach s \<and> pc s 0 = Spin \<and> eflags (cpus (mc s) 0) AND FL_IF = 0 \<and> wp (acquire_enter 1) (\<lambda>_ _. True) (mc s)"
proof -
  let ?s = "\<lparr>mc = demo_mach, pc = (\<lambda>_. Out)\<rparr>"
  have "lreach ?s" by (rule lr_init) (simp_all add: demo_mach_def cli_ok_def)
  moreover obtain t where t: "acquire_enter 0 demo_mach = Ok () t" "cpus t 0 = \<lparr>eflags = 0, ncli = 1, intena = FL_IF\<rparr>"
    using acquire_enter_wp [of 0 demo_mach] by (auto simp: wp_Ok demo_mach_def holding_def)
  ultimately have r: "lreach (?s\<lparr>mc := t, pc := (pc ?s)(0 := Spin)\<rparr>)"
    by (intro lr_step [OF _ l_enter]) auto
  show ?thesis
    using spinlock_mutual_exclusion [OF r, of 1 0] r t(2)
    by (intro exI [of _ "?s\<lparr>mc := t, pc := (pc ?s)(0 := Spin)\<rparr>"]) simp
qed

section \<open>The seeds of the lottery\<close>

text \<open>
  \<^verbatim>\<open>write_pointer\<close> after \<open>n\<close> increments from 0: \<open>n\<close> as a 32-bit int. In C a write in front of \<^verbatim>\<open>seeds\<close>
  overwrites another variable; here it is an update of the map \<open>seeds\<close> at a negative index, which
  is visible as such.
\<close>

definition wrap_int :: "int \<Rightarrow> int" where
  "wrap_int n = (n + 2 ^ 31) mod 2 ^ 32 - 2 ^ 31"

lemma wrap_int_small: "0 \<le> n \<Longrightarrow> n < 2 ^ 31 \<Longrightarrow> wrap_int n = n"
  by (simp add: wrap_int_def)

lemma next_pointer_wrap: "next_pointer (wrap_int n) = wrap_int (n + 1)"
proof -
  define m where "m = (n + 2 ^ 31) mod 2 ^ 32"
  have m: "0 \<le> m" "m < 2 ^ 32" by (simp_all add: m_def)
  have "(n + 1 + 2 ^ 31) mod 2 ^ 32 = (m + 1) mod 2 ^ 32" unfolding m_def by (simp add: mod_simps ac_simps)
  also have "\<dots> = (if m = 2 ^ 32 - 1 then 0 else m + 1)" using m by auto
  finally show ?thesis unfolding wrap_int_def next_pointer_def m_def [symmetric] by auto
qed

lemma run_cli_seeds:
  assumes "run_cli c ops s = Ok x t" and "write_pointer s = wrap_int (int j)"
  shows "write_pointer t = wrap_int (int (j + count_list ops Push)) \<and>
    (j + count_list ops Push \<le> 2 ^ 31 \<longrightarrow> (\<forall>i. i < 0 \<or> 10 \<le> i \<longrightarrow> seeds t i = seeds s i))"
  using assms
proof (induction ops arbitrary: s j)
  case Nil
  then show ?case by (simp add: return_def)
next
  case (Cons op ops)
  show ?case
  proof (cases op)
    case Push
    then obtain u where u: "pushcli c s = Ok () u" "run_cli c ops u = Ok x t"
      using Cons.prems(1) by (auto simp: bind_def split: result.splits)
    have "wp (pushcli c) (\<lambda>_ u. write_pointer u = next_pointer (write_pointer s) \<and>
      seeds u = (seeds s)(seed_index (write_pointer s) := eflags (cpus s c))) s" by (simp add: cli_defs wp_simps)
    from wp_OkD [OF this u(1)] have w: "write_pointer u = wrap_int (int (Suc j))"
      "seeds u = (seeds s)(seed_index (wrap_int (int j)) := eflags (cpus s c))"
      using Cons.prems(2) by (simp_all add: next_pointer_wrap add.commute)
    have "seeds u i = seeds s i" if "j < 2 ^ 31" "i < 0 \<or> 10 \<le> i" for i
      using that wrap_int_small [of "int j"] by (auto simp: w(2) seed_index_def)
    then show ?thesis using Cons.IH [OF u(2) w(1)] Push by simp
  next
    case Pop
    then obtain u where u: "popcli c s = Ok () u" "run_cli c ops u = Ok x t"
      using Cons.prems(1) by (auto simp: bind_def split: result.splits)
    have "write_pointer u = write_pointer s \<and> seeds u = seeds s"
      using u(1) by (auto simp: cli_defs bind_def gets_def modify_def panic_if_def panic_def return_def whenk_def split: if_splits)
    then show ?thesis using Cons.IH [OF u(2), of j] Cons.prems(2) Pop by simp
  qed
qed

text \<open>
  C16. Interrupts are turned off and on by \<^verbatim>\<open>pushcli\<close> and \<^verbatim>\<open>popcli\<close> in balanced sequences. Starting
  with \<^verbatim>\<open>write_pointer\<close> 0, a sequence with at most \<open>2 ^ 31\<close> calls of \<^verbatim>\<open>pushcli\<close> stores every value of the
  flags inside \<^verbatim>\<open>seeds[10]\<close>; after exactly that many the counter has wrapped around, and the next \<^verbatim>\<open>pushcli\<close>
  stores the flags eight entries in front of the array.
\<close>

theorem pushcli_seeds_bounds:
  assumes "balanced ops" and "cli_ok (cpus s c)" and "write_pointer s = 0" and "count_list ops Push \<le> 2 ^ 31"
  shows "wp (run_cli c ops) (\<lambda>_ t. (\<forall>i. i < 0 \<or> 10 \<le> i \<longrightarrow> seeds t i = seeds s i) \<and>
    (count_list ops Push = 2 ^ 31 \<longrightarrow>
      wp (pushcli c) (\<lambda>_ u. seeds u = (seeds t)(- 8 := eflags (cpus s c))) t)) s"
proof -
  obtain x t where t: "run_cli c ops s = Ok x t" "eflags (cpus t c) = eflags (cpus s c)"
    using run_cli_wp [OF assms(1,2)] by (auto simp: wp_Ok)
  have "write_pointer s = wrap_int (int 0)" using assms(3) by (simp add: wrap_int_def)
  from run_cli_seeds [OF t(1) this] have k: "write_pointer t = wrap_int (int (count_list ops Push))"
    "\<forall>i. i < 0 \<or> 10 \<le> i \<longrightarrow> seeds t i = seeds s i" using assms(4) by simp_all
  have "wp (pushcli c) (\<lambda>_ u. seeds u = (seeds t)(- 8 := eflags (cpus s c))) t" if "count_list ops Push = 2 ^ 31"
    using k(1) t(2) unfolding that by (simp add: cli_defs wp_simps wrap_int_def seed_index_def)
  then show ?thesis using t(1) k(2) by (simp add: wp_Ok)
qed

definition push_pops :: "nat \<Rightarrow> cliop list" where
  "push_pops n = concat (replicate n [Push, Pop])"

lemma push_pops_balanced: "balanced (push_pops n)" "count_list (push_pops n) Push = n"
proof (induction n)
  case (Suc n)
  case 1
  from b_nest [OF b_nil Suc(1)] show ?case by (simp add: push_pops_def)
qed (auto simp: push_pops_def intro: b_nil)

theorem pushcli_seeds_bounds_witness:
  "wp (run_cli 0 (push_pops (2 ^ 31))) (\<lambda>_ t. wp (pushcli 0) (\<lambda>_ u. seeds u (- 8) = FL_IF) t) demo_mach"
proof -
  have "wp (run_cli 0 (push_pops (2 ^ 31))) (\<lambda>_ t. (\<forall>i. i < 0 \<or> 10 \<le> i \<longrightarrow> seeds t i = seeds demo_mach i) \<and>
    (count_list (push_pops (2 ^ 31)) Push = 2 ^ 31 \<longrightarrow>
      wp (pushcli 0) (\<lambda>_ u. seeds u = (seeds t)(- 8 := eflags (cpus demo_mach 0))) t)) demo_mach"
    by (rule pushcli_seeds_bounds [OF push_pops_balanced(1)])
      (simp_all only: push_pops_balanced(2), simp_all add: demo_mach_def cli_ok_def)
  then show ?thesis
    by (rule wp_mono) (auto simp only: push_pops_balanced(2), rule wp_mono, assumption, simp add: demo_mach_def)
qed

end
