(* ===== verification/Proc.thy ===== *)
theory Proc
  imports File Lottery Spinlock
begin

text \<open>
  Processes (proc.c, proc.h): the process table, its operations, sleep and wakeup, and the kernel's
  whole state. The functions with a suffix \<open>_cow\<close> or \<open>_lottery\<close> are those of the builds without
  \<^verbatim>\<open>original\<close> and without \<^verbatim>\<open>lottery\<close>; the Makefile defines both macros.

  A process is named by its index in the table, \<^verbatim>\<open>proc\<close> is the field \<open>cur\<close>. The trap frame and the
  context, which lie on the kernel stack, are fields of the process. The operations hold
  \<^verbatim>\<open>ptable.lock\<close> where the code does; the lock itself is the subject of theory Spinlock.

  The components below know processes only by \<^verbatim>\<open>sleep\<close>, \<^verbatim>\<open>wakeup\<close> and \<^verbatim>\<open>proc->cwd\<close>: \<open>fs_call\<close> runs
  one of them for the current process, hands it the current directory, puts the process to sleep
  where it sleeps, and applies the wakeups it made, in order, to the table.
\<close>

section \<open>State\<close>

abbreviation NOFILE :: nat where "NOFILE \<equiv> 16"
abbreviation KSTACKSIZE :: nat where "KSTACKSIZE \<equiv> 4096"

record trapframe =
  tf_edi :: uint32
  tf_esi :: uint32
  tf_ebp :: uint32
  tf_oesp :: uint32
  tf_ebx :: uint32
  tf_edx :: uint32
  tf_ecx :: uint32
  tf_eax :: uint32
  tf_gs :: "16 word"
  tf_fs :: "16 word"
  tf_es :: "16 word"
  tf_ds :: "16 word"
  tf_trapno :: uint32
  tf_err :: uint32
  tf_eip :: uint32
  tf_cs :: "16 word"
  tf_eflags :: uint32
  tf_esp :: uint32
  tf_ss :: "16 word"

definition zero_tf :: trapframe where
  "zero_tf = \<lparr>tf_edi = 0, tf_esi = 0, tf_ebp = 0, tf_oesp = 0, tf_ebx = 0, tf_edx = 0, tf_ecx = 0, tf_eax = 0,
     tf_gs = 0, tf_fs = 0, tf_es = 0, tf_ds = 0, tf_trapno = 0, tf_err = 0, tf_eip = 0, tf_cs = 0, tf_eflags = 0,
     tf_esp = 0, tf_ss = 0\<rparr>"

text \<open>\<open>c_ret\<close> is the word above the context, the address \<^verbatim>\<open>forkret\<close> returns to.\<close>

record kcontext =
  c_edi :: uint32
  c_esi :: uint32
  c_ebx :: uint32
  c_ebp :: uint32
  c_eip :: uint32
  c_ret :: uint32

datatype procstate = UNUSED | EMBRYO | SLEEPING | RUNNABLE | RUNNING | ZOMBIE

record proc =
  p_sz :: uint32
  p_pgdir :: uint32
  p_kstack :: uint32
  p_state :: procstate
  p_pid :: int
  p_parent :: "nat option"
  p_tf :: trapframe
  p_context :: kcontext
  p_chan :: "chan option"
  p_killed :: bool
  p_ofile :: "nat \<Rightarrow> nat option"
  p_cwd :: "nat option"
  p_nice :: int
  p_tickets :: int
  p_name :: "byte list"

record procst = filest +
  procs :: "nat \<Rightarrow> proc"
  nextpid :: int
  initproc :: "nat option"
  cur :: "nat option"
  first_fork :: bool
  totalTickets :: int
  isLottery :: bool
  random_number :: uint32

text \<open>What the linker and the build put into the kernel.\<close>

record kimage =
  im_link :: linkmap
  im_forkret :: uint32
  im_trapret :: uint32
  im_initcode :: "byte list"

definition upd_proc :: "nat \<Rightarrow> (proc \<Rightarrow> proc) \<Rightarrow> 'z procst_scheme \<Rightarrow> 'z procst_scheme" where
  "upd_proc p g s = s\<lparr>procs := (procs s)(p := g (procs s p))\<rparr>"

abbreviation proc_at :: "nat \<Rightarrow> ('z procst_scheme, proc) kop" where
  "proc_at p \<equiv> gets (\<lambda>s. procs s p)"

abbreviation set_proc :: "nat \<Rightarrow> (proc \<Rightarrow> proc) \<Rightarrow> ('z procst_scheme, unit) kop" where
  "set_proc p g \<equiv> modify (upd_proc p g)"

text \<open>The current process; using \<^verbatim>\<open>proc\<close> while it is null is a fault.\<close>

definition myproc :: "('z procst_scheme, nat) kop" where
  "myproc = bind (gets cur) (\<lambda>c. case c of None \<Rightarrow> panic ''null proc'' | Some p \<Rightarrow> return p)"

section \<open>Sleep and wakeup\<close>

definition wakeup1 :: "chan \<Rightarrow> (nat \<Rightarrow> proc) \<Rightarrow> nat \<Rightarrow> proc" where
  "wakeup1 c ps p =
     (if p < NPROC \<and> p_state (ps p) = SLEEPING \<and> p_chan (ps p) = Some c then (ps p)\<lparr>p_state := RUNNABLE\<rparr> else ps p)"

definition wakeup :: "chan \<Rightarrow> ('z procst_scheme, unit) kop" where
  "wakeup c = modify (\<lambda>s. s\<lparr>procs := wakeup1 c (procs s)\<rparr>)"

text \<open>
  \<^verbatim>\<open>sched\<close> switches to the scheduler. \<open>sched_check\<close> is its four sanity checks, on processor \<open>c\<close> whose
  lock is \<^verbatim>\<open>ptable.lock\<close>.
\<close>

definition sched_check :: "nat \<Rightarrow> mach \<Rightarrow> procstate \<Rightarrow> string option" where
  "sched_check c m st =
     (if \<not> holding c m then Some ''sched ptable.lock''
      else if ncli (cpus m c) \<noteq> 1 then Some ''sched locks''
      else if st = RUNNING then Some ''sched running''
      else if eflags (cpus m c) AND FL_IF \<noteq> 0 then Some ''sched interruptible''
      else None)"

text \<open>The first half of \<^verbatim>\<open>sleep\<close>, up to the switch, and the second, after it.\<close>

definition asleep :: "chan \<Rightarrow> proc \<Rightarrow> proc" where
  "asleep c x = x\<lparr>p_chan := Some c, p_state := SLEEPING\<rparr>"

definition go_to_sleep :: "chan \<Rightarrow> 'z procst_scheme \<Rightarrow> 'z procst_scheme" where
  "go_to_sleep c s = (case cur s of None \<Rightarrow> s | Some p \<Rightarrow> upd_proc p (asleep c) s)"

definition sleep :: "chan \<Rightarrow> ('z procst_scheme, 'a) kop" where
  "sleep c =
     bind (gets cur) (\<lambda>me.
     bind (panic_if (me = None) ''sleep'') (\<lambda>_.
     bind (modify (go_to_sleep c)) (\<lambda>_.
     sleep_on c)))"

definition sleep_return :: "('z procst_scheme, unit) kop" where
  "sleep_return = bind myproc (\<lambda>me. set_proc me (\<lambda>x. x\<lparr>p_chan := None\<rparr>))"

definition deliver :: "'z procst_scheme \<Rightarrow> 'z procst_scheme" where
  "deliver s = s\<lparr>procs := fold wakeup1 (wakes s) (procs s), wakes := []\<rparr>"

definition enter_fs :: "'z procst_scheme \<Rightarrow> 'z procst_scheme" where
  "enter_fs s = s\<lparr>wakes := [],
     cwd := (case cur s of None \<Rightarrow> cwd s | Some p \<Rightarrow> case p_cwd (procs s p) of None \<Rightarrow> cwd s | Some d \<Rightarrow> d)\<rparr>"

definition fs_call :: "('z procst_scheme, 'a) kop \<Rightarrow> ('z procst_scheme, 'a) kop" where
  "fs_call m s = (case m (enter_fs s) of
     Ok x t \<Rightarrow> Ok x (deliver t)
   | Panic e \<Rightarrow> Panic e
   | Sleep c t \<Rightarrow> Sleep c (go_to_sleep c (deliver t)))"

section \<open>Creating processes\<close>

text \<open>\<^verbatim>\<open>nextpid++\<close> and ticket counts are 32-bit \<^verbatim>\<open>int\<close>s.\<close>

definition int32 :: "int \<Rightarrow> int" where
  "int32 n = (n + 2 ^ 31) mod 2 ^ 32 - 2 ^ 31"

definition embryo :: "int \<Rightarrow> proc \<Rightarrow> proc" where
  "embryo pid x = x\<lparr>p_state := EMBRYO, p_pid := pid\<rparr>"

definition find_unused :: "(nat \<Rightarrow> proc) \<Rightarrow> nat option" where
  "find_unused ps = find (\<lambda>p. p_state (ps p) = UNUSED) [0..<NPROC]"

definition allocproc :: "kimage \<Rightarrow> ('z procst_scheme, nat option) kop" where
  "allocproc im =
     bind (gets procs) (\<lambda>ps.
     case find_unused ps of
       None \<Rightarrow> return None
     | Some p \<Rightarrow>
         bind (gets nextpid) (\<lambda>pid.
         bind (modify (\<lambda>s. (upd_proc p (embryo pid) s)\<lparr>nextpid := int32 (pid + 1)\<rparr>)) (\<lambda>_.
         bind (in_vm (kalloc (l_runs (im_link im)))) (\<lambda>k.
         bind (set_proc p (\<lambda>x. x\<lparr>p_kstack := k\<rparr>)) (\<lambda>_.
         if k = 0 then bind (set_proc p (\<lambda>x. x\<lparr>p_state := UNUSED\<rparr>)) (\<lambda>_. return None)
         else
           bind (set_proc p (\<lambda>x. x\<lparr>p_context := \<lparr>c_edi = 0, c_esi = 0, c_ebx = 0, c_ebp = 0,
               c_eip = im_forkret im, c_ret = im_trapret im\<rparr>\<rparr>)) (\<lambda>_.
           return (Some p)))))))"

text \<open>\<^verbatim>\<open>getTicketAmount\<close> of a process: the tickets; an invalid nice value of the process is reset.\<close>

definition getTicketAmount :: "nat option \<Rightarrow> ('z procst_scheme, int) kop" where
  "getTicketAmount q =
     (case q of
        None \<Rightarrow> return 3
      | Some p \<Rightarrow>
          bind (proc_at p) (\<lambda>x.
          bind (set_proc p (\<lambda>y. y\<lparr>p_nice := snd (ticket_amount (p_nice x))\<rparr>)) (\<lambda>_.
          return (fst (ticket_amount (p_nice x))))))"

definition allocproc_lottery :: "kimage \<Rightarrow> ('z procst_scheme, nat option) kop" where
  "allocproc_lottery im =
     bind (allocproc im) (\<lambda>r.
     case r of
       None \<Rightarrow> return None
     | Some p \<Rightarrow>
         bind (set_proc p (\<lambda>x. x\<lparr>p_nice := 120\<rparr>)) (\<lambda>_.
         bind (gets cur) (\<lambda>me.
         bind (getTicketAmount me) (\<lambda>k.
         bind (modify (\<lambda>s. (upd_proc p (\<lambda>x. x\<lparr>p_tickets := k\<rparr>) s)\<lparr>totalTickets := int32 (totalTickets s + k)\<rparr>)) (\<lambda>_.
         return (Some p))))))"

abbreviation SEG_UCODE :: "16 word" where "SEG_UCODE \<equiv> 4"
abbreviation SEG_UDATA :: "16 word" where "SEG_UDATA \<equiv> 5"
abbreviation DPL_USER :: "16 word" where "DPL_USER \<equiv> 3"

text \<open>\<^verbatim>\<open>safestrcpy(name, s, sizeof(name))\<close>: a name has at most 15 characters.\<close>

definition set_name :: "byte list \<Rightarrow> proc \<Rightarrow> proc" where
  "set_name nm x = x\<lparr>p_name := take 15 nm\<rparr>"

definition userinit :: "kimage \<Rightarrow> 'z procst_scheme devsw \<Rightarrow> ('z procst_scheme, unit) kop" where
  "userinit im dv =
     bind (allocproc im) (\<lambda>r.
     case r of
       None \<Rightarrow> panic ''null proc''
     | Some p \<Rightarrow>
         bind (modify (\<lambda>s. s\<lparr>initproc := Some p\<rparr>)) (\<lambda>_.
         bind (in_vm (setupkvm (im_link im))) (\<lambda>d.
         bind (set_proc p (\<lambda>x. x\<lparr>p_pgdir := d\<rparr>)) (\<lambda>_.
         bind (panic_if (d = 0) ''userinit: out of memory?'') (\<lambda>_.
         bind (in_vm (inituvm (im_link im) d (im_initcode im))) (\<lambda>_.
         bind (set_proc p (\<lambda>x. x\<lparr>p_sz := of_nat PGSIZE,
           p_tf := zero_tf\<lparr>tf_cs := push_bit 3 SEG_UCODE OR DPL_USER, tf_ds := push_bit 3 SEG_UDATA OR DPL_USER,
             tf_es := push_bit 3 SEG_UDATA OR DPL_USER, tf_ss := push_bit 3 SEG_UDATA OR DPL_USER,
             tf_eflags := FL_IF, tf_esp := of_nat PGSIZE, tf_eip := 0\<rparr>\<rparr>)) (\<lambda>_.
         bind (set_proc p (set_name (cstr ''initcode''))) (\<lambda>_.
         bind (fs_call (namei dv (cstr ''/''))) (\<lambda>d.
         bind (set_proc p (\<lambda>x. x\<lparr>p_cwd := d\<rparr>)) (\<lambda>_.
         set_proc p (\<lambda>x. x\<lparr>p_state := RUNNABLE\<rparr>)))))))))))"

definition growproc :: "kimage \<Rightarrow> int \<Rightarrow> ('z procst_scheme, int) kop" where
  "growproc im n =
     bind myproc (\<lambda>me.
     bind (proc_at me) (\<lambda>x.
     bind (if n > 0 then
             bind (in_vm (allocuvm (im_link im) (p_pgdir x) (p_sz x) (p_sz x + word_of_int n))) (\<lambda>sz.
             return (if sz = 0 then None else Some sz))
           else if n < 0 then
             bind (in_vm (deallocuvm (im_link im) (p_pgdir x) (p_sz x) (p_sz x + word_of_int n))) (\<lambda>sz.
             return (if sz = 0 then None else Some sz))
           else return (Some (p_sz x))) (\<lambda>r.
     case r of
       None \<Rightarrow> return (-1)
     | Some sz \<Rightarrow>
         bind (set_proc me (\<lambda>y. y\<lparr>p_sz := sz\<rparr>)) (\<lambda>_.
         bind (in_vm (switchuvm (p_pgdir x))) (\<lambda>_.
         return 0)))))"

text \<open>The loop that copies the descriptors, and the part of \<^verbatim>\<open>fork\<close> after the address space exists.\<close>

definition dup_ofiles :: "nat \<Rightarrow> nat \<Rightarrow> ('z procst_scheme, unit) kop" where
  "dup_ofiles me np =
     for_each [0..<NOFILE] (\<lambda>i.
       bind (proc_at me) (\<lambda>x.
       case p_ofile x i of
         None \<Rightarrow> return ()
       | Some f \<Rightarrow>
           bind (filedup f) (\<lambda>g.
           set_proc np (\<lambda>y. y\<lparr>p_ofile := (p_ofile y)(i := Some g)\<rparr>))))"

definition fork_rest :: "nat \<Rightarrow> nat \<Rightarrow> ('z procst_scheme, int) kop" where
  "fork_rest me np =
     bind (proc_at me) (\<lambda>x.
     bind (set_proc np (\<lambda>y. y\<lparr>p_sz := p_sz x, p_parent := Some me, p_tf := (p_tf x)\<lparr>tf_eax := 0\<rparr>\<rparr>)) (\<lambda>_.
     bind (dup_ofiles me np) (\<lambda>_.
     bind (case p_cwd x of None \<Rightarrow> panic ''null inode'' | Some d \<Rightarrow> idup d) (\<lambda>d.
     bind (set_proc np (\<lambda>y. set_name (p_name x) (y\<lparr>p_cwd := Some d\<rparr>))) (\<lambda>_.
     bind (proc_at np) (\<lambda>y.
     bind (set_proc np (\<lambda>y. y\<lparr>p_state := RUNNABLE\<rparr>)) (\<lambda>_.
     return (p_pid y))))))))"

definition fork_fail :: "kimage \<Rightarrow> nat \<Rightarrow> ('z procst_scheme, int) kop" where
  "fork_fail im np =
     bind (proc_at np) (\<lambda>y.
     bind (in_vm (kfree (l_end (im_link im)) (p_kstack y))) (\<lambda>_.
     bind (set_proc np (\<lambda>y. y\<lparr>p_kstack := 0, p_state := UNUSED\<rparr>)) (\<lambda>_.
     return (-1))))"

definition fork :: "kimage \<Rightarrow> ('z procst_scheme, int) kop" where
  "fork im =
     bind (allocproc im) (\<lambda>r.
     case r of
       None \<Rightarrow> return (-1)
     | Some np \<Rightarrow>
         bind myproc (\<lambda>me.
         bind (proc_at me) (\<lambda>x.
         bind (in_vm (copyuvm (im_link im) (p_pgdir x) (p_sz x))) (\<lambda>d.
         bind (set_proc np (\<lambda>y. y\<lparr>p_pgdir := d\<rparr>)) (\<lambda>_.
         if d = 0 then fork_fail im np else fork_rest me np)))))"

definition fork_cow :: "kimage \<Rightarrow> ('z procst_scheme, int) kop" where
  "fork_cow im =
     bind (allocproc im) (\<lambda>r.
     case r of
       None \<Rightarrow> return (-1)
     | Some np \<Rightarrow>
         bind myproc (\<lambda>me.
         bind (proc_at me) (\<lambda>x.
         bind (in_vm (cowuvm (im_link im) (p_pgdir x) (p_sz x))) (\<lambda>d.
         bind (set_proc np (\<lambda>y. y\<lparr>p_pgdir := d\<rparr>)) (\<lambda>_.
         if d = 0 then fork_fail im np else fork_rest me np)))))"

section \<open>Ending processes\<close>

text \<open>The loop of \<^verbatim>\<open>exit\<close> that passes abandoned children to init.\<close>

fun reparent :: "nat \<Rightarrow> nat \<Rightarrow> nat list \<Rightarrow> (nat \<Rightarrow> proc) \<Rightarrow> nat \<Rightarrow> proc" where
  "reparent me ini [] ps = ps"
| "reparent me ini (p # qs) ps =
     reparent me ini qs
       (if p_parent (ps p) = Some me then
          let ps' = ps(p := (ps p)\<lparr>p_parent := Some ini\<rparr>) in
          if p_state (ps p) = ZOMBIE then wakeup1 (ChanProc ini) ps' else ps'
        else ps)"

text \<open>What \<^verbatim>\<open>exit\<close> does to the table while it holds the lock. \<^verbatim>\<open>wakeup1(0)\<close>, for a process without a
  parent, wakes nobody, as no process sleeps on a null channel.\<close>

definition exit_table :: "nat \<Rightarrow> nat \<Rightarrow> (nat \<Rightarrow> proc) \<Rightarrow> nat \<Rightarrow> proc" where
  "exit_table me ini ps =
     (let ps1 = (case p_parent (ps me) of None \<Rightarrow> ps | Some q \<Rightarrow> wakeup1 (ChanProc q) ps);
          ps2 = reparent me ini [0..<NPROC] ps1
      in ps2(me := (ps2 me)\<lparr>p_state := ZOMBIE\<rparr>))"

definition close_ofiles :: "kimage \<Rightarrow> nat \<Rightarrow> ('z procst_scheme, unit) kop" where
  "close_ofiles im me =
     for_each [0..<NOFILE] (\<lambda>fd.
       bind (proc_at me) (\<lambda>x.
       case p_ofile x fd of
         None \<Rightarrow> return ()
       | Some f \<Rightarrow>
           bind (fs_call (fileclose (im_link im) f)) (\<lambda>_.
           set_proc me (\<lambda>y. y\<lparr>p_ofile := (p_ofile y)(fd := None)\<rparr>))))"

text \<open>\<^verbatim>\<open>exit\<close> up to its \<^verbatim>\<open>sched()\<close>, from which it does not come back. \<open>lot\<close>: the lottery build.\<close>

definition exit :: "bool \<Rightarrow> kimage \<Rightarrow> ('z procst_scheme, unit) kop" where
  "exit lot im =
     bind myproc (\<lambda>me.
     bind (gets initproc) (\<lambda>ini.
     bind (panic_if (ini = Some me) ''init exiting'') (\<lambda>_.
     bind (close_ofiles im me) (\<lambda>_.
     bind (proc_at me) (\<lambda>x.
     bind (fs_call (bind begin_op (\<lambda>_.
       bind (case p_cwd x of None \<Rightarrow> panic ''null inode'' | Some d \<Rightarrow> iput d) (\<lambda>_. end_op)))) (\<lambda>_.
     bind (set_proc me (\<lambda>y. y\<lparr>p_cwd := None\<rparr>)) (\<lambda>_.
     bind (case ini of None \<Rightarrow> panic ''null proc''
           | Some i \<Rightarrow> modify (\<lambda>s. s\<lparr>procs := exit_table me i (procs s)\<rparr>)) (\<lambda>_.
     whenk lot (modify (\<lambda>s. s\<lparr>totalTickets := int32 (totalTickets s - p_tickets (procs s me))\<rparr>))))))))))"

text \<open>The scan of \<^verbatim>\<open>wait\<close>: the first zombie child, and whether there is a child.\<close>

fun wait_scan :: "(nat \<Rightarrow> proc) \<Rightarrow> nat \<Rightarrow> nat list \<Rightarrow> bool \<Rightarrow> nat option \<times> bool" where
  "wait_scan ps me [] havekids = (None, havekids)"
| "wait_scan ps me (p # qs) havekids =
     (if p_parent (ps p) \<noteq> Some me then wait_scan ps me qs havekids
      else if p_state (ps p) = ZOMBIE then (Some p, True)
      else wait_scan ps me qs True)"

definition reaped :: "proc \<Rightarrow> proc" where
  "reaped x = x\<lparr>p_kstack := 0, p_state := UNUSED, p_pid := 0, p_parent := None, p_name := [], p_killed := False\<rparr>"

definition wait :: "kimage \<Rightarrow> ('z procst_scheme, int) kop" where
  "wait im =
     bind myproc (\<lambda>me.
     bind (gets procs) (\<lambda>ps.
     case wait_scan ps me [0..<NPROC] False of
       (Some p, _) \<Rightarrow>
         bind (in_vm (kfree (l_end (im_link im)) (p_kstack (ps p)))) (\<lambda>_.
         bind (in_vm (freevm (im_link im) (p_pgdir (ps p)))) (\<lambda>_.
         bind (set_proc p reaped) (\<lambda>_.
         return (p_pid (ps p)))))
     | (None, havekids) \<Rightarrow>
         if \<not> havekids \<or> p_killed (ps me) then return (-1)
         else sleep (ChanProc me)))"

definition killed_proc :: "proc \<Rightarrow> proc" where
  "killed_proc x = x\<lparr>p_killed := True, p_state := if p_state x = SLEEPING then RUNNABLE else p_state x\<rparr>"

definition kill :: "int \<Rightarrow> ('z procst_scheme, int) kop" where
  "kill pid =
     bind (gets procs) (\<lambda>ps.
     case find (\<lambda>p. p_pid (ps p) = pid) [0..<NPROC] of
       None \<Rightarrow> return (-1)
     | Some p \<Rightarrow>
         bind (set_proc p killed_proc) (\<lambda>_.
         return 0))"

end
