(* ===== verification/Demo_Kernel.thy ===== *)
theory Demo_Kernel
  imports Content_Spec Fork_Vm Proc
begin

text \<open>
  A concrete kernel state on which the properties of processes and system calls are instantiated:
  process 0 is init, process 1 runs with one page of memory and file 0 open as descriptors 0 and 1;
  the other slots are unused.
\<close>

definition demo_ctx :: kcontext where
  "demo_ctx = \<lparr>c_edi = 0, c_esi = 0, c_ebx = 0, c_ebp = 0, c_eip = 0, c_ret = 0\<rparr>"

definition unused_proc :: proc where
  "unused_proc = \<lparr>p_sz = 0, p_pgdir = 0, p_kstack = 0, p_state = UNUSED, p_pid = 0, p_parent = None, p_tf = zero_tf,
     p_context = demo_ctx, p_chan = None, p_killed = False, p_ofile = (\<lambda>_. None), p_cwd = None, p_nice = 120,
     p_tickets = 3, p_name = []\<rparr>"

definition demo_init :: proc where
  "demo_init = unused_proc\<lparr>p_sz := 0x1000, p_pgdir := 0x80400000, p_kstack := 0x80401000, p_state := RUNNABLE, p_pid := 1,
     p_cwd := Some 2\<rparr>"

definition demo_user :: proc where
  "demo_user = unused_proc\<lparr>p_sz := 0x800, p_pgdir := page_of 1998, p_kstack := page_of 1995, p_state := RUNNING, p_pid := 2,
     p_parent := Some 0, p_tf := zero_tf\<lparr>tf_esp := 0x700\<rparr>, p_ofile := (\<lambda>_. None)(0 := Some 0, 1 := Some 0),
     p_cwd := Some 0, p_name := cstr ''sh''\<rparr>"

definition demo_kfile :: kfile where
  "demo_kfile = \<lparr>f_type = FD_NONE, f_ref = 0, f_readable = False, f_writable = False, f_pipe = 0, f_ip = 0, f_off = 0\<rparr>"

definition demo_vmst :: vmst where
  "demo_vmst = kmem.extend demo_parent (vmst.fields 0x80400000 0)"

definition demo_kernel :: procst where
  "demo_kernel = filest.extend
     (fsst.extend demo_file
       (filest.fields ((\<lambda>_. demo_kfile)(0 := demo_kfile\<lparr>f_type := FD_INODE, f_ref := 2, f_readable := True\<rparr>))
          (\<lambda>_. pipeinit (replicate PIPESIZE 0)) demo_vmst))
     (procst.fields ((\<lambda>_. unused_proc)(0 := demo_init, 1 := demo_user)) 3 (Some 0) (Some 1) False 6 False 8)"

definition demo_image :: kimage where
  "demo_image = \<lparr>im_link = demo_link, im_forkret = 0x80104000, im_trapret = 0x80105000, im_initcode = [0x90]\<rparr>"

lemmas demo_kernel_defs = demo_kernel_def filest.defs fsst.defs procst.defs

lemma demo_kernel_sel [simp]:
  "procs demo_kernel = (\<lambda>_. unused_proc)(0 := demo_init, 1 := demo_user)" "cur demo_kernel = Some 1"
  "vm demo_kernel = demo_vmst" "initproc demo_kernel = Some 0" "nextpid demo_kernel = 3" "cwd demo_kernel = cwd demo_file"
  "ftable demo_kernel = (\<lambda>_. demo_kfile)(0 := demo_kfile\<lparr>f_type := FD_INODE, f_ref := 2, f_readable := True\<rparr>)"
  "icache demo_kernel = icache demo_file" "totalTickets demo_kernel = 6"
  by (simp_all add: demo_kernel_defs)

lemma demo_vmst_sel [simp]:
  "freelist demo_vmst = freelist demo_parent" "run_next demo_vmst = run_next demo_parent" "kbytes demo_vmst = kbytes demo_parent"
  by (simp_all add: demo_vmst_def kmem.defs vmst.defs)

lemma demo_vmst_freelist: "freelist demo_parent = Some 2000" "run_next demo_parent = (\<lambda>r. if r < 3099 then Some (r + 1) else None)"
  by (simp_all add: demo_parent_def demo_vm_def Let_def)

end
