(* ===== verification/Proc_Spec.thy ===== *)
theory Proc_Spec
  imports Demo_Kernel
begin

text \<open>
  Correctness of the process table. The steps that processes and interrupt handlers make on the table
  while they hold its lock are a relation \<open>ptstep\<close>, in terms of the functions the operations of
  theory Proc are made of; they may be interleaved in any order, on any number of processors.
  \<open>making\<close> remembers which process a process in \<^verbatim>\<open>fork\<close> has allocated and not yet made runnable.

  The invariant \<open>pt_inv\<close> holds in every reachable state: nobody but init is without a living parent,
  and no process sleeps in \<^verbatim>\<open>wait\<close> that has something to return.
\<close>

section \<open>Steps on the table\<close>

record ptsys =
  tab :: "nat \<Rightarrow> proc"
  making :: "nat \<Rightarrow> nat option"

definition live :: "procstate \<Rightarrow> bool" where
  "live st \<longleftrightarrow> st = SLEEPING \<or> st = RUNNABLE \<or> st = RUNNING"

definition wait_chan :: "chan \<Rightarrow> bool" where
  "wait_chan c \<longleftrightarrow> (\<exists>p. c = ChanProc p)"

inductive ptstep :: "nat \<Rightarrow> ptsys \<Rightarrow> ptsys \<Rightarrow> bool" for ini where
  pt_alloc: "\<lbrakk>q < NPROC; p_state (tab s q) = RUNNING; making s q = None; find_unused (tab s) = Some p\<rbrakk> \<Longrightarrow>
     ptstep ini s (s\<lparr>tab := (tab s)(p := embryo pid (tab s p)), making := (making s)(q := Some p)\<rparr>)"
| pt_forked: "\<lbrakk>q < NPROC; p_state (tab s q) = RUNNING; making s q = Some p\<rbrakk> \<Longrightarrow>
     ptstep ini s (s\<lparr>tab := (tab s)(p := (tab s p)\<lparr>p_parent := Some q, p_state := RUNNABLE\<rparr>), making := (making s)(q := None)\<rparr>)"
| pt_fork_failed: "\<lbrakk>q < NPROC; p_state (tab s q) = RUNNING; making s q = Some p\<rbrakk> \<Longrightarrow>
     ptstep ini s (s\<lparr>tab := (tab s)(p := (tab s p)\<lparr>p_state := UNUSED\<rparr>), making := (making s)(q := None)\<rparr>)"
| pt_exit: "\<lbrakk>q < NPROC; p_state (tab s q) = RUNNING; making s q = None; q \<noteq> ini\<rbrakk> \<Longrightarrow>
     ptstep ini s (s\<lparr>tab := exit_table q ini (tab s)\<rparr>)"
| pt_reap: "\<lbrakk>q < NPROC; p_state (tab s q) = RUNNING; making s q = None; wait_scan (tab s) q [0..<NPROC] False = (Some p, h)\<rbrakk> \<Longrightarrow>
     ptstep ini s (s\<lparr>tab := (tab s)(p := reaped (tab s p))\<rparr>)"
| pt_wait: "\<lbrakk>q < NPROC; p_state (tab s q) = RUNNING; making s q = None;
      wait_scan (tab s) q [0..<NPROC] False = (None, True); \<not> p_killed (tab s q)\<rbrakk> \<Longrightarrow>
     ptstep ini s (s\<lparr>tab := (tab s)(q := asleep (ChanProc q) (tab s q))\<rparr>)"
| pt_sleep: "\<lbrakk>q < NPROC; p_state (tab s q) = RUNNING; making s q = None; \<not> wait_chan c\<rbrakk> \<Longrightarrow>
     ptstep ini s (s\<lparr>tab := (tab s)(q := asleep c (tab s q))\<rparr>)"
| pt_wakeup: "ptstep ini s (s\<lparr>tab := wakeup1 c (tab s)\<rparr>)"
| pt_kill: "p < NPROC \<Longrightarrow> ptstep ini s (s\<lparr>tab := (tab s)(p := killed_proc (tab s p))\<rparr>)"
| pt_run: "\<lbrakk>p < NPROC; p_state (tab s p) = RUNNABLE\<rbrakk> \<Longrightarrow>
     ptstep ini s (s\<lparr>tab := (tab s)(p := (tab s p)\<lparr>p_state := RUNNING\<rparr>)\<rparr>)"
| pt_yield: "\<lbrakk>p < NPROC; p_state (tab s p) = RUNNING\<rbrakk> \<Longrightarrow>
     ptstep ini s (s\<lparr>tab := (tab s)(p := (tab s p)\<lparr>p_state := RUNNABLE\<rparr>)\<rparr>)"
| pt_awake: "\<lbrakk>p < NPROC; p_state (tab s p) = RUNNING\<rbrakk> \<Longrightarrow>
     ptstep ini s (s\<lparr>tab := (tab s)(p := (tab s p)\<lparr>p_chan := None\<rparr>)\<rparr>)"

text \<open>At the start init is the only process.\<close>

definition pt_init :: "nat \<Rightarrow> ptsys \<Rightarrow> bool" where
  "pt_init ini s \<longleftrightarrow> ini < NPROC \<and> p_state (tab s ini) = RUNNABLE \<and> (\<forall>p. making s p = None) \<and>
     (\<forall>p<NPROC. p_parent (tab s p) = None \<and> p_chan (tab s p) = None \<and> (p \<noteq> ini \<longrightarrow> p_state (tab s p) = UNUSED))"

inductive ptreach :: "nat \<Rightarrow> ptsys \<Rightarrow> bool" for ini where
  ptr_init: "pt_init ini s \<Longrightarrow> ptreach ini s"
| ptr_step: "ptreach ini s \<Longrightarrow> ptstep ini s t \<Longrightarrow> ptreach ini t"

section \<open>The invariant\<close>

definition family_ok :: "nat \<Rightarrow> (nat \<Rightarrow> proc) \<Rightarrow> bool" where
  "family_ok ini ps \<longleftrightarrow> ini < NPROC \<and> live (p_state (ps ini)) \<and> p_parent (ps ini) = None \<and>
     (\<forall>p<NPROC. (p_state (ps p) = UNUSED \<or> p_state (ps p) = EMBRYO \<longrightarrow> p_parent (ps p) = None) \<and>
        (p \<noteq> ini \<and> p_state (ps p) \<noteq> UNUSED \<and> p_state (ps p) \<noteq> EMBRYO \<longrightarrow>
           (\<exists>q<NPROC. q \<noteq> p \<and> p_parent (ps p) = Some q \<and> live (p_state (ps q)))))"

definition wait_ok :: "(nat \<Rightarrow> proc) \<Rightarrow> nat \<Rightarrow> bool" where
  "wait_ok ps p \<longleftrightarrow> (\<forall>q. p_chan (ps p) = Some (ChanProc q) \<longrightarrow> q = p) \<and>
     (p_state (ps p) = SLEEPING \<and> p_chan (ps p) = Some (ChanProc p) \<longrightarrow> \<not> p_killed (ps p) \<and>
        (\<exists>q<NPROC. p_parent (ps q) = Some p) \<and> (\<forall>q<NPROC. p_parent (ps q) = Some p \<longrightarrow> p_state (ps q) \<noteq> ZOMBIE))"

definition making_ok :: "ptsys \<Rightarrow> bool" where
  "making_ok s \<longleftrightarrow> (\<forall>q p. making s q = Some p \<longrightarrow> p < NPROC \<and> q < NPROC \<and> p_state (tab s p) = EMBRYO \<and>
     (p_state (tab s q) = RUNNING \<or> p_state (tab s q) = RUNNABLE)) \<and>
     (\<forall>q r p. making s q = Some p \<longrightarrow> making s r = Some p \<longrightarrow> q = r)"

definition pt_inv :: "nat \<Rightarrow> ptsys \<Rightarrow> bool" where
  "pt_inv ini s \<longleftrightarrow> family_ok ini (tab s) \<and> (\<forall>p<NPROC. wait_ok (tab s) p) \<and> making_ok s"

section \<open>The loops of exit and wait\<close>

lemma wakeup1_fields [simp]:
  "p_parent (wakeup1 c ps p) = p_parent (ps p)" "p_chan (wakeup1 c ps p) = p_chan (ps p)"
  "p_killed (wakeup1 c ps p) = p_killed (ps p)" "p_pid (wakeup1 c ps p) = p_pid (ps p)"
  by (simp_all add: wakeup1_def)

lemma wakeup1_state:
  "p_state (wakeup1 c ps p) = (if p < NPROC \<and> p_state (ps p) = SLEEPING \<and> p_chan (ps p) = Some c then RUNNABLE else p_state (ps p))"
  by (simp add: wakeup1_def)

lemma reparent_fields [simp]:
  "p_chan (reparent me ini qs ps p) = p_chan (ps p)" "p_killed (reparent me ini qs ps p) = p_killed (ps p)"
  by (induction qs arbitrary: ps) (simp_all add: Let_def)

lemma reparent_parent:
  "me \<noteq> ini \<Longrightarrow> p_parent (reparent me ini qs ps p) = (if p \<in> set qs \<and> p_parent (ps p) = Some me then Some ini else p_parent (ps p))"
  by (induction qs arbitrary: ps) (auto simp: Let_def)

lemma reparent_state:
  "me \<noteq> ini \<Longrightarrow> p_state (reparent me ini qs ps p) =
    (if p < NPROC \<and> p_state (ps p) = SLEEPING \<and> p_chan (ps p) = Some (ChanProc ini) \<and>
        (\<exists>q\<in>set qs. p_parent (ps q) = Some me \<and> p_state (ps q) = ZOMBIE) then RUNNABLE else p_state (ps p))"
proof (induction qs arbitrary: ps)
  case (Cons q qs)
  show ?case
    using Cons.prems by (simp add: Cons.IH Let_def) (auto simp: wakeup1_state)
qed simp

lemma wait_scan_found:
  "wait_scan ps me qs h = (Some p, h') \<Longrightarrow> p \<in> set qs \<and> p_parent (ps p) = Some me \<and> p_state (ps p) = ZOMBIE"
  by (induction qs arbitrary: h) (auto split: if_splits)

lemma wait_scan_none:
  "wait_scan ps me qs h = (None, h') \<Longrightarrow> (\<forall>q\<in>set qs. p_parent (ps q) = Some me \<longrightarrow> p_state (ps q) \<noteq> ZOMBIE) \<and>
     h' = (h \<or> (\<exists>q\<in>set qs. p_parent (ps q) = Some me))"
  by (induction qs arbitrary: h) (auto split: if_splits)

lemma exit_table_fields [simp]:
  "p_chan (exit_table me ini ps p) = p_chan (ps p)" "p_killed (exit_table me ini ps p) = p_killed (ps p)"
  by (simp_all add: exit_table_def Let_def split: option.split)

lemma exit_table_parent:
  "me \<noteq> ini \<Longrightarrow> p_parent (exit_table me ini ps p) = (if p < NPROC \<and> p_parent (ps p) = Some me then Some ini else p_parent (ps p))"
  by (simp add: exit_table_def Let_def reparent_parent del: upt_rec_numeral split: option.split)

lemma exit_table_state:
  "me \<noteq> ini \<Longrightarrow> p_state (exit_table me ini ps p) =
    (if p = me then ZOMBIE
     else if p < NPROC \<and> p_state (ps p) = SLEEPING \<and>
        ((\<exists>q. p_parent (ps me) = Some q \<and> p_chan (ps p) = Some (ChanProc q)) \<or>
         p_chan (ps p) = Some (ChanProc ini) \<and> (\<exists>q<NPROC. p_parent (ps q) = Some me \<and> p_state (ps q) = ZOMBIE))
       then RUNNABLE else p_state (ps p))"
  by (auto simp: exit_table_def Let_def reparent_state wakeup1_state Bex_def Ball_def simp del: upt_rec_numeral split: option.split)
    (drule_tac x = q in spec, simp)

section \<open>Preservation\<close>

lemma find_unused_Some: "find_unused ps = Some p \<Longrightarrow> p < NPROC \<and> p_state (ps p) = UNUSED"
  by (auto simp: find_unused_def find_Some_iff)

lemmas live_simps = live_def embryo_def asleep_def killed_proc_def reaped_def

lemma upt_NPROC: "q \<in> set [0..<NPROC] \<longleftrightarrow> q < NPROC"
  by (simp del: upt_rec_numeral)

lemma family_orphan: "family_ok ini ps \<Longrightarrow> p < NPROC \<Longrightarrow> p_state (ps p) = UNUSED \<or> p_state (ps p) = EMBRYO \<Longrightarrow> p_parent (ps p) = None"
  unfolding family_ok_def by blast

lemma family_parent:
  assumes "family_ok ini ps" and "p < NPROC" and "p \<noteq> ini" and "p_state (ps p) \<noteq> UNUSED" and "p_state (ps p) \<noteq> EMBRYO"
  obtains q where "q < NPROC" and "q \<noteq> p" and "p_parent (ps p) = Some q" and "live (p_state (ps q))"
  using assms by (auto simp: family_ok_def)

lemma family_init: "family_ok ini ps \<Longrightarrow> ini < NPROC \<and> live (p_state (ps ini)) \<and> p_parent (ps ini) = None"
  by (simp add: family_ok_def)

text \<open>A change of the table that keeps parents and who is alive keeps the families.\<close>

lemma family_ok_same:
  assumes "family_ok ini ps" and "\<And>p. p < NPROC \<Longrightarrow> p_parent (qs p) = p_parent (ps p)"
    and "\<And>p. p < NPROC \<Longrightarrow> live (p_state (qs p)) \<longleftrightarrow> live (p_state (ps p))"
    and "\<And>p. p < NPROC \<Longrightarrow> \<not> live (p_state (ps p)) \<Longrightarrow> p_state (qs p) = p_state (ps p)"
  shows "family_ok ini qs"
proof -
  have u: "p_state (qs p) = UNUSED \<or> p_state (qs p) = EMBRYO \<longleftrightarrow> p_state (ps p) = UNUSED \<or> p_state (ps p) = EMBRYO" if "p < NPROC" for p
    using assms(3,4) [OF that] by (cases "p_state (ps p)"; cases "p_state (qs p)") (auto simp: live_def)
  show ?thesis
    unfolding family_ok_def
  proof (intro conjI allI impI)
    show "ini < NPROC" "live (p_state (qs ini))" "p_parent (qs ini) = None"
      using assms by (auto simp: family_ok_def)
    fix p assume p: "p < NPROC"
    show "p_parent (qs p) = None" if "p_state (qs p) = UNUSED \<or> p_state (qs p) = EMBRYO"
      using that u [OF p] assms(1,2) p unfolding family_ok_def by metis
    show "\<exists>q<NPROC. q \<noteq> p \<and> p_parent (qs p) = Some q \<and> live (p_state (qs q))"
      if "p \<noteq> ini \<and> p_state (qs p) \<noteq> UNUSED \<and> p_state (qs p) \<noteq> EMBRYO"
      using that u [OF p] assms(1,2,3) p unfolding family_ok_def by metis
  qed
qed

text \<open>So does the birth of a process, and the end of one whose children are passed on.\<close>

lemma family_ok_dead:
  assumes "family_ok ini ps" and "p < NPROC" and "\<not> live (p_state (ps p))" and "\<not> live (p_state x)" and "p_state x \<noteq> ZOMBIE"
    and "p_parent x = None"
  shows "family_ok ini (ps(p := x))"
  using assms unfolding family_ok_def live_def by (auto split: if_splits) (metis procstate.exhaust)+

lemma family_ok_born:
  assumes "family_ok ini ps" and "p < NPROC" and "p_state (ps p) = EMBRYO" and "q < NPROC" and "live (p_state (ps q))"
    and "live (p_state x)" and "p_parent x = Some q"
  shows "family_ok ini (ps(p := x))"
proof -
  have ne: "q \<noteq> p" "p \<noteq> ini" using assms by (auto simp: live_def family_ok_def)
  show ?thesis
    unfolding family_ok_def
  proof (intro conjI allI impI)
    show "ini < NPROC" "live (p_state ((ps(p := x)) ini))" "p_parent ((ps(p := x)) ini) = None"
      using assms(1) ne by (auto simp: family_ok_def)
    fix r assume r: "r < NPROC"
    show "p_parent ((ps(p := x)) r) = None" if "p_state ((ps(p := x)) r) = UNUSED \<or> p_state ((ps(p := x)) r) = EMBRYO"
    proof (cases "r = p")
      case True
      then show ?thesis using that assms(6) by (auto simp: live_def)
    next
      case False
      then show ?thesis using that family_orphan [OF assms(1) r] by simp
    qed
    show "\<exists>q<NPROC. q \<noteq> r \<and> p_parent ((ps(p := x)) r) = Some q \<and> live (p_state ((ps(p := x)) q))"
      if st: "r \<noteq> ini \<and> p_state ((ps(p := x)) r) \<noteq> UNUSED \<and> p_state ((ps(p := x)) r) \<noteq> EMBRYO"
    proof (cases "r = p")
      case True
      then show ?thesis using assms ne by (intro exI [of _ q]) auto
    next
      case False
      then obtain k where k: "k < NPROC" "k \<noteq> r" "p_parent (ps r) = Some k" "live (p_state (ps k))"
        using st by (auto intro: family_parent [OF assms(1) r])
      then have "k \<noteq> p" using assms(3) by (auto simp: live_def)
      then show ?thesis using k False by (intro exI [of _ k]) auto
    qed
  qed
qed

lemma family_ok_exit:
  assumes fam: "family_ok ini ps" and q: "q < NPROC" "live (p_state (ps q))" "q \<noteq> ini"
  shows "family_ok ini (exit_table q ini ps)"
proof -
  note st = exit_table_state [OF q(3), of ps] and par = exit_table_parent [OF q(3), of ps]
  have keep: "live (p_state (exit_table q ini ps p)) \<longleftrightarrow> live (p_state (ps p))" if "p \<noteq> q" for p
    using that by (simp add: st live_def)
  show ?thesis
    unfolding family_ok_def
  proof (intro conjI allI impI)
    show "ini < NPROC" "live (p_state (exit_table q ini ps ini))" "p_parent (exit_table q ini ps ini) = None"
      using family_init [OF fam] keep [of ini] q by (simp_all add: par)
    fix p assume p: "p < NPROC"
    show "p_parent (exit_table q ini ps p) = None"
      if "p_state (exit_table q ini ps p) = UNUSED \<or> p_state (exit_table q ini ps p) = EMBRYO"
    proof -
      have "p \<noteq> q" using that by (auto simp: st)
      then have "p_state (ps p) = UNUSED \<or> p_state (ps p) = EMBRYO" using that by (auto simp: st split: if_splits)
      then show ?thesis using family_orphan [OF fam p] by (simp add: par)
    qed
    show "\<exists>r<NPROC. r \<noteq> p \<and> p_parent (exit_table q ini ps p) = Some r \<and> live (p_state (exit_table q ini ps r))"
      if s: "p \<noteq> ini \<and> p_state (exit_table q ini ps p) \<noteq> UNUSED \<and> p_state (exit_table q ini ps p) \<noteq> EMBRYO"
    proof -
      have "p_state (ps p) \<noteq> UNUSED" "p_state (ps p) \<noteq> EMBRYO" using s q(2) by (auto simp: st live_def split: if_splits)
      then obtain r where r: "r < NPROC" "r \<noteq> p" "p_parent (ps p) = Some r" "live (p_state (ps r))"
        using s by (auto intro: family_parent [OF fam p])
      show ?thesis
      proof (cases "r = q")
        case True
        then show ?thesis using family_init [OF fam] keep [of ini] s p r q by (intro exI [of _ ini]) (auto simp: par)
      next
        case False
        then show ?thesis using r keep [of r] p by (intro exI [of _ r]) (auto simp: par)
      qed
    qed
  qed
qed

text \<open>A change of process \<open>p\<close> alone, as seen by the sleepers in \<^verbatim>\<open>wait\<close>.\<close>

lemma wait_ok_upd:
  assumes "wait_ok ps r" and "r \<noteq> p"
    and "p_parent x = p_parent (ps p) \<and> (p_state x = ZOMBIE \<longrightarrow> p_state (ps p) = ZOMBIE) \<or> p_parent x \<noteq> Some r \<and> p_parent (ps p) \<noteq> Some r"
  shows "wait_ok (ps(p := x)) r"
  using assms unfolding wait_ok_def by (auto split: if_splits)

lemma wait_ok_awake: "p_state (ps p) \<noteq> SLEEPING \<Longrightarrow> wait_ok ps p \<longleftrightarrow> (\<forall>q. p_chan (ps p) = Some (ChanProc q) \<longrightarrow> q = p)"
  by (auto simp: wait_ok_def)

lemma wait_okD: "wait_ok ps p \<Longrightarrow> p_chan (ps p) = Some (ChanProc q) \<Longrightarrow> q = p"
  by (simp add: wait_ok_def)

lemma wait_ok_awakeI: "wait_ok ps r \<Longrightarrow> p_state (qs r) \<noteq> SLEEPING \<Longrightarrow> p_chan (qs r) = p_chan (ps r) \<Longrightarrow> wait_ok qs r"
  by (simp add: wait_ok_def)

lemma wait_ok_exit:
  assumes fam: "family_ok ini ps" and w: "\<forall>p<NPROC. wait_ok ps p" and q: "q < NPROC" "live (p_state (ps q))" "q \<noteq> ini" and r: "r < NPROC"
  shows "wait_ok (exit_table q ini ps) r"
proof -
  note st = exit_table_state [OF q(3), of ps] and par = exit_table_parent [OF q(3), of ps]
  have wr: "wait_ok ps r" using w r by blast
  show ?thesis
    unfolding wait_ok_def
  proof (intro conjI allI impI)
    fix c assume "p_chan (exit_table q ini ps r) = Some (ChanProc c)"
    then show "c = r" using wait_okD [OF wr] by simp
  next
    assume "p_state (exit_table q ini ps r) = SLEEPING \<and> p_chan (exit_table q ini ps r) = Some (ChanProc r)"
    then have s: "r \<noteq> q" "p_state (ps r) = SLEEPING" "p_chan (ps r) = Some (ChanProc r)" "p_parent (ps q) \<noteq> Some r"
      "r = ini \<Longrightarrow> \<forall>c<NPROC. p_parent (ps c) = Some q \<longrightarrow> p_state (ps c) \<noteq> ZOMBIE"
      using r by (auto simp: st split: if_splits)
    then have d: "\<not> p_killed (ps r)" "\<exists>c<NPROC. p_parent (ps c) = Some r"
      "\<forall>c<NPROC. p_parent (ps c) = Some r \<longrightarrow> p_state (ps c) \<noteq> ZOMBIE" using wr by (auto simp: wait_ok_def)
    show "\<not> p_killed (exit_table q ini ps r)" using d by simp
    from d(2) obtain b where "b < NPROC" "p_parent (ps b) = Some r" by blast
    then show "\<exists>c<NPROC. p_parent (exit_table q ini ps c) = Some r" using s(1) by (intro exI [of _ b]) (simp add: par)
    fix c assume c: "c < NPROC" "p_parent (exit_table q ini ps c) = Some r"
    obtain k where k: "k \<noteq> q" "p_parent (ps q) = Some k"
      using q by (auto simp: live_def intro: family_parent [OF fam q(1,3)])
    show "p_state (exit_table q ini ps c) \<noteq> ZOMBIE"
    proof (cases "p_parent (ps c) = Some q")
      case True
      then have "r = ini" "c \<noteq> q" using c k by (simp_all add: par) force
      then show ?thesis using s(5) True c by (simp add: st)
    next
      case False
      then have "p_parent (ps c) = Some r" using c by (simp add: par)
      then show ?thesis using d(3) c s(4) by (auto simp: st)
    qed
  qed
qed

lemma making_okD:
  assumes "making_ok s" and "making s q = Some p"
  shows "p < NPROC" "p_state (tab s p) = EMBRYO" "p_state (tab s q) = RUNNING \<or> p_state (tab s q) = RUNNABLE" "q < NPROC"
  using assms unfolding making_ok_def by blast+

lemma making_inj: "making_ok s \<Longrightarrow> making s q = Some p \<Longrightarrow> making s r = Some p \<Longrightarrow> q = r"
  unfolding making_ok_def by blast

lemma making_okI:
  assumes "\<And>q p. making s q = Some p \<Longrightarrow> p < NPROC \<and> q < NPROC \<and> p_state (tab s p) = EMBRYO \<and> (p_state (tab s q) = RUNNING \<or> p_state (tab s q) = RUNNABLE)"
    and "\<And>q r p. making s q = Some p \<Longrightarrow> making s r = Some p \<Longrightarrow> q = r"
  shows "making_ok s"
  using assms unfolding making_ok_def by blast

lemma making_ok_upd:
  assumes "making_ok s" and "\<And>r p. making s r = Some p \<Longrightarrow> p_state (qs p) = EMBRYO"
    and "\<And>r p. making s r = Some p \<Longrightarrow> p_state (qs r) = RUNNING \<or> p_state (qs r) = RUNNABLE"
  shows "making_ok (s\<lparr>tab := qs\<rparr>)"
  using assms unfolding making_ok_def by auto

text \<open>The common case: one process changes its state or channel and stays alive.\<close>

lemma pt_inv_upd:
  assumes inv: "pt_inv ini s" and p: "p < NPROC" "p_parent x = p_parent (tab s p)"
    and st: "p_state x = p_state (tab s p) \<or> live (p_state x) \<and> live (p_state (tab s p))"
    and w: "wait_ok ((tab s)(p := x)) p" and m: "making s p \<noteq> None \<longrightarrow> p_state x \<noteq> SLEEPING"
  shows "pt_inv ini (s\<lparr>tab := (tab s)(p := x)\<rparr>)"
proof -
  have i: "family_ok ini (tab s)" "\<forall>p<NPROC. wait_ok (tab s) p" "making_ok s" using inv by (auto simp: pt_inv_def)
  have "family_ok ini ((tab s)(p := x))" by (rule family_ok_same [OF i(1)]) (use p st in auto)
  moreover have "wait_ok ((tab s)(p := x)) r" if "r < NPROC" for r
  proof (cases "r = p")
    case False
    then show ?thesis using i(2) that p st by (intro wait_ok_upd) (auto simp: live_def)
  qed (use w in simp)
  moreover have "making_ok (s\<lparr>tab := (tab s)(p := x)\<rparr>)"
  proof (rule making_ok_upd [OF i(3)])
    fix r e assume e: "making s r = Some e"
    note d = making_okD [OF i(3) e]
    show "p_state (((tab s)(p := x)) e) = EMBRYO" using d(2) st by (cases "e = p") (auto simp: live_def)
    show "p_state (((tab s)(p := x)) r) = RUNNING \<or> p_state (((tab s)(p := x)) r) = RUNNABLE"
      using d(3) st m e by (cases "r = p") (auto simp: live_def)
  qed
  ultimately show ?thesis by (simp add: pt_inv_def)
qed

lemma pt_inv_alloc:
  assumes inv: "pt_inv ini s" and q: "q < NPROC" "p_state (tab s q) = RUNNING" "making s q = None" and p: "find_unused (tab s) = Some p"
  shows "pt_inv ini (s\<lparr>tab := (tab s)(p := embryo pid (tab s p)), making := (making s)(q := Some p)\<rparr>)"
proof -
  have i: "family_ok ini (tab s)" "\<forall>p<NPROC. wait_ok (tab s) p" "making_ok s" using inv by (auto simp: pt_inv_def)
  have u: "p < NPROC" "p_state (tab s p) = UNUSED" using find_unused_Some [OF p] by auto
  have "family_ok ini ((tab s)(p := embryo pid (tab s p)))"
    using u family_orphan [OF i(1) u(1)] by (intro family_ok_dead [OF i(1)]) (auto simp: live_simps)
  moreover have "wait_ok ((tab s)(p := embryo pid (tab s p))) r" if "r < NPROC" for r
  proof -
    have wr: "wait_ok (tab s) r" using i(2) that by blast
    show ?thesis
    proof (cases "r = p")
      case True
      then show ?thesis by (intro wait_ok_awakeI [OF wr]) (simp_all add: embryo_def)
    next
      case False
      then show ?thesis by (intro wait_ok_upd [OF wr]) (simp_all add: embryo_def)
    qed
  qed
  moreover have "making_ok (s\<lparr>tab := (tab s)(p := embryo pid (tab s p)), making := (making s)(q := Some p)\<rparr>)"
  proof (rule making_okI)
    let ?t = "s\<lparr>tab := (tab s)(p := embryo pid (tab s p)), making := (making s)(q := Some p)\<rparr>"
    have old: "making s r = Some e \<and> e \<noteq> p \<and> r \<noteq> p" if "making ?t r = Some e" "r \<noteq> q" for r e
      using that u making_okD [OF i(3), of r e] by auto
    show "e < NPROC \<and> r < NPROC \<and> p_state (tab ?t e) = EMBRYO \<and> (p_state (tab ?t r) = RUNNING \<or> p_state (tab ?t r) = RUNNABLE)"
      if "making ?t r = Some e" for r e
    proof (cases "r = q")
      case True
      then show ?thesis using that u q by (auto simp: embryo_def)
    next
      case False
      then show ?thesis using old [OF that] making_okD [OF i(3), of r e] by simp
    qed
    have new: "e = p" if "making ?t q = Some e" for e using that by simp
    show "r = k" if "making ?t r = Some e" "making ?t k = Some e" for r k e
    proof (cases "r = q \<or> k = q")
      case True
      then show ?thesis using that new old by metis
    next
      case False
      then show ?thesis using old [OF that(1)] old [OF that(2)] making_inj [OF i(3)] by blast
    qed
  qed
  ultimately show ?thesis by (simp add: pt_inv_def)
qed

text \<open>The end of \<^verbatim>\<open>fork\<close>: the new process gets its parent, or its slot is given back.\<close>

lemma pt_inv_made:
  assumes inv: "pt_inv ini s" and q: "q < NPROC" "p_state (tab s q) = RUNNING" "making s q = Some p"
    and x: "p_parent x = Some q \<and> p_state x = RUNNABLE \<or> p_parent x = p_parent (tab s p) \<and> p_state x = UNUSED"
      "p_chan x = p_chan (tab s p)"
  shows "pt_inv ini (s\<lparr>tab := (tab s)(p := x), making := (making s)(q := None)\<rparr>)"
proof -
  have i: "family_ok ini (tab s)" "\<forall>p<NPROC. wait_ok (tab s) p" "making_ok s" using inv by (auto simp: pt_inv_def)
  have u: "p < NPROC" "p_state (tab s p) = EMBRYO" using making_okD [OF i(3) q(3)] by auto
  note orphan = family_orphan [OF i(1) u(1)]
  have "family_ok ini ((tab s)(p := x))"
  proof (cases "p_state x = UNUSED")
    case True
    then show ?thesis using x u orphan by (intro family_ok_dead [OF i(1)]) (auto simp: live_def)
  next
    case False
    then show ?thesis using x u q by (intro family_ok_born [OF i(1) u q(1)]) (auto simp: live_def)
  qed
  moreover have "wait_ok ((tab s)(p := x)) r" if "r < NPROC" for r
  proof -
    have wr: "wait_ok (tab s) r" using i(2) that by blast
    show ?thesis
    proof (cases "r = p \<or> r = q")
      case True
      then have "p_state (((tab s)(p := x)) r) \<noteq> SLEEPING" using x u q by auto
      then show ?thesis using x(2) by (intro wait_ok_awakeI [OF wr]) simp_all
    next
      case False
      then show ?thesis using x orphan u by (intro wait_ok_upd [OF wr]) auto
    qed
  qed
  moreover have "making_ok (s\<lparr>tab := (tab s)(p := x), making := (making s)(q := None)\<rparr>)"
  proof (rule making_okI)
    let ?t = "s\<lparr>tab := (tab s)(p := x), making := (making s)(q := None)\<rparr>"
    have old: "making s r = Some e \<and> e \<noteq> p \<and> r \<noteq> p" if "making ?t r = Some e" for r e
    proof -
      have r: "making s r = Some e" "r \<noteq> q" using that by (auto split: if_splits)
      then have "e \<noteq> p" using making_inj [OF i(3) q(3)] by auto
      then show ?thesis using r u making_okD(3) [OF i(3) r(1)] by auto
    qed
    show "e < NPROC \<and> r < NPROC \<and> p_state (tab ?t e) = EMBRYO \<and> (p_state (tab ?t r) = RUNNING \<or> p_state (tab ?t r) = RUNNABLE)"
      if "making ?t r = Some e" for r e using old [OF that] making_okD [OF i(3), of r e] by simp
    show "r = k" if "making ?t r = Some e" "making ?t k = Some e" for r k e
      using old [OF that(1)] old [OF that(2)] making_inj [OF i(3)] by blast
  qed
  ultimately show ?thesis by (simp add: pt_inv_def)
qed

lemma pt_inv_reap:
  assumes inv: "pt_inv ini s" and q: "q < NPROC" "p_state (tab s q) = RUNNING"
    and p: "wait_scan (tab s) q [0..<NPROC] False = (Some p, h)"
  shows "pt_inv ini (s\<lparr>tab := (tab s)(p := reaped (tab s p))\<rparr>)"
proof -
  have i: "family_ok ini (tab s)" "\<forall>p<NPROC. wait_ok (tab s) p" "making_ok s" using inv by (auto simp: pt_inv_def)
  have z: "p < NPROC" "p_parent (tab s p) = Some q" "p_state (tab s p) = ZOMBIE"
    using wait_scan_found [OF p] by (auto simp: upt_NPROC)
  have "family_ok ini ((tab s)(p := reaped (tab s p)))"
    using z by (intro family_ok_dead [OF i(1)]) (auto simp: live_simps)
  moreover have "wait_ok ((tab s)(p := reaped (tab s p))) r" if "r < NPROC" for r
  proof -
    have wr: "wait_ok (tab s) r" using i(2) that by blast
    show ?thesis
    proof (cases "r = p \<or> r = q")
      case True
      then have "p_state (((tab s)(p := reaped (tab s p))) r) \<noteq> SLEEPING" using z q by (auto simp: reaped_def)
      then show ?thesis by (intro wait_ok_awakeI [OF wr]) (simp_all add: reaped_def)
    next
      case False
      then show ?thesis using z by (intro wait_ok_upd [OF wr]) (simp_all add: reaped_def)
    qed
  qed
  moreover have "making_ok (s\<lparr>tab := (tab s)(p := reaped (tab s p))\<rparr>)"
  proof (rule making_ok_upd [OF i(3)])
    fix r e assume e: "making s r = Some e"
    note d = making_okD [OF i(3) e]
    show "p_state (((tab s)(p := reaped (tab s p))) e) = EMBRYO" using d(2) z by (cases "e = p") auto
    show "p_state (((tab s)(p := reaped (tab s p))) r) = RUNNING \<or> p_state (((tab s)(p := reaped (tab s p))) r) = RUNNABLE"
      using d(3) z by (cases "r = p") auto
  qed
  ultimately show ?thesis by (simp add: pt_inv_def)
qed

lemma pt_inv_exit:
  assumes inv: "pt_inv ini s" and q: "q < NPROC" "p_state (tab s q) = RUNNING" "making s q = None" "q \<noteq> ini"
  shows "pt_inv ini (s\<lparr>tab := exit_table q ini (tab s)\<rparr>)"
proof -
  have i: "family_ok ini (tab s)" "\<forall>p<NPROC. wait_ok (tab s) p" "making_ok s" using inv by (auto simp: pt_inv_def)
  have l: "live (p_state (tab s q))" using q(2) by (simp add: live_def)
  have "making_ok (s\<lparr>tab := exit_table q ini (tab s)\<rparr>)"
  proof (rule making_ok_upd [OF i(3)])
    fix r e assume e: "making s r = Some e"
    note d = making_okD [OF i(3) e]
    have "e \<noteq> q" "r \<noteq> q" using d(2) q e by auto
    then show "p_state (exit_table q ini (tab s) e) = EMBRYO"
      "p_state (exit_table q ini (tab s) r) = RUNNING \<or> p_state (exit_table q ini (tab s) r) = RUNNABLE"
      using d(2,3) by (simp_all add: exit_table_state [OF q(4)])
  qed
  then show ?thesis
    using family_ok_exit [OF i(1) q(1) l q(4)] wait_ok_exit [OF i(1,2) q(1) l q(4)] by (simp add: pt_inv_def)
qed

lemma pt_inv_wakeup:
  assumes inv: "pt_inv ini s"
  shows "pt_inv ini (s\<lparr>tab := wakeup1 c (tab s)\<rparr>)"
proof -
  have i: "family_ok ini (tab s)" "\<forall>p<NPROC. wait_ok (tab s) p" "making_ok s" using inv by (auto simp: pt_inv_def)
  have "family_ok ini (wakeup1 c (tab s))" by (rule family_ok_same [OF i(1)]) (simp_all add: wakeup1_state live_def)
  moreover have "wait_ok (wakeup1 c (tab s)) r" if "r < NPROC" for r
  proof -
    have wr: "wait_ok (tab s) r" using i(2) that by blast
    have z: "p_state (wakeup1 c (tab s) q) = ZOMBIE \<longleftrightarrow> p_state (tab s q) = ZOMBIE" for q by (simp add: wakeup1_state)
    show ?thesis
    proof (cases "p_state (wakeup1 c (tab s) r) = SLEEPING")
      case True
      then have "p_state (tab s r) = SLEEPING" by (simp add: wakeup1_state split: if_splits)
      then show ?thesis using wr unfolding wait_ok_def z wakeup1_fields by blast
    next
      case False
      then show ?thesis by (intro wait_ok_awakeI [OF wr]) simp_all
    qed
  qed
  moreover have "making_ok (s\<lparr>tab := wakeup1 c (tab s)\<rparr>)"
  proof (rule making_ok_upd [OF i(3)])
    fix r e assume "making s r = Some e"
    note d = making_okD [OF i(3) this]
    show "p_state (wakeup1 c (tab s) e) = EMBRYO" "p_state (wakeup1 c (tab s) r) = RUNNING \<or> p_state (wakeup1 c (tab s) r) = RUNNABLE"
      using d(2,3) by (simp_all add: wakeup1_state)
  qed
  ultimately show ?thesis by (simp add: pt_inv_def)
qed

lemma ptstep_inv:
  assumes "ptstep ini s t" and inv: "pt_inv ini s"
  shows "pt_inv ini t"
  using assms(1)
proof cases
  case (pt_alloc q p pid)
  then show ?thesis using pt_inv_alloc [OF inv] by simp
next
  case (pt_forked q p)
  then show ?thesis using pt_inv_made [OF inv pt_forked(2-4)] by simp
next
  case (pt_fork_failed q p)
  then show ?thesis using pt_inv_made [OF inv pt_fork_failed(2-4)] by simp
next
  case (pt_exit q)
  then show ?thesis using pt_inv_exit [OF inv] by simp
next
  case (pt_reap q p h)
  then show ?thesis using pt_inv_reap [OF inv] by simp
next
  case (pt_wait q)
  have n: "(\<forall>c<NPROC. p_parent (tab s c) = Some q \<longrightarrow> p_state (tab s c) \<noteq> ZOMBIE) \<and> (\<exists>c<NPROC. p_parent (tab s c) = Some q)"
    using wait_scan_none [OF pt_wait(5)] by (auto simp: upt_NPROC)
  then have "wait_ok ((tab s)(q := asleep (ChanProc q) (tab s q))) q"
    using pt_wait(6) unfolding wait_ok_def by (auto simp: asleep_def)
  then show ?thesis
    unfolding pt_wait(1) using pt_wait by (intro pt_inv_upd [OF inv]) (simp_all add: asleep_def live_def)
next
  case (pt_sleep q c)
  then have "wait_ok ((tab s)(q := asleep c (tab s q))) q" by (auto simp: wait_ok_def asleep_def wait_chan_def)
  then show ?thesis
    unfolding pt_sleep(1) using pt_sleep by (intro pt_inv_upd [OF inv]) (simp_all add: asleep_def live_def)
next
  case (pt_wakeup c)
  then show ?thesis using pt_inv_wakeup [OF inv] by simp
next
  case (pt_kill p)
  have w: "wait_ok (tab s) p" using inv pt_kill(2) unfolding pt_inv_def by blast
  have "wait_ok ((tab s)(p := killed_proc (tab s p))) p"
    by (rule wait_ok_awakeI [OF w]) (simp_all add: killed_proc_def)
  then show ?thesis
    unfolding pt_kill(1) using pt_kill by (intro pt_inv_upd [OF inv]) (simp_all add: killed_proc_def live_def)
next
  case (pt_run p)
  have w: "wait_ok (tab s) p" using inv pt_run(2) unfolding pt_inv_def by blast
  have "wait_ok ((tab s)(p := (tab s p)\<lparr>p_state := RUNNING\<rparr>)) p" by (rule wait_ok_awakeI [OF w]) simp_all
  then show ?thesis unfolding pt_run(1) using pt_run by (intro pt_inv_upd [OF inv]) (simp_all add: live_def)
next
  case (pt_yield p)
  have w: "wait_ok (tab s) p" using inv pt_yield(2) unfolding pt_inv_def by blast
  have "wait_ok ((tab s)(p := (tab s p)\<lparr>p_state := RUNNABLE\<rparr>)) p" by (rule wait_ok_awakeI [OF w]) simp_all
  then show ?thesis unfolding pt_yield(1) using pt_yield by (intro pt_inv_upd [OF inv]) (simp_all add: live_def)
next
  case (pt_awake p)
  then have "wait_ok ((tab s)(p := (tab s p)\<lparr>p_chan := None\<rparr>)) p" by (simp add: wait_ok_def)
  then show ?thesis unfolding pt_awake(1) using pt_awake by (intro pt_inv_upd [OF inv]) (simp_all add: live_def)
qed

lemma ptreach_inv: "ptreach ini s \<Longrightarrow> pt_inv ini s"
proof (induction rule: ptreach.induct)
  case (ptr_init s)
  then show ?case by (auto simp: pt_init_def pt_inv_def family_ok_def wait_ok_def making_ok_def live_def)
next
  case (ptr_step s t)
  then show ?case using ptstep_inv by blast
qed

text \<open>
  C26. However forks, exits, waits, kills, sleeps, wakeups and switches are interleaved: init never
  ends; every other process, zombies included, has a parent that is alive and can wait for it; and a
  process asleep in \<^verbatim>\<open>wait\<close> has not been killed and has a child but none that is a zombie, so that the
  exit of a child is never missed.
\<close>

theorem process_table_invariant:
  assumes "ptreach ini s"
  shows "live (p_state (tab s ini)) \<and>
    (\<forall>p<NPROC. p \<noteq> ini \<and> p_state (tab s p) \<noteq> UNUSED \<and> p_state (tab s p) \<noteq> EMBRYO \<longrightarrow>
       (\<exists>q<NPROC. q \<noteq> p \<and> p_parent (tab s p) = Some q \<and> live (p_state (tab s q)))) \<and>
    (\<forall>p<NPROC. p_state (tab s p) = SLEEPING \<and> p_chan (tab s p) = Some (ChanProc p) \<longrightarrow> \<not> p_killed (tab s p) \<and>
       (\<exists>q<NPROC. p_parent (tab s q) = Some p) \<and> (\<forall>q<NPROC. p_parent (tab s q) = Some p \<longrightarrow> p_state (tab s q) \<noteq> ZOMBIE))"
proof -
  have i: "family_ok ini (tab s)" "\<forall>p<NPROC. wait_ok (tab s) p" using ptreach_inv [OF assms] by (simp_all add: pt_inv_def)
  from i(1) have "live (p_state (tab s ini))"
    "\<forall>p<NPROC. p \<noteq> ini \<and> p_state (tab s p) \<noteq> UNUSED \<and> p_state (tab s p) \<noteq> EMBRYO \<longrightarrow>
       (\<exists>q<NPROC. q \<noteq> p \<and> p_parent (tab s p) = Some q \<and> live (p_state (tab s q)))" unfolding family_ok_def by blast+
  moreover have "\<forall>p<NPROC. p_state (tab s p) = SLEEPING \<and> p_chan (tab s p) = Some (ChanProc p) \<longrightarrow> \<not> p_killed (tab s p) \<and>
       (\<exists>q<NPROC. p_parent (tab s q) = Some p) \<and> (\<forall>q<NPROC. p_parent (tab s q) = Some p \<longrightarrow> p_state (tab s q) \<noteq> ZOMBIE)"
    using i(2) unfolding wait_ok_def by blast
  ultimately show ?thesis by blast
qed

text \<open>Init runs, forks process 1, and waits for it.\<close>

definition demo_tab :: "nat \<Rightarrow> ptsys" where
  "demo_tab k = \<lparr>tab = (\<lambda>_. unused_proc)(0 :=
       (if k = 0 then demo_init else if k < 4 then demo_init\<lparr>p_state := RUNNING\<rparr>
        else asleep (ChanProc 0) (demo_init\<lparr>p_state := RUNNING\<rparr>)),
     1 := (if k < 2 then unused_proc else if k = 2 then embryo 2 unused_proc
        else (embryo 2 unused_proc)\<lparr>p_parent := Some 0, p_state := RUNNABLE\<rparr>)),
     making = (\<lambda>_. None)(0 := if k = 2 then Some 1 else None)\<rparr>"

lemmas demo_tab_defs = demo_tab_def demo_init_def unused_proc_def embryo_def asleep_def

lemma demo_tab_reach: "ptreach 0 (demo_tab 4)"
proof -
  have 0: "ptreach 0 (demo_tab 0)" by (rule ptr_init) (simp add: pt_init_def demo_tab_defs)
  have e1: "demo_tab 1 = (demo_tab 0)\<lparr>tab := (tab (demo_tab 0))(0 := (tab (demo_tab 0) 0)\<lparr>p_state := RUNNING\<rparr>)\<rparr>"
    by (auto simp: demo_tab_def fun_eq_iff)
  have 1: "ptreach 0 (demo_tab 1)" unfolding e1 by (rule ptr_step [OF 0], rule pt_run) (simp_all add: demo_tab_defs)
  have u: "find_unused (tab (demo_tab 1)) = Some 1" by (simp add: find_unused_def demo_tab_defs upt_rec)
  have e2: "demo_tab 2 = (demo_tab 1)\<lparr>tab := (tab (demo_tab 1))(1 := embryo 2 (tab (demo_tab 1) 1)), making := (making (demo_tab 1))(0 := Some 1)\<rparr>"
    by (auto simp: demo_tab_def fun_eq_iff)
  have 2: "ptreach 0 (demo_tab 2)"
    unfolding e2 by (rule ptr_step [OF 1], rule pt_alloc [OF _ _ _ u]) (simp_all add: demo_tab_defs)
  have e3: "demo_tab 3 = (demo_tab 2)\<lparr>tab := (tab (demo_tab 2))(1 := (tab (demo_tab 2) 1)\<lparr>p_parent := Some 0, p_state := RUNNABLE\<rparr>),
      making := (making (demo_tab 2))(0 := None)\<rparr>"
    by (auto simp: demo_tab_def fun_eq_iff)
  have 3: "ptreach 0 (demo_tab 3)" unfolding e3 by (rule ptr_step [OF 2], rule pt_forked) (simp_all add: demo_tab_defs)
  have w: "wait_scan (tab (demo_tab 3)) 0 [0..<NPROC] False = (None, True)" by (simp add: demo_tab_defs upt_rec)
  have e4: "demo_tab 4 = (demo_tab 3)\<lparr>tab := (tab (demo_tab 3))(0 := asleep (ChanProc 0) (tab (demo_tab 3) 0))\<rparr>"
    by (auto simp: demo_tab_def fun_eq_iff)
  show ?thesis unfolding e4 by (rule ptr_step [OF 3], rule pt_wait [OF _ _ _ w]) (simp_all add: demo_tab_defs)
qed

theorem process_table_invariant_witness:
  "p_state (tab (demo_tab 4) 0) = SLEEPING \<and> live (p_state (tab (demo_tab 4) 0)) \<and>
   (\<exists>q<NPROC. p_parent (tab (demo_tab 4) q) = Some 0)"
proof -
  have s: "p_state (tab (demo_tab 4) 0) = SLEEPING \<and> p_chan (tab (demo_tab 4) 0) = Some (ChanProc 0)" by (simp add: demo_tab_defs)
  show ?thesis using process_table_invariant [OF demo_tab_reach] s by (meson zero_less_numeral)
qed

section \<open>Killing process 0\<close>

text \<open>
  C27. Unused slots have the process id 0, and \<^verbatim>\<open>kill\<close> does not look at the state: \<^verbatim>\<open>kill(0)\<close> succeeds
  and marks the first unused slot killed, \<^verbatim>\<open>allocproc\<close> does not clear the mark, and the next process
  that is created in the slot is killed before it has run.
\<close>

theorem kill_zero:
  assumes "p < NPROC" and "\<forall>q<p. p_pid (procs s q) \<noteq> 0 \<and> p_state (procs s q) \<noteq> UNUSED"
    and "p_pid (procs s p) = 0" and "p_state (procs s p) = UNUSED" and "freelist (vm s) = Some r" and "page_of r \<noteq> 0"
  shows "wp (bind (kill 0) (\<lambda>k. bind (allocproc im) (\<lambda>a. return (k, a))))
    (\<lambda>(k, a) t. k = 0 \<and> a = Some p \<and> p_state (procs t p) = EMBRYO \<and> p_killed (procs t p)) s"
proof -
  have f: "find Q [0..<NPROC] = Some p" if "Q p" "\<forall>q<p. \<not> Q q" for Q
    unfolding find_Some_iff using that assms(1) by (intro exI [of _ p]) (simp del: upt_rec_numeral)
  have k: "find (\<lambda>q. p_pid (procs s q) = 0) [0..<NPROC] = Some p" by (rule f) (use assms in auto)
  let ?s = "upd_proc p killed_proc s"
  have u: "find_unused (procs ?s) = Some p"
    unfolding find_unused_def by (rule f) (use assms in \<open>auto simp: upd_proc_def killed_proc_def\<close>)
  have "wp (allocproc im) (\<lambda>a t. a = Some p \<and> p_state (procs t p) = EMBRYO \<and> p_killed (procs t p)) ?s"
    unfolding allocproc_def using assms(5,6) u
    by (simp add: wp_simps kalloc_def upd_proc_def embryo_def killed_proc_def)
  then show ?thesis
    unfolding kill_def using k by (simp add: wp_simps) (erule wp_mono, simp add: wp_simps)
qed

theorem kill_zero_witness:
  "wp (bind (kill 0) (\<lambda>k. bind (allocproc demo_image) (\<lambda>a. return (k, a))))
    (\<lambda>(k, a) t. k = 0 \<and> a = Some 2 \<and> p_state (procs t 2) = EMBRYO \<and> p_killed (procs t 2)) demo_kernel"
proof (rule kill_zero)
  show "\<forall>q<2. p_pid (procs demo_kernel q) \<noteq> 0 \<and> p_state (procs demo_kernel q) \<noteq> UNUSED"
    by (simp add: numeral_2_eq_2 less_Suc_eq demo_init_def demo_user_def)
  show "freelist (vm demo_kernel) = Some 2000" by (simp add: demo_vmst_freelist)
qed (simp_all add: unused_proc_def page_of_def p2v_def)

end
