(* ===== verification/Fork_Spec.thy ===== *)
theory Fork_Spec
  imports Demo_Kernel
begin

text \<open>
  Correctness of \<^verbatim>\<open>fork\<close>: over the table of processes, the open files, the inode cache and the memory
  at once. The lemmas follow the code: \<open>allocproc\<close>, the address space (theory Fork\_Vm), the loop over
  the descriptors, and the rest.
\<close>

section \<open>A new process\<close>

definition new_proc :: "kimage \<Rightarrow> int \<Rightarrow> nat \<Rightarrow> proc \<Rightarrow> proc" where
  "new_proc im pid x c = c\<lparr>p_state := EMBRYO, p_pid := pid, p_kstack := page_of x,
     p_context := \<lparr>c_edi = 0, c_esi = 0, c_ebx = 0, c_ebp = 0, c_eip = im_forkret im, c_ret = im_trapret im\<rparr>\<rparr>"

lemma user_pages_alloc:
  assumes "user_pages lm v pgdir (x # xs) n"
  shows "user_pages lm (v\<lparr>freelist := run_next v x\<rparr>) pgdir xs n"
proof -
  let ?w = "v\<lparr>freelist := run_next v x\<rparr>"
  have b: "W ?w = W v" by (simp add: W_def fun_eq_iff)
  then have p: "pde ?w = pde v" by (simp add: pde_def fun_eq_iff)
  then have "ptn ?w = ptn v" using b by (simp add: ptn_def fun_eq_iff)
  then show ?thesis using assms p by (auto simp: user_pages_def pgd_inv_def kmem_inv_def)
qed

lemma allocproc_wp:
  fixes s :: "'z procst_scheme"
  assumes "find_unused (procs s) = Some np" and "user_pages (im_link im) (vm s) pgdir (x # xs) n"
  shows "wp (allocproc im) (\<lambda>a t. a = Some np \<and>
    t = s\<lparr>procs := (procs s)(np := new_proc im (nextpid s) x (procs s np)), nextpid := int32 (nextpid s + 1),
      vm := (vm s)\<lparr>freelist := run_next (vm s) x\<rparr>\<rparr>) s"
proof -
  have k: "freelist (vm s) = Some x" "x < MAXPAGES" using assms(2) by (auto simp: user_pages_def pgd_inv_def kmem_inv_def)
  show ?thesis
    using assms(1) k page_of_nz [OF k(2)]
    by (simp add: allocproc_def wp_simps kalloc_def upd_proc_def embryo_def new_proc_def)
qed

section \<open>Descriptors\<close>

definition dup_count :: "(nat \<Rightarrow> nat option) \<Rightarrow> nat \<Rightarrow> nat \<Rightarrow> nat" where
  "dup_count fds i f = card {k. k < i \<and> fds k = Some f}"

lemma dup_count_0 [simp]: "dup_count fds 0 f = 0"
  by (simp add: dup_count_def)

lemma dup_count_Suc: "dup_count fds (Suc i) f = dup_count fds i f + (if fds i = Some f then 1 else 0)"
proof -
  have "{k. k < Suc i \<and> fds k = Some f} = {k. k < i \<and> fds k = Some f} \<union> (if fds i = Some f then {i} else {})"
    by (auto simp: less_Suc_eq)
  then show ?thesis by (simp add: dup_count_def)
qed

definition dup_files :: "(nat \<Rightarrow> nat option) \<Rightarrow> nat \<Rightarrow> (nat \<Rightarrow> kfile) \<Rightarrow> nat \<Rightarrow> kfile" where
  "dup_files fds i ft f = (ft f)\<lparr>f_ref := f_ref (ft f) + int (dup_count fds i f)\<rparr>"

definition dup_fds :: "(nat \<Rightarrow> nat option) \<Rightarrow> nat \<Rightarrow> (nat \<Rightarrow> nat option) \<Rightarrow> nat \<Rightarrow> nat option" where
  "dup_fds fds i old k = (if k < i \<and> fds k \<noteq> None then fds k else old k)"

lemma dup_0 [simp]: "dup_files fds 0 ft = ft" "dup_fds fds 0 old = old"
  by (simp_all add: dup_files_def dup_fds_def fun_eq_iff)

lemma dup_None: "fds i = None \<Longrightarrow> dup_files fds (Suc i) ft = dup_files fds i ft \<and> dup_fds fds (Suc i) old = dup_fds fds i old"
  by (auto simp: dup_files_def dup_fds_def dup_count_Suc fun_eq_iff less_Suc_eq)

lemma dup_Some:
  assumes "fds i = Some f"
  shows "dup_files fds (Suc i) ft = (dup_files fds i ft)(f := f_ref_update (\<lambda>r. r + 1) (dup_files fds i ft f))"
    and "dup_fds fds (Suc i) old = (dup_fds fds i old)(i := Some f)"
  using assms by (auto simp: dup_files_def dup_fds_def dup_count_Suc fun_eq_iff less_Suc_eq)

lemma dup_ofiles_wp:
  fixes s :: "'z procst_scheme"
  assumes "me \<noteq> np" and "\<And>i f. i < NOFILE \<Longrightarrow> p_ofile (procs s me) i = Some f \<Longrightarrow> 1 \<le> f_ref (ftable s f)"
  shows "wp (dup_ofiles me np) (\<lambda>_ t. t = s\<lparr>ftable := dup_files (p_ofile (procs s me)) NOFILE (ftable s),
    procs := (procs s)(np := (procs s np)\<lparr>p_ofile := dup_fds (p_ofile (procs s me)) NOFILE (p_ofile (procs s np))\<rparr>)\<rparr>) s"
proof -
  define fds where "fds = p_ofile (procs s me)"
  define st where "st i = s\<lparr>ftable := dup_files fds i (ftable s),
    procs := (procs s)(np := (procs s np)\<lparr>p_ofile := dup_fds fds i (p_ofile (procs s np))\<rparr>)\<rparr>" for i
  have 0: "s = st 0" by (simp add: st_def)
  have "wp (dup_ofiles me np) (\<lambda>_ t. t = st NOFILE) s"
    unfolding dup_ofiles_def
  proof (rule wp_for_upt [where I = "\<lambda>i t. t = st i", OF 0])
    fix i t assume i: "i < NOFILE" and t: "t = st i"
    have fd: "p_ofile (procs t me) = fds" using assms(1) by (simp add: t st_def fds_def)
    show "wp (bind (proc_at me) (\<lambda>x. case p_ofile x i of None \<Rightarrow> return () | Some f \<Rightarrow>
        bind (filedup f) (\<lambda>g. set_proc np (\<lambda>y. y\<lparr>p_ofile := (p_ofile y)(i := Some g)\<rparr>)))) (\<lambda>_ t. t = st (Suc i)) t"
    proof (cases "fds i")
      case None
      then have "st (Suc i) = st i" by (simp add: st_def dup_None)
      then show ?thesis using None fd by (simp add: wp_simps t)
    next
      case (Some f)
      have "1 \<le> f_ref (ftable s f)" using assms(2) i Some by (simp add: fds_def)
      then have "\<not> f_ref (ftable t f) < 1" by (simp add: t st_def dup_files_def)
      moreover have "upd_proc np (\<lambda>y. y\<lparr>p_ofile := (p_ofile y)(i := Some f)\<rparr>) (upd_file f (f_ref_update (\<lambda>r. r + 1)) t) = st (Suc i)"
        by (simp add: t st_def upd_proc_def upd_file_def dup_Some [where fds = fds and i = i, OF Some])
      ultimately show ?thesis using Some by (simp add: wp_simps fd filedup_def)
    qed
  qed
  then show ?thesis by (simp add: st_def fds_def)
qed

section \<open>Fork\<close>

text \<open>The child, made from what its slot held, and the parent.\<close>

definition forked :: "kimage \<Rightarrow> int \<Rightarrow> nat \<Rightarrow> nat \<Rightarrow> uint32 \<Rightarrow> proc \<Rightarrow> proc \<Rightarrow> proc" where
  "forked im pid me x d par c = (new_proc im pid x c)\<lparr>p_pgdir := d, p_sz := p_sz par, p_parent := Some me,
     p_tf := (p_tf par)\<lparr>tf_eax := 0\<rparr>, p_ofile := dup_fds (p_ofile par) NOFILE (p_ofile c), p_cwd := p_cwd par,
     p_name := take 15 (p_name par), p_state := RUNNABLE\<rparr>"

lemma fork_rest_wp:
  fixes s :: "'z procst_scheme"
  assumes "me \<noteq> np" and "\<And>i f. i < NOFILE \<Longrightarrow> p_ofile (procs s me) i = Some f \<Longrightarrow> 1 \<le> f_ref (ftable s f)"
    and "p_cwd (procs s me) = Some d"
  shows "wp (fork_rest me np) (\<lambda>r t. r = p_pid (procs s np) \<and> vm t = vm s \<and>
    ftable t = dup_files (p_ofile (procs s me)) NOFILE (ftable s) \<and>
    icache t = (icache s)(d := (icache s d)\<lparr>i_ref := i_ref (icache s d) + 1\<rparr>) \<and>
    procs t = (procs s)(np := (procs s np)\<lparr>p_sz := p_sz (procs s me), p_parent := Some me,
      p_tf := (p_tf (procs s me))\<lparr>tf_eax := 0\<rparr>, p_ofile := dup_fds (p_ofile (procs s me)) NOFILE (p_ofile (procs s np)),
      p_cwd := Some d, p_name := take 15 (p_name (procs s me)), p_state := RUNNABLE\<rparr>)) s"
proof -
  let ?s = "upd_proc np (\<lambda>y. y\<lparr>p_sz := p_sz (procs s me), p_parent := Some me, p_tf := (p_tf (procs s me))\<lparr>tf_eax := 0\<rparr>\<rparr>) s"
  have "procs ?s me = procs s me" "ftable ?s = ftable s" using assms(1) by (simp_all add: upd_proc_def)
  then have r: "\<And>i f. i < NOFILE \<Longrightarrow> p_ofile (procs ?s me) i = Some f \<Longrightarrow> 1 \<le> f_ref (ftable ?s f)" using assms(2) by simp
  show ?thesis
    unfolding fork_rest_def wp_bind_fun wp_gets_fun wp_modify_fun wp_return_fun
    by (rule wp_mono [OF dup_ofiles_wp [OF assms(1) r]])
      (use assms(1,3) in \<open>simp_all add: wp_simps idup_def upd_proc_def upd_ino_def set_name_def\<close>)
qed

text \<open>
  What a successful \<^verbatim>\<open>fork\<close> of process \<open>me\<close> into slot \<open>np\<close> achieves: \<open>x # xs\<close> is the free memory before,
  \<open>n\<close> the number of pages and \<open>d\<close> the directory of the parent, \<open>r\<close> the result.
\<close>

definition fork_done ::
  "kimage \<Rightarrow> 'z procst_scheme \<Rightarrow> nat \<Rightarrow> nat \<Rightarrow> nat \<Rightarrow> nat list \<Rightarrow> nat \<Rightarrow> nat \<Rightarrow> int \<Rightarrow> 'z procst_scheme \<Rightarrow> bool" where
  "fork_done im s me np x xs n d r t \<longleftrightarrow>
    r = nextpid s \<and> (\<exists>g. procs t = (procs s)(np := forked im (nextpid s) me x g (procs s me) (procs s np)) \<and>
      (\<forall>q<n. same_page (vm s) (vm t) (p_pgdir (procs s me)) g q \<and> frame_of (ptn (vm t) g q) \<in> set xs)) \<and>
    (\<forall>f. f_ref (ftable t f) = f_ref (ftable s f) + int (card {i. i < NOFILE \<and> p_ofile (procs s me) i = Some f})) \<and>
    (\<forall>i. i_ref (icache t i) = i_ref (icache s i) + (if i = d then 1 else 0)) \<and> only (set xs) (vm s) (vm t)"

text \<open>
  C28. \<^verbatim>\<open>fork\<close> duplicates a process. With a free slot and enough memory it returns a new process id to the
  parent; the child is runnable, has the parent's size, directory, name and descriptors and its trap
  frame with 0 in \<^verbatim>\<open>eax\<close>, so that \<^verbatim>\<open>fork\<close> returns 0 there; every open file is counted once more per
  descriptor, the directory once; every page of the child has the content of the parent's page, in
  memory that was free; the parent and all other processes are as before.
\<close>

theorem fork_duplicates:
  fixes s :: "'z procst_scheme"
  assumes "cur s = Some me" and "find_unused (procs s) = Some np" and "p_state (procs s me) = RUNNING" and "link_ok (im_link im)"
    and "user_pages (im_link im) (vm s) (p_pgdir (procs s me)) (x # xs) n" and "n = (unat (p_sz (procs s me)) + 4095) div PGSIZE"
    and "1025 + n \<le> length xs" and "p_cwd (procs s me) = Some d"
    and "\<forall>i<NOFILE. \<forall>f. p_ofile (procs s me) i = Some f \<longrightarrow> 1 \<le> f_ref (ftable s f)"
  shows "wp (fork im) (\<lambda>r t. fork_done im s me np x xs n d r t) s"
proof -
  have ne: "me \<noteq> np" using assms(2,3) by (auto simp: find_unused_def find_Some_iff)
  let ?v = "(vm s)\<lparr>freelist := run_next (vm s) x\<rparr>"
  let ?s = "s\<lparr>procs := (procs s)(np := new_proc im (nextpid s) x (procs s np)), nextpid := int32 (nextpid s + 1), vm := ?v\<rparr>"
  have kb: "kbytes ?v = kbytes (vm s)" by simp
  have W: "W ?v = W (vm s)" by (simp add: W_def fun_eq_iff)
  then have pt: "ptn ?v = ptn (vm s)" by (simp add: ptn_def pde_def fun_eq_iff)
  have sp: "same_page ?v t g h q = same_page (vm s) t g h q" for t g h q by (simp add: same_page_def pt frame_byte_def)
  have on: "only R ?v t = only R (vm s) t" for R t by (simp add: only_def)
  note up = user_pages_alloc [OF assms(5)]
  have rest: "wp (bind (set_proc np (\<lambda>y. y\<lparr>p_pgdir := g\<rparr>)) (\<lambda>_. if g = 0 then fork_fail im np else fork_rest me np))
     (\<lambda>r t. fork_done im s me np x xs n d r t) (?s\<lparr>vm := w\<rparr>)"
    if g: "g \<noteq> 0" "\<forall>q<n. same_page (vm s) w (p_pgdir (procs s me)) g q \<and> frame_of (ptn w g q) \<in> set xs" "only (set xs) (vm s) w" for g w
  proof -
    let ?u = "upd_proc np (\<lambda>y. y\<lparr>p_pgdir := g\<rparr>) (?s\<lparr>vm := w\<rparr>)"
    have e: "procs ?u me = procs s me" "ftable ?u = ftable s" "icache ?u = icache s" using ne by (simp_all add: upd_proc_def)
    have "wp (fork_rest me np) (\<lambda>r t. fork_done im s me np x xs n d r t) ?u"
    proof (rule wp_mono [OF fork_rest_wp [OF ne]])
      fix r and t :: "'z procst_scheme"
      assume t: "r = p_pid (procs ?u np) \<and> vm t = vm ?u \<and> ftable t = dup_files (p_ofile (procs ?u me)) NOFILE (ftable ?u) \<and>
        icache t = (icache ?u)(d := (icache ?u d)\<lparr>i_ref := i_ref (icache ?u d) + 1\<rparr>) \<and>
        procs t = (procs ?u)(np := (procs ?u np)\<lparr>p_sz := p_sz (procs ?u me), p_parent := Some me,
          p_tf := (p_tf (procs ?u me))\<lparr>tf_eax := 0\<rparr>, p_ofile := dup_fds (p_ofile (procs ?u me)) NOFILE (p_ofile (procs ?u np)),
          p_cwd := Some d, p_name := take 15 (p_name (procs ?u me)), p_state := RUNNABLE\<rparr>)"
      have v: "vm t = w" using t by (simp add: upd_proc_def)
      have "procs t = (procs s)(np := forked im (nextpid s) me x g (procs s me) (procs s np))"
        using t assms(8) unfolding e by (simp add: upd_proc_def forked_def new_proc_def)
      moreover have "r = nextpid s" using t by (simp add: upd_proc_def new_proc_def)
      moreover have "\<forall>f. f_ref (ftable t f) = f_ref (ftable s f) + int (card {i. i < NOFILE \<and> p_ofile (procs s me) i = Some f})"
        using t unfolding e by (simp add: dup_files_def dup_count_def)
      moreover have "\<forall>i. i_ref (icache t i) = i_ref (icache s i) + (if i = d then 1 else 0)" using t unfolding e by simp
      ultimately show "fork_done im s me np x xs n d r t"
        using g(2,3) unfolding fork_done_def v by blast
    qed (use assms(8,9) e in auto)
    then show ?thesis using g(1) by (simp add: wp_simps)
  qed
  have "wp (copyuvm (im_link im) (p_pgdir (procs s me)) (p_sz (procs s me)))
    (\<lambda>g w. g \<noteq> 0 \<and> (\<forall>q<n. same_page (vm s) w (p_pgdir (procs s me)) g q \<and> frame_of (ptn w g q) \<in> set xs) \<and> only (set xs) (vm s) w) ?v"
    by (rule wp_mono [OF copyuvm_wp [OF assms(4) up assms(6,7)]]) (auto simp: sp on)
  note copy = this
  show ?thesis
    unfolding fork_def wp_bind_fun
  proof (rule wp_mono [OF allocproc_wp [OF assms(2,5)]], elim conjE)
    fix a and t :: "'z procst_scheme"
    assume a: "a = Some np" and t: "t = ?s"
    have me: "cur t = Some me" "procs t me = procs s me" "vm t = ?v" using assms(1) ne by (simp_all add: t)
    show "wp (case a of None \<Rightarrow> return (- 1) | Some np \<Rightarrow> bind myproc (\<lambda>me. bind (proc_at me) (\<lambda>x.
        bind (in_vm (copyuvm (im_link im) (p_pgdir x) (p_sz x))) (\<lambda>d. bind (set_proc np (\<lambda>y. y\<lparr>p_pgdir := d\<rparr>)) (\<lambda>_.
        if d = 0 then fork_fail im np else fork_rest me np)))))
      (\<lambda>r t. fork_done im s me np x xs n d r t) t"
      unfolding a option.case
    proof (simp only: myproc_def wp_simps me option.case, rule wp_mono [OF copy], elim conjE)
      fix g w
      assume "g \<noteq> 0" "\<forall>q<n. same_page (vm s) w (p_pgdir (procs s me)) g q \<and> frame_of (ptn w g q) \<in> set xs" "only (set xs) (vm s) w"
      from rest [OF this]
      show "if g = 0 then wp (fork_fail im np) (fork_done im s me np x xs n d) (upd_proc np (\<lambda>y. y\<lparr>p_pgdir := g\<rparr>) (t\<lparr>vm := w\<rparr>))
        else wp (fork_rest me np) (fork_done im s me np x xs n d) (upd_proc np (\<lambda>y. y\<lparr>p_pgdir := g\<rparr>) (t\<lparr>vm := w\<rparr>))"
        unfolding t by (simp only: wp_simps)
    qed
  qed
qed

theorem fork_duplicates_witness:
  "wp (fork demo_image) (\<lambda>r t. fork_done demo_image demo_kernel 1 2 2000 [2001..<3100] 1 0 r t) demo_kernel"
proof (rule fork_duplicates)
  have "find_unused (procs demo_kernel) = Some 2"
    by (simp add: find_unused_def upt_rec demo_init_def demo_user_def unused_proc_def)
  then show "find_unused (procs demo_kernel) = Some 2" .
  have "Suc 2000 = 2001" by simp
  then have xs: "2000 # [2001..<3100] = [2000..<3100]" using upt_conv_Cons [of 2000 3100] by (simp only: numeral_less_iff) simp
  have "user_pages demo_link demo_vmst (page_of 1998) [2000..<3100] 1 = user_pages demo_link demo_parent (page_of 1998) [2000..<3100] 1"
  proof -
    have W: "W demo_vmst = W demo_parent" by (simp add: W_def fun_eq_iff)
    then have "pde demo_vmst = pde demo_parent" by (simp add: pde_def fun_eq_iff)
    moreover from this have "ptn demo_vmst = ptn demo_parent" using W by (simp add: ptn_def fun_eq_iff)
    ultimately show ?thesis by (simp add: user_pages_def pgd_inv_def kmem_inv_def del: upt_rec_numeral)
  qed
  then show "user_pages (im_link demo_image) (vm demo_kernel) (p_pgdir (procs demo_kernel 1)) (2000 # [2001..<3100]) 1"
    using demo_user_pages unfolding xs by (simp add: demo_image_def demo_user_def)
qed (simp_all add: demo_user_def unused_proc_def demo_image_def demo_link_facts demo_kfile_def del: upt_rec_numeral)

end
