(* ===== verification/Syscall.thy ===== *)
theory Syscall
  imports Demo_Kernel
begin

text \<open>
  Arguments of system calls (syscall.c). The kernel reads and writes the memory of the current process
  through its page table, as the processor does: \<open>translate\<close> is the page table walk of the hardware;
  an access to an address that is not mapped is a fault, which the kernel does not survive.

  The lemmas show when the checks of \<^verbatim>\<open>fetchint\<close>, \<^verbatim>\<open>argptr\<close> and \<^verbatim>\<open>argstr\<close> keep an access inside the process
  and when they do not.
\<close>

section \<open>The memory of a process\<close>

definition translate :: "'z kmem_scheme \<Rightarrow> uint32 \<Rightarrow> uint32 \<Rightarrow> nat option" where
  "translate v pgdir va =
     (let pde = load32 (kbytes v) (unat pgdir + 4 * PDX va) in
      if pde AND PTE_P = 0 then None
      else let pte = load32 (kbytes v) (unat (p2v (PTE_ADDR pde)) + 4 * PTX va) in
           if pte AND PTE_P = 0 then None
           else Some (unat (p2v (PTE_ADDR pte)) + unat (va AND 0xFFF)))"

text \<open>Reading and writing bytes at user addresses of the current process.\<close>

definition uload :: "uint32 \<Rightarrow> ('z procst_scheme, byte) kop" where
  "uload va =
     bind myproc (\<lambda>me.
     bind (proc_at me) (\<lambda>x.
     bind (gets (\<lambda>s. translate (vm s) (p_pgdir x) va)) (\<lambda>r.
     case r of None \<Rightarrow> panic ''page fault'' | Some a \<Rightarrow> gets (\<lambda>s. kbytes (vm s) a))))"

definition ustore :: "uint32 \<Rightarrow> byte \<Rightarrow> ('z procst_scheme, unit) kop" where
  "ustore va b =
     bind myproc (\<lambda>me.
     bind (proc_at me) (\<lambda>x.
     bind (gets (\<lambda>s. translate (vm s) (p_pgdir x) va)) (\<lambda>r.
     case r of None \<Rightarrow> panic ''page fault''
     | Some a \<Rightarrow> modify (\<lambda>s. s\<lparr>vm := (vm s)\<lparr>kbytes := (kbytes (vm s))(a := b)\<rparr>\<rparr>))))"

fun uloads :: "uint32 \<Rightarrow> nat \<Rightarrow> ('z procst_scheme, byte list) kop" where
  "uloads va 0 = return []"
| "uloads va (Suc n) = bind (uload va) (\<lambda>b. bind (uloads (va + 1) n) (\<lambda>bs. return (b # bs)))"

fun ustores :: "uint32 \<Rightarrow> byte list \<Rightarrow> ('z procst_scheme, unit) kop" where
  "ustores va [] = return ()"
| "ustores va (b # bs) = bind (ustore va b) (\<lambda>_. ustores (va + 1) bs)"

definition uload32 :: "uint32 \<Rightarrow> ('z procst_scheme, uint32) kop" where
  "uload32 va = bind (uloads va 4) (\<lambda>bs. return (of_nat (le_nat bs)))"

section \<open>Fetching arguments\<close>

definition psize :: "('z procst_scheme, uint32) kop" where
  "psize = bind myproc (\<lambda>me. bind (proc_at me) (\<lambda>x. return (p_sz x)))"

definition fetchint :: "uint32 \<Rightarrow> ('z procst_scheme, uint32 option) kop" where
  "fetchint addr =
     bind psize (\<lambda>sz.
     if addr \<ge> sz \<or> addr + 4 > sz then return None
     else bind (uload32 addr) (\<lambda>w. return (Some w)))"

text \<open>The loop of \<^verbatim>\<open>fetchstr\<close>: the bytes before the NUL, if there is one below \<^verbatim>\<open>proc->sz\<close>.\<close>

function fetchstr_from :: "uint32 \<Rightarrow> uint32 \<Rightarrow> ('z procst_scheme, byte list option) kop" where
  "fetchstr_from s ep =
     (if s < ep then
        bind (uload s) (\<lambda>b.
        if b = 0 then return (Some [])
        else bind (fetchstr_from (s + 1) ep) (\<lambda>r. return (map_option ((#) b) r)))
      else return None)"
  by pat_completeness auto
termination
proof (relation "measure (\<lambda>(s, ep). unat ep - unat s)", goal_cases)
  case (2 s ep b)
  then have "unat s < unat ep" by (simp add: word_less_nat_alt)
  moreover from this have "unat (s + 1) = unat s + 1"
    using unsigned_less [of ep, where 'a = nat] by (simp add: unat_word_ariths)
  ultimately show ?case by simp
qed simp

declare fetchstr_from.simps [simp del]

definition fetchstr :: "uint32 \<Rightarrow> ('z procst_scheme, byte list option) kop" where
  "fetchstr addr = bind psize (\<lambda>sz. if addr \<ge> sz then return None else fetchstr_from addr sz)"

definition argint :: "nat \<Rightarrow> ('z procst_scheme, uint32 option) kop" where
  "argint n =
     bind myproc (\<lambda>me.
     bind (proc_at me) (\<lambda>x.
     fetchint (tf_esp (p_tf x) + 4 + 4 * of_nat n)))"

definition argptr :: "nat \<Rightarrow> int \<Rightarrow> ('z procst_scheme, uint32 option) kop" where
  "argptr n len =
     bind (argint n) (\<lambda>r.
     case r of
       None \<Rightarrow> return None
     | Some i \<Rightarrow>
         bind psize (\<lambda>sz.
         if i \<ge> sz \<or> i + word_of_int len > sz then return None else return (Some i)))"

definition argstr :: "nat \<Rightarrow> ('z procst_scheme, byte list option) kop" where
  "argstr n = bind (argint n) (\<lambda>r. case r of None \<Rightarrow> return None | Some addr \<Rightarrow> fetchstr addr)"

section \<open>What the checks guarantee\<close>

text \<open>The readers leave the state alone.\<close>

lemma result_bind: "bind m f s = Ok y u \<Longrightarrow> \<exists>x t. m s = Ok x t \<and> f x t = Ok y u"
  by (auto simp: bind_def split: result.splits)

lemma bindE:
  assumes "bind m f s = Ok y u"
  obtains x t where "m s = Ok x t" and "f x t = Ok y u"
  using result_bind [OF assms] by blast

lemma myproc_Ok: "myproc s = Ok me t \<longleftrightarrow> cur s = Some me \<and> t = s"
  by (auto simp: myproc_def bind_def gets_def panic_def return_def split: option.splits)

lemma gets_Ok: "gets f s = Ok x t \<longleftrightarrow> x = f s \<and> t = s"
  by (auto simp: gets_def)

lemma return_Ok: "return y s = Ok x t \<longleftrightarrow> x = y \<and> t = s"
  by (auto simp: return_def)

lemmas ok_simps = myproc_Ok gets_Ok return_Ok

lemma psize_Ok: "psize s = Ok z t \<longleftrightarrow> (\<exists>me. cur s = Some me \<and> z = p_sz (procs s me)) \<and> t = s"
  by (auto simp: psize_def ok_simps bind_def return_def split: result.splits option.splits)
    (auto simp: myproc_def bind_def gets_def panic_def return_def split: option.splits)

lemma uload_Ok: "uload va s = Ok b t \<Longrightarrow> t = s \<and> (\<exists>me a. cur s = Some me \<and> translate (vm s) (p_pgdir (procs s me)) va = Some a \<and> b = kbytes (vm s) a)"
  by (auto simp: uload_def ok_simps panic_def elim!: bindE split: option.splits)

lemma uloads_Ok: "uloads va n s = Ok bs t \<Longrightarrow> t = s \<and> length bs = n"
  by (induction n arbitrary: va bs) (auto simp: ok_simps elim!: bindE dest!: uload_Ok)

lemma argint_Ok: "argint n s = Ok r t \<Longrightarrow> t = s"
  by (auto simp: argint_def fetchint_def uload32_def ok_simps psize_Ok elim!: bindE dest!: uloads_Ok split: if_splits)

lemma argintE:
  assumes "bind (argint n) f s = Ok y u"
  obtains r where "argint n s = Ok r s" and "f r s = Ok y u"
proof -
  obtain r t where "argint n s = Ok r t" "f r t = Ok y u" using assms by (rule bindE)
  then show thesis using argint_Ok that by blast
qed

text \<open>A byte of the memory of process \<open>me\<close>.\<close>

definition ubyte :: "'z procst_scheme \<Rightarrow> nat \<Rightarrow> uint32 \<Rightarrow> byte option" where
  "ubyte s me va = map_option (kbytes (vm s)) (translate (vm s) (p_pgdir (procs s me)) va)"

lemma fetchstr_from_Ok:
  assumes "fetchstr_from a ep s = Ok (Some bs) t" and "cur s = Some me"
  shows "t = s \<and> unat a + length bs < unat ep \<and> 0 \<notin> set bs \<and>
    (\<forall>k<length bs. ubyte s me (a + of_nat k) = Some (bs ! k)) \<and> ubyte s me (a + of_nat (length bs)) = Some 0"
  using assms(1)
proof (induction "unat ep - unat a" arbitrary: a bs rule: less_induct)
  case less
  have lt: "a < ep" using less.prems by (auto simp: fetchstr_from.simps [of a ep] ok_simps split: if_splits)
  then have n: "unat (a + 1) = unat a + 1" "unat a < unat ep"
    using unsigned_less [of ep, where 'a = nat] by (simp_all add: unat_word_ariths word_less_nat_alt)
  let ?body = "\<lambda>b. if b = 0 then return (Some []) else bind (fetchstr_from (a + 1) ep) (\<lambda>r. return (map_option ((#) b) r))"
  have "bind (uload a) ?body s = Ok (Some bs) t" using less.prems lt by (simp add: fetchstr_from.simps [of a ep])
  then obtain b u where u: "uload a s = Ok b u" "?body b u = Ok (Some bs) t" by (rule bindE)
  then have b: "ubyte s me a = Some b" "?body b s = Ok (Some bs) t" using uload_Ok [OF u(1)] assms(2) by (auto simp: ubyte_def)
  show ?case
  proof (cases "b = 0")
    case True
    then show ?thesis using b n by (auto simp: ok_simps)
  next
    case False
    then obtain r where r: "fetchstr_from (a + 1) ep s = Ok (Some r) t" "bs = b # r"
      using b(2) by (auto simp: ok_simps eq_commute [of "Some bs"] elim!: bindE)
    have ih: "t = s \<and> unat (a + 1) + length r < unat ep \<and> 0 \<notin> set r \<and>
      (\<forall>k<length r. ubyte s me (a + 1 + of_nat k) = Some (r ! k)) \<and> ubyte s me (a + 1 + of_nat (length r)) = Some 0"
      by (rule less.hyps) (use n r in auto)
    have "ubyte s me (a + of_nat k) = Some (bs ! k)" if "k < length bs" for k
      using that ih b(1) r(2) by (cases k) (auto simp: add.assoc)
    then show ?thesis using ih r n False by (auto simp: add.assoc)
  qed
qed

text \<open>
  C30. What the argument checks guarantee. A string that \<^verbatim>\<open>argstr\<close> accepts lies, with its NUL, below the
  size of the process, and is what the memory holds. A buffer that \<^verbatim>\<open>argptr\<close> accepts for a length that
  is not negative lies below the size of the process. But a negative length is accepted for every
  pointer that is at least as large: \<^verbatim>\<open>read(fd, p, -1)\<close> passes the check and reads a whole file to \<open>p\<close>.
\<close>

theorem argument_checks:
  fixes s :: "'z procst_scheme"
  assumes "cur s = Some me" and "p_sz (procs s me) \<le> KERNBASE"
  shows "(argstr n s = Ok (Some bs) t \<longrightarrow> t = s \<and> (\<exists>a. argint n s = Ok (Some a) s \<and> unat a + length bs < unat (p_sz (procs s me)) \<and>
      0 \<notin> set bs \<and> (\<forall>k<length bs. ubyte s me (a + of_nat k) = Some (bs ! k)) \<and> ubyte s me (a + of_nat (length bs)) = Some 0)) \<and>
    (argptr n len s = Ok (Some p) t \<and> 0 \<le> len \<and> len < 2 ^ 31 \<longrightarrow> t = s \<and> argint n s = Ok (Some p) s \<and>
      uint p + len \<le> uint (p_sz (procs s me))) \<and>
    (argint n s = Ok (Some p) s \<and> p < p_sz (procs s me) \<and> len < 0 \<and> - len \<le> uint p \<longrightarrow> argptr n len s = Ok (Some p) s)"
proof (intro conjI impI)
  let ?sz = "p_sz (procs s me)"
  assume "argstr n s = Ok (Some bs) t"
  then obtain a where a: "argint n s = Ok (Some a) s" "fetchstr a s = Ok (Some bs) t"
    by (auto simp: argstr_def ok_simps elim!: argintE split: option.splits)
  have "fetchstr_from a ?sz s = Ok (Some bs) t"
    using a(2) assms(1) by (auto simp: fetchstr_def psize_Ok ok_simps elim!: bindE split: if_splits)
  from fetchstr_from_Ok [OF this assms(1)] a(1)
  show "t = s" and "\<exists>a. argint n s = Ok (Some a) s \<and> unat a + length bs < unat ?sz \<and>
      0 \<notin> set bs \<and> (\<forall>k<length bs. ubyte s me (a + of_nat k) = Some (bs ! k)) \<and> ubyte s me (a + of_nat (length bs)) = Some 0"
    by blast+
next
  let ?sz = "p_sz (procs s me)"
  assume h: "argptr n len s = Ok (Some p) t \<and> 0 \<le> len \<and> len < 2 ^ 31"
  then have "bind (argint n) (\<lambda>r. case r of None \<Rightarrow> return None | Some i \<Rightarrow> bind psize (\<lambda>sz.
      if i \<ge> sz \<or> i + word_of_int len > sz then return None else return (Some i))) s = Ok (Some p) t" by (simp add: argptr_def)
  then obtain r where "argint n s = Ok r s" "(case r of None \<Rightarrow> return None | Some i \<Rightarrow> bind psize (\<lambda>sz.
      if i \<ge> sz \<or> i + word_of_int len > sz then return None else return (Some i))) s = Ok (Some p) t" by (rule argintE)
  then have a: "argint n s = Ok (Some p) s" "p < ?sz" "p + word_of_int len \<le> ?sz" "t = s"
    using assms(1) by (auto simp: ok_simps psize_Ok not_le not_less elim!: bindE split: option.splits if_splits)
  have "uint ?sz \<le> 2 ^ 31" using assms(2) by (simp add: word_le_def)
  then have "uint p < 2 ^ 31" using a(2) by (simp add: word_less_def)
  then have "uint (p + word_of_int len) = uint p + len"
    using h by (simp add: uint_word_ariths uint_word_of_int mod_add_right_eq)
  then show "t = s" and "argint n s = Ok (Some p) s" and "uint p + len \<le> uint ?sz" using a by (simp_all add: word_le_def)
next
  let ?sz = "p_sz (procs s me)"
  assume h: "argint n s = Ok (Some p) s \<and> p < ?sz \<and> len < 0 \<and> - len \<le> uint p"
  have "uint (p + word_of_int len) = (uint p + len) mod 2 ^ 32" by (simp add: uint_word_ariths uint_word_of_int mod_add_right_eq)
  also have "\<dots> = uint p + len" using h unsigned_less [of p, where 'a = int] by (intro mod_pos_pos_trivial) auto
  finally have "p + word_of_int len \<le> ?sz" using h by (simp add: word_le_def word_less_def)
  moreover have "psize s = Ok ?sz s" using assms(1) by (simp add: psize_Ok)
  ultimately show "argptr n len s = Ok (Some p) s" using h by (simp add: argptr_def bind_def return_def not_less not_le)
qed

text \<open>A process whose first argument is the number 16, at address \<open>0x704\<close>.\<close>

definition demo_call :: procst where
  "demo_call = demo_kernel\<lparr>vm := demo_vmst\<lparr>kbytes := (kbytes demo_parent)(unat (page_of 1996) + 0x704 := 16)\<rparr>\<rparr>"

lemma demo_translate:
  assumes "va = 0x704 \<or> va = 0x705 \<or> va = 0x706 \<or> va = 0x707"
  shows "translate (vm demo_call) (page_of 1998) va = Some (unat (page_of 1996) + unat va)"
proof -
  let ?m = "(kbytes demo_parent)(unat (page_of 1996) + 0x704 := 16)"
  have z: "PDX va = 0" "PTX va = 0" "va AND 0xFFF = va" using assms by (auto simp: PDX_def PTX_def)
  have k: "unat (page_of 1996) = 2 ^ 31 + 1996 * PGSIZE" "unat (page_of 1997) = 2 ^ 31 + 1997 * PGSIZE" "unat (page_of 1998) = 2 ^ 31 + 1998 * PGSIZE"
    by (simp_all add: page_of_unat)
  have "load32 ?m (unat (page_of 1998)) = W demo_parent 1998 0" "load32 ?m (unat (page_of 1997)) = W demo_parent 1997 0"
    by (simp_all add: W_def load32_def k)
  then have l: "load32 ?m (unat (page_of 1998)) = new_pde 1997" "load32 ?m (unat (page_of 1997)) = new_pde 1996"
    by (simp_all add: demo_parent_W)
  have n: "present (new_pde 1997)" "PTE_ADDR (new_pde 1997) = v2p (page_of 1997)"
    "present (new_pde 1996)" "PTE_ADDR (new_pde 1996) = v2p (page_of 1996)" by (simp_all add: new_pde_facts)
  show ?thesis using n z l by (simp add: translate_def demo_call_def Let_def present_def p2v_def v2p_def)
qed

lemma demo_argint:
  fixes s :: "'z procst_scheme"
  assumes s: "cur s = Some 1" "procs s 1 = demo_user" "vm s = vm demo_call"
  shows "argint 0 s = Ok (Some 16) s"
proof -
  have c: "cur s = Some 1" "p_sz (procs s 1) = 0x800" "p_pgdir (procs s 1) = page_of 1998"
    "tf_esp (p_tf (procs s 1)) = 0x700" unfolding s by (simp_all add: demo_user_def)
  have "kbytes demo_parent (unat (page_of 1996) + k) = 0" if "k < 2048" for k
    using that by (simp add: demo_parent_def demo_vm_def Let_def store32_def write_bytes_def page_of_unat)
  then have b: "kbytes (vm s) (unat (page_of 1996) + k) = (if k = 0x704 then 16 else 0)" if "k < 2048" for k
    using that by (simp add: s demo_call_def)
  have u: "uload va s = Ok (if va = 0x704 then 16 else 0) s"
    if "va = 0x704 \<or> va = 0x705 \<or> va = 0x706 \<or> va = 0x707" for va
    using that demo_translate [OF that, folded s(3)] b [of "unat va"]
    by (auto simp: uload_def myproc_def bind_def gets_def return_def c c [unfolded One_nat_def])
  have "uloads 0x704 (Suc (Suc (Suc (Suc 0)))) s = Ok [16, 0, 0, 0] s"
    by (simp add: bind_def return_def u)
  moreover have "(4 :: nat) = Suc (Suc (Suc (Suc 0)))" by simp
  ultimately have "uloads 0x704 4 s = Ok [16, 0, 0, 0] s" by metis
  then show ?thesis
    by (simp add: argint_def fetchint_def psize_def myproc_def uload32_def bind_def gets_def return_def c c [unfolded One_nat_def])
qed

theorem argument_checks_witness:
  "argint 0 demo_call = Ok (Some 16) demo_call \<and> argptr 0 (- 1) demo_call = Ok (Some 16) demo_call"
proof -
  have "cur demo_call = Some 1" "p_sz (procs demo_call 1) \<le> KERNBASE" by (simp_all add: demo_call_def demo_user_def)
  from argument_checks [OF this, of 0 "[]" demo_call "- 1" 16] demo_argint [of demo_call]
  show ?thesis by (simp add: demo_call_def demo_user_def)
qed

end
