(* ===== verification/Exec.thy ===== *)
theory Exec
  imports Syscall
begin

text \<open>
  Running programs (exec.c, elf.h, and \<^verbatim>\<open>loaduvm\<close> of vm.c). \<^verbatim>\<open>argv\<close> is the list of its strings.
  \<open>junk\<close> is what the stack held where \<^verbatim>\<open>struct elfhdr elf\<close> lies: bytes the first \<^verbatim>\<open>readi\<close> does not store
  keep it. Every \<^verbatim>\<open>goto bad\<close> is a call of \<open>exec_bad\<close> with the variables the label looks at.
\<close>

section \<open>ELF headers\<close>

abbreviation sizeof_elfhdr :: nat where "sizeof_elfhdr \<equiv> 52"
abbreviation sizeof_proghdr :: nat where "sizeof_proghdr \<equiv> 32"
abbreviation ELF_MAGIC :: nat where "ELF_MAGIC \<equiv> 0x464C457F"
abbreviation ELF_PROG_LOAD :: nat where "ELF_PROG_LOAD \<equiv> 1"
abbreviation MAXARG :: nat where "MAXARG \<equiv> 32"

record elfhdr =
  e_magic :: nat
  e_entry :: nat
  e_phoff :: nat
  e_phnum :: nat

definition decode_elfhdr :: "byte list \<Rightarrow> elfhdr" where
  "decode_elfhdr d = \<lparr>e_magic = le_nat (slice 0 4 d), e_entry = le_nat (slice 24 4 d),
     e_phoff = le_nat (slice 28 4 d), e_phnum = le_nat (slice 44 2 d)\<rparr>"

record proghdr =
  ph_type :: nat
  ph_off :: nat
  ph_vaddr :: nat
  ph_filesz :: nat
  ph_memsz :: nat

definition decode_proghdr :: "byte list \<Rightarrow> proghdr" where
  "decode_proghdr d = \<lparr>ph_type = le_nat (slice 0 4 d), ph_off = le_nat (slice 4 4 d), ph_vaddr = le_nat (slice 8 4 d),
     ph_filesz = le_nat (slice 16 4 d), ph_memsz = le_nat (slice 20 4 d)\<rparr>"

section \<open>Loading\<close>

fun loaduvm_loop ::
  "'z filest_scheme devsw \<Rightarrow> linkmap \<Rightarrow> uint32 \<Rightarrow> uint32 \<Rightarrow> nat \<Rightarrow> nat \<Rightarrow> nat \<Rightarrow> nat list \<Rightarrow> ('z filest_scheme, int) kop" where
  "loaduvm_loop dv lm pgdir addr ip offset sz [] = return 0"
| "loaduvm_loop dv lm pgdir addr ip offset sz (i # is) =
     bind (in_vm (walkpgdir lm pgdir (addr + of_nat i) False)) (\<lambda>pte.
     case pte of
       None \<Rightarrow> panic ''loaduvm: address should exist''
     | Some a \<Rightarrow>
         bind (gets (\<lambda>s. PTE_ADDR (load32 (kbytes (vm s)) a))) (\<lambda>pa.
         let n = min (sz - i) PGSIZE in
         bind (readi dv ip ((offset + i) mod 2 ^ 32) n) (\<lambda>(r, d).
         bind (modify (\<lambda>s. s\<lparr>vm := (vm s)\<lparr>kbytes := write_bytes (kbytes (vm s)) (unat (p2v pa)) d\<rparr>\<rparr>)) (\<lambda>_.
         if r \<noteq> int n then return (-1)
         else loaduvm_loop dv lm pgdir addr ip offset sz is))))"

definition loaduvm ::
  "'z filest_scheme devsw \<Rightarrow> linkmap \<Rightarrow> uint32 \<Rightarrow> uint32 \<Rightarrow> nat \<Rightarrow> nat \<Rightarrow> nat \<Rightarrow> ('z filest_scheme, int) kop" where
  "loaduvm dv lm pgdir addr ip offset sz =
     bind (panic_if (unat addr mod PGSIZE \<noteq> 0) ''loaduvm: addr must be page aligned'') (\<lambda>_.
     loaduvm_loop dv lm pgdir addr ip offset sz (map (\<lambda>k. k * PGSIZE) [0..<(sz + PGSIZE - 1) div PGSIZE]))"

text \<open>The loop over the program headers: the new size, or nothing for a jump to \<^verbatim>\<open>bad\<close>.\<close>

fun exec_load ::
  "'z procst_scheme devsw \<Rightarrow> linkmap \<Rightarrow> uint32 \<Rightarrow> nat \<Rightarrow> nat list \<Rightarrow> uint32 \<Rightarrow> ('z procst_scheme, uint32 option) kop" where
  "exec_load dv lm pgdir ip [] sz = return (Some sz)"
| "exec_load dv lm pgdir ip (off # offs) sz =
     bind (fs_call (readi dv ip off sizeof_proghdr)) (\<lambda>(r, d).
     if r \<noteq> int sizeof_proghdr then return None
     else
       let ph = decode_proghdr d in
       if ph_type ph \<noteq> ELF_PROG_LOAD then exec_load dv lm pgdir ip offs sz
       else if ph_memsz ph < ph_filesz ph then return None
       else
         bind (in_vm (allocuvm lm pgdir sz (of_nat (ph_vaddr ph) + of_nat (ph_memsz ph)))) (\<lambda>sz'.
         if sz' = 0 then return None
         else
           bind (fs_call (loaduvm dv lm pgdir (of_nat (ph_vaddr ph)) ip (ph_off ph) (ph_filesz ph))) (\<lambda>k.
           if k < 0 then return None else exec_load dv lm pgdir ip offs sz')))"

section \<open>The stack of the new program\<close>

fun exec_args ::
  "linkmap \<Rightarrow> uint32 \<Rightarrow> nat \<Rightarrow> uint32 \<Rightarrow> byte list list \<Rightarrow> ('z kmem_scheme, (uint32 \<times> uint32 list) option) kop" where
  "exec_args lm pgdir argc sp [] = return (Some (sp, []))"
| "exec_args lm pgdir argc sp (a # as) =
     (if argc \<ge> MAXARG then return None
      else
        let sp' = (sp - of_nat (length a + 1)) AND NOT 3 in
        bind (copyout lm pgdir sp' (a @ [0])) (\<lambda>r.
        if r < 0 then return None
        else
          bind (exec_args lm pgdir (argc + 1) sp' as) (\<lambda>q.
          return (map_option (\<lambda>(sp'', ps). (sp'', sp' # ps)) q))))"

definition ustack :: "uint32 \<Rightarrow> uint32 list \<Rightarrow> uint32 list" where
  "ustack sp ps = [0xFFFFFFFF, of_nat (length ps), sp - of_nat (length ps + 1) * 4] @ ps @ [0]"

definition words :: "uint32 list \<Rightarrow> byte list" where
  "words ws = concat (map (\<lambda>w. le32 (unat w)) ws)"

text \<open>The loop that finds the last element of the path.\<close>

fun last_elem :: "byte list \<Rightarrow> byte list \<Rightarrow> byte list" where
  "last_elem lst [] = lst"
| "last_elem lst (c # cs) = last_elem (if c = slash then cs else lst) cs"

section \<open>exec\<close>

definition exec_bad :: "linkmap \<Rightarrow> uint32 \<Rightarrow> nat option \<Rightarrow> ('z procst_scheme, int) kop" where
  "exec_bad lm pgdir ip =
     bind (whenk (pgdir \<noteq> 0) (in_vm (freevm lm pgdir))) (\<lambda>_.
     bind (case ip of None \<Rightarrow> return () | Some i \<Rightarrow> fs_call (bind (iunlockput i) (\<lambda>_. end_op))) (\<lambda>_.
     return (-1)))"

text \<open>From the stack pages to the end.\<close>

definition exec_commit ::
  "linkmap \<Rightarrow> uint32 \<Rightarrow> elfhdr \<Rightarrow> byte list \<Rightarrow> byte list list \<Rightarrow> uint32 \<Rightarrow> ('z procst_scheme, int) kop" where
  "exec_commit lm pgdir elf path argv sz0 =
     bind (in_vm (allocuvm lm pgdir (PGROUNDUP sz0) (PGROUNDUP sz0 + 2 * of_nat PGSIZE))) (\<lambda>sz.
     if sz = 0 then exec_bad lm pgdir None
     else
       bind (in_vm (clearpteu lm pgdir (sz - 2 * of_nat PGSIZE))) (\<lambda>_.
       bind (in_vm (exec_args lm pgdir 0 sz argv)) (\<lambda>q.
       case q of
         None \<Rightarrow> exec_bad lm pgdir None
       | Some (sp, ps) \<Rightarrow>
           let sp' = sp - of_nat (3 + length ps + 1) * 4 in
           bind (in_vm (copyout lm pgdir sp' (words (ustack sp ps)))) (\<lambda>r.
           if r < 0 then exec_bad lm pgdir None
           else
             bind myproc (\<lambda>me.
             bind (proc_at me) (\<lambda>x.
             bind (set_proc me (set_name (last_elem path path))) (\<lambda>_.
             bind (set_proc me (\<lambda>y. y\<lparr>p_pgdir := pgdir, p_sz := sz,
               p_tf := (p_tf y)\<lparr>tf_eip := of_nat (e_entry elf), tf_esp := sp'\<rparr>\<rparr>)) (\<lambda>_.
             bind (in_vm (switchuvm pgdir)) (\<lambda>_.
             bind (in_vm (freevm lm (p_pgdir x))) (\<lambda>_.
             return 0))))))))))"

definition exec ::
  "'z procst_scheme devsw \<Rightarrow> linkmap \<Rightarrow> byte list \<Rightarrow> byte list \<Rightarrow> byte list list \<Rightarrow> ('z procst_scheme, int) kop" where
  "exec dv lm junk path argv =
     bind (fs_call begin_op) (\<lambda>_.
     bind (fs_call (namei dv path)) (\<lambda>r.
     case r of
       None \<Rightarrow> bind (fs_call end_op) (\<lambda>_. return (-1))
     | Some ip \<Rightarrow>
         bind (fs_call (ilock ip)) (\<lambda>_.
         bind (fs_call (readi dv ip 0 sizeof_elfhdr)) (\<lambda>(k, d).
         let elf = decode_elfhdr (d @ drop (length d) junk) in
         if as_uint k < sizeof_elfhdr \<or> e_magic elf \<noteq> ELF_MAGIC then exec_bad lm 0 (Some ip)
         else
           bind (in_vm (setupkvm lm)) (\<lambda>pgdir.
           if pgdir = 0 then exec_bad lm 0 (Some ip)
           else
             bind (exec_load dv lm pgdir ip (map (\<lambda>i. (e_phoff elf + i * sizeof_proghdr) mod 2 ^ 32) [0..<e_phnum elf]) 0) (\<lambda>q.
             case q of
               None \<Rightarrow> exec_bad lm pgdir (Some ip)
             | Some sz \<Rightarrow>
                 bind (fs_call (iunlockput ip)) (\<lambda>_.
                 bind (fs_call end_op) (\<lambda>_.
                 exec_commit lm pgdir elf path argv sz))))))))"

end
