(* ===== verification/Sched.thy ===== *)
theory Sched
  imports Demo_Kernel
begin

text \<open>
  Scheduling (proc.c): the round-robin scheduler of the built kernel and, for the lottery build, the
  dispatcher with its two schedulers. \<^verbatim>\<open>swtch\<close> (swtch.S) is the parameter \<open>run\<close>: what the machine does
  from the switch to process \<open>p\<close> until that process switches back. The endless loop of a scheduler is
  cut into passes over the table; a scheduler with a bound runs at most that many passes.

  The lemmas show that a pass runs every process that stays runnable, exactly once.
\<close>

section \<open>The schedulers\<close>

text \<open>The body shared by the schedulers: switch to a process and back.\<close>

definition switch_to :: "(nat \<Rightarrow> ('z procst_scheme, unit) kop) \<Rightarrow> nat \<Rightarrow> ('z procst_scheme, unit) kop" where
  "switch_to run p =
     bind (modify (\<lambda>s. s\<lparr>cur := Some p\<rparr>)) (\<lambda>_.
     bind (proc_at p) (\<lambda>x.
     bind (in_vm (switchuvm (p_pgdir x))) (\<lambda>_.
     bind (set_proc p (\<lambda>y. y\<lparr>p_state := RUNNING\<rparr>)) (\<lambda>_.
     bind (run p) (\<lambda>_.
     bind (in_vm switchkvm) (\<lambda>_.
     modify (\<lambda>s. s\<lparr>cur := None\<rparr>)))))))"

definition sched_pass :: "(nat \<Rightarrow> ('z procst_scheme, unit) kop) \<Rightarrow> nat list \<Rightarrow> ('z procst_scheme, unit) kop" where
  "sched_pass run ps =
     for_each ps (\<lambda>p.
       bind (proc_at p) (\<lambda>x.
       if p_state x \<noteq> RUNNABLE then return () else switch_to run p))"

fun scheduler :: "nat \<Rightarrow> (nat \<Rightarrow> ('z procst_scheme, unit) kop) \<Rightarrow> ('z procst_scheme, unit) kop" where
  "scheduler 0 run = return ()"
| "scheduler (Suc n) run = bind (sched_pass run [0..<NPROC]) (\<lambda>_. scheduler n run)"

text \<open>The lottery build. A scheduler returns whether it has left its loop within the bound.\<close>

fun scheduler_rr :: "nat \<Rightarrow> (nat \<Rightarrow> ('z procst_scheme, unit) kop) \<Rightarrow> ('z procst_scheme, bool) kop" where
  "scheduler_rr 0 run = return False"
| "scheduler_rr (Suc n) run =
     bind (sched_pass run [0..<NPROC]) (\<lambda>_.
     bind (gets isLottery) (\<lambda>b.
     if b then return True else scheduler_rr n run))"

definition lottery_draw :: "('z procst_scheme, nat option) kop" where
  "lottery_draw =
     bind (gets totalTickets) (\<lambda>t.
     bind (gets random_number) (\<lambda>rn.
     let (random, rn') = prng (word_of_int t) rn in
     bind (modify (\<lambda>s. s\<lparr>random_number := rn'\<rparr>)) (\<lambda>_.
     bind (gets procs) (\<lambda>ps.
     let (w, nc) = lottery_scan (\<lambda>p. p_state (ps p) = RUNNABLE) random [0..<NPROC] 0 (\<lambda>p. p_nice (ps p)) in
     bind (modify (\<lambda>s. s\<lparr>procs := (\<lambda>p. (procs s p)\<lparr>p_nice := nc p\<rparr>)\<rparr>)) (\<lambda>_.
     return w)))))"

fun scheduler_lottery :: "nat \<Rightarrow> (nat \<Rightarrow> ('z procst_scheme, unit) kop) \<Rightarrow> ('z procst_scheme, bool) kop" where
  "scheduler_lottery 0 run = return False"
| "scheduler_lottery (Suc n) run =
     bind lottery_draw (\<lambda>w.
     bind (case w of None \<Rightarrow> return () | Some p \<Rightarrow> switch_to run p) (\<lambda>_.
     bind (gets isLottery) (\<lambda>b.
     if \<not> b then return True else scheduler_lottery n run)))"

fun dispatcher :: "nat \<Rightarrow> nat \<Rightarrow> (nat \<Rightarrow> ('z procst_scheme, unit) kop) \<Rightarrow> ('z procst_scheme, unit) kop" where
  "dispatcher 0 n run = return ()"
| "dispatcher (Suc k) n run =
     bind (gets isLottery) (\<lambda>b.
     bind (if b then scheduler_lottery n run else scheduler_rr n run) (\<lambda>_.
     dispatcher k n run))"

definition updateNice :: "int \<Rightarrow> nat \<Rightarrow> ('z procst_scheme, int) kop" where
  "updateNice nice p =
     bind (set_proc p (\<lambda>x. x\<lparr>p_nice := 120 + nice\<rparr>)) (\<lambda>_.
     bind (gets cur) (\<lambda>me.
     bind (getTicketAmount me) (\<lambda>amount.
     if amount < 0 then return (-1)
     else
       bind (modify (\<lambda>s. s\<lparr>totalTickets := int32 (totalTickets s - p_tickets (procs s p))\<rparr>)) (\<lambda>_.
       bind (modify (\<lambda>s. (upd_proc p (\<lambda>x. x\<lparr>p_tickets := amount\<rparr>) s)\<lparr>totalTickets := int32 (totalTickets s + amount)\<rparr>)) (\<lambda>_.
       return 0)))))"

section \<open>Giving up the processor\<close>

text \<open>\<^verbatim>\<open>yield\<close> up to its \<^verbatim>\<open>sched()\<close>; and the first code of a new process.\<close>

definition yield :: "('z procst_scheme, unit) kop" where
  "yield = bind myproc (\<lambda>me. set_proc me (\<lambda>x. x\<lparr>p_state := RUNNABLE\<rparr>))"

definition forkret :: "('z procst_scheme, unit) kop" where
  "forkret =
     bind (gets first_fork) (\<lambda>f.
     whenk f
       (bind (modify (\<lambda>s. s\<lparr>first_fork := False\<rparr>)) (\<lambda>_.
        bind (fs_call (iinit ROOTDEV)) (\<lambda>_.
        fs_call (initlog ROOTDEV)))))"

section \<open>Process listings\<close>

fun state_name :: "procstate \<Rightarrow> string" where
  "state_name UNUSED = ''unused''"
| "state_name EMBRYO = ''embryo''"
| "state_name SLEEPING = ''sleep ''"
| "state_name RUNNABLE = ''runble''"
| "state_name RUNNING = ''run   ''"
| "state_name ZOMBIE = ''zombie''"

text \<open>The arguments of the lines \<^verbatim>\<open>procdump\<close> prints: pid, state, name, and the call stack of a sleeper.\<close>

definition procdump :: "('z procst_scheme, (int \<times> string \<times> byte list \<times> uint32 list) list) kop" where
  "procdump = gets (\<lambda>s.
     map (\<lambda>p. let x = procs s p in
       (p_pid x, state_name (p_state x), p_name x,
        if p_state x = SLEEPING then
          takeWhile (\<lambda>a. a \<noteq> 0) (getcallerpcs (kbytes (vm s)) (c_ebp (p_context x) + 8))
        else []))
     (filter (\<lambda>p. p_state (procs s p) \<noteq> UNUSED) [0..<NPROC]))"

definition ticketdump :: "('z procst_scheme, int \<times> (int \<times> byte list \<times> string \<times> bool \<times> int \<times> int) list) kop" where
  "ticketdump = gets (\<lambda>s. (totalTickets s,
     map (\<lambda>p. let x = procs s p in
       (p_pid x, p_name x, state_name (p_state x), p_killed x, p_nice x, p_tickets x))
     (filter (\<lambda>p. p_state (procs s p) \<noteq> UNUSED) [0..<NPROC])))"

section \<open>Round robin is fair\<close>

text \<open>The state with a trace of the processes that were switched to.\<close>

record schedst = procst +
  trace :: "nat list"

text \<open>
  What a process that runs leaves of the table: the others that were runnable still are, with their
  address spaces.
\<close>

definition keeps_runnable :: "nat \<Rightarrow> schedst \<Rightarrow> schedst \<Rightarrow> bool" where
  "keeps_runnable p s t \<longleftrightarrow>
     (\<forall>q. q \<noteq> p \<and> p_state (procs s q) = RUNNABLE \<longrightarrow>
        p_state (procs t q) = RUNNABLE \<and> p_pgdir (procs t q) = p_pgdir (procs s q))"

definition spaces_ok :: "schedst \<Rightarrow> bool" where
  "spaces_ok s \<longleftrightarrow> (\<forall>q. p_state (procs s q) = RUNNABLE \<or> p_state (procs s q) = RUNNING \<longrightarrow> p_pgdir (procs s q) \<noteq> 0)"

definition runs_well :: "(nat \<Rightarrow> (schedst, unit) kop) \<Rightarrow> bool" where
  "runs_well run \<longleftrightarrow> (\<forall>p s. cur s = Some p \<and> p_state (procs s p) = RUNNING \<and> spaces_ok s \<longrightarrow>
     wp (run p) (\<lambda>_ t. trace t = trace s @ [p] \<and> keeps_runnable p s t \<and> spaces_ok t) s)"

lemma switch_to_wp:
  assumes "runs_well run" and "p_state (procs s p) = RUNNABLE" and "spaces_ok s"
  shows "wp (switch_to run p) (\<lambda>_ t. trace t = trace s @ [p] \<and> keeps_runnable p s t \<and> spaces_ok t) s"
proof -
  let ?s = "upd_proc p (\<lambda>y. y\<lparr>p_state := RUNNING\<rparr>) (s\<lparr>cur := Some p, vm := (vm s)\<lparr>cr3 := v2p (p_pgdir (procs s p))\<rparr>\<rparr>)"
  have nz: "p_pgdir (procs s p) \<noteq> 0" using assms(2,3) by (simp add: spaces_ok_def)
  have "cur ?s = Some p \<and> p_state (procs ?s p) = RUNNING \<and> spaces_ok ?s"
    using assms(3) nz by (auto simp: spaces_ok_def upd_proc_def)
  then have "wp (run p) (\<lambda>_ t. trace t = trace ?s @ [p] \<and> keeps_runnable p ?s t \<and> spaces_ok t) ?s"
    using assms(1) unfolding runs_well_def by blast
  then have "wp (run p) (\<lambda>_ t. trace t = trace s @ [p] \<and> keeps_runnable p s t \<and> spaces_ok t) ?s"
    by (rule wp_mono) (auto simp: keeps_runnable_def upd_proc_def)
  then show ?thesis
    using nz
    by (simp add: switch_to_def switchuvm_def switchkvm_def wp_simps)
      (erule wp_mono, auto simp: keeps_runnable_def spaces_ok_def wp_simps)
qed

lemma sched_pass_wp:
  assumes "runs_well run" and "spaces_ok s" and "sorted_wrt (<) ps"
  shows "wp (sched_pass run ps) (\<lambda>_ t. \<exists>qs. trace t = trace s @ qs \<and> sorted_wrt (<) qs \<and> set qs \<subseteq> set ps \<and>
    (\<forall>p\<in>set ps. p_state (procs s p) = RUNNABLE \<longrightarrow> p \<in> set qs)) s"
  using assms(2,3)
proof (induction ps arbitrary: s)
  case Nil
  then show ?case by (simp add: sched_pass_def wp_simps)
next
  case (Cons p ps)
  show ?case
  proof (cases "p_state (procs s p) = RUNNABLE")
    case False
    have "wp (sched_pass run ps) (\<lambda>_ t. \<exists>qs. trace t = trace s @ qs \<and> sorted_wrt (<) qs \<and> set qs \<subseteq> set ps \<and>
      (\<forall>p\<in>set ps. p_state (procs s p) = RUNNABLE \<longrightarrow> p \<in> set qs)) s"
      by (rule Cons.IH) (use Cons.prems in auto)
    then have "wp (sched_pass run ps) (\<lambda>_ t. \<exists>qs. trace t = trace s @ qs \<and> sorted_wrt (<) qs \<and> set qs \<subseteq> set (p # ps) \<and>
      (\<forall>q\<in>set (p # ps). p_state (procs s q) = RUNNABLE \<longrightarrow> q \<in> set qs)) s"
      by (rule wp_mono) (use False in auto)
    then show ?thesis using False by (simp add: sched_pass_def wp_simps)
  next
    case True
    from switch_to_wp [OF assms(1) this Cons.prems(1)]
    have "wp (switch_to run p) (\<lambda>_ u. wp (sched_pass run ps) (\<lambda>_ t. \<exists>qs. trace t = trace s @ qs \<and> sorted_wrt (<) qs \<and>
      set qs \<subseteq> set (p # ps) \<and> (\<forall>q\<in>set (p # ps). p_state (procs s q) = RUNNABLE \<longrightarrow> q \<in> set qs)) u) s"
    proof (rule wp_mono, elim conjE)
      fix u assume u: "trace u = trace s @ [p]" "keeps_runnable p s u" "spaces_ok u"
      have "wp (sched_pass run ps) (\<lambda>_ t. \<exists>qs. trace t = trace u @ qs \<and> sorted_wrt (<) qs \<and> set qs \<subseteq> set ps \<and>
        (\<forall>p\<in>set ps. p_state (procs u p) = RUNNABLE \<longrightarrow> p \<in> set qs)) u"
        by (rule Cons.IH) (use Cons.prems u in auto)
      then show "wp (sched_pass run ps) (\<lambda>_ t. \<exists>qs. trace t = trace s @ qs \<and> sorted_wrt (<) qs \<and>
        set qs \<subseteq> set (p # ps) \<and> (\<forall>q\<in>set (p # ps). p_state (procs s q) = RUNNABLE \<longrightarrow> q \<in> set qs)) u"
      proof (rule wp_mono, elim exE conjE)
        fix t qs
        assume t: "trace t = trace u @ qs" "sorted_wrt (<) qs" "set qs \<subseteq> set ps"
          "\<forall>p\<in>set ps. p_state (procs u p) = RUNNABLE \<longrightarrow> p \<in> set qs"
        have "q \<in> set (p # qs)" if "q \<in> set (p # ps)" "p_state (procs s q) = RUNNABLE" for q
          using that t(4) u(2) by (cases "q = p") (auto simp: keeps_runnable_def)
        moreover have "sorted_wrt (<) (p # qs)" using Cons.prems(2) t(2,3) by auto
        ultimately show "\<exists>qs. trace t = trace s @ qs \<and> sorted_wrt (<) qs \<and> set qs \<subseteq> set (p # ps) \<and>
          (\<forall>q\<in>set (p # ps). p_state (procs s q) = RUNNABLE \<longrightarrow> q \<in> set qs)"
          using t(1,3) u(1) by (intro exI [of _ "p # qs"]) auto
      qed
    qed
    then show ?thesis using True by (simp add: sched_pass_def wp_simps)
  qed
qed

text \<open>
  C29. The round-robin scheduler starves nobody: if a process that runs leaves the others runnable
  that were, then one pass over the table runs every process that was runnable at its beginning,
  each at most once and in the order of the table, so that between two runs of a process that stays
  runnable every other process runs at most twice.
\<close>

theorem round_robin_fair:
  assumes "runs_well run" and "spaces_ok s"
  shows "wp (sched_pass run [0..<NPROC]) (\<lambda>_ t. \<exists>qs. trace t = trace s @ qs \<and> sorted_wrt (<) qs \<and>
    (\<forall>p<NPROC. p_state (procs s p) = RUNNABLE \<longrightarrow> p \<in> set qs)) s"
proof (rule wp_mono [OF sched_pass_wp [OF assms sorted_wrt_upt]])
  fix t :: schedst
  assume "\<exists>qs. trace t = trace s @ qs \<and> sorted_wrt (<) qs \<and> set qs \<subseteq> set [0..<NPROC] \<and>
    (\<forall>p\<in>set [0..<NPROC]. p_state (procs s p) = RUNNABLE \<longrightarrow> p \<in> set qs)"
  then show "\<exists>qs. trace t = trace s @ qs \<and> sorted_wrt (<) qs \<and> (\<forall>p<NPROC. p_state (procs s p) = RUNNABLE \<longrightarrow> p \<in> set qs)"
    by (auto simp del: upt_rec_numeral)
qed

text \<open>Processes that only yield: 3 and 5 are runnable.\<close>

definition yielding :: "nat \<Rightarrow> (schedst, unit) kop" where
  "yielding p = bind yield (\<lambda>_. modify (\<lambda>s. s\<lparr>trace := trace s @ [p]\<rparr>))"

lemma yielding_runs_well: "runs_well yielding"
  by (auto simp: runs_well_def yielding_def yield_def myproc_def wp_simps keeps_runnable_def spaces_ok_def upd_proc_def)

definition demo_sched :: schedst where
  "demo_sched = procst.extend (demo_kernel\<lparr>procs := (procs demo_kernel)(3 := demo_init, 5 := demo_init), cur := None\<rparr>) (schedst.fields [])"

theorem round_robin_fair_witness:
  "wp (sched_pass yielding [0..<NPROC]) (\<lambda>_ t. \<exists>qs. trace t = trace demo_sched @ qs \<and> sorted_wrt (<) qs \<and>
     3 \<in> set qs \<and> 5 \<in> set qs) demo_sched"
proof -
  have p: "procs demo_sched = (procs demo_kernel)(3 := demo_init, 5 := demo_init)"
    by (simp add: demo_sched_def procst.defs)
  have "spaces_ok demo_sched" by (auto simp: spaces_ok_def p demo_init_def demo_user_def unused_proc_def page_of_def p2v_def)
  from round_robin_fair [OF yielding_runs_well this] show ?thesis
  proof (rule wp_mono)
    fix t assume "\<exists>qs. trace t = trace demo_sched @ qs \<and> sorted_wrt (<) qs \<and>
      (\<forall>p<NPROC. p_state (procs demo_sched p) = RUNNABLE \<longrightarrow> p \<in> set qs)"
    moreover have "p_state (procs demo_sched 3) = RUNNABLE" "p_state (procs demo_sched 5) = RUNNABLE"
      by (simp_all add: p demo_init_def)
    ultimately show "\<exists>qs. trace t = trace demo_sched @ qs \<and> sorted_wrt (<) qs \<and> 3 \<in> set qs \<and> 5 \<in> set qs" by fastforce
  qed
qed

end
