(* ===== verification/Sysfile.thy ===== *)
theory Sysfile
  imports Exec Sched
begin

text \<open>
  The system calls on files (sysfile.c). What a call does to the file system once its arguments are
  fetched is a definition of its own (\<open>do_link\<close>, \<open>do_unlink\<close>, \<open>create\<close>), on the state of the file system
  alone; the handler fetches the arguments and runs it by \<open>fs_call\<close>. A handler returns the \<^verbatim>\<open>int\<close> that
  \<^verbatim>\<open>syscall\<close> puts into \<^verbatim>\<open>eax\<close>.
\<close>

section \<open>Descriptors\<close>

definition sint32 :: "uint32 \<Rightarrow> int" where
  "sint32 w = sint w"

definition argfd :: "nat \<Rightarrow> ('z procst_scheme, (nat \<times> nat) option) kop" where
  "argfd n =
     bind (argint n) (\<lambda>r.
     case r of
       None \<Rightarrow> return None
     | Some w \<Rightarrow>
         bind myproc (\<lambda>me.
         bind (proc_at me) (\<lambda>x.
         if sint32 w < 0 \<or> sint32 w \<ge> int NOFILE then return None
         else case p_ofile x (unat w) of
                None \<Rightarrow> return None
              | Some f \<Rightarrow> return (Some (unat w, f)))))"

definition set_fd :: "nat \<Rightarrow> nat option \<Rightarrow> ('z procst_scheme, unit) kop" where
  "set_fd fd v = bind myproc (\<lambda>me. set_proc me (\<lambda>y. y\<lparr>p_ofile := (p_ofile y)(fd := v)\<rparr>))"

definition fdalloc :: "nat \<Rightarrow> ('z procst_scheme, nat option) kop" where
  "fdalloc f =
     bind myproc (\<lambda>me.
     bind (proc_at me) (\<lambda>x.
     case find (\<lambda>fd. p_ofile x fd = None) [0..<NOFILE] of
       None \<Rightarrow> return None
     | Some fd \<Rightarrow> bind (set_fd fd (Some f)) (\<lambda>_. return (Some fd))))"

definition killed_flag :: "('z procst_scheme, bool) kop" where
  "killed_flag = bind myproc (\<lambda>me. bind (proc_at me) (\<lambda>x. return (p_killed x)))"

definition sys_dup :: "('z procst_scheme, int) kop" where
  "sys_dup =
     bind (argfd 0) (\<lambda>r.
     case r of
       None \<Rightarrow> return (-1)
     | Some (_, f) \<Rightarrow>
         bind (fdalloc f) (\<lambda>q.
         case q of
           None \<Rightarrow> return (-1)
         | Some fd \<Rightarrow> bind (filedup f) (\<lambda>_. return (int fd))))"

text \<open>The arguments of \<^verbatim>\<open>read\<close> and \<^verbatim>\<open>write\<close>: the file, the buffer and its length.\<close>

definition rw_args :: "('z procst_scheme, (nat \<times> uint32 \<times> int) option) kop" where
  "rw_args =
     bind (argfd 0) (\<lambda>r.
     case r of
       None \<Rightarrow> return None
     | Some (_, f) \<Rightarrow>
         bind (argint 2) (\<lambda>q.
         case q of
           None \<Rightarrow> return None
         | Some w \<Rightarrow>
             bind (argptr 1 (sint32 w)) (\<lambda>p.
             case p of None \<Rightarrow> return None | Some a \<Rightarrow> return (Some (f, a, sint32 w)))))"

definition sys_read :: "'z procst_scheme devsw \<Rightarrow> ('z procst_scheme, int) kop" where
  "sys_read dv =
     bind rw_args (\<lambda>r.
     case r of
       None \<Rightarrow> return (-1)
     | Some (f, a, n) \<Rightarrow>
         bind killed_flag (\<lambda>k.
         bind (fs_call (fileread dv k f n)) (\<lambda>(c, d).
         bind (ustores a d) (\<lambda>_.
         return c))))"

definition sys_write :: "'z procst_scheme devsw \<Rightarrow> ('z procst_scheme, int) kop" where
  "sys_write dv =
     bind rw_args (\<lambda>r.
     case r of
       None \<Rightarrow> return (-1)
     | Some (f, a, n) \<Rightarrow>
         bind killed_flag (\<lambda>k.
         bind (uloads a (nat n)) (\<lambda>d.
         fs_call (filewrite dv k f (\<lambda>i. if i < length d then d ! i else 0) n))))"

definition sys_close :: "linkmap \<Rightarrow> ('z procst_scheme, int) kop" where
  "sys_close lm =
     bind (argfd 0) (\<lambda>r.
     case r of
       None \<Rightarrow> return (-1)
     | Some (fd, f) \<Rightarrow>
         bind (set_fd fd None) (\<lambda>_.
         bind (fs_call (fileclose lm f)) (\<lambda>_.
         return 0)))"

text \<open>The fields \<^verbatim>\<open>stati\<close> stores, at their offsets in \<^verbatim>\<open>struct stat\<close>.\<close>

definition store_stat :: "uint32 \<Rightarrow> stat \<Rightarrow> ('z procst_scheme, unit) kop" where
  "store_stat a st =
     bind (ustores (a + 4) (le32 (st_dev st))) (\<lambda>_.
     bind (ustores (a + 8) (le32 (st_ino st))) (\<lambda>_.
     bind (ustores a (le16 (as_ushort (st_type st)))) (\<lambda>_.
     bind (ustores (a + 12) (le16 (as_ushort (st_nlink st)))) (\<lambda>_.
     ustores (a + 16) (le32 (st_size st))))))"

definition sys_fstat :: "('z procst_scheme, int) kop" where
  "sys_fstat =
     bind (argfd 0) (\<lambda>r.
     case r of
       None \<Rightarrow> return (-1)
     | Some (_, f) \<Rightarrow>
         bind (argptr 1 20) (\<lambda>p.
         case p of
           None \<Rightarrow> return (-1)
         | Some a \<Rightarrow>
             bind (fs_call (filestat f)) (\<lambda>q.
             case q of
               None \<Rightarrow> return (-1)
             | Some st \<Rightarrow> bind (store_stat a st) (\<lambda>_. return 0))))"

section \<open>Links\<close>

text \<open>\<^verbatim>\<open>ip->nlink += d\<close>, a \<^verbatim>\<open>short\<close>.\<close>

definition add_nlink :: "nat \<Rightarrow> int \<Rightarrow> ('z fsst_scheme, unit) kop" where
  "add_nlink ip d = modify (upd_ino ip (\<lambda>i. i\<lparr>i_nlink := as_short (as_ushort (i_nlink i + d))\<rparr>))"

definition link_bad :: "nat \<Rightarrow> ('z fsst_scheme, int) kop" where
  "link_bad ip =
     bind (ilock ip) (\<lambda>_.
     bind (add_nlink ip (-1)) (\<lambda>_.
     bind (iupdate ip) (\<lambda>_.
     bind (iunlockput ip) (\<lambda>_.
     bind end_op (\<lambda>_.
     return (-1))))))"

definition do_link :: "'z fsst_scheme devsw \<Rightarrow> byte list \<Rightarrow> byte list \<Rightarrow> ('z fsst_scheme, int) kop" where
  "do_link dv old new =
     bind begin_op (\<lambda>_.
     bind (namei dv old) (\<lambda>r.
     case r of
       None \<Rightarrow> bind end_op (\<lambda>_. return (-1))
     | Some ip \<Rightarrow>
         bind (ilock ip) (\<lambda>_.
         bind (ino ip) (\<lambda>i.
         if i_type i = T_DIR then bind (iunlockput ip) (\<lambda>_. bind end_op (\<lambda>_. return (-1)))
         else
           bind (add_nlink ip 1) (\<lambda>_.
           bind (iupdate ip) (\<lambda>_.
           bind (iunlock ip) (\<lambda>_.
           bind (nameiparent dv new) (\<lambda>q.
           case q of
             None \<Rightarrow> link_bad ip
           | Some (dp, name) \<Rightarrow>
               bind (ilock dp) (\<lambda>_.
               bind (ino dp) (\<lambda>d.
               bind (ino ip) (\<lambda>i'.
               bind (if i_dev d \<noteq> i_dev i' then return (-1) else dirlink dv dp name (i_inum i')) (\<lambda>k.
               if k < 0 then bind (iunlockput dp) (\<lambda>_. link_bad ip)
               else
                 bind (iunlockput dp) (\<lambda>_.
                 bind (iput ip) (\<lambda>_.
                 bind end_op (\<lambda>_.
                 return 0)))))))))))))))"

definition sys_link :: "'z procst_scheme devsw \<Rightarrow> ('z procst_scheme, int) kop" where
  "sys_link dv =
     bind (argstr 0) (\<lambda>r.
     case r of
       None \<Rightarrow> return (-1)
     | Some old \<Rightarrow>
         bind (argstr 1) (\<lambda>q.
         case q of
           None \<Rightarrow> return (-1)
         | Some new \<Rightarrow> fs_call (do_link dv old new)))"

text \<open>\<^verbatim>\<open>isdirempty\<close> over the offsets behind the entries \<^verbatim>\<open>"."\<close> and \<^verbatim>\<open>".."\<close>.\<close>

fun isdirempty_scan :: "'z fsst_scheme devsw \<Rightarrow> nat \<Rightarrow> nat list \<Rightarrow> ('z fsst_scheme, bool) kop" where
  "isdirempty_scan dv dp [] = return True"
| "isdirempty_scan dv dp (off # offs) =
     bind (readi dv dp off sizeof_dirent) (\<lambda>(r, de).
     bind (panic_if (r \<noteq> int sizeof_dirent) ''isdirempty: readi'') (\<lambda>_.
     if de_inum de \<noteq> 0 then return False else isdirempty_scan dv dp offs))"

definition isdirempty :: "'z fsst_scheme devsw \<Rightarrow> nat \<Rightarrow> ('z fsst_scheme, bool) kop" where
  "isdirempty dv dp =
     bind (ino dp) (\<lambda>d. isdirempty_scan dv dp (filter (\<lambda>off. 2 * sizeof_dirent \<le> off) (dirent_offs (i_size d))))"

definition unlink_bad :: "nat \<Rightarrow> ('z fsst_scheme, int) kop" where
  "unlink_bad dp = bind (iunlockput dp) (\<lambda>_. bind end_op (\<lambda>_. return (-1)))"

definition do_unlink :: "'z fsst_scheme devsw \<Rightarrow> byte list \<Rightarrow> ('z fsst_scheme, int) kop" where
  "do_unlink dv path =
     bind begin_op (\<lambda>_.
     bind (nameiparent dv path) (\<lambda>r.
     case r of
       None \<Rightarrow> bind end_op (\<lambda>_. return (-1))
     | Some (dp, name) \<Rightarrow>
         bind (ilock dp) (\<lambda>_.
         if namecmp name (cstr ''.'') = 0 \<or> namecmp name (cstr ''..'') = 0 then unlink_bad dp
         else
           bind (dirlookup dv dp name) (\<lambda>q.
           case q of
             None \<Rightarrow> unlink_bad dp
           | Some (ip, off) \<Rightarrow>
               bind (ilock ip) (\<lambda>_.
               bind (ino ip) (\<lambda>i.
               bind (panic_if (i_nlink i < 1) ''unlink: nlink < 1'') (\<lambda>_.
               bind (if i_type i = T_DIR then isdirempty dv ip else return True) (\<lambda>e.
               if \<not> e then bind (iunlockput ip) (\<lambda>_. unlink_bad dp)
               else
                 bind (writei dv dp (replicate sizeof_dirent 0) off) (\<lambda>w.
                 bind (panic_if (w \<noteq> int sizeof_dirent) ''unlink: writei'') (\<lambda>_.
                 bind (whenk (i_type i = T_DIR) (bind (add_nlink dp (-1)) (\<lambda>_. iupdate dp))) (\<lambda>_.
                 bind (iunlockput dp) (\<lambda>_.
                 bind (add_nlink ip (-1)) (\<lambda>_.
                 bind (iupdate ip) (\<lambda>_.
                 bind (iunlockput ip) (\<lambda>_.
                 bind end_op (\<lambda>_.
                 return 0))))))))))))))))"

definition sys_unlink :: "'z procst_scheme devsw \<Rightarrow> ('z procst_scheme, int) kop" where
  "sys_unlink dv =
     bind (argstr 0) (\<lambda>r.
     case r of None \<Rightarrow> return (-1) | Some path \<Rightarrow> fs_call (do_unlink dv path))"

section \<open>Creating and opening\<close>

definition create ::
  "'z fsst_scheme devsw \<Rightarrow> byte list \<Rightarrow> int \<Rightarrow> int \<Rightarrow> int \<Rightarrow> ('z fsst_scheme, nat option) kop" where
  "create dv path type major minor =
     bind (nameiparent dv path) (\<lambda>r.
     case r of
       None \<Rightarrow> return None
     | Some (dp, name) \<Rightarrow>
         bind (ilock dp) (\<lambda>_.
         bind (dirlookup dv dp name) (\<lambda>q.
         case q of
           Some (ip, _) \<Rightarrow>
             bind (iunlockput dp) (\<lambda>_.
             bind (ilock ip) (\<lambda>_.
             bind (ino ip) (\<lambda>i.
             if type = T_FILE \<and> i_type i = T_FILE then return (Some ip)
             else bind (iunlockput ip) (\<lambda>_. return None))))
         | None \<Rightarrow>
             bind (ino dp) (\<lambda>d.
             bind (ialloc (i_dev d) type) (\<lambda>ip.
             bind (ilock ip) (\<lambda>_.
             bind (modify (upd_ino ip (\<lambda>i. i\<lparr>i_major := major, i_minor := minor, i_nlink := 1\<rparr>))) (\<lambda>_.
             bind (iupdate ip) (\<lambda>_.
             bind (ino ip) (\<lambda>i.
             bind (whenk (type = T_DIR)
               (bind (add_nlink dp 1) (\<lambda>_.
                bind (iupdate dp) (\<lambda>_.
                bind (dirlink dv ip (cstr ''.'') (i_inum i)) (\<lambda>k.
                bind (panic_if (k < 0) ''create dots'') (\<lambda>_.
                bind (dirlink dv ip (cstr ''..'') (i_inum d)) (\<lambda>k'.
                panic_if (k' < 0) ''create dots''))))))) (\<lambda>_.
             bind (dirlink dv dp name (i_inum i)) (\<lambda>k.
             bind (panic_if (k < 0) ''create: dirlink'') (\<lambda>_.
             bind (iunlockput dp) (\<lambda>_.
             return (Some ip))))))))))))))"

text \<open>The inode a path names, locked, or nothing; inside the transaction of \<^verbatim>\<open>sys_open\<close>.\<close>

definition open_inode :: "'z fsst_scheme devsw \<Rightarrow> byte list \<Rightarrow> uint32 \<Rightarrow> ('z fsst_scheme, nat option) kop" where
  "open_inode dv path omode =
     (if omode AND O_CREATE \<noteq> 0 then create dv path T_FILE 0 0
      else
        bind (namei dv path) (\<lambda>r.
        case r of
          None \<Rightarrow> return None
        | Some ip \<Rightarrow>
            bind (ilock ip) (\<lambda>_.
            bind (ino ip) (\<lambda>i.
            if i_type i = T_DIR \<and> omode \<noteq> O_RDONLY then bind (iunlockput ip) (\<lambda>_. return None)
            else return (Some ip)))))"

definition open_bad :: "nat \<Rightarrow> ('z procst_scheme, int) kop" where
  "open_bad ip = fs_call (bind (iunlockput ip) (\<lambda>_. bind end_op (\<lambda>_. return (-1))))"

definition sys_open :: "'z procst_scheme devsw \<Rightarrow> linkmap \<Rightarrow> ('z procst_scheme, int) kop" where
  "sys_open dv lm =
     bind (argstr 0) (\<lambda>r.
     case r of
       None \<Rightarrow> return (-1)
     | Some path \<Rightarrow>
         bind (argint 1) (\<lambda>q.
         case q of
           None \<Rightarrow> return (-1)
         | Some omode \<Rightarrow>
             bind (fs_call begin_op) (\<lambda>_.
             bind (fs_call (open_inode dv path omode)) (\<lambda>z.
             case z of
               None \<Rightarrow> bind (fs_call end_op) (\<lambda>_. return (-1))
             | Some ip \<Rightarrow>
                 bind filealloc (\<lambda>y.
                 case y of
                   None \<Rightarrow> open_bad ip
                 | Some f \<Rightarrow>
                     bind (fdalloc f) (\<lambda>x.
                     case x of
                       None \<Rightarrow> bind (fs_call (fileclose lm f)) (\<lambda>_. open_bad ip)
                     | Some fd \<Rightarrow>
                         bind (fs_call (iunlock ip)) (\<lambda>_.
                         bind (fs_call end_op) (\<lambda>_.
                         bind (modify (upd_file f (\<lambda>y. y\<lparr>f_type := FD_INODE, f_ip := ip, f_off := 0,
                           f_readable := (omode AND O_WRONLY = 0),
                           f_writable := (omode AND O_WRONLY \<noteq> 0 \<or> omode AND O_RDWR \<noteq> 0)\<rparr>))) (\<lambda>_.
                         return (int fd))))))))))"

definition sys_mkdir :: "'z procst_scheme devsw \<Rightarrow> ('z procst_scheme, int) kop" where
  "sys_mkdir dv =
     bind (fs_call begin_op) (\<lambda>_.
     bind (argstr 0) (\<lambda>r.
     bind (case r of None \<Rightarrow> return None | Some path \<Rightarrow> fs_call (create dv path T_DIR 0 0)) (\<lambda>q.
     case q of
       None \<Rightarrow> bind (fs_call end_op) (\<lambda>_. return (-1))
     | Some ip \<Rightarrow> fs_call (bind (iunlockput ip) (\<lambda>_. bind end_op (\<lambda>_. return 0))))))"

text \<open>The device numbers are \<^verbatim>\<open>short\<close> parameters of \<^verbatim>\<open>create\<close>: only their low half is kept.\<close>

definition sys_mknod :: "'z procst_scheme devsw \<Rightarrow> ('z procst_scheme, int) kop" where
  "sys_mknod dv =
     bind (fs_call begin_op) (\<lambda>_.
     bind (argstr 0) (\<lambda>r.
     bind (case r of
             None \<Rightarrow> return None
           | Some path \<Rightarrow>
               bind (argint 1) (\<lambda>a.
               case a of
                 None \<Rightarrow> return None
               | Some major \<Rightarrow>
                   bind (argint 2) (\<lambda>b.
                   case b of
                     None \<Rightarrow> return None
                   | Some minor \<Rightarrow>
                       fs_call (create dv path T_DEV (as_short (as_ushort (sint32 major)))
                                                     (as_short (as_ushort (sint32 minor))))))) (\<lambda>q.
     case q of
       None \<Rightarrow> bind (fs_call end_op) (\<lambda>_. return (-1))
     | Some ip \<Rightarrow> fs_call (bind (iunlockput ip) (\<lambda>_. bind end_op (\<lambda>_. return 0))))))"

definition sys_chdir :: "'z procst_scheme devsw \<Rightarrow> ('z procst_scheme, int) kop" where
  "sys_chdir dv =
     bind (fs_call begin_op) (\<lambda>_.
     bind (argstr 0) (\<lambda>r.
     bind (case r of None \<Rightarrow> return None | Some path \<Rightarrow> fs_call (namei dv path)) (\<lambda>q.
     case q of
       None \<Rightarrow> bind (fs_call end_op) (\<lambda>_. return (-1))
     | Some ip \<Rightarrow>
         bind (fs_call (ilock ip)) (\<lambda>_.
         bind (ino ip) (\<lambda>i.
         if i_type i \<noteq> T_DIR then fs_call (bind (iunlockput ip) (\<lambda>_. bind end_op (\<lambda>_. return (-1))))
         else
           bind myproc (\<lambda>me.
           bind (proc_at me) (\<lambda>x.
           bind (fs_call (bind (iunlock ip) (\<lambda>_.
             bind (case p_cwd x of None \<Rightarrow> panic ''null inode'' | Some d \<Rightarrow> iput d) (\<lambda>_. end_op)))) (\<lambda>_.
           bind (set_proc me (\<lambda>y. y\<lparr>p_cwd := Some ip\<rparr>)) (\<lambda>_.
           return 0)))))))))"

section \<open>Programs and pipes\<close>

text \<open>The vector \<^verbatim>\<open>argv\<close> from its element \<open>i\<close> on, with \<open>n\<close> elements of the kernel's copy left.\<close>

fun fetch_argv :: "uint32 \<Rightarrow> nat \<Rightarrow> nat \<Rightarrow> ('z procst_scheme, byte list list option) kop" where
  "fetch_argv uargv i 0 = return None"
| "fetch_argv uargv i (Suc n) =
     bind (fetchint (uargv + 4 * of_nat i)) (\<lambda>r.
     case r of
       None \<Rightarrow> return None
     | Some uarg \<Rightarrow>
         if uarg = 0 then return (Some [])
         else
           bind (fetchstr uarg) (\<lambda>q.
           case q of
             None \<Rightarrow> return None
           | Some a \<Rightarrow>
               bind (fetch_argv uargv (i + 1) n) (\<lambda>z.
               case z of None \<Rightarrow> return None | Some as \<Rightarrow> return (Some (a # as)))))"

definition sys_exec :: "'z procst_scheme devsw \<Rightarrow> linkmap \<Rightarrow> byte list \<Rightarrow> ('z procst_scheme, int) kop" where
  "sys_exec dv lm junk =
     bind (argstr 0) (\<lambda>r.
     case r of
       None \<Rightarrow> return (-1)
     | Some path \<Rightarrow>
         bind (argint 1) (\<lambda>q.
         case q of
           None \<Rightarrow> return (-1)
         | Some uargv \<Rightarrow>
             bind (fetch_argv uargv 0 MAXARG) (\<lambda>z.
             case z of None \<Rightarrow> return (-1) | Some argv \<Rightarrow> exec dv lm junk path argv)))"

definition sys_pipe :: "linkmap \<Rightarrow> ('z procst_scheme, int) kop" where
  "sys_pipe lm =
     bind (argptr 0 8) (\<lambda>p.
     case p of
       None \<Rightarrow> return (-1)
     | Some fd \<Rightarrow>
         bind (fs_call (pipealloc lm)) (\<lambda>r.
         case r of
           None \<Rightarrow> return (-1)
         | Some (rfl, wfl) \<Rightarrow>
             bind (fdalloc rfl) (\<lambda>a.
             bind (case a of None \<Rightarrow> return None | Some _ \<Rightarrow> fdalloc wfl) (\<lambda>b.
             case (a, b) of
               (Some fd0, Some fd1) \<Rightarrow>
                 bind (ustores fd (le32 fd0)) (\<lambda>_.
                 bind (ustores (fd + 4) (le32 fd1)) (\<lambda>_.
                 return 0))
             | _ \<Rightarrow>
                 bind (case a of Some fd0 \<Rightarrow> set_fd fd0 None | None \<Rightarrow> return ()) (\<lambda>_.
                 bind (fs_call (fileclose lm rfl)) (\<lambda>_.
                 bind (fs_call (fileclose lm wfl)) (\<lambda>_.
                 return (-1))))))))"

section \<open>The calls the repository adds\<close>

definition wolfie_img :: "byte list" where
  "wolfie_img = concat (map (\<lambda>l. cstr l @ [10]) [
     ''                     .........................              '',
     ''                     ...........................            '',
     ''                   ..........,.,,,,,,,..............        '',
     ''                   .......~8ZO+,,,:I$$?:,,,...........      '',
     ''                   .......DD8ZZZ7$$$$$~+$=,,,..........     '',
     ''                  ......,,8DDDDD8$888D88Z7$,,,,.........    '',
     ''                  ......,,8DDDNNDDDDDDDDDD88OI,,........    '',
     ''               ........,,,=DNNNNMMONMNDDDD88888OZ?......    '',
     ''              ........,,,:?NI??IN8$$MMMMNM8OOOZZ?,......    '',
     ''             ........,,:O7ZDDDII8D$$NMMMN.OZO8I,,.......    '',
     ''             .......,?$ZOOO$$8DNM$NDDDD8O?7.$,,,,.......    '',
     ''             ......,ZZ$ZOZOOZZOODNDDDDD88O?=$8,,,,......    '',
     ''            .......NOZZZONN88D88?DDDDND??Z8ZDZ$:,,......    '',
     ''            .......8MNND88DN88D?+7NZ$DNNDD=I8?:~,,......    '',
     ''            .......,,8DDDDDDDD$D?IZI+=?DND~:8=~=,,......    '',
     ''            .......,,,,,8N8DD7?NMIII?+~~,,,,.I7?I.......    '',
     ''          ........,,,,,:::NNO7?MMN7II+??I~..~Z7I=.......    '',
     ''         .........,,,ZOOO8DMZ$I7MN8DDNMM?~=:++OO,.......    '',
     ''      ..........,,:ZZZZZZOOO88I?MM.ZDOMN,Z$~:,,,,.......    '',
     ''    ...........,,$$Z$ZZZZZZOO8$??+.,.,:.=Z$7$:,,,.......    '',
     ''    ........,,,$$ZZZ$ZZZZZZZOO8$I?+=====:77II77,,,......    '',
     ''   .......,,,$Z$$$ZO8ZZZZZZZZOOOO$77I=~:,III??II,,.......   '',
     ''  .......,,?$$$$$$ZOOOZZZZZZZOOOZ$$7$Z$$7II????7=,,........ '',
     '' .......,7$$$$$$$$$$OOOOZZZZZZZ$$77:.~$77II?++?$?+,,.......  '',
     '' ......,OMDZ$$$$$$$ZO8OOOZZZZZ$$$7777$IIIIII+7?$I?+,,......  '',
     '' ......,,8DNN$$$$$ZZDO8OOZZZZI::7?.$$+?I7III?$I77+++=,.......'',
     '' .....,,+DNDDNO$$$ZDDD88OOZOI,.:$Z7$$=~.7$,I7IZ77??I?,,......'',
     '' .....,,ODNDDDDM$$8DD88OOO8ZO$$$ZI$I:77II7$=I88Z$IIIZ,,......'',
     '' .....,+DDDD8DD8N::DDD8O8DOOO$$Z$I7..7III????88OZ7N8Z,,......'',
     '' .....,ZDO88OD8O:::?DD888OOOO$$Z$7?7.I7II??I::88ND88OI,,.....'',
     '' .....,$D888888=::::D8DDO8OOO$ZZ$I??.IIII?7~:::8DDD8OZ~,.....'',
     '' .....,=8DD8Z87,,,,,8DD888OOZ$ZZ$II=.II7?I+,,,,,8D88OZ?,.....'',
     '' .....,,8NDD87,,,,,,ID888OOOZ$ZZZI7...?7I?=,,,,,OOZ8Z7,......'',
     '' .....,,ND8DDO,,,,,,,88888OOZZZOZ77..=I?II~,,,,,:ZZOO7,,.....'',
     '' ......,8D8DOOI,,,,,,88888OOZZOOZ7?I??I7?I,,,,,,,O8$O7,......'',
     '' ......,IDD8DD8:,,,,,88OOOOOZZOOZ$I??I?III,,,,,,,ZDD$I,......'',
     '' ......,,D8888DD?,,,,OOOOOOOZZOOZ$7???I?I?,,,,,,,+ND7?,......'',
     '' .......,O8ODDODZ,,,,:OOOOZZZZOOZ$7IIII???,,,,,,,,DZ?=.......'',
     ''  ......,,OO8OOO$I,,,:O$7O8O8888OOZ$O77Z7I$,,,,,II?I~........'',
     ''  ........,?O88OZ?,,,=O7IZZ$$Z7O7ZO7ZIIII7I~,,,$7:~:.........'',
     ''    ............,,,,,~8IOZZ$Z$7$7Z7I7Z$?7II?,,,,...........  '',
     ''    ..............,,,,8IOOZ$Z7$777777II$7?I?,,,............  '',
     ''    ...............,,,ZIOOZ$Z7$777II77II77II~,,..........    '',
     ''      .............,,,77OOZZ$$$7777I$I77III??,,.........     '',
     ''            .......,,:IOOOZZZ$$7777IZ$7IIIII?,,......        '',
     ''             ......,,=?OOOZZZ$77777O$$$77III?,......         '',
     ''             ......,Z878OOZZZ$$$77I8Z$$$777II,,.....         '',
     ''             ......,878OOOOZZ$$$$7IDOZ$$7777,,......         '',
     ''             ......,,+O8OOOOZZ$$77O8OZ$$7777,,......         '',
     ''             .....,,,7OO8OOOZZ$$Z7D88Z$$$77?,,......         '',
     ''            ......,,+88O88OOZZ$$$ND88OOZ$777,.......         '',
     ''            ......,,+8O8Z8OO$OZ7$D8888OZ$$7,,......          '',
     ''            ......,+?OO88OOOZZO7IDN8OZ$$77,,.......          '',
     ''            ......,,8OZO8$87O$IINMMMN88$7~,,,.....           '',
     ''            ......,,DO8NN8ZOZ:::ZNNDOODI~,,,......           '',
     ''            ......,:8OZOZ8$==:::,DO88O?$Z,,,......           '',
     ''            .....,,~DNO88Z++I,,,::NDNDD88,,,,.........       '',
     ''            ......,,OOOZ$+ZN?:,,,~DD8OI??,,,,,........       '',
     ''            .....,,88O8OZ$O=,,,,,ZDD8O$??,,,,,,.........     '',
     ''            .....,,8888ZZOI:,,,,,ODD88OZZ,.I.I,.........     '',
     ''          .......,,OD=ZZ$7I,,,,,,8D8OOZ$$$7+I... ........    '',
     ''          ......,,,8~=OZ$I7:,,,,,8D88OZZ$$:..,. .,.......    '',
     ''          ......,,OZOI..7II~,,,,,DD88OOZZZ,,...  ........    '',
     ''          ......,~O=,.$.7=7$,,,,.,NN8888OI...............    '',
     ''          ......==,,.,.$:..$,,,...,,,,ON8~,.....8~.......    '',
     ''         ......,?+~,.,.....I,,........,,,,,,,,.,........     '',
     ''         .......I+~:,,..  .~,...........................     '',
     ''          ......I?+~:,,...............................       '',
     ''          .......M?+~:,,:8,.........................         '',
     ''          .......,,.,,,,,..........  .............           '',
     ''          .......................                            '',
     ''            ....................                             '',
     ''             .................  ''])"

text \<open>\<^verbatim>\<open>strncpy\<close> stores the picture and fills the rest of the caller's buffer with NULs.\<close>

definition sys_wolfie :: "('z procst_scheme, int) kop" where
  "sys_wolfie =
     bind (argint 1) (\<lambda>r.
     case r of
       None \<Rightarrow> return (-1)
     | Some w \<Rightarrow>
         bind (argptr 0 (sint32 w)) (\<lambda>q.
         case q of
           None \<Rightarrow> return (-1)
         | Some buf \<Rightarrow>
             if buf = 0 \<or> sint32 w \<le> 0 \<or> sint32 w < int (length wolfie_img) + 1 then return (-1)
             else
               bind (ustores buf (wolfie_img @ replicate (unat w - length wolfie_img) 0)) (\<lambda>_.
               return (int (length wolfie_img)))))"

definition sys_nice :: "bool \<Rightarrow> ('z procst_scheme, int) kop" where
  "sys_nice lot =
     bind (argint 0) (\<lambda>r.
     case r of
       None \<Rightarrow> return (-1)
     | Some w \<Rightarrow>
         if sint32 w < -20 \<or> sint32 w > 19 then return (-1)
         else
           bind myproc (\<lambda>me.
           bind (if lot then updateNice (sint32 w) me else return 0) (\<lambda>e.
           if e \<noteq> 0 then return (-1)
           else bind (proc_at me) (\<lambda>x. return (p_nice x)))))"

text \<open>\<^verbatim>\<open>ticketdump\<close> and \<^verbatim>\<open>printFSStats\<close> print; their output is the value of the model's functions.\<close>

definition sys_printProcess :: "('z procst_scheme, int) kop" where
  "sys_printProcess = bind ticketdump (\<lambda>_. return 0)"

definition sys_prng :: "('z procst_scheme, int) kop" where
  "sys_prng =
     bind (gets random_number) (\<lambda>r.
     bind (modify (\<lambda>s. s\<lparr>random_number := snd (prng 20 r)\<rparr>)) (\<lambda>_.
     return (sint32 (fst (prng 20 r)))))"

definition sys_switchScheduler :: "('z procst_scheme, int) kop" where
  "sys_switchScheduler = bind (modify (\<lambda>s. s\<lparr>isLottery := \<not> isLottery s\<rparr>)) (\<lambda>_. return 0)"

definition printFSStats :: "('z fsst_scheme, (nat \<times> nat) list) kop" where
  "printFSStats =
     bind (gets sb) (\<lambda>sbk.
     let each = (\<lambda>i. bind (bread ROOTDEV (STATBLOCK i sbk)) (\<lambda>b.
                     bind (bdata b) (\<lambda>d.
                     bind (brelse b) (\<lambda>_.
                     return (stat_used d, stat_percent d)))))
     in foldr (\<lambda>i m. bind (each i) (\<lambda>x. bind m (\<lambda>xs. return (x # xs)))) [0..<sb_nblockgroups sbk] (return []))"

definition sys_printStats :: "('z procst_scheme, int) kop" where
  "sys_printStats = bind (fs_call printFSStats) (\<lambda>_. return 0)"

end
