(* ===== verification/Trap.thy ===== *)
theory Trap
  imports Sysfile
begin

text \<open>
  The process system calls (sysproc.c), the system-call table (syscall.c) and the trap handler
  (trap.c). A handler ends in one of three ways: it returns, it is \<^verbatim>\<open>exit\<close>, which does not come back, or it
  is \<^verbatim>\<open>yield\<close>, which comes back when the process is next scheduled; what is then left to do is a definition
  of its own (\<open>syscall_return\<close>, \<open>trap_resume\<close>). A handler that sleeps is the value \<open>Sleep\<close>; \<open>sys_sleep_loop\<close>
  is what \<^verbatim>\<open>sys_sleep\<close> does each time it wakes up.

  The interrupt handlers of the drivers are arguments of \<open>trap\<close>, and so is the content of register CR2.
\<close>

section \<open>State\<close>

record kstate = procst +
  ticks :: uint32

datatype 'a ending = Returns 'a | Exits | Yields

record 'z kconf =
  k_im :: kimage
  k_dv :: "'z devsw"
  k_lot :: bool
  k_junk :: "byte list"

section \<open>Process system calls\<close>

definition sys_fork :: "'s kconf \<Rightarrow> ('z kstate_scheme, int) kop" where
  "sys_fork kc = fork (k_im kc)"

definition sys_wait :: "'s kconf \<Rightarrow> ('z kstate_scheme, int) kop" where
  "sys_wait kc = wait (k_im kc)"

definition sys_exit :: "'s kconf \<Rightarrow> ('z kstate_scheme, int ending) kop" where
  "sys_exit kc = bind (exit (k_lot kc) (k_im kc)) (\<lambda>_. return Exits)"

definition sys_yield :: "('z kstate_scheme, int ending) kop" where
  "sys_yield = bind yield (\<lambda>_. return Yields)"

definition sys_kill :: "('z kstate_scheme, int) kop" where
  "sys_kill = bind (argint 0) (\<lambda>r. case r of None \<Rightarrow> return (-1) | Some w \<Rightarrow> kill (sint32 w))"

definition sys_getpid :: "('z kstate_scheme, int) kop" where
  "sys_getpid = bind myproc (\<lambda>me. bind (proc_at me) (\<lambda>x. return (p_pid x)))"

definition sys_sbrk :: "'s kconf \<Rightarrow> ('z kstate_scheme, int) kop" where
  "sys_sbrk kc =
     bind (argint 0) (\<lambda>r.
     case r of
       None \<Rightarrow> return (-1)
     | Some w \<Rightarrow>
         bind psize (\<lambda>addr.
         bind (growproc (k_im kc) (sint32 w)) (\<lambda>e.
         if e < 0 then return (-1) else return (sint32 addr))))"

text \<open>\<^verbatim>\<open>ticks - ticks0 < n\<close> compares \<^verbatim>\<open>uint\<close>s: \<^verbatim>\<open>n\<close> is converted.\<close>

definition sys_sleep_loop :: "uint32 \<Rightarrow> uint32 \<Rightarrow> ('z kstate_scheme, int) kop" where
  "sys_sleep_loop ticks0 n =
     bind (gets ticks) (\<lambda>t.
     if t - ticks0 < n then
       bind killed_flag (\<lambda>k. if k then return (-1) else sleep ChanTicks)
     else return 0)"

definition sys_sleep :: "('z kstate_scheme, int) kop" where
  "sys_sleep =
     bind (argint 0) (\<lambda>r.
     case r of
       None \<Rightarrow> return (-1)
     | Some n \<Rightarrow> bind (gets ticks) (\<lambda>ticks0. sys_sleep_loop ticks0 n))"

definition sys_uptime :: "('z kstate_scheme, int) kop" where
  "sys_uptime = bind (gets ticks) (\<lambda>t. return (sint32 t))"

section \<open>The system-call table\<close>

definition returns :: "('s, int) kop \<Rightarrow> ('s, int ending) kop option" where
  "returns m = Some (bind m (\<lambda>v. return (Returns v)))"

definition syscalls :: "'z kstate_scheme kconf \<Rightarrow> ('z kstate_scheme, int ending) kop option list" where
  "syscalls kc =
     (let lm = im_link (k_im kc); dv = k_dv kc in
      [None,
       returns (sys_fork kc), Some (sys_exit kc), returns (sys_wait kc), returns (sys_pipe lm),
       returns (sys_read dv), returns sys_kill, returns (sys_exec dv lm (k_junk kc)), returns sys_fstat,
       returns (sys_chdir dv), returns sys_dup, returns sys_getpid, returns (sys_sbrk kc),
       returns sys_sleep, returns sys_uptime, returns (sys_open dv lm), returns (sys_write dv),
       returns (sys_mknod dv), returns (sys_unlink dv), returns (sys_link dv), returns (sys_mkdir dv),
       returns (sys_close lm), returns sys_wolfie, returns (sys_nice (k_lot kc)), returns sys_printProcess,
       returns sys_prng, returns sys_switchScheduler, Some sys_yield, returns sys_printStats])"

definition syscall_return :: "int \<Rightarrow> ('z kstate_scheme, unit) kop" where
  "syscall_return v = bind myproc (\<lambda>me. set_proc me (\<lambda>x. x\<lparr>p_tf := (p_tf x)\<lparr>tf_eax := word_of_int v\<rparr>\<rparr>))"

definition syscall :: "'z kstate_scheme kconf \<Rightarrow> ('z kstate_scheme, unit ending) kop" where
  "syscall kc =
     bind myproc (\<lambda>me.
     bind (proc_at me) (\<lambda>x.
     let num = sint32 (tf_eax (p_tf x)) in
     case (if num > 0 \<and> num < int (length (syscalls kc)) then syscalls kc ! nat num else None) of
       Some call \<Rightarrow>
         bind call (\<lambda>r.
         case r of
           Returns v \<Rightarrow> bind (syscall_return v) (\<lambda>_. return (Returns ()))
         | Exits \<Rightarrow> return Exits
         | Yields \<Rightarrow> return Yields)
     | None \<Rightarrow> bind (syscall_return (-1)) (\<lambda>_. return (Returns ()))))"

section \<open>Traps\<close>

abbreviation T_PGFLT :: uint32 where "T_PGFLT \<equiv> 14"
abbreviation T_SYSCALL :: uint32 where "T_SYSCALL \<equiv> 64"
abbreviation T_IRQ0 :: uint32 where "T_IRQ0 \<equiv> 32"
abbreviation IRQ_TIMER :: uint32 where "IRQ_TIMER \<equiv> 0"
abbreviation IRQ_KBD :: uint32 where "IRQ_KBD \<equiv> 1"
abbreviation IRQ_COM1 :: uint32 where "IRQ_COM1 \<equiv> 4"
abbreviation IRQ_IDE :: uint32 where "IRQ_IDE \<equiv> 14"
abbreviation IRQ_SPURIOUS :: uint32 where "IRQ_SPURIOUS \<equiv> 31"

definition exit_now :: "'s kconf \<Rightarrow> ('z kstate_scheme, 'a ending) kop" where
  "exit_now kc = bind (exit (k_lot kc) (k_im kc)) (\<lambda>_. return Exits)"

text \<open>\<^verbatim>\<open>if(proc->killed) exit();\<close> on the way out of a system call.\<close>

definition syscall_done :: "'s kconf \<Rightarrow> ('z kstate_scheme, unit ending) kop" where
  "syscall_done kc = bind killed_flag (\<lambda>k. if k then exit_now kc else return (Returns ()))"

definition trap_syscall :: "'z kstate_scheme kconf \<Rightarrow> trapframe \<Rightarrow> ('z kstate_scheme, unit ending) kop" where
  "trap_syscall kc tf =
     bind killed_flag (\<lambda>k.
     if k then exit_now kc
     else
       bind myproc (\<lambda>me.
       bind (set_proc me (\<lambda>x. x\<lparr>p_tf := tf\<rparr>)) (\<lambda>_.
       bind (syscall kc) (\<lambda>r.
       case r of Returns _ \<Rightarrow> syscall_done kc | Exits \<Rightarrow> return Exits | Yields \<Rightarrow> return Yields))))"

text \<open>What is left of the system call \<^verbatim>\<open>yield\<close> when the process runs again.\<close>

definition trap_syscall_resume :: "'s kconf \<Rightarrow> ('z kstate_scheme, unit ending) kop" where
  "trap_syscall_resume kc = bind (syscall_return 0) (\<lambda>_. syscall_done kc)"

definition timer_tick :: "nat \<Rightarrow> ('z kstate_scheme, unit) kop" where
  "timer_tick cpuid =
     whenk (cpuid = 0) (bind (modify (\<lambda>s. s\<lparr>ticks := ticks s + 1\<rparr>)) (\<lambda>_. wakeup ChanTicks))"

definition user_mode :: "trapframe \<Rightarrow> bool" where
  "user_mode tf \<longleftrightarrow> tf_cs tf AND 3 = DPL_USER"

definition die_if_killed :: "'s kconf \<Rightarrow> trapframe \<Rightarrow> ('z kstate_scheme, bool) kop" where
  "die_if_killed kc tf =
     bind (gets cur) (\<lambda>c.
     case c of
       None \<Rightarrow> return False
     | Some me \<Rightarrow>
         bind (proc_at me) (\<lambda>x.
         if p_killed x \<and> user_mode tf then bind (exit (k_lot kc) (k_im kc)) (\<lambda>_. return True)
         else return False))"

text \<open>The last check, after the process has been away in \<^verbatim>\<open>yield\<close> or at once.\<close>

definition trap_resume :: "'s kconf \<Rightarrow> trapframe \<Rightarrow> ('z kstate_scheme, unit ending) kop" where
  "trap_resume kc tf = bind (die_if_killed kc tf) (\<lambda>d. return (if d then Exits else Returns ()))"

definition unexpected_trap :: "trapframe \<Rightarrow> ('z kstate_scheme, unit) kop" where
  "unexpected_trap tf =
     bind (gets cur) (\<lambda>c.
     case c of
       None \<Rightarrow> panic ''trap''
     | Some me \<Rightarrow>
         if tf_cs tf AND 3 = 0 then panic ''trap'' else set_proc me (\<lambda>x. x\<lparr>p_killed := True\<rparr>))"

definition trap ::
  "'z kstate_scheme kconf \<Rightarrow> nat \<Rightarrow> ('z kstate_scheme, unit) kop \<Rightarrow> ('z kstate_scheme, unit) kop \<Rightarrow>
   ('z kstate_scheme, unit) kop \<Rightarrow> trapframe \<Rightarrow> ('z kstate_scheme, unit ending) kop" where
  "trap kc cpuid ideintr kbdintr uartintr tf =
     (let n = tf_trapno tf in
      if n = T_SYSCALL then trap_syscall kc tf
      else
        bind (if n = T_IRQ0 + IRQ_TIMER then timer_tick cpuid
              else if n = T_IRQ0 + IRQ_IDE then ideintr
              else if n = T_IRQ0 + IRQ_IDE + 1 then return ()
              else if n = T_IRQ0 + IRQ_KBD then kbdintr
              else if n = T_IRQ0 + IRQ_COM1 then uartintr
              else if n = T_IRQ0 + 7 \<or> n = T_IRQ0 + IRQ_SPURIOUS then return ()
              else unexpected_trap tf) (\<lambda>_.
        bind (die_if_killed kc tf) (\<lambda>d.
        if d then return Exits
        else
          bind (gets (\<lambda>s. case cur s of None \<Rightarrow> False | Some me \<Rightarrow> p_state (procs s me) = RUNNING)) (\<lambda>r.
          if r \<and> n = T_IRQ0 + IRQ_TIMER then bind yield (\<lambda>_. return Yields)
          else trap_resume kc tf))))"

section \<open>The page-fault handler of the copy-on-write build\<close>

text \<open>\<open>cr2\<close> is the faulting address; \<^verbatim>\<open>invlpg\<close> acts on the TLB, which the model does not have.\<close>

definition pgflthandler :: "linkmap \<Rightarrow> uint32 \<Rightarrow> uint32 \<Rightarrow> ('z kmem_scheme, int) kop" where
  "pgflthandler lm pgdir cr2 =
     (let page = PGROUNDDOWN cr2 in
      bind (uva2ka lm pgdir cr2) (\<lambda>vpage.
      bind (walkpgdir lm pgdir page False) (\<lambda>q.
      case q of
        None \<Rightarrow> panic ''Error fetching PTE from CR2 Register!''
      | Some pte \<Rightarrow>
          bind (get32 pte) (\<lambda>e.
          if e AND PTE_COW = 0 then panic ''User page not Copy on Write''
          else
            bind (getRefCount vpage) (\<lambda>n.
            bind (if n > 1 then
                    bind kalloc_cow (\<lambda>mem.
                    bind (clear_page mem) (\<lambda>_.
                    bind (modify (\<lambda>s. s\<lparr>kbytes := memmove (kbytes s) (unat mem) (unat (p2v (PTE_ADDR e))) PGSIZE\<rparr>)) (\<lambda>_.
                    bind (put32 pte (e AND NOT PTE_P)) (\<lambda>_.
                    bind (mappages lm pgdir page (of_nat PGSIZE) (v2p mem) (PTE_W OR PTE_FLAGS e)) (\<lambda>r.
                    bind (panic_if (r \<noteq> 0) ''Error mapping pages'') (\<lambda>_.
                    decRefCount vpage))))))
                  else if n = 1 then
                    bind (put32 pte (e AND NOT PTE_P)) (\<lambda>_.
                    bind (mappages lm pgdir page (of_nat PGSIZE) (PTE_ADDR e)
                      (PTE_FLAGS e AND NOT (PTE_COW OR PTE_P) OR PTE_W)) (\<lambda>r.
                    panic_if (r \<noteq> 0) ''Error mapping pages''))
                  else return ()) (\<lambda>_.
            return 0))))))"

text \<open>The page-fault branch of \<^verbatim>\<open>trap\<close> in that build: a write fault is handled, a read fault only reported.\<close>

abbreviation FEC_WR :: uint32 where "FEC_WR \<equiv> 2"

definition trap_pgflt :: "linkmap \<Rightarrow> uint32 \<Rightarrow> trapframe \<Rightarrow> ('z kstate_scheme, unit) kop" where
  "trap_pgflt lm cr2 tf =
     bind myproc (\<lambda>me.
     bind (proc_at me) (\<lambda>x.
     if tf_err tf AND FEC_WR \<noteq> 0 then bind (in_vm (pgflthandler lm (p_pgdir x) cr2)) (\<lambda>_. return ())
     else bind (in_vm (uva2ka lm (p_pgdir x) cr2)) (\<lambda>_. return ())))"

section \<open>How long sleep sleeps\<close>

text \<open>What a process asleep in \<^verbatim>\<open>sys_sleep\<close> does when the scheduler picks it: it returns from \<^verbatim>\<open>sleep\<close> and goes round its loop.\<close>

definition resume_sleep :: "nat \<Rightarrow> uint32 \<Rightarrow> uint32 \<Rightarrow> ('z kstate_scheme, int) kop" where
  "resume_sleep me ticks0 n =
     bind (modify (\<lambda>s. s\<lparr>cur := Some me\<rparr>)) (\<lambda>_.
     bind (set_proc me (\<lambda>x. x\<lparr>p_state := RUNNING\<rparr>)) (\<lambda>_.
     bind sleep_return (\<lambda>_.
     sys_sleep_loop ticks0 n)))"

text \<open>
  Process \<open>me\<close> has called \<^verbatim>\<open>sys_sleep\<close> in state \<open>s\<close> with the argument \<open>n\<close>. \<open>slumber me s n k b r\<close>: since then the clock has ticked
  \<open>k\<close> times, \<open>b\<close> says whether the process is killed, and \<open>r\<close> is how the call stands. In any order: timer interrupts on
  any processor, \<^verbatim>\<open>kill\<close> of any process, whatever other processes do that does not touch the fields \<^verbatim>\<open>sys_sleep\<close> depends on, and
  the scheduler picking the process, which may happen any time it is runnable and need not happen between two ticks. A round
  of the loop, from its test to being asleep, is one step, as on one processor, where \<^verbatim>\<open>tickslock\<close> keeps interrupts off; with
  several, a kill that falls between the test of \<^verbatim>\<open>killed\<close> and the sleep takes effect at the next tick.
\<close>

inductive slumber :: "nat \<Rightarrow> 'z kstate_scheme \<Rightarrow> uint32 \<Rightarrow> nat \<Rightarrow> bool \<Rightarrow> (int, 'z kstate_scheme) result \<Rightarrow> bool"
  for me s n where
  sl_call: "slumber me s n 0 (p_killed (procs s me)) (sys_sleep s)"
| sl_tick: "slumber me s n k b (Sleep c t) \<Longrightarrow> timer_tick cpuid t = Ok () u \<Longrightarrow>
    slumber me s n (if cpuid = 0 then Suc k else k) b (Sleep c u)"
| sl_kill: "slumber me s n k b (Sleep c t) \<Longrightarrow> kill pid t = Ok r u \<Longrightarrow>
    slumber me s n k (b \<or> find (\<lambda>p. p_pid (procs t p) = pid) [0..<NPROC] = Some me) (Sleep c u)"
| sl_other: "slumber me s n k b (Sleep c t) \<Longrightarrow> ticks u = ticks t \<Longrightarrow> p_state (procs u me) = p_state (procs t me) \<Longrightarrow>
    p_chan (procs u me) = p_chan (procs t me) \<Longrightarrow> p_killed (procs u me) = p_killed (procs t me) \<Longrightarrow> slumber me s n k b (Sleep c u)"
| sl_run: "slumber me s n k b (Sleep c t) \<Longrightarrow> p_state (procs t me) = RUNNABLE \<Longrightarrow>
    slumber me s n k b (resume_sleep me (ticks s) n t)"

definition still_asleep :: "nat \<Rightarrow> 'z kstate_scheme \<Rightarrow> uint32 \<Rightarrow> nat \<Rightarrow> bool \<Rightarrow> 'z kstate_scheme \<Rightarrow> bool" where
  "still_asleep me s n k b t \<longleftrightarrow> ticks t = ticks s + of_nat k \<and> p_chan (procs t me) = Some ChanTicks \<and> p_killed (procs t me) = b \<and>
     (p_state (procs t me) = RUNNABLE \<or> p_state (procs t me) = SLEEPING \<and> k < unat n \<and> \<not> b)"

definition sleep_inv :: "nat \<Rightarrow> 'z kstate_scheme \<Rightarrow> uint32 \<Rightarrow> nat \<Rightarrow> bool \<Rightarrow> (int, 'z kstate_scheme) result \<Rightarrow> bool" where
  "sleep_inv me s n k b r = (case r of
     Ok v u \<Rightarrow> if unat n \<le> k then v = 0 else b \<and> v = - 1
   | Sleep c t \<Rightarrow> c = ChanTicks \<and> still_asleep me s n k b t
   | Panic e \<Rightarrow> False)"

lemma elapsed: "k < 2 ^ 32 \<Longrightarrow> (a + of_nat k - a < n) = (k < unat n)" for a n :: uint32
proof -
  assume "k < 2 ^ 32"
  then have "unat (of_nat k :: uint32) = k" by (simp add: unat_of_nat)
  then show ?thesis by (simp add: word_less_nat_alt)
qed

text \<open>The loop, entered \<open>k\<close> ticks after the call.\<close>

lemma sys_sleep_loop_inv:
  fixes t :: "'z kstate_scheme"
  assumes "cur t = Some me" "p_killed (procs t me) = b" "ticks t = ticks s + of_nat k" "k < 2 ^ 32"
  shows "case sys_sleep_loop (ticks s) n t of
      Ok v u \<Rightarrow> (unat n \<le> k \<or> b) \<and> v = (if unat n \<le> k then 0 else - 1)
    | Sleep c u \<Rightarrow> k < unat n \<and> \<not> b \<and> c = ChanTicks \<and> p_state (procs u me) = SLEEPING \<and> still_asleep me s n k b u
    | Panic e \<Rightarrow> False"
proof -
  have "(ticks t - ticks s < n) = (k < unat n)" unfolding assms(3) by (rule elapsed [OF assms(4)])
  then show ?thesis using assms(1-3)
    by (simp add: sys_sleep_loop_def killed_flag_def myproc_def sleep_def bind_def gets_def modify_def return_def panic_if_def
      sleep_on_def go_to_sleep_def upd_proc_def asleep_def still_asleep_def not_less)
qed

lemma resume_sleep_inv:
  fixes t :: "'z kstate_scheme"
  assumes "still_asleep me s n k b t" "k < 2 ^ 32"
  shows "case resume_sleep me (ticks s) n t of
      Ok v u \<Rightarrow> (unat n \<le> k \<or> b) \<and> v = (if unat n \<le> k then 0 else - 1)
    | Sleep c u \<Rightarrow> k < unat n \<and> \<not> b \<and> c = ChanTicks \<and> p_state (procs u me) = SLEEPING \<and> still_asleep me s n k b u
    | Panic e \<Rightarrow> False"
proof -
  let ?u = "t\<lparr>cur := Some me, procs := (procs t)(me := (procs t me)\<lparr>p_state := RUNNING, p_chan := None\<rparr>)\<rparr>"
  have "resume_sleep me (ticks s) n t = sys_sleep_loop (ticks s) n ?u"
    by (simp add: resume_sleep_def sleep_return_def myproc_def bind_def gets_def modify_def return_def upd_proc_def)
  moreover have "cur ?u = Some me" "p_killed (procs ?u me) = b" "ticks ?u = ticks s + of_nat k"
    using assms(1) by (simp_all add: still_asleep_def)
  ultimately show ?thesis using sys_sleep_loop_inv [of ?u me b s k n] assms(2) by simp
qed

lemma loop_sleep_inv:
  "(case r of
      Ok v u \<Rightarrow> (unat n \<le> k \<or> b) \<and> v = (if unat n \<le> k then 0 else - 1)
    | Sleep c u \<Rightarrow> k < unat n \<and> \<not> b \<and> c = ChanTicks \<and> p_state (procs u me) = SLEEPING \<and> still_asleep me s n k b u
    | Panic e \<Rightarrow> False) \<Longrightarrow> sleep_inv me s n k b r"
  by (auto simp: sleep_inv_def split: result.splits if_splits)

lemma tick_asleep:
  assumes "still_asleep me s n k b t" "me < NPROC" "timer_tick cpuid t = Ok () u"
  shows "still_asleep me s n (if cpuid = 0 then Suc k else k) b u"
  using assms
  by (auto simp: still_asleep_def timer_tick_def whenk_def wakeup_def wakeup1_def bind_def modify_def return_def split: if_splits)

lemma kill_asleep:
  assumes "still_asleep me s n k b t" "kill pid t = Ok r u"
  shows "still_asleep me s n k (b \<or> find (\<lambda>p. p_pid (procs t p) = pid) [0..<NPROC] = Some me) u"
proof (cases "find (\<lambda>p. p_pid (procs t p) = pid) [0..<NPROC]")
  case None
  then show ?thesis using assms by (simp add: kill_def bind_def gets_def return_def)
next
  case (Some p)
  then have "u = upd_proc p killed_proc t" using assms(2) by (simp add: kill_def bind_def gets_def return_def modify_def)
  then show ?thesis using assms(1) Some by (auto simp: still_asleep_def upd_proc_def killed_proc_def)
qed

lemma slumber_inv:
  assumes "slumber me s n k b r" "cur s = Some me" "me < NPROC" "argint 0 s = Ok (Some n) s" "k < 2 ^ 32"
  shows "sleep_inv me s n k b r"
  using assms
proof (induction rule: slumber.induct)
  case sl_call
  have "sys_sleep s = sys_sleep_loop (ticks s) n s" using sl_call(3) by (simp add: sys_sleep_def bind_def gets_def)
  then show ?case using loop_sleep_inv [OF sys_sleep_loop_inv [of s me "p_killed (procs s me)" s 0 n]] sl_call(1) by simp
next
  case (sl_tick k b c t cpuid u)
  then show ?case using tick_asleep [of me s n k b t cpuid u] by (simp add: sleep_inv_def split: if_splits)
next
  case (sl_kill k b c t pid r u)
  then show ?case using kill_asleep [of me s n k b t pid r u] by (simp add: sleep_inv_def)
next
  case (sl_other k b c t u)
  then show ?case by (simp add: sleep_inv_def still_asleep_def)
next
  case (sl_run k b c t)
  then show ?case using loop_sleep_inv [OF resume_sleep_inv [of me s n k b t]] by (simp add: sleep_inv_def)
qed

definition demo_kstate :: kstate where
  "demo_kstate = procst.extend demo_call (kstate.fields 0xFFFFFFF8)"


lemma slumber_ticks:
  assumes "sys_sleep s = Sleep c t"
  shows "\<exists>u. slumber me s n m (p_killed (procs s me)) (Sleep c u)"
proof (induction m)
  case 0
  then show ?case using sl_call [of me s n] assms by auto
next
  case (Suc m)
  then obtain u where u: "slumber me s n m (p_killed (procs s me)) (Sleep c u)" by blast
  have "timer_tick 0 u = Ok () (u\<lparr>ticks := ticks u + 1, procs := wakeup1 ChanTicks (procs u)\<rparr>)"
    by (simp add: timer_tick_def whenk_def wakeup_def bind_def modify_def)
  from sl_tick [OF u this] show ?case by auto
qed


end
