(* ===== verification/Printf.thy ===== *)
theory Printf
  imports CString
begin

text \<open>
  Formatted output: \<^verbatim>\<open>printint\<close> and \<^verbatim>\<open>printf\<close> of printf.c, which user programs link, and \<^verbatim>\<open>printint\<close> and
  \<^verbatim>\<open>cprintf\<close> of console.c. A definition is the sequence of characters the code puts out. The variable
  arguments are the words \<open>ap\<close> that follow the format on the stack; \<open>str\<close> is the string the memory holds at
  an address.
\<close>

section \<open>Numbers\<close>

text \<open>The loop that fills \<^verbatim>\<open>buf\<close>, least significant digit first. Every caller passes 10 or 16.\<close>

function print_digits :: "byte list \<Rightarrow> uint32 \<Rightarrow> uint32 \<Rightarrow> byte list" where
  "print_digits digits base x =
     digits ! unat (x mod base) #
       (if x div base = 0 \<or> base \<le> 1 then [] else print_digits digits base (x div base))"
  by pat_completeness auto
termination
proof (relation "measure (\<lambda>(digits, base, x). unat x)")
  fix digits :: "byte list" and base x :: uint32
  assume "\<not> (x div base = 0 \<or> base \<le> 1)"
  then have "1 < unat base" and "0 < unat x" by (auto simp: word_le_nat_alt unat_gt_0)
  then show "((digits, base, x div base), digits, base, x) \<in> measure (\<lambda>(digits, base, x). unat x)"
    by (simp add: unat_div)
qed simp

declare print_digits.simps [simp del]

definition digits_user :: "byte list" where "digits_user = cstr ''0123456789ABCDEF''"

definition digits_kernel :: "byte list" where "digits_kernel = cstr ''0123456789abcdef''"

text \<open>\<^verbatim>\<open>x = -xx\<close> is taken modulo \<open>2 ^ 32\<close>, also for the least \<^verbatim>\<open>int\<close>.\<close>

definition printint :: "byte list \<Rightarrow> uint32 \<Rightarrow> uint32 \<Rightarrow> bool \<Rightarrow> byte list" where
  "printint digits xx base sg =
     (let neg = (sg \<and> sint xx < 0); x = (if neg then - xx else xx)
      in rev (print_digits digits base x @ (if neg then [45] else [])))"

section \<open>Formats\<close>

text \<open>\<^verbatim>\<open>printf\<close> of printf.c. \<open>pct\<close> is \<^verbatim>\<open>state == '%'\<close>.\<close>

fun printf_from :: "(uint32 \<Rightarrow> byte list) \<Rightarrow> uint32 list \<Rightarrow> bool \<Rightarrow> byte list \<Rightarrow> byte list" where
  "printf_from str ap pct [] = []"
| "printf_from str ap False (c # cs) =
     (if c = 37 then printf_from str ap True cs else c # printf_from str ap False cs)"
| "printf_from str ap True (c # cs) =
     (if c = 100 then printint digits_user (hd ap) 10 True @ printf_from str (tl ap) False cs
      else if c = 120 \<or> c = 112 then printint digits_user (hd ap) 16 False @ printf_from str (tl ap) False cs
      else if c = 115 then
        (if hd ap = 0 then cstr ''(null)'' else str (hd ap)) @ printf_from str (tl ap) False cs
      else if c = 99 then ucast (hd ap) # printf_from str (tl ap) False cs
      else if c = 37 then c # printf_from str ap False cs
      else 37 # c # printf_from str ap False cs)"

definition printf :: "(uint32 \<Rightarrow> byte list) \<Rightarrow> byte list \<Rightarrow> uint32 list \<Rightarrow> byte list" where
  "printf str fmt ap = printf_from str ap False fmt"

text \<open>\<^verbatim>\<open>cprintf\<close> of console.c.\<close>

fun cprintf :: "(uint32 \<Rightarrow> byte list) \<Rightarrow> byte list \<Rightarrow> uint32 list \<Rightarrow> byte list" where
  "cprintf str [] ap = []"
| "cprintf str (c # cs) ap =
     (if c \<noteq> 37 then c # cprintf str cs ap
      else case cs of
        [] \<Rightarrow> []
      | d # ds \<Rightarrow>
          if d = 100 then printint digits_kernel (hd ap) 10 True @ cprintf str ds (tl ap)
          else if d = 120 \<or> d = 112 then printint digits_kernel (hd ap) 16 False @ cprintf str ds (tl ap)
          else if d = 115 then
            (if hd ap = 0 then cstr ''(null)'' else str (hd ap)) @ cprintf str ds (tl ap)
          else if d = 37 then 37 # cprintf str ds ap
          else 37 # d # cprintf str ds ap)"

text \<open>A call with its arguments written as values: the \<open>i\<close>-th string lies at address \<open>i + 1\<close>.\<close>

datatype farg = Num uint32 | Str "byte list"

fun farg_word :: "nat \<Rightarrow> farg \<Rightarrow> uint32" where
  "farg_word i (Num w) = w"
| "farg_word i (Str s) = of_nat (i + 1)"

fun farg_str :: "farg \<Rightarrow> byte list" where
  "farg_str (Num w) = []"
| "farg_str (Str s) = s"

definition printf_args :: "string \<Rightarrow> farg list \<Rightarrow> byte list" where
  "printf_args fmt args =
     printf (\<lambda>a. if 0 < unat a \<and> unat a \<le> length args then farg_str (args ! (unat a - 1)) else [])
       (cstr fmt) (map2 farg_word [0..<length args] args)"

section \<open>A printed number reads back\<close>

text \<open>The digits of a number, least significant first.\<close>

function num_digits :: "nat \<Rightarrow> nat \<Rightarrow> nat list" where
  "num_digits b n = n mod b # (if n div b = 0 \<or> b \<le> 1 then [] else num_digits b (n div b))"
  by pat_completeness auto
termination
  by (relation "measure snd") (auto simp: div_greater_zero_iff intro: div_less_dividend)

declare num_digits.simps [simp del]

lemma print_digits_eq:
  "print_digits digits base x = map ((!) digits) (num_digits (unat base) (unat x))"
proof (induction digits base x rule: print_digits.induct)
  case (1 digits base x)
  have "x div base = 0 \<longleftrightarrow> unat x div unat base = 0" by (metis unat_div unat_eq_0)
  moreover have "base \<le> 1 \<longleftrightarrow> unat base \<le> 1" by (simp add: word_le_nat_alt)
  ultimately show ?case using 1
    by (subst print_digits.simps, subst num_digits.simps) (auto simp: unat_mod unat_div)
qed

lemma num_digits_bound: "0 < b \<Longrightarrow> d \<in> set (num_digits b n) \<Longrightarrow> d < b"
proof (induction b n rule: num_digits.induct)
  case (1 b n)
  then show ?case by (subst (asm) (2) num_digits.simps) (auto split: if_splits)
qed

lemma num_digits_value: "1 < b \<Longrightarrow> foldr (\<lambda>d m. d + b * m) (num_digits b n) 0 = n"
proof (induction b n rule: num_digits.induct)
  case (1 b n)
  then show ?case by (subst num_digits.simps) (auto simp: div_eq_0_iff)
qed

lemma num_digits_length: "1 < b \<Longrightarrow> n < b ^ k \<Longrightarrow> 0 < k \<Longrightarrow> length (num_digits b n) \<le> k"
proof (induction b n arbitrary: k rule: num_digits.induct)
  case (1 b n)
  show ?case
  proof (cases "n div b = 0")
    case False
    then have "b ^ 1 \<le> n" using 1(2) by (simp add: div_eq_0_iff)
    then have "b ^ 1 < b ^ k" using 1(3) by (rule le_less_trans)
    then have "1 < k" using 1(2) by (simp only: power_strict_increasing_iff)
    then obtain j where k: "k = Suc j" "0 < j" by (cases k) auto
    with 1(3) have "n div b < b ^ j" by (simp add: less_mult_imp_div_less mult.commute)
    with 1 False k show ?thesis by (subst num_digits.simps) simp
  qed (use 1 in \<open>subst num_digits.simps, simp\<close>)
qed

lemma num_digits_last: "1 < b \<Longrightarrow> num_digits b n = [0] \<or> last (num_digits b n) \<noteq> 0"
proof (induction b n rule: num_digits.induct)
  case (1 b n)
  show ?case
  proof (cases "n div b = 0")
    case True
    then show ?thesis by (subst num_digits.simps, subst (2) num_digits.simps) auto
  next
    case False
    then have "num_digits b (n div b) \<noteq> [0]" using num_digits_value [OF 1(2), of "n div b"] by auto
    moreover have "num_digits b (n div b) \<noteq> []" by (subst num_digits.simps) simp
    ultimately show ?thesis using False 1 by (subst (2) num_digits.simps) simp
  qed
qed

lemma digit_code: "d < 10 \<Longrightarrow> digits \<in> {digits_user, digits_kernel} \<Longrightarrow> digits ! d = of_nat (48 + d)"
  by (cases "d \<in> {0, 1, 2, 3, 4, 5, 6, 7, 8, 9}") (auto simp: digits_user_def digits_kernel_def cstr_def)

lemma sint_digit: "d < 10 \<Longrightarrow> sint (of_nat (48 + d) :: byte) = 48 + int d"
  by (cases "d \<in> {0, 1, 2, 3, 4, 5, 6, 7, 8, 9}") auto

lemma atoi_digits:
  assumes "\<forall>d \<in> set ds. d < 10" and "digits \<in> {digits_user, digits_kernel}" and "has_cstr s (map ((!) digits) ds)"
  shows "atoi_loop s n = Some (foldl (\<lambda>n d. n * 10 + int d) n ds)"
  using assms(1,3)
proof (induction ds arbitrary: s n)
  case Nil
  then show ?case by (simp add: atoi_loop.simps)
next
  case (Cons d ds)
  then have d: "d < 10" and s: "s 0 = digits ! d" by auto
  then have "sint (s 0) = 48 + int d" using digit_code [OF d assms(2)] sint_digit [OF d] by simp
  with Cons d show ?case by (subst atoi_loop.simps) simp
qed

lemma foldl_digits: "foldl (\<lambda>n d. n * int b + int d) 0 (rev ds) = int (foldr (\<lambda>d m. d + b * m) ds 0)"
  by (induction ds) (auto simp: algebra_simps)

lemma abs_word: "uint (if sint xx < 0 then - xx else xx :: uint32) = \<bar>sint xx\<bar>"
proof -
  have "uint (if sint xx < 0 then - xx else xx) = uint (word_of_int \<bar>sint xx\<bar> :: uint32)" by simp
  also have "\<dots> = \<bar>sint xx\<bar> mod 2 ^ 32" by (simp only: uint_word_of_int len_num1 len_bit0) simp
  also have "\<dots> = \<bar>sint xx\<bar>" using sint_greater_eq [of xx] sint_less [of xx] by simp
  finally show ?thesis .
qed

text \<open>
  C35. \<^verbatim>\<open>printint\<close>, of printf.c and of console.c, prints a minus sign where the number is negative and then its
  digits in base 10 or 16 without leading zeros, and never overruns its buffer of 16 characters. What
  \<^verbatim>\<open>%d\<close> prints of a number that is not negative \<^verbatim>\<open>atoi\<close> reads back.
\<close>

theorem printint_reads_back:
  assumes "digits \<in> {digits_user, digits_kernel}" and "base \<in> {10, 16}"
  shows "length (printint digits xx base sg) < 16 \<and>
    (\<exists>ds. printint digits xx base sg = (if sg \<and> sint xx < 0 then [45] else []) @ map ((!) digits) ds \<and>
       (ds = [0] \<or> hd ds \<noteq> 0) \<and> (\<forall>d \<in> set ds. d < unat base) \<and>
       foldl (\<lambda>n d. n * uint base + int d) 0 ds = (if sg then \<bar>sint xx\<bar> else uint xx)) \<and>
    (0 \<le> sint xx \<and> has_cstr p (printint digits xx 10 True) \<longrightarrow> atoi p = Some (sint xx))"
proof (intro conjI impI)
  define x where "x = (if sg \<and> sint xx < 0 then - xx else xx)"
  define ds where "ds = num_digits (unat base) (unat x)"
  have b: "1 < unat base" and ub: "uint base = int (unat base)" using assms(2) by auto
  have p: "printint digits xx base sg = (if sg \<and> sint xx < 0 then [45] else []) @ map ((!) digits) (rev ds)"
    by (auto simp: printint_def x_def ds_def print_digits_eq rev_map)
  have "unat x < unat base ^ 10"
    using unsigned_less [of x, where 'a = nat] assms(2) by auto
  then have "length ds \<le> 10" unfolding ds_def using b by (intro num_digits_length) auto
  then show "length (printint digits xx base sg) < 16" by (simp add: p)
  have "ds \<noteq> []" unfolding ds_def by (subst num_digits.simps) simp
  then have "rev ds = [0] \<or> hd (rev ds) \<noteq> 0"
    using num_digits_last [OF b, of "unat x"] by (simp add: ds_def hd_rev)
  moreover have "\<forall>d \<in> set (rev ds). d < unat base"
    using num_digits_bound [of "unat base"] b by (auto simp: ds_def)
  moreover have "uint x = (if sg then \<bar>sint xx\<bar> else uint xx)"
    unfolding x_def by (cases sg) (simp_all only: simp_thms if_True if_False abs_word)
  then have "foldl (\<lambda>n d. n * uint base + int d) 0 (rev ds) = (if sg then \<bar>sint xx\<bar> else uint xx)"
    unfolding ub foldl_digits ds_def num_digits_value [OF b] by simp
  ultimately show "\<exists>ds. printint digits xx base sg = (if sg \<and> sint xx < 0 then [45] else []) @ map ((!) digits) ds \<and>
       (ds = [0] \<or> hd ds \<noteq> 0) \<and> (\<forall>d \<in> set ds. d < unat base) \<and>
       foldl (\<lambda>n d. n * uint base + int d) 0 ds = (if sg then \<bar>sint xx\<bar> else uint xx)"
    using p by blast
next
  assume a: "0 \<le> sint xx \<and> has_cstr p (printint digits xx 10 True)"
  define ds where "ds = num_digits 10 (unat xx)"
  have "printint digits xx 10 True = map ((!) digits) (rev ds)"
    using a by (simp add: printint_def print_digits_eq ds_def rev_map)
  moreover have "\<forall>d \<in> set (rev ds). d < 10" using num_digits_bound [of 10] by (auto simp: ds_def)
  ultimately have "atoi_loop p 0 = Some (foldl (\<lambda>n d. n * 10 + int d) 0 (rev ds))"
    using a assms(1) by (intro atoi_digits) auto
  moreover have "foldl (\<lambda>n d. n * 10 + int d) 0 (rev ds) = uint xx"
    using foldl_digits [of 10 ds] by (simp add: ds_def num_digits_value)
  moreover have "uint xx = sint xx" using abs_word [of xx] a by simp
  ultimately show "atoi p = Some (sint xx)" by (simp add: atoi_def)
qed

theorem printint_reads_back_witness:
  "length (printint digits_user (word_of_int (-2147483648)) 10 True) < 16 \<and>
   atoi (\<lambda>i. (cstr ''407'' @ [0]) ! i) = Some 407"
proof -
  have "has_cstr (\<lambda>i. (cstr ''407'' @ [0]) ! i) (printint digits_user 407 10 True)"
    by (simp add: printint_def print_digits.simps [of _ 10] digits_user_def cstr_def inc_def word_le_nat_alt)
  then show ?thesis
    using printint_reads_back [of digits_user 10 "word_of_int (-2147483648)" True "\<lambda>_. 0"]
      printint_reads_back [of digits_user 10 407 True "\<lambda>i. (cstr ''407'' @ [0]) ! i"] by simp
qed

end
