(* ===== verification/Kbd.thy ===== *)
theory Kbd
  imports Prelude
begin

text \<open>
  The keyboard driver (kbd.c, kbd.h): the scan-code tables and \<^verbatim>\<open>kbdgetc\<close>, which turns one scan code into a
  character and keeps the state of the shift keys. \<^verbatim>\<open>kbdgetc\<close> returns \<open>-1\<close> when the controller has no data; it is
  called in a loop until then, so the definitions take the list of scan codes the controller holds.
  The lemmas show that the tables are never read out of range and that the modifier word stays a byte wide.
\<close>

unbundle bit_operations_syntax

abbreviation SHIFT :: uint32 where "SHIFT \<equiv> 1"
abbreviation CTL :: uint32 where "CTL \<equiv> 2"
abbreviation ALT :: uint32 where "ALT \<equiv> 4"
abbreviation CAPSLOCK :: uint32 where "CAPSLOCK \<equiv> 8"
abbreviation NUMLOCK :: uint32 where "NUMLOCK \<equiv> 16"
abbreviation SCROLLLOCK :: uint32 where "SCROLLLOCK \<equiv> 32"
abbreviation E0ESC :: uint32 where "E0ESC \<equiv> 64"

text \<open>An array of 256 entries with an initialiser: its first entries, and entries given by index.\<close>

definition init256 :: "'a::zero list \<Rightarrow> (nat \<times> 'a) list \<Rightarrow> 'a list" where
  "init256 front at = fold (\<lambda>(i, v) a. a[i := v]) at (front @ replicate (256 - length front) 0)"

definition shiftcode :: "uint32 list" where
  "shiftcode = init256 [] [(0x1D, CTL), (0x2A, SHIFT), (0x36, SHIFT), (0x38, ALT), (0x9D, CTL), (0xB8, ALT)]"

definition togglecode :: "uint32 list" where
  "togglecode = init256 [] [(0x3A, CAPSLOCK), (0x45, NUMLOCK), (0x46, SCROLLLOCK)]"

text \<open>The arrow and editing keys, the same in the three maps.\<close>

definition special_keys :: "(nat \<times> byte) list" where
  "special_keys =
     [(0xC8, 0xE2), (0xD0, 0xE3), (0xC9, 0xE6), (0xD1, 0xE7), (0xCB, 0xE4), (0xCD, 0xE5),
      (0x97, 0xE0), (0xCF, 0xE1), (0xD2, 0xE8), (0xD3, 0xE9)]"

definition normalmap :: "byte list" where
  "normalmap = init256
     ([0, 27] @ cstr ''1234567890-='' @ [8, 9] @ cstr ''qwertyuiop[]'' @ [10, 0] @ cstr ''asdfghjkl;'' @
      [39, 96, 0, 92] @ cstr ''zxcvbnm,./'' @ [0] @ cstr ''*'' @ [0] @ cstr '' '' @ replicate 13 0 @
      cstr ''789-456+1230.'' @ replicate 4 0)
     ([(0x9C, 10), (0xB5, 47)] @ special_keys)"

definition shiftmap :: "byte list" where
  "shiftmap = init256
     ([0, 27] @ cstr ''!@#$%^&*()_+'' @ [8, 9] @ cstr ''QWERTYUIOP{}'' @ [10, 0] @ cstr ''ASDFGHJKL:'' @
      [34, 126, 0, 124] @ cstr ''ZXCVBNM<>?'' @ [0] @ cstr ''*'' @ [0] @ cstr '' '' @ replicate 13 0 @
      cstr ''789-456+1230.'' @ replicate 4 0)
     ([(0x9C, 10), (0xB5, 47)] @ special_keys)"

text \<open>\<^verbatim>\<open>C(x)\<close>, stored in an \<^verbatim>\<open>uchar\<close>.\<close>

definition ctrl :: "string \<Rightarrow> byte list" where
  "ctrl s = map (\<lambda>c. c - 64) (cstr s)"

definition ctlmap :: "byte list" where
  "ctlmap = init256
     (replicate 16 0 @ ctrl ''QWERTYUIOP'' @ [0, 0, 13, 0] @ ctrl ''ASDFGHJKL'' @ replicate 4 0 @
      [92 - 64] @ ctrl ''ZXCVBNM'' @ [0, 0] @ ctrl ''/'' @ [0, 0])
     ([(0x9C, 13), (0xB5, 47 - 64)] @ special_keys)"

definition charcode :: "byte list list" where
  "charcode = [normalmap, shiftmap, ctlmap, ctlmap]"

text \<open>One call of \<^verbatim>\<open>kbdgetc\<close> that finds \<open>data\<close>: the character, 0 for none, and the modifiers.\<close>

definition kbdgetc :: "byte \<Rightarrow> uint32 \<Rightarrow> byte \<times> uint32" where
  "kbdgetc data shift =
     (if data = 0xE0 then (0, shift OR E0ESC)
      else if data AND 0x80 \<noteq> 0 then
        let data' = (if shift AND E0ESC \<noteq> 0 then data else data AND 0x7F)
        in (0, shift AND NOT (shiftcode ! unat data' OR E0ESC))
      else
        let (data', sh) = (if shift AND E0ESC \<noteq> 0 then (data OR 0x80, shift AND NOT E0ESC) else (data, shift));
            sh' = (sh OR shiftcode ! unat data') XOR togglecode ! unat data';
            c = charcode ! unat (sh' AND (CTL OR SHIFT)) ! unat data'
        in (if sh' AND CAPSLOCK \<noteq> 0 then
              if 97 \<le> c \<and> c \<le> 122 then c - 32 else if 65 \<le> c \<and> c \<le> 90 then c + 32 else c
            else c, sh'))"

text \<open>The calls until the controller is empty.\<close>

fun kbd_codes :: "byte list \<Rightarrow> uint32 \<Rightarrow> byte list \<times> uint32" where
  "kbd_codes [] shift = ([], shift)"
| "kbd_codes (d # ds) shift =
     (let (c, sh) = kbdgetc d shift; (cs, sh') = kbd_codes ds sh in (c # cs, sh'))"

section \<open>The tables\<close>

lemma length_fold_update: "length (fold (\<lambda>(i, v) a. a[i := v]) us xs) = length xs"
  by (induction us arbitrary: xs) auto

lemma length_init256: "length front \<le> 256 \<Longrightarrow> length (init256 front us) = 256"
  by (simp add: init256_def length_fold_update)

lemma length_tables [simp]:
  "length shiftcode = 256" "length togglecode = 256" "length normalmap = 256" "length shiftmap = 256" "length ctlmap = 256"
  by (simp_all add: shiftcode_def togglecode_def normalmap_def shiftmap_def ctlmap_def length_init256 cstr_def ctrl_def)

lemma charcode_in_range:
  "unat (sh AND (CTL OR SHIFT)) < length charcode \<and> length (charcode ! unat (sh AND (CTL OR SHIFT))) = 256"
proof -
  have "sh AND 3 = take_bit 2 sh" by (simp add: take_bit_eq_mask mask_eq_exp_minus_1)
  then have "unat (sh AND 3) < 4"
    by (simp add: take_bit_eq_mod unat_mod)
  then have "unat (sh AND 3) \<in> {0, 1, 2, 3}" by auto
  then show ?thesis by (auto simp: charcode_def)
qed

text \<open>The entries of the modifier tables are single bits below the escape bit.\<close>

lemma set_fold_update: "set (fold (\<lambda>(i, v) a. a[i := v]) us xs) \<subseteq> set xs \<union> snd ` set us"
proof (induction us arbitrary: xs)
  case (Cons u us)
  obtain i v where u: "u = (i, v)" by (cases u)
  have "set (fold (\<lambda>(i, v) a. a[i := v]) us (xs[i := v])) \<subseteq> set (xs[i := v]) \<union> snd ` set us" by (rule Cons.IH)
  also have "\<dots> \<subseteq> set xs \<union> snd ` set (u # us)" using set_update_subset_insert [of xs i v] by (auto simp: u)
  finally show ?case by (simp add: u)
qed simp

lemma init256_entries: "i < 256 \<Longrightarrow> init256 [] us ! i \<in> insert 0 (snd ` set us)"
proof -
  assume "i < 256"
  then have "init256 [] us ! i \<in> set (init256 [] us)" by (simp add: length_init256)
  then show ?thesis using set_fold_update [of us "replicate 256 0"] by (auto simp: init256_def)
qed

definition modifiers :: "uint32 \<Rightarrow> bool" where
  "modifiers sh \<longleftrightarrow> take_bit 7 sh = sh"

lemma init256_modifiers:
  assumes "list_all modifiers (map snd us)"
  shows "modifiers (init256 [] us ! unat (d :: byte))"
proof -
  have "unat d < 256" using unsigned_less [of d, where ?'a = nat] by simp
  from init256_entries [OF this, of us] show ?thesis using assms by (auto simp: list_all_iff modifiers_def)
qed

lemma shiftcode_modifier: "modifiers (shiftcode ! unat (d :: byte))"
  unfolding shiftcode_def by (rule init256_modifiers) (simp add: modifiers_def)

lemma togglecode_modifier: "modifiers (togglecode ! unat (d :: byte))"
  unfolding togglecode_def by (rule init256_modifiers) (simp add: modifiers_def)

lemma modifiers_and: "modifiers a \<Longrightarrow> modifiers (a AND b)"
  by (simp only: modifiers_def take_bit_eq_mask and.assoc and.commute [of b]) (simp only: flip: and.assoc)

lemma modifiers_or_xor: "modifiers a \<Longrightarrow> modifiers b \<Longrightarrow> modifiers (a OR b) \<and> modifiers (a XOR b)"
  by (simp add: modifiers_def take_bit_or take_bit_xor)

lemma kbdgetc_modifiers:
  assumes "modifiers shift"
  shows "modifiers (snd (kbdgetc data shift))"
proof -
  have e: "modifiers E0ESC" by (simp add: modifiers_def)
  show ?thesis
    using assms e by (auto simp: kbdgetc_def Let_def modifiers_and modifiers_or_xor shiftcode_modifier togglecode_modifier)
qed

lemma kbd_codes_modifiers: "modifiers shift \<Longrightarrow> modifiers (snd (kbd_codes ds shift))"
proof (induction ds arbitrary: shift)
  case (Cons d ds)
  show ?case using Cons.IH [OF kbdgetc_modifiers [OF Cons.prems, of d]] by (simp add: Let_def split_def)
qed simp

end
