(* ===== verification/Console.thy ===== *)
theory Console
  imports Trap Printf Ring Kbd
begin

text \<open>
  The console: screen and line editing (console.c) and the serial port (uart.c), above the keyboard (Kbd).

  \<open>console\<close> is the state of the three drivers. The CGA text memory is a function from cells to 16-bit words and
  the cursor is the pair of CRT controller registers 14 and 15 that \<^verbatim>\<open>cgaputc\<close> reads back; the serial port is the
  list of the bytes sent and of the bytes that wait to be received. \<^verbatim>\<open>consoleintr\<close> takes the characters its
  argument \<^verbatim>\<open>getc\<close> returns before it returns a negative number: \<open>kbd_codes\<close> of the scan codes the controller holds, or
  the bytes received. One call of a definition over \<open>console\<close> runs with \<^verbatim>\<open>cons.lock\<close> held; a reader that
  calls \<^verbatim>\<open>sleep\<close> ends in \<open>CSleep\<close> with what it still wants and what it has, and goes on from there when it is woken.

  The first half of the lemmas shows that every operation keeps the console well formed: the three indices
  of the input buffer are in order, no complete line is left unreadable, and the cursor stays on the screen, so
  that no operation panics. The second half refines the ring buffer with its three running indices to two lists:
  the input readers may take, and the line being edited.
\<close>

unbundle bit_operations_syntax

section \<open>State\<close>

abbreviation INPUT_BUF :: nat where "INPUT_BUF \<equiv> 128"
abbreviation BACKSPACE :: uint32 where "BACKSPACE \<equiv> 0x100"

record console =
  in_buf :: "byte list"
  in_r :: uint32
  in_w :: uint32
  in_e :: uint32
  crt :: "nat \<Rightarrow> 16 word"
  crtc14 :: byte
  crtc15 :: byte
  uart :: bool
  uart_sent :: "byte list"
  uart_recv :: "byte list"
  kbd_data :: "byte list"
  kbd_shift :: uint32
  panicked :: bool
  cons_wakes :: "chan list"

section \<open>Output\<close>

text \<open>\<^verbatim>\<open>uartputc\<close> waits a bounded time for the transmitter and sends the byte in any case.\<close>

definition uartputc :: "uint32 \<Rightarrow> (console, unit) kop" where
  "uartputc c = modify (\<lambda>s. if uart s then s\<lparr>uart_sent := uart_sent s @ [ucast c]\<rparr> else s)"

text \<open>\<open>lsr\<close> is what the line status register reads; FF means that there is no serial port.\<close>

definition uartinit :: "byte \<Rightarrow> (console, unit) kop" where
  "uartinit lsr =
     (if lsr = 0xFF then return ()
      else
        bind (modify (\<lambda>s. s\<lparr>uart := True, uart_recv := drop 1 (uart_recv s)\<rparr>)) (\<lambda>_.
        for_each (cstr ''xv6...'' @ [10]) (\<lambda>c. uartputc (ucast c))))"

definition cursor :: "console \<Rightarrow> nat" where
  "cursor s = unat (crtc14 s) * 256 + unat (crtc15 s)"

text \<open>\<^verbatim>\<open>cgaputc\<close>: put the character at the cursor and move it; then scroll and store the cursor.\<close>

definition cga_move :: "uint32 \<Rightarrow> nat \<Rightarrow> (console, nat) kop" where
  "cga_move c pos =
     (if c = 10 then return (pos + (80 - pos mod 80))
      else if c = BACKSPACE then return (if pos > 0 then pos - 1 else pos)
      else bind (modify (\<lambda>s. s\<lparr>crt := (crt s)(pos := ucast (c AND 0xFF) OR 0x0700)\<rparr>)) (\<lambda>_. return (pos + 1)))"

definition cga_scroll :: "nat \<Rightarrow> (console, nat) kop" where
  "cga_scroll pos =
     (if pos div 80 \<ge> 24 then
        let pos' = pos - 80 in
        bind (modify (\<lambda>s. s\<lparr>crt := (\<lambda>i. if i < 23 * 80 then crt s (i + 80) else crt s i)\<rparr>)) (\<lambda>_.
        bind (modify (\<lambda>s. s\<lparr>crt := (\<lambda>i. if pos' \<le> i \<and> i < 24 * 80 then 0 else crt s i)\<rparr>)) (\<lambda>_.
        return pos'))
      else return pos)"

definition cgaputc :: "uint32 \<Rightarrow> (console, unit) kop" where
  "cgaputc c =
     bind (gets cursor) (\<lambda>pos0.
     bind (cga_move c pos0) (\<lambda>pos1.
     bind (panic_if (pos1 > 25 * 80) ''pos under/overflow'') (\<lambda>_.
     bind (cga_scroll pos1) (\<lambda>pos.
     modify (\<lambda>s. s\<lparr>crtc14 := of_nat (pos div 256), crtc15 := of_nat pos, crt := (crt s)(pos := 0x0720)\<rparr>)))))"

text \<open>After \<^verbatim>\<open>panicked\<close> is set \<^verbatim>\<open>consputc\<close> spins with interrupts off; like \<^verbatim>\<open>panic\<close> it never returns.\<close>

definition consputc :: "uint32 \<Rightarrow> (console, unit) kop" where
  "consputc c =
     bind (gets panicked) (\<lambda>p.
     bind (panic_if p ''frozen'') (\<lambda>_.
     bind (if c = BACKSPACE then bind (uartputc 8) (\<lambda>_. bind (uartputc 32) (\<lambda>_. uartputc 8)) else uartputc c) (\<lambda>_.
     cgaputc c)))"

definition conswrite :: "byte list \<Rightarrow> (console, unit) kop" where
  "conswrite bs = for_each bs (\<lambda>c. consputc (ucast c))"

section \<open>Input\<close>

text \<open>
  The loop of Control-U. Its bound is the distance from \<^verbatim>\<open>w\<close> to \<^verbatim>\<open>e\<close>, which it reduces by one each time round,
  so at 0 the first condition of the loop is false.
\<close>

fun kill_line :: "nat \<Rightarrow> (console, unit) kop" where
  "kill_line 0 = return ()"
| "kill_line (Suc n) =
     bind (gets (\<lambda>s. in_e s \<noteq> in_w s \<and> in_buf s ! (unat (in_e s - 1) mod INPUT_BUF) \<noteq> 10)) (\<lambda>more.
     whenk more
       (bind (modify (\<lambda>s. s\<lparr>in_e := in_e s - 1\<rparr>)) (\<lambda>_.
        bind (consputc BACKSPACE) (\<lambda>_.
        kill_line n))))"

definition input_default :: "byte \<Rightarrow> (console, unit) kop" where
  "input_default c0 =
     bind (gets (\<lambda>s. c0 \<noteq> 0 \<and> in_e s - in_r s < of_nat INPUT_BUF)) (\<lambda>room.
     whenk room
       (let c = (if c0 = 13 then 10 else c0) in
        bind (modify (\<lambda>s. s\<lparr>in_buf := (in_buf s)[unat (in_e s) mod INPUT_BUF := c], in_e := in_e s + 1\<rparr>)) (\<lambda>_.
        bind (consputc (ucast c)) (\<lambda>_.
        bind (gets (\<lambda>s. c = 10 \<or> c = 4 \<or> in_e s = in_r s + of_nat INPUT_BUF)) (\<lambda>commit.
        whenk commit (modify (\<lambda>s. s\<lparr>in_w := in_e s, cons_wakes := cons_wakes s @ [ChanInput]\<rparr>)))))))"

text \<open>One round of the loop of \<^verbatim>\<open>consoleintr\<close>; it returns whether to set \<^verbatim>\<open>doprocdump\<close>.\<close>

definition input_char :: "byte \<Rightarrow> (console, bool) kop" where
  "input_char c =
     (if c = 16 then return True
      else if c = 21 then
        bind (gets (\<lambda>s. unat (in_e s - in_w s))) (\<lambda>n. bind (kill_line n) (\<lambda>_. return False))
      else if c = 8 \<or> c = 0x7F then
        bind (gets (\<lambda>s. in_e s \<noteq> in_w s)) (\<lambda>b.
        bind (whenk b (bind (modify (\<lambda>s. s\<lparr>in_e := in_e s - 1\<rparr>)) (\<lambda>_. consputc BACKSPACE))) (\<lambda>_.
        return False))
      else bind (input_default c) (\<lambda>_. return False))"

fun consoleintr_loop :: "byte list \<Rightarrow> bool \<Rightarrow> (console, bool) kop" where
  "consoleintr_loop [] doprocdump = return doprocdump"
| "consoleintr_loop (c # cs) doprocdump =
     bind (input_char c) (\<lambda>d. consoleintr_loop cs (doprocdump \<or> d))"

text \<open>
  The loop of \<^verbatim>\<open>consoleread\<close> with \<open>n\<close> bytes still wanted and \<open>got\<close> already stored; \<open>CRet\<close> gives the value returned.
\<close>

datatype cres = CRet int "byte list" | CSleep nat "byte list"

fun consoleread_loop :: "bool \<Rightarrow> nat \<Rightarrow> nat \<Rightarrow> byte list \<Rightarrow> (console, cres) kop" where
  "consoleread_loop killed target 0 got = return (CRet (int target) got)"
| "consoleread_loop killed target (Suc n) got =
     bind (gets (\<lambda>s. in_r s = in_w s)) (\<lambda>none.
     if none then return (if killed then CRet (-1) got else CSleep (Suc n) got)
     else
       bind (gets (\<lambda>s. in_buf s ! (unat (in_r s) mod INPUT_BUF))) (\<lambda>c.
       bind (modify (\<lambda>s. s\<lparr>in_r := in_r s + 1\<rparr>)) (\<lambda>_.
       if c = 4 then
         bind (whenk (Suc n < target) (modify (\<lambda>s. s\<lparr>in_r := in_r s - 1\<rparr>))) (\<lambda>_.
         return (CRet (int target - int (Suc n)) got))
       else if c = 10 then return (CRet (int target - int n) (got @ [c]))
       else consoleread_loop killed target n (got @ [c]))))"

section \<open>The drivers in the kernel\<close>

record consst = kstate +
  cons :: console

definition in_cons :: "(console, 'a) kop \<Rightarrow> ('z consst_scheme, 'a) kop" where
  "in_cons m s = (case m (cons s) of
     Ok x c \<Rightarrow> Ok x (s\<lparr>cons := c\<lparr>cons_wakes := []\<rparr>, procs := fold wakeup1 (cons_wakes c) (procs s)\<rparr>)
   | Panic e \<Rightarrow> Panic e
   | Sleep w c \<Rightarrow> Sleep w (s\<lparr>cons := c\<rparr>))"

text \<open>The lines of \<^verbatim>\<open>procdump\<close>.\<close>

definition procdump_line :: "int \<times> string \<times> byte list \<times> uint32 list \<Rightarrow> byte list" where
  "procdump_line e = (case e of (pid, st, name, pcs) \<Rightarrow>
     cprintf (\<lambda>a. if a = 1 then cstr st else name) (cstr ''%d %s %s'') [word_of_int pid, 1, 2] @
     concat (map (\<lambda>pc. cprintf (\<lambda>_. []) (cstr '' %p'') [pc]) pcs) @ [10])"

definition consoleintr :: "byte list \<Rightarrow> ('z consst_scheme, unit) kop" where
  "consoleintr cs =
     bind (in_cons (consoleintr_loop cs False)) (\<lambda>doprocdump.
     whenk doprocdump
       (bind procdump (\<lambda>es. in_cons (conswrite (concat (map procdump_line es))))))"

definition kbdintr :: "('z consst_scheme, unit) kop" where
  "kbdintr =
     bind (gets (\<lambda>s. kbd_codes (kbd_data (cons s)) (kbd_shift (cons s)))) (\<lambda>(cs, sh).
     bind (modify (\<lambda>s. s\<lparr>cons := (cons s)\<lparr>kbd_data := [], kbd_shift := sh\<rparr>\<rparr>)) (\<lambda>_.
     consoleintr cs))"

text \<open>\<^verbatim>\<open>uartgetc\<close> has nothing to give where there is no serial port.\<close>

definition uartintr :: "('z consst_scheme, unit) kop" where
  "uartintr =
     bind (gets (\<lambda>s. if uart (cons s) then uart_recv (cons s) else [])) (\<lambda>cs.
     bind (modify (\<lambda>s. s\<lparr>cons := (cons s)\<lparr>uart_recv := drop (length cs) (uart_recv (cons s))\<rparr>\<rparr>)) (\<lambda>_.
     consoleintr cs))"

text \<open>
  \<^verbatim>\<open>consoleread\<close> from the loop on: what a call does after it has given up the inode, and again whenever
  \<^verbatim>\<open>sleep\<close> returns, with the \<open>n\<close> and \<open>got\<close> of its \<open>CSleep\<close>.
\<close>

definition consoleread_from :: "nat \<Rightarrow> nat \<Rightarrow> nat \<Rightarrow> byte list \<Rightarrow> ('z consst_scheme, int \<times> byte list) kop" where
  "consoleread_from ip target n got =
     bind killed_flag (\<lambda>k.
     bind (in_cons (consoleread_loop k target n got)) (\<lambda>r.
     case r of
       CSleep _ _ \<Rightarrow> sleep_on ChanInput
     | CRet v d \<Rightarrow> bind (ilock ip) (\<lambda>_. return (v, d))))"

text \<open>A count that is negative as an \<^verbatim>\<open>int\<close> ends the loop before its first round.\<close>

definition consoleread :: "nat \<Rightarrow> nat \<Rightarrow> ('z consst_scheme, int \<times> byte list) kop" where
  "consoleread ip n =
     bind (iunlock ip) (\<lambda>_.
     if n < 2 ^ 31 then consoleread_from ip n n [] else bind (ilock ip) (\<lambda>_. return (0, [])))"

definition consolewrite :: "nat \<Rightarrow> byte list \<Rightarrow> ('z consst_scheme, int) kop" where
  "consolewrite ip buf =
     bind (iunlock ip) (\<lambda>_.
     bind (in_cons (conswrite buf)) (\<lambda>_.
     bind (ilock ip) (\<lambda>_.
     return (int (length buf)))))"

abbreviation CONSOLE :: nat where "CONSOLE \<equiv> 1"

definition consoleinit :: "'z consst_scheme devsw \<Rightarrow> 'z consst_scheme devsw" where
  "consoleinit dv =
     dv\<lparr>dev_write := (dev_write dv)(CONSOLE := Some consolewrite), dev_read := (dev_read dv)(CONSOLE := Some consoleread)\<rparr>"

text \<open>The trap handler with the drivers of this theory in it.\<close>

definition console_trap ::
  "'z consst_scheme kconf \<Rightarrow> nat \<Rightarrow> ('z consst_scheme, unit) kop \<Rightarrow> trapframe \<Rightarrow> ('z consst_scheme, unit ending) kop" where
  "console_trap kc cpuid ideintr tf = trap kc cpuid ideintr kbdintr uartintr tf"

section \<open>The screen\<close>

text \<open>Output changes nothing but the screen, the cursor and what the serial port has sent.\<close>

definition output_only :: "console \<Rightarrow> console \<Rightarrow> bool" where
  "output_only s t \<longleftrightarrow> t = s\<lparr>crt := crt t, crtc14 := crtc14 t, crtc15 := crtc15 t, uart_sent := uart_sent t\<rparr>"

lemma output_only_refl [simp]: "output_only s s"
  by (simp add: output_only_def)

lemma output_only_trans: "output_only s t \<Longrightarrow> output_only t u \<Longrightarrow> output_only s u"
  by (cases s; cases t; cases u) (simp add: output_only_def)

lemma output_only_fields:
  assumes "output_only s t"
  shows "in_buf t = in_buf s" "in_r t = in_r s" "in_w t = in_w s" "in_e t = in_e s" "panicked t = panicked s"
    "kbd_shift t = kbd_shift s" "kbd_data t = kbd_data s" "cons_wakes t = cons_wakes s" "uart t = uart s" "uart_recv t = uart_recv s"
  using assms by (cases s; cases t; simp add: output_only_def)+

definition on_screen :: "console \<Rightarrow> bool" where
  "on_screen s \<longleftrightarrow> \<not> panicked s \<and> cursor s < 25 * 80"

lemma cursor_registers:
  assumes "pos < 65536"
  shows "unat (of_nat (pos div 256) :: byte) * 256 + unat (of_nat pos :: byte) = pos"
proof -
  have "pos div 256 < 256" using assms by (simp add: div_less_iff_less_mult)
  then show ?thesis by (simp add: unat_of_nat)
qed

lemma cursor_update [simp]:
  "pos < 65536 \<Longrightarrow> cursor (s\<lparr>crtc14 := of_nat (pos div 256), crtc15 := of_nat pos, crt := v\<rparr>) = pos"
  by (simp add: cursor_def cursor_registers)

text \<open>
  From a cell of the screen the cursor goes to a cell of the screen: at most to the end of row 24, from where the
  scroll takes it back one row.
\<close>

lemma newline_pos: "(pos :: nat) < 2000 \<Longrightarrow> pos + (80 - pos mod 80) \<le> 2000"
proof -
  assume "pos < 2000"
  then have "pos div 80 \<le> 24" by (simp add: less_Suc_eq_le [symmetric] div_less_iff_less_mult)
  moreover have "pos = 80 * (pos div 80) + pos mod 80" by simp
  moreover have "pos mod 80 < 80" by simp
  ultimately show ?thesis by linarith
qed

definition crt_only :: "console \<Rightarrow> console \<Rightarrow> bool" where
  "crt_only s t \<longleftrightarrow> t = s\<lparr>crt := crt t\<rparr>"

lemma cga_move_wp:
  assumes "pos < 2000"
  shows "wp (cga_move c pos) (\<lambda>p t. p \<le> 2000 \<and> crt_only s t) s"
  using assms newline_pos [of pos] by (auto simp: cga_move_def wp_simps crt_only_def)

lemma cga_scroll_wp:
  assumes "pos \<le> 2000"
  shows "wp (cga_scroll pos) (\<lambda>p t. p < 2000 \<and> crt_only s t) s"
  using assms by (auto simp: cga_scroll_def wp_simps crt_only_def Let_def)

lemma cgaputc_wp:
  assumes "cursor s < 25 * 80"
  shows "wp (cgaputc c) (\<lambda>_ t. output_only s t \<and> cursor t < 25 * 80) s"
proof -
  obtain p1 s1 where 1: "cga_move c (cursor s) s = Ok p1 s1" "p1 \<le> 2000" "crt_only s s1"
    using cga_move_wp [of "cursor s" c s] assms by (auto simp: wp_Ok)
  obtain p2 s2 where 2: "cga_scroll p1 s1 = Ok p2 s2" "p2 < 2000" "crt_only s1 s2"
    using cga_scroll_wp [of p1 s1] 1 by (auto simp: wp_Ok)
  let ?t = "s2\<lparr>crtc14 := of_nat (p2 div 256), crtc15 := of_nat p2, crt := (crt s2)(p2 := 0x0720)\<rparr>"
  have "cgaputc c s = Ok () ?t"
    using 1(1,2) 2(1) by (simp add: cgaputc_def bind_def gets_def modify_def panic_if_def return_def)
  moreover have "output_only s ?t"
    using 1(3) 2(3) by (cases s; cases s1; cases s2) (simp add: output_only_def crt_only_def)
  moreover have "cursor ?t = p2" using 2(2) by simp
  ultimately show ?thesis using 2(2) by (simp add: wp_Ok)
qed

lemma consputc_wp:
  assumes "on_screen s"
  shows "wp (consputc c) (\<lambda>_ t. output_only s t \<and> on_screen t) s"
proof -
  let ?u = "if c = BACKSPACE then bind (uartputc 8) (\<lambda>_. bind (uartputc 32) (\<lambda>_. uartputc 8)) else uartputc c"
  have "wp ?u (\<lambda>_ t. output_only s t \<and> cursor t = cursor s) s"
    by (auto simp: uartputc_def wp_simps output_only_def cursor_def)
  then obtain s1 where 1: "?u s = Ok () s1" "output_only s s1" "cursor s1 = cursor s" by (auto simp: wp_Ok)
  obtain s2 where 2: "cgaputc c s1 = Ok () s2" "output_only s1 s2" "cursor s2 < 25 * 80"
    using cgaputc_wp [of s1 c] 1(3) assms by (auto simp: wp_Ok on_screen_def)
  have "consputc c s = Ok () s2"
    using 1(1) 2(1) assms by (simp add: consputc_def bind_def gets_def panic_if_def return_def on_screen_def)
  moreover have "output_only s s2" by (rule output_only_trans [OF 1(2) 2(2)])
  moreover from this have "on_screen s2" using 2(3) assms by (simp add: on_screen_def output_only_fields)
  ultimately show ?thesis by (simp add: wp_Ok)
qed

lemma conswrite_wp:
  assumes "on_screen s"
  shows "wp (conswrite bs) (\<lambda>_ t. output_only s t \<and> on_screen t) s"
  using assms
proof (induction bs arbitrary: s)
  case Nil
  then show ?case by (simp add: conswrite_def wp_simps)
next
  case (Cons b bs)
  have "wp (conswrite bs) (\<lambda>_ u. output_only s u \<and> on_screen u) t" if "output_only s t" "on_screen t" for t
    using Cons.IH [OF that(2)] by (rule wp_mono) (auto intro: output_only_trans [OF that(1)])
  then show ?case
    using wp_mono [OF consputc_wp [OF Cons.prems, of "ucast b"]] by (simp add: conswrite_def wp_simps)
qed

section \<open>The line discipline\<close>

interpretation console_ring: ring INPUT_BUF
  by unfold_locales simp_all

text \<open>The input that readers may take, and the line that is being edited.\<close>

definition ready :: "console \<Rightarrow> byte list" where
  "ready s = ring_list INPUT_BUF (in_buf s) (in_r s) (unat (in_w s - in_r s))"

definition pending :: "console \<Rightarrow> byte list" where
  "pending s = ring_list INPUT_BUF (in_buf s) (in_w s) (unat (in_e s - in_w s))"

text \<open>
  Well-formedness. A buffer that is full holds no unfinished line: otherwise no key would be accepted and no
  reader woken ever again.
\<close>

definition input_ok :: "console \<Rightarrow> bool" where
  "input_ok s \<longleftrightarrow> length (in_buf s) = INPUT_BUF \<and>
     unat (in_w s - in_r s) + unat (in_e s - in_w s) \<le> INPUT_BUF \<and>
     (unat (in_w s - in_r s) + unat (in_e s - in_w s) = INPUT_BUF \<longrightarrow> in_e s = in_w s) \<and>
     10 \<notin> set (pending s) \<and> 4 \<notin> set (pending s)"

definition cons_ok :: "console \<Rightarrow> bool" where
  "cons_ok s \<longleftrightarrow> input_ok s \<and> on_screen s \<and> modifiers (kbd_shift s)"

text \<open>The specification of the editor, on the two lists.\<close>

definition tty_char :: "byte \<Rightarrow> byte list \<times> byte list \<Rightarrow> byte list \<times> byte list" where
  "tty_char c0 rp = (case rp of (av, ed) \<Rightarrow>
     if c0 = 16 then (av, ed)
     else if c0 = 21 then (av, [])
     else if c0 = 8 \<or> c0 = 0x7F then (av, butlast ed)
     else if c0 = 0 \<or> length av + length ed = INPUT_BUF then (av, ed)
     else
       let c = (if c0 = 13 then 10 else c0) in
       if c = 10 \<or> c = 4 \<or> length av + length ed + 1 = INPUT_BUF then (av @ ed @ [c], []) else (av, ed @ [c]))"

lemma dist_total:
  assumes "unat (w - r :: uint32) + unat (e - w) \<le> 128"
  shows "unat (e - r) = unat (w - r) + unat (e - w)"
proof -
  have "unat (e - r) = unat ((w - r) + (e - w))" by simp
  also have "\<dots> = (unat (w - r) + unat (e - w)) mod 2 ^ 32" by (simp only: unat_word_ariths) simp
  finally show ?thesis using assms by simp
qed

lemma input_ok_output: "output_only s t \<Longrightarrow> input_ok t = input_ok s \<and> ready t = ready s \<and> pending t = pending s"
  by (simp add: input_ok_def ready_def pending_def output_only_fields)

text \<open>Taking back the last character.\<close>

lemma erase_one:
  assumes "input_ok s" "in_e s \<noteq> in_w s"
  defines "t \<equiv> s\<lparr>in_e := in_e s - 1\<rparr>"
  shows "input_ok t" "ready t = ready s" "pending t = butlast (pending s)"
    "unat (in_e t - in_w t) + 1 = unat (in_e s - in_w s)"
proof -
  have "in_e s - in_w s \<noteq> 0" using assms by simp
  then have d: "unat (in_e s - in_w s - 1) = unat (in_e s - in_w s) - 1" "0 < unat (in_e s - in_w s)"
    by (simp_all add: unat_minus_one unat_gt_0)
  have e: "in_e t - in_w t = in_e s - in_w s - 1" by (simp add: t_def)
  show n: "unat (in_e t - in_w t) + 1 = unat (in_e s - in_w s)" using d by (simp add: e)
  show "ready t = ready s" by (simp add: ready_def t_def)
  have "pending s = pending t @ [in_buf s ! (unat (in_w s + of_nat (unat (in_e t - in_w t))) mod INPUT_BUF)]"
    unfolding pending_def n [symmetric] by (simp add: ring_list_Suc t_def)
  then show p: "pending t = butlast (pending s)" by simp
  have "set (pending t) \<subseteq> set (pending s)" unfolding p by (auto dest: in_set_butlastD)
  then show "input_ok t" using assms(1) n by (auto simp: input_ok_def t_def)
qed

text \<open>A character that is stored.\<close>

lemma store_one:
  fixes s :: console and c :: byte
  assumes "input_ok s" "in_e s - in_r s < of_nat INPUT_BUF"
  defines "t \<equiv> s\<lparr>in_buf := (in_buf s)[unat (in_e s) mod INPUT_BUF := c], in_e := in_e s + 1\<rparr>"
  shows "length (in_buf t) = INPUT_BUF" "ready t = ready s" "pending t = pending s @ [c]"
    "length (ready s) + length (pending s) < INPUT_BUF"
    "ring_list INPUT_BUF (in_buf t) (in_r t) (unat (in_e t - in_r t)) = ready s @ pending s @ [c]"
proof -
  let ?m = "unat (in_w s - in_r s)" and ?k = "unat (in_e s - in_w s)"
  have inv: "length (in_buf s) = INPUT_BUF" "?m + ?k \<le> INPUT_BUF" using assms(1) by (simp_all add: input_ok_def)
  note tot = dist_total [OF inv(2)]
  have lt: "?m + ?k < INPUT_BUF" using assms(2) tot by (simp add: word_less_nat_alt)
  then show "length (ready s) + length (pending s) < INPUT_BUF" by (simp add: ready_def pending_def)
  show "length (in_buf t) = INPUT_BUF" using inv by (simp add: t_def)
  have e: "in_e s = in_r s + of_nat (?m + ?k)" by (rule counter_eq_dist [of "in_e s" "in_r s", unfolded tot])
  have k: "unat (in_e s + 1 - in_w s) = Suc ?k" using lt by (simp add: counter_dist_Suc)
  show p: "pending t = pending s @ [c]"
    using console_ring.store_appends [of ?k "in_buf s" "in_w s" c] lt inv(1)
    by (simp add: pending_def t_def k)
  show r: "ready t = ready s"
    using console_ring.store_keeps [of ?m "?m + ?k" "in_buf s" "in_r s" c] lt
    unfolding e [symmetric] by (simp add: ready_def t_def)
  have "unat (in_e t - in_r t) = Suc (?m + ?k)" using lt tot by (simp add: t_def counter_dist_Suc)
  then show "ring_list INPUT_BUF (in_buf t) (in_r t) (unat (in_e t - in_r t)) = ready s @ pending s @ [c]"
    using console_ring.store_appends [of "?m + ?k" "in_buf s" "in_r s" c] lt inv(1) ring_list_add [of INPUT_BUF "in_buf s" "in_r s" ?m ?k]
    unfolding e [symmetric] by (simp add: t_def ready_def pending_def)
qed

text \<open>What a step of the driver does: the lists change as specified, and readers are woken when they have more.\<close>

definition edits :: "console \<Rightarrow> byte list \<times> byte list \<Rightarrow> console \<Rightarrow> bool" where
  "edits s rp t \<longleftrightarrow> cons_ok t \<and> (ready t, pending t) = rp \<and>
     set (cons_wakes s) \<subseteq> set (cons_wakes t) \<and> (ready t \<noteq> ready s \<longrightarrow> ChanInput \<in> set (cons_wakes t))"

lemma edits_output:
  assumes "input_ok t" "output_only t u" "on_screen u" "modifiers (kbd_shift t)" "cons_wakes t = cons_wakes s"
    "ready t = ready s" "pending t = ed"
  shows "edits s (ready s, ed) u"
  using assms input_ok_output [OF assms(2)] output_only_fields [OF assms(2)] by (simp add: edits_def cons_ok_def)

lemma last_pending:
  assumes "input_ok s" "in_e s \<noteq> in_w s"
  shows "in_buf s ! (unat (in_e s - 1) mod INPUT_BUF) = last (pending s)"
proof -
  have "unat (in_e s - in_w s) = Suc (unat (in_e s - 1 - in_w s))"
    using erase_one(4) [OF assms] by simp
  then show ?thesis by (simp add: pending_def ring_list_Suc)
qed

lemma kill_line_wp:
  assumes "input_ok s" "on_screen s" "n = unat (in_e s - in_w s)"
  shows "wp (kill_line n) (\<lambda>_ t. input_ok t \<and> on_screen t \<and> ready t = ready s \<and> pending t = [] \<and>
    cons_wakes t = cons_wakes s \<and> kbd_shift t = kbd_shift s) s"
  using assms
proof (induction n arbitrary: s)
  case 0
  then show ?case by (simp add: wp_simps pending_def)
next
  case (Suc n)
  let ?s = "s\<lparr>in_e := in_e s - 1\<rparr>"
  have ne: "in_e s \<noteq> in_w s" using Suc.prems(3) by auto
  note er = erase_one [OF Suc.prems(1) ne]
  have "pending s \<noteq> []" using Suc.prems(3) by (simp add: pending_def)
  then have "last (pending s) \<noteq> 10" using last_in_set Suc.prems(1) by (fastforce simp: input_ok_def)
  then have c: "in_buf s ! (unat (in_e s - 1) mod INPUT_BUF) \<noteq> 10" using last_pending [OF Suc.prems(1) ne] by simp
  have "on_screen ?s" using Suc.prems(2) by (simp add: on_screen_def cursor_def)
  from consputc_wp [OF this, of BACKSPACE]
  have "wp (consputc BACKSPACE) (\<lambda>_. wp (kill_line n) (\<lambda>_ t. input_ok t \<and> on_screen t \<and> ready t = ready s \<and> pending t = [] \<and>
    cons_wakes t = cons_wakes s \<and> kbd_shift t = kbd_shift s)) ?s"
  proof (rule wp_mono, elim conjE)
    fix t assume o: "output_only ?s t" and t: "on_screen t"
    have "n = unat (in_e t - in_w t)" using er(4) Suc.prems(3) by (simp add: output_only_fields [OF o])
    moreover have "input_ok t" using input_ok_output [OF o] er(1) by simp
    ultimately show "wp (kill_line n) (\<lambda>_ t. input_ok t \<and> on_screen t \<and> ready t = ready s \<and> pending t = [] \<and>
      cons_wakes t = cons_wakes s \<and> kbd_shift t = kbd_shift s) t"
      using wp_mono [OF Suc.IH [OF _ t]] input_ok_output [OF o] er(2) output_only_fields [OF o] by simp
  qed
  then show ?case using ne c by (simp add: wp_simps)
qed

lemma backspace_wp:
  assumes "cons_ok s" "in_e s \<noteq> in_w s"
  shows "wp (consputc BACKSPACE) (\<lambda>_. edits s (ready s, butlast (pending s))) (s\<lparr>in_e := in_e s - 1\<rparr>)"
proof -
  let ?s = "s\<lparr>in_e := in_e s - 1\<rparr>"
  have ok: "input_ok s" "on_screen ?s" "modifiers (kbd_shift s)"
    using assms(1) by (simp_all add: cons_ok_def on_screen_def cursor_def)
  note er = erase_one [OF ok(1) assms(2)]
  show ?thesis
    using wp_mono [OF consputc_wp [OF ok(2), of BACKSPACE]] edits_output [OF er(1) _ _ _ _ er(2,3)] ok(3) by simp
qed

lemma full_iff:
  fixes s :: console
  assumes "unat (in_e s - in_r s) = Suc m" "Suc m \<le> INPUT_BUF"
  shows "in_e s = in_r s + of_nat INPUT_BUF \<longleftrightarrow> Suc m = INPUT_BUF"
proof -
  have "in_e s = in_r s + 128 \<longleftrightarrow> in_e s - in_r s = 128" by (simp add: algebra_simps)
  also have "\<dots> \<longleftrightarrow> unat (in_e s - in_r s) = unat (128 :: uint32)" by (simp only: word_unat_eq_iff)
  finally show ?thesis using assms by simp
qed

lemma input_default_wp:
  assumes ok: "cons_ok s" and c: "c0 \<noteq> 16" "c0 \<noteq> 21" "c0 \<noteq> 8" "c0 \<noteq> 0x7F"
  shows "wp (input_default c0) (\<lambda>_. edits s (tty_char c0 (ready s, pending s))) s"
proof (cases "c0 \<noteq> 0 \<and> in_e s - in_r s < of_nat INPUT_BUF")
  case False
  have inv: "unat (in_w s - in_r s) + unat (in_e s - in_w s) \<le> INPUT_BUF" using ok by (simp add: cons_ok_def input_ok_def)
  have "c0 = 0 \<or> length (ready s) + length (pending s) = INPUT_BUF"
    using False dist_total [OF inv] inv by (auto simp: ready_def pending_def word_less_nat_alt)
  then have "tty_char c0 (ready s, pending s) = (ready s, pending s)" using c by (auto simp: tty_char_def)
  then show ?thesis using False ok by (auto simp: input_default_def wp_simps edits_def)
next
  case True
  define d where "d = (if c0 = 13 then 10 else c0)"
  let ?n = "length (ready s) + length (pending s)"
  let ?s = "s\<lparr>in_buf := (in_buf s)[unat (in_e s) mod INPUT_BUF := d], in_e := in_e s + 1\<rparr>"
  let ?commit = "\<lambda>t. d = 10 \<or> d = 4 \<or> in_e t = in_r t + of_nat INPUT_BUF"
  have s: "input_ok s" "on_screen ?s" "modifiers (kbd_shift s)"
    using ok by (simp_all add: cons_ok_def on_screen_def cursor_def)
  note st = store_one(1,2,3,5) [OF s(1) conjunct2 [OF True], of d]
  note room = store_one(4) [OF s(1) conjunct2 [OF True]]
  have len: "unat (in_e ?s - in_r ?s) = Suc ?n" using arg_cong [OF st(4), of length] by simp
  have dist: "unat (in_w ?s - in_r ?s) + unat (in_e ?s - in_w ?s) = Suc ?n"
    using arg_cong [OF st(2), of length] arg_cong [OF st(3), of length] by (simp add: ready_def pending_def)
  note full = full_iff [of ?s, OF len]
  have spec: "tty_char c0 (ready s, pending s) =
      (if ?commit ?s then (ready s @ pending s @ [d], []) else (ready s, pending s @ [d]))"
    using c True room full by (auto simp: tty_char_def d_def Let_def)
  have "wp (consputc (ucast d)) (\<lambda>_ t. wp (whenk (?commit t)
      (modify (\<lambda>s. s\<lparr>in_w := in_e s, cons_wakes := cons_wakes s @ [ChanInput]\<rparr>))) (\<lambda>_. edits s (tty_char c0 (ready s, pending s))) t) ?s"
  proof (rule wp_mono [OF consputc_wp [OF s(2)]], elim conjE)
    fix t assume o: "output_only ?s t" and on: "on_screen t"
    note f = output_only_fields [OF o]
    show "wp (whenk (?commit t) (modify (\<lambda>s. s\<lparr>in_w := in_e s, cons_wakes := cons_wakes s @ [ChanInput]\<rparr>)))
        (\<lambda>_. edits s (tty_char c0 (ready s, pending s))) t"
    proof (cases "?commit ?s")
      case True
      let ?t = "t\<lparr>in_w := in_e t, cons_wakes := cons_wakes t @ [ChanInput]\<rparr>"
      have "ready ?t = ready s @ pending s @ [d]" "pending ?t = []"
        using st(4) f by (simp_all add: ready_def pending_def)
      moreover from this have "input_ok ?t" using st(1) room f len by (simp add: input_ok_def)
      ultimately have "edits s (ready s @ pending s @ [d], []) ?t"
        using on s(3) f by (auto simp: edits_def cons_ok_def on_screen_def cursor_def)
      then show ?thesis using True spec f by (auto simp: wp_simps)
    next
      case False
      then have "Suc ?n < INPUT_BUF" using full room by auto
      then have "input_ok ?s" using s(1) False st(1,3) dist by (auto simp: input_ok_def)
      then have "edits s (ready s, pending s @ [d]) t"
        by (rule edits_output [OF _ o on]) (use s(3) st(2,3) in simp_all)
      then show ?thesis using False spec f by (auto simp: wp_simps)
    qed
  qed
  then show ?thesis using True by (simp add: input_default_def wp_simps wp_bind_fun wp_gets_fun Let_def flip: d_def)
qed

lemma input_char_wp:
  assumes ok: "cons_ok s"
  shows "wp (input_char c) (\<lambda>d t. d = (c = 16) \<and> edits s (tty_char c (ready s, pending s)) t) s"
proof -
  have in_ok: "input_ok s" "on_screen s" "modifiers (kbd_shift s)" using ok by (simp_all add: cons_ok_def)
  have same: "edits s (ready s, pending s) s" using ok by (simp add: edits_def)
  consider "c = 16" | "c = 21" | "c = 8 \<or> c = 0x7F" | "c \<noteq> 16" "c \<noteq> 21" "c \<noteq> 8" "c \<noteq> 0x7F" by blast
  then show ?thesis
  proof cases
    case 1
    then show ?thesis using same by (simp add: input_char_def wp_simps tty_char_def)
  next
    case 2
    then show ?thesis
      using wp_mono [OF kill_line_wp [OF in_ok(1,2) refl]] in_ok(3)
      by (simp add: input_char_def wp_simps wp_funs tty_char_def edits_def cons_ok_def)
  next
    case 3
    have spec: "tty_char c (ready s, pending s) = (ready s, butlast (pending s))" using 3 by (auto simp: tty_char_def)
    have ic: "input_char c =
        bind (gets (\<lambda>s. in_e s \<noteq> in_w s)) (\<lambda>b.
        bind (whenk b (bind (modify (\<lambda>s. s\<lparr>in_e := in_e s - 1\<rparr>)) (\<lambda>_. consputc BACKSPACE))) (\<lambda>_. return False))"
      using 3 by (auto simp: input_char_def)
    have c: "c \<noteq> 16" using 3 by auto
    show ?thesis
    proof (cases "in_e s = in_w s")
      case True
      then have "butlast (pending s) = pending s" by (simp add: pending_def)
      then show ?thesis using True same c by (simp add: ic spec wp_simps)
    next
      case False
      then show ?thesis using backspace_wp [OF ok] c by (simp add: ic spec wp_simps wp_funs)
    qed
  next
    case 4
    then show ?thesis
      using wp_mono [OF input_default_wp [OF ok 4]] by (simp add: input_char_def wp_simps wp_funs)
  qed
qed

lemma consoleintr_loop_wp:
  assumes "cons_ok s"
  shows "wp (consoleintr_loop cs d) (\<lambda>e t. e = (d \<or> 16 \<in> set cs) \<and> edits s (fold tty_char cs (ready s, pending s)) t) s"
  using assms
proof (induction cs arbitrary: d s)
  case Nil
  then show ?case by (simp add: wp_simps edits_def)
next
  case (Cons c cs)
  have "wp (consoleintr_loop cs (d \<or> b))
      (\<lambda>e t. e = (d \<or> 16 \<in> set (c # cs)) \<and> edits s (fold tty_char (c # cs) (ready s, pending s)) t) t"
    if b: "b = (c = 16)" and e: "edits s (tty_char c (ready s, pending s)) t" for b t
  proof -
    have ok: "cons_ok t" and rp: "(ready t, pending t) = tty_char c (ready s, pending s)"
      using e by (simp_all add: edits_def)
    show ?thesis
      by (rule wp_mono [OF Cons.IH [OF ok, of "d \<or> b"]]) (use b e rp in \<open>auto simp: edits_def\<close>)
  qed
  then show ?case using wp_mono [OF input_char_wp [OF Cons.prems, of c]] by (simp add: wp_simps)
qed

section \<open>Reading\<close>

text \<open>What a read of \<open>n\<close> bytes takes before it meets the end of a line or of the file.\<close>

definition tty_line :: "nat \<Rightarrow> byte list \<Rightarrow> byte list" where
  "tty_line n av = takeWhile (\<lambda>c. c \<noteq> 4 \<and> c \<noteq> 10) (take n av)"

text \<open>
  The specification of a read that still wants \<open>n\<close> bytes and has stored \<open>got\<close>: its result and what is left to read.
  A Control-D ends the read; it is left for the next one unless nothing was read.
\<close>

definition tty_read :: "bool \<Rightarrow> nat \<Rightarrow> byte list \<Rightarrow> byte list \<Rightarrow> cres \<times> byte list" where
  "tty_read killed n got av =
     (let l = tty_line n av; k = length l in
      if k = n then (CRet (int (length got + n)) (got @ l), drop n av)
      else if k = length av then (if killed then CRet (-1) (got @ l) else CSleep (n - k) (got @ l), [])
      else if av ! k = 10 then (CRet (int (length got + k + 1)) (got @ l @ [10]), drop (k + 1) av)
      else (CRet (int (length got + k)) (got @ l), if got @ l = [] then drop 1 av else drop k av))"

lemma take_one:
  assumes "input_ok s" "in_r s \<noteq> in_w s"
  defines "t \<equiv> s\<lparr>in_r := in_r s + 1\<rparr>"
  shows "input_ok t" "pending t = pending s" "ready s = in_buf s ! (unat (in_r s) mod INPUT_BUF) # ready t"
proof -
  note d = counter_dist_pred [OF assms(2)]
  show p: "pending t = pending s" by (simp add: pending_def t_def)
  have "unat (in_w t - in_r t) + 1 = unat (in_w s - in_r s)" using d by (simp add: t_def)
  then show "input_ok t" using assms(1) p by (auto simp: input_ok_def t_def)
  show "ready s = in_buf s ! (unat (in_r s) mod INPUT_BUF) # ready t"
    by (simp add: ready_def t_def flip: d ring_list_Cons)
qed

lemma ready_empty_iff: "in_r s = in_w s \<longleftrightarrow> ready s = []"
proof -
  have "ready s = [] \<longleftrightarrow> in_w s - in_r s = 0" by (simp add: ready_def unat_eq_0)
  then show ?thesis by auto
qed

lemma tty_read_0: "tty_read killed 0 got av = (CRet (int (length got)) got, av)"
  by (simp add: tty_read_def tty_line_def)

lemma tty_read_Nil: "tty_read killed (Suc n) got [] = (if killed then CRet (-1) got else CSleep (Suc n) got, [])"
  by (simp add: tty_read_def tty_line_def)

lemma tty_read_Cons:
  "tty_read killed (Suc n) got (c # av) =
     (if c = 4 then (CRet (int (length got)) got, if got = [] then av else c # av)
      else if c = 10 then (CRet (int (length got + 1)) (got @ [c]), av)
      else tty_read killed n (got @ [c]) av)"
  by (auto simp: tty_read_def tty_line_def Let_def)

lemma consoleread_loop_wp:
  assumes "cons_ok s" "target = n + length got"
  shows "wp (consoleread_loop killed target n got) (\<lambda>r t. (r, ready t) = tty_read killed n got (ready s) \<and>
    pending t = pending s \<and> cons_ok t \<and> cons_wakes t = cons_wakes s) s"
  using assms
proof (induction n arbitrary: s got)
  case 0
  then show ?case by (simp add: wp_simps tty_read_0)
next
  case (Suc n)
  show ?case
  proof (cases "ready s = []")
    case True
    then show ?thesis using Suc.prems by (simp add: wp_simps ready_empty_iff tty_read_Nil)
  next
    case False
    let ?t = "s\<lparr>in_r := in_r s + 1\<rparr>" and ?c = "in_buf s ! (unat (in_r s) mod INPUT_BUF)"
    have in_ok: "input_ok s" "on_screen s" "modifiers (kbd_shift s)" using Suc.prems(1) by (simp_all add: cons_ok_def)
    note tk = take_one [OF in_ok(1) False [folded ready_empty_iff]]
    have ok: "cons_ok ?t" using in_ok tk(1) by (simp add: cons_ok_def on_screen_def cursor_def)
    note r = tty_read_Cons [of killed n got ?c "ready ?t", folded tk(3)]
    have l: "target = n + length (got @ [?c])" using Suc.prems(2) by simp
    show ?thesis
      using False ok tk(2) r Suc.prems wp_mono [OF Suc.IH [OF ok l]]
      by (auto simp: wp_simps ready_empty_iff)
  qed
qed

section \<open>In the kernel\<close>

lemma wp_in_cons [wp_simps]:
  "wp (in_cons m) Q s =
     wp m (\<lambda>x c. Q x (s\<lparr>cons := c\<lparr>cons_wakes := []\<rparr>, procs := fold wakeup1 (cons_wakes c) (procs s)\<rparr>)) (cons s)"
  by (auto simp: wp_def in_cons_def split: result.splits)

lemma fold_wakeup1_other: "p_state (ps p) \<noteq> SLEEPING \<Longrightarrow> fold wakeup1 ws ps p = ps p"
  by (induction ws arbitrary: ps) (simp_all add: wakeup1_def)

lemma fold_wakeup1_wakes:
  assumes "c \<in> set ws" "p < NPROC" "p_state (ps p) = SLEEPING" "p_chan (ps p) = Some c"
  shows "p_state (fold wakeup1 ws ps p) = RUNNABLE"
  using assms
proof (induction ws arbitrary: ps)
  case (Cons w ws)
  show ?case
  proof (cases "w = c")
    case True
    then have "p_state (wakeup1 w ps p) = RUNNABLE" using Cons.prems by (simp add: wakeup1_def)
    then show ?thesis using fold_wakeup1_other [of "wakeup1 w ps" p ws] by simp
  next
    case False
    then have "wakeup1 w ps p = ps p" using Cons.prems by (simp add: wakeup1_def)
    then show ?thesis using Cons.IH [of "wakeup1 w ps"] Cons.prems False by simp
  qed
qed simp

lemma cons_ok_wakes [simp]:
  "cons_ok (c\<lparr>cons_wakes := w\<rparr>) = cons_ok c" "ready (c\<lparr>cons_wakes := w\<rparr>) = ready c" "pending (c\<lparr>cons_wakes := w\<rparr>) = pending c"
  by (simp_all add: cons_ok_def input_ok_def on_screen_def cursor_def ready_def pending_def)

definition input_woken :: "(nat \<Rightarrow> proc) \<Rightarrow> (nat \<Rightarrow> proc) \<Rightarrow> bool" where
  "input_woken ps qs \<longleftrightarrow>
     (\<forall>p<NPROC. p_state (ps p) = SLEEPING \<and> p_chan (ps p) = Some ChanInput \<longrightarrow> p_state (qs p) = RUNNABLE)"

lemma conswrite_keeps:
  assumes "cons_ok c"
  shows "wp (conswrite bs) (\<lambda>_ t. cons_ok t \<and> ready t = ready c \<and> pending t = pending c \<and> cons_wakes t = cons_wakes c) c"
proof -
  have "on_screen c" using assms by (simp add: cons_ok_def)
  then show ?thesis
    by (rule wp_mono [OF conswrite_wp]) (use assms input_ok_output output_only_fields in \<open>auto simp: cons_ok_def\<close>)
qed

lemma consoleintr_wp:
  fixes s :: "'z consst_scheme"
  assumes "cons_ok (cons s)"
  shows "wp (consoleintr cs) (\<lambda>_ t. cons_ok (cons t) \<and>
    (ready (cons t), pending (cons t)) = fold tty_char cs (ready (cons s), pending (cons s)) \<and>
    (ready (cons t) \<noteq> ready (cons s) \<longrightarrow> input_woken (procs s) (procs t))) s"
proof -
  let ?u = "\<lambda>c. s\<lparr>cons := c\<lparr>cons_wakes := []\<rparr>, procs := fold wakeup1 (cons_wakes c) (procs s)\<rparr>"
  have woken: "ready c \<noteq> ready (cons s) \<longrightarrow> input_woken (procs s) (fold wakeup1 (cons_wakes c) (procs s))"
    if "edits (cons s) rp c" for rp c
    using that fold_wakeup1_wakes [of ChanInput "cons_wakes c"] by (auto simp: edits_def input_woken_def)
  show ?thesis
    unfolding consoleintr_def wp_bind wp_in_cons
  proof (rule wp_mono [OF consoleintr_loop_wp [OF assms, of cs False]], elim conjE)
    fix d c assume e: "edits (cons s) (fold tty_char cs (ready (cons s), pending (cons s))) c"
    then have ok: "cons_ok c" "(ready c, pending c) = fold tty_char cs (ready (cons s), pending (cons s))"
      by (simp_all add: edits_def)
    have "cons_ok (c\<lparr>cons_wakes := []\<rparr>)" using ok(1) by simp
    note print = conswrite_keeps [OF this]
    show "wp (whenk d (bind procdump (\<lambda>es. in_cons (conswrite (concat (map procdump_line es))))))
        (\<lambda>_ t. cons_ok (cons t) \<and> (ready (cons t), pending (cons t)) = fold tty_char cs (ready (cons s), pending (cons s)) \<and>
          (ready (cons t) \<noteq> ready (cons s) \<longrightarrow> input_woken (procs s) (procs t))) (?u c)"
      using ok woken [OF e] wp_mono [OF print] by (auto simp: wp_simps procdump_def)
  qed
qed

text \<open>A console with a line to read and a character typed after it.\<close>

definition demo_console :: console where
  "demo_console = \<lparr>in_buf = [104, 105, 10, 120] @ replicate 124 0, in_r = 0, in_w = 3, in_e = 4, crt = (\<lambda>_. 0),
     crtc14 = 7, crtc15 = 200, uart = True, uart_sent = [], uart_recv = [97, 8, 8, 13], kbd_data = [0x2A, 0x1E, 0xAA, 0x1C],
     kbd_shift = 0, panicked = False, cons_wakes = []\<rparr>"

definition demo_consst :: consst where
  "demo_consst = kstate.extend (procst.extend demo_kernel (kstate.fields 0)) (consst.fields demo_console)"

lemma demo_consst_cons [simp]: "cons demo_consst = demo_console"
  by (simp add: demo_consst_def kstate.defs consst.defs procst.defs)

lemma demo_console_lists: "ready demo_console = [104, 105, 10]" "pending demo_console = [120]"
  by (simp_all add: ready_def pending_def demo_console_def ring_list_def upt_rec)

lemma demo_console_ok: "cons_ok demo_console"
  using demo_console_lists(2)
  by (simp add: cons_ok_def input_ok_def on_screen_def cursor_def modifiers_def) (simp add: demo_console_def)

text \<open>
  C38. Every console operation leaves the console well formed and returns: handling the keys that wait in the
  keyboard controller or the bytes that wait in the serial port, writing any bytes and reading keep the input
  indices in order within one buffer's length, leave no full buffer without a line to read, keep the cursor on the
  25 by 80 screen (so that \<^verbatim>\<open>cgaputc\<close> does not panic) and the modifier word within its seven bits.
\<close>

theorem console_well_formed:
  fixes s :: "'z consst_scheme"
  assumes "cons_ok (cons s)"
  shows "wp kbdintr (\<lambda>_ t. cons_ok (cons t)) s \<and> wp uartintr (\<lambda>_ t. cons_ok (cons t)) s \<and>
    wp (in_cons (conswrite bs)) (\<lambda>_ t. cons_ok (cons t)) s \<and>
    wp (in_cons (consoleread_loop killed n n [])) (\<lambda>_ t. cons_ok (cons t)) s"
proof (intro conjI)
  let ?cs = "fst (kbd_codes (kbd_data (cons s)) (kbd_shift (cons s)))" and ?sh = "snd (kbd_codes (kbd_data (cons s)) (kbd_shift (cons s)))"
  have "cons_ok ((cons s)\<lparr>kbd_data := [], kbd_shift := ?sh\<rparr>)"
    using assms kbd_codes_modifiers by (simp add: cons_ok_def input_ok_def on_screen_def cursor_def pending_def)
  then show "wp kbdintr (\<lambda>_ t. cons_ok (cons t)) s"
    using wp_mono [OF consoleintr_wp [of "s\<lparr>cons := (cons s)\<lparr>kbd_data := [], kbd_shift := ?sh\<rparr>\<rparr>" ?cs]]
    by (simp add: kbdintr_def wp_simps split_def)
  have "cons_ok ((cons s)\<lparr>uart_recv := r\<rparr>)" for r
    using assms by (simp add: cons_ok_def input_ok_def on_screen_def cursor_def pending_def)
  then show "wp uartintr (\<lambda>_ t. cons_ok (cons t)) s"
    using wp_mono [OF consoleintr_wp [of "s\<lparr>cons := (cons s)\<lparr>uart_recv := r\<rparr>\<rparr>" for r]]
    by (simp add: uartintr_def wp_simps)
  show "wp (in_cons (conswrite bs)) (\<lambda>_ t. cons_ok (cons t)) s"
    using wp_mono [OF conswrite_keeps [OF assms]] by (simp add: wp_simps)
  show "wp (in_cons (consoleread_loop killed n n [])) (\<lambda>_ t. cons_ok (cons t)) s"
    using wp_mono [OF consoleread_loop_wp [OF assms, of n n "[]"]] by (simp add: wp_simps)
qed

theorem console_well_formed_witness:
  "cons_ok (cons demo_consst) \<and> wp kbdintr (\<lambda>_ t. cons_ok (cons t)) demo_consst"
  using console_well_formed [of demo_consst] demo_console_ok by simp

text \<open>
  C37. The input buffer with its three running indices is a line editor. Handling any sequence of characters
  changes the two lists it stands for, the input readers may take and the line being edited, exactly as the
  specification \<open>tty_char\<close> says: erase, kill line, carriage return as newline, and a line handed over at a newline, a
  Control-D or a full buffer; when readers get something every process asleep on the input becomes runnable. A
  read takes from the first list what \<open>tty_read\<close> says: at most one line, a Control-D ending it.
\<close>

theorem console_line_discipline:
  fixes s :: "'z consst_scheme"
  assumes "cons_ok (cons s)"
  shows "wp (consoleintr cs) (\<lambda>_ t.
      (ready (cons t), pending (cons t)) = fold tty_char cs (ready (cons s), pending (cons s)) \<and>
      (ready (cons t) \<noteq> ready (cons s) \<longrightarrow> input_woken (procs s) (procs t))) s \<and>
    wp (consoleread_loop killed n n []) (\<lambda>r c.
      (r, ready c) = tty_read killed n [] (ready (cons s)) \<and> pending c = pending (cons s)) (cons s)"
proof
  show "wp (consoleread_loop killed n n []) (\<lambda>r c.
      (r, ready c) = tty_read killed n [] (ready (cons s)) \<and> pending c = pending (cons s)) (cons s)"
    by (rule wp_mono [OF consoleread_loop_wp [OF assms]]) simp_all
qed (rule wp_mono [OF consoleintr_wp [OF assms]], blast)

theorem console_line_discipline_witness:
  "wp (consoleintr [97, 8, 8, 121, 13]) (\<lambda>_ t. ready (cons t) = [104, 105, 10, 121, 10] \<and> pending (cons t) = []) demo_consst \<and>
   wp (consoleread_loop False 16 16 []) (\<lambda>r c. r = CRet 3 [104, 105, 10] \<and> ready c = []) demo_console"
proof -
  note l = console_line_discipline [of demo_consst "[97, 8, 8, 121, 13]" False 16] 
  have "fold tty_char [97, 8, 8, 121, 13] ([104, 105, 10], [120]) = ([104, 105, 10, 121, 10], [])"
    by (simp add: tty_char_def)
  moreover have "tty_read False 16 [] [104, 105, 10] = (CRet 3 [104, 105, 10], [])"
    by (simp add: tty_read_def tty_line_def)
  ultimately show ?thesis
    using l demo_console_ok by (auto simp: demo_console_lists elim!: wp_mono)
qed

end
