(* ===== verification/Ide.thy ===== *)
theory Ide
  imports Bio
begin

text \<open>
  The IDE driver (ide.c). The state extends the buffer cache by the queue of requests, linked through \<^verbatim>\<open>qnext\<close>, and
  by the drive: the registers at ports 1f2 to 1f7 and its sectors. The drive is the only part that is not code:
  a write command takes the 512 bytes that follow it to the sector the registers name, and at the
  interrupt that ends a read command the data port delivers that sector. \<open>disk\<close> holds the sectors of drive 1, on which the
  file system lives, and \<open>disk0\<close> those of drive 0. \<^verbatim>\<open>idewait\<close> spins until the drive is ready;
  where no result of it is used it is left out.

  Each function runs with \<^verbatim>\<open>idelock\<close> held; \<^verbatim>\<open>sleep(b, &idelock)\<close> in \<^verbatim>\<open>iderw\<close> is the result \<open>Sleep\<close>, after which
  the process goes on with \<open>iderw_wait\<close>.

  The lemmas show that the driver with its interrupts does what \<^verbatim>\<open>iderw\<close> of memide.c, over which the rest of the
  development is stated, does at once: requests are served in the order they were made and each has the effect
  of that function.
\<close>

unbundle bit_operations_syntax

section \<open>State\<close>

record taskfile =
  tf_count :: byte
  tf_lba0 :: byte
  tf_lba1 :: byte
  tf_lba2 :: byte
  tf_drive :: byte
  tf_command :: byte

record idest = bio +
  qnext :: "nat \<Rightarrow> nat option"
  idequeue :: "nat option"
  havedisk1 :: bool
  regs :: taskfile
  disk0 :: "nat \<Rightarrow> block"

abbreviation SECTOR_SIZE :: nat where "SECTOR_SIZE \<equiv> 512"
abbreviation IDE_BSY :: byte where "IDE_BSY \<equiv> 0x80"
abbreviation IDE_DRDY :: byte where "IDE_DRDY \<equiv> 0x40"
abbreviation IDE_DF :: byte where "IDE_DF \<equiv> 0x20"
abbreviation IDE_ERR :: byte where "IDE_ERR \<equiv> 0x01"
abbreviation IDE_CMD_READ :: byte where "IDE_CMD_READ \<equiv> 0x20"
abbreviation IDE_CMD_WRITE :: byte where "IDE_CMD_WRITE \<equiv> 0x30"

text \<open>The drive: the sector the registers name, \<^verbatim>\<open>outsl\<close> after a write command, \<^verbatim>\<open>insl\<close> after a read command.\<close>

definition lba :: "taskfile \<Rightarrow> nat" where
  "lba r = unat (tf_lba0 r) + 2 ^ 8 * unat (tf_lba1 r) + 2 ^ 16 * unat (tf_lba2 r) + 2 ^ 24 * unat (tf_drive r AND 0x0F)"

definition drive1 :: "taskfile \<Rightarrow> bool" where
  "drive1 r \<longleftrightarrow> tf_drive r AND 0x10 \<noteq> 0"

definition outsl :: "block \<Rightarrow> ('z idest_scheme, unit) kop" where
  "outsl d = modify (\<lambda>s.
     if drive1 (regs s) then s\<lparr>disk := (disk s)(lba (regs s) := d), dwrites := dwrites s @ [(lba (regs s), d)]\<rparr>
     else s\<lparr>disk0 := (disk0 s)(lba (regs s) := d)\<rparr>)"

definition insl :: "('z idest_scheme, block) kop" where
  "insl = gets (\<lambda>s. (if drive1 (regs s) then disk s else disk0 s) (lba (regs s)))"

section \<open>The driver\<close>

text \<open>The argument is what the status register reads in turn; \<open>None\<close> is a wait that does not end.\<close>

fun idewait :: "bool \<Rightarrow> byte list \<Rightarrow> int option" where
  "idewait checkerr [] = None"
| "idewait checkerr (r # rs) =
     (if r AND (IDE_BSY OR IDE_DRDY) \<noteq> IDE_DRDY then idewait checkerr rs
      else Some (if checkerr \<and> r AND (IDE_DF OR IDE_ERR) \<noteq> 0 then -1 else 0))"

text \<open>\<open>st i\<close> is the status read in round \<open>i\<close> of the loop.\<close>

definition ideinit :: "(nat \<Rightarrow> byte) \<Rightarrow> ('z idest_scheme, unit) kop" where
  "ideinit st =
     bind (modify (\<lambda>s. s\<lparr>regs := (regs s)\<lparr>tf_drive := 0xE0 OR push_bit 4 1\<rparr>\<rparr>)) (\<lambda>_.
     bind (whenk (list_ex (\<lambda>i. st i \<noteq> 0) [0..<1000]) (modify (\<lambda>s. s\<lparr>havedisk1 := True\<rparr>))) (\<lambda>_.
     modify (\<lambda>s. s\<lparr>regs := (regs s)\<lparr>tf_drive := 0xE0 OR push_bit 4 0\<rparr>\<rparr>)))"

text \<open>The registers \<^verbatim>\<open>idestart\<close> sets for a sector of a device.\<close>

definition request_regs :: "uint32 \<Rightarrow> uint32 \<Rightarrow> byte \<Rightarrow> byte \<Rightarrow> taskfile" where
  "request_regs dev sector count command =
     \<lparr>tf_count = count, tf_lba0 = ucast (sector AND 0xFF), tf_lba1 = ucast (drop_bit 8 sector AND 0xFF),
      tf_lba2 = ucast (drop_bit 16 sector AND 0xFF),
      tf_drive = 0xE0 OR ucast (push_bit 4 (dev AND 1)) OR ucast (drop_bit 24 sector AND 0x0F), tf_command = command\<rparr>"

definition idestart :: "nat option \<Rightarrow> ('z idest_scheme, unit) kop" where
  "idestart q =
     (case q of
        None \<Rightarrow> panic ''idestart''
      | Some b \<Rightarrow>
          bind (gets (\<lambda>s. bufs s b)) (\<lambda>x.
          let sector_per_block = BSIZE div SECTOR_SIZE; sector = b_blockno x * sector_per_block in
          bind (panic_if (b_blockno x \<ge> FSSIZE) ''incorrect blockno'') (\<lambda>_.
          bind (panic_if (sector_per_block > 7) ''idestart'') (\<lambda>_.
          if b_dirty x then
            bind (modify (\<lambda>s. s\<lparr>regs := request_regs (of_nat (b_dev x)) (of_nat sector) (of_nat sector_per_block) IDE_CMD_WRITE\<rparr>)) (\<lambda>_.
            outsl (b_data x))
          else
            modify (\<lambda>s. s\<lparr>regs := request_regs (of_nat (b_dev x)) (of_nat sector) (of_nat sector_per_block) IDE_CMD_READ\<rparr>)))))"

text \<open>\<open>sts\<close> is what the status register reads.\<close>

definition ideintr :: "byte list \<Rightarrow> ('z idest_scheme, unit) kop" where
  "ideintr sts =
     bind (gets idequeue) (\<lambda>q.
     case q of
       None \<Rightarrow> return ()
     | Some b \<Rightarrow>
         bind (modify (\<lambda>s. s\<lparr>idequeue := qnext s b\<rparr>)) (\<lambda>_.
         bind (gets (\<lambda>s. bufs s b)) (\<lambda>x.
         bind (if b_dirty x then return ()
               else case idewait True sts of
                 None \<Rightarrow> panic ''idewait does not return''
               | Some e \<Rightarrow> whenk (e \<ge> 0) (bind insl (\<lambda>d. set_bdata b d))) (\<lambda>_.
         bind (modify (upd_buf b (\<lambda>x. x\<lparr>b_valid := True\<rparr>))) (\<lambda>_.
         bind (modify (upd_buf b (\<lambda>x. x\<lparr>b_dirty := False\<rparr>))) (\<lambda>_.
         bind (wakeup_on (ChanBuf b)) (\<lambda>_.
         bind (gets idequeue) (\<lambda>q'.
         whenk (q' \<noteq> None) (idestart q')))))))))"

text \<open>
  The end of the queue: the buffer whose \<^verbatim>\<open>qnext\<close> is null. There are \<^verbatim>\<open>NBUF\<close> buffers, so \<open>NBUF\<close> rounds are enough.
\<close>

fun ide_last :: "nat \<Rightarrow> (nat \<Rightarrow> nat option) \<Rightarrow> nat \<Rightarrow> nat" where
  "ide_last 0 qn b = b"
| "ide_last (Suc fuel) qn b = (case qn b of None \<Rightarrow> b | Some c \<Rightarrow> ide_last fuel qn c)"

definition ide_append :: "nat \<Rightarrow> ('z idest_scheme, unit) kop" where
  "ide_append b =
     bind (modify (\<lambda>s. s\<lparr>qnext := (qnext s)(b := None)\<rparr>)) (\<lambda>_.
     bind (gets idequeue) (\<lambda>q.
     case q of
       None \<Rightarrow> modify (\<lambda>s. s\<lparr>idequeue := Some b\<rparr>)
     | Some h \<Rightarrow> modify (\<lambda>s. s\<lparr>qnext := (qnext s)(ide_last NBUF (qnext s) h := Some b)\<rparr>)))"

definition iderw_wait :: "nat \<Rightarrow> ('z idest_scheme, unit) kop" where
  "iderw_wait b =
     bind (gets (\<lambda>s. bufs s b)) (\<lambda>x.
     if b_valid x \<and> \<not> b_dirty x then return () else sleep_on (ChanBuf b))"

definition ide_iderw :: "nat \<Rightarrow> ('z idest_scheme, unit) kop" where
  "ide_iderw b =
     bind (gets (\<lambda>s. bufs s b)) (\<lambda>x.
     bind (gets havedisk1) (\<lambda>have1.
     bind (panic_if (\<not> b_busy x) ''iderw: buf not busy'') (\<lambda>_.
     bind (panic_if (b_valid x \<and> \<not> b_dirty x) ''iderw: nothing to do'') (\<lambda>_.
     bind (panic_if (b_dev x \<noteq> 0 \<and> \<not> have1) ''iderw: ide disk 1 not present'') (\<lambda>_.
     bind (ide_append b) (\<lambda>_.
     bind (gets idequeue) (\<lambda>q.
     bind (whenk (q = Some b) (idestart (Some b))) (\<lambda>_.
     iderw_wait b))))))))"

section \<open>Registers\<close>

lemma register_byte: "unat (ucast (w AND 0xFF :: uint32) :: byte) = unat w mod 256"
proof -
  have "w AND 0xFF = take_bit 8 w" by (simp add: take_bit_eq_mask mask_eq_exp_minus_1)
  then show ?thesis by (simp add: unsigned_ucast_eq take_bit_eq_mod unat_mod)
qed

lemma lba_request:
  assumes "n < FSSIZE"
  shows "lba (request_regs 1 (of_nat n) c m) = n" "drive1 (request_regs 1 (of_nat n) c m)"
proof -
  have n: "n < 2 ^ 24" using assms by simp
  then have u: "unat (of_nat n :: uint32) = n" by (simp add: unat_of_nat)
  have "unat (drop_bit 24 (of_nat n :: uint32)) = 0" using n by (simp add: drop_bit_eq_div unat_div u)
  then have "drop_bit 24 (of_nat n :: uint32) = 0" by (simp add: unat_eq_0)
  then have d: "tf_drive (request_regs 1 (of_nat n) c m) = 0xF0" by (simp add: request_regs_def)
  have h: "n div 65536 mod 256 = n div 65536" using n by (simp add: div_less_iff_less_mult)
  have "n div 65536 = n div 256 div 256" by (simp add: div_mult2_eq [symmetric])
  then have "n mod 256 + 256 * (n div 256 mod 256) + 65536 * (n div 65536) = n"
    using mult_div_mod_eq [of 256 n] mult_div_mod_eq [of 256 "n div 256"] by linarith
  then show "lba (request_regs 1 (of_nat n) c m) = n"
    using d h by (simp add: lba_def request_regs_def register_byte drop_bit_eq_div unat_div u)
  show "drive1 (request_regs 1 (of_nat n) c m)" by (simp add: drive1_def d)
qed

section \<open>The queue\<close>

fun chain :: "(nat \<Rightarrow> nat option) \<Rightarrow> nat option \<Rightarrow> nat list \<Rightarrow> bool" where
  "chain qn q [] \<longleftrightarrow> q = None"
| "chain qn q (b # bs) \<longleftrightarrow> q = Some b \<and> chain qn (qn b) bs"

lemma chain_cong: "(\<And>b. b \<in> set bs \<Longrightarrow> qn b = qn' b) \<Longrightarrow> chain qn q bs = chain qn' q bs"
  by (induction bs arbitrary: q) auto

lemma chain_last: "chain qn (Some h) (h # bs) \<Longrightarrow> length bs \<le> fuel \<Longrightarrow> ide_last fuel qn h = last (h # bs)"
proof (induction bs arbitrary: h fuel)
  case Nil
  then show ?case by (cases fuel) auto
next
  case (Cons b bs)
  then obtain f where f: "fuel = Suc f" by (cases fuel) auto
  have "ide_last f qn b = last (b # bs)" by (rule Cons.IH) (use Cons.prems f in auto)
  then show ?case using Cons.prems f by simp
qed

lemma chain_append:
  assumes "chain qn q (bs @ [l])" "distinct (bs @ [l])" "b \<notin> set (bs @ [l])" "qn b = None"
  shows "chain (qn(l := Some b)) q (bs @ [l, b])"
  using assms by (induction bs arbitrary: q) auto

text \<open>A buffer that may be handed to the driver.\<close>

definition wants :: "'z idest_scheme \<Rightarrow> nat \<Rightarrow> bool" where
  "wants s b \<longleftrightarrow> b < NBUF \<and> b_busy (bufs s b) \<and> \<not> (b_valid (bufs s b) \<and> \<not> b_dirty (bufs s b)) \<and>
     b_dev (bufs s b) = 1 \<and> b_blockno (bufs s b) < FSSIZE \<and> b_blockno (bufs s b) < disksize s"

text \<open>
  The drive while the requests \<open>bs\<close> are queued: it works on the first, and if that is a write its data has
  already gone to the sector, ahead of the disk \<open>d\<close> that the completed requests have produced.
\<close>

definition ahead :: "(nat \<Rightarrow> buf) \<Rightarrow> nat list \<Rightarrow> (nat \<Rightarrow> block) \<Rightarrow> nat \<Rightarrow> block" where
  "ahead f bs d = (case bs of [] \<Rightarrow> d | b # _ \<Rightarrow> if b_dirty (f b) then d(b_blockno (f b) := b_data (f b)) else d)"

definition started :: "'z idest_scheme \<Rightarrow> nat list \<Rightarrow> bool" where
  "started s bs \<longleftrightarrow> (case bs of [] \<Rightarrow> True | b # _ \<Rightarrow> lba (regs s) = b_blockno (bufs s b) \<and> drive1 (regs s))"

definition ide_sim :: "'z idest_scheme \<Rightarrow> nat list \<Rightarrow> (nat \<Rightarrow> block) \<Rightarrow> bool" where
  "ide_sim s bs d \<longleftrightarrow> chain (qnext s) (idequeue s) bs \<and> distinct bs \<and> (\<forall>b\<in>set bs. wants s b) \<and>
     disk s = ahead (bufs s) bs d \<and> started s bs \<and> havedisk1 s"

lemma idestart_Ok:
  fixes s :: "'z idest_scheme"
  assumes "wants s b"
  obtains r w where
    "idestart (Some b) s = Ok () (s\<lparr>regs := r, disk := ahead (bufs s) [b] (disk s), dwrites := w\<rparr>)"
    "lba r = b_blockno (bufs s b)" "drive1 r"
proof -
  let ?x = "bufs s b"
  let ?r = "request_regs 1 (of_nat (b_blockno ?x)) 1 (if b_dirty ?x then IDE_CMD_WRITE else IDE_CMD_READ)"
  have x: "b_blockno ?x < FSSIZE" "b_dev ?x = 1" using assms by (auto simp: wants_def)
  note r = lba_request [OF x(1)]
  have "idestart (Some b) s = Ok () (s\<lparr>regs := ?r, disk := ahead (bufs s) [b] (disk s),
      dwrites := (if b_dirty ?x then dwrites s @ [(b_blockno ?x, b_data ?x)] else dwrites s)\<rparr>)"
    using x r by (simp add: idestart_def bind_def gets_def panic_if_def return_def modify_def outsl_def ahead_def Let_def)
  then show thesis by (rule that) (rule r)+
qed

lemma wants_cong: "bufs t b = bufs s b \<Longrightarrow> disksize t = disksize s \<Longrightarrow> wants t b = wants s b"
  by (simp add: wants_def)

text \<open>A request goes to the end of the queue, and the process that makes it sleeps.\<close>

lemma request_sim:
  fixes s :: "'z idest_scheme"
  assumes sim: "ide_sim s bs d" and b: "wants s b" "b \<notin> set bs"
  shows "\<exists>t. ide_iderw b s = Sleep (ChanBuf b) t \<and> ide_sim t (bs @ [b]) d \<and> bufs t = bufs s \<and> wakes t = wakes s"
proof -
  have x: "b_busy (bufs s b)" "\<not> (b_valid (bufs s b) \<and> \<not> b_dirty (bufs s b))" using b(1) by (auto simp: wants_def)
  have c: "chain (qnext s) (idequeue s) bs" "distinct bs" "\<forall>c\<in>set bs. wants s c" "havedisk1 s"
    using sim by (auto simp: ide_sim_def)
  have qn: "chain ((qnext s)(b := None)) (idequeue s) bs" using c(1) b(2) by (subst chain_cong [of _ _ "qnext s"]) auto
  show ?thesis
  proof (cases bs rule: rev_cases)
    case Nil
    let ?s = "s\<lparr>qnext := (qnext s)(b := None), idequeue := Some b\<rparr>"
    have q: "idequeue s = None" and ds: "disk s = d" using sim Nil by (auto simp: ide_sim_def ahead_def)
    have "wants ?s b" using b(1) by (simp add: wants_def)
    then obtain r w where st: "idestart (Some b) ?s = Ok () (?s\<lparr>regs := r, disk := ahead (bufs ?s) [b] (disk ?s), dwrites := w\<rparr>)"
      "lba r = b_blockno (bufs ?s b)" "drive1 r" by (rule idestart_Ok)
    let ?t = "?s\<lparr>regs := r, disk := ahead (bufs ?s) [b] (disk ?s), dwrites := w\<rparr>"
    have "ide_iderw b s = Sleep (ChanBuf b) ?t"
      using x c(4) q st(1) by (auto simp: ide_iderw_def ide_append_def iderw_wait_def bind_def gets_def modify_def panic_if_def
        whenk_def return_def sleep_on_def)
    moreover have "ide_sim ?t [b] d"
      using st(2,3) b(1) c(4) ds by (simp add: ide_sim_def started_def wants_def)
    ultimately show ?thesis using Nil by (intro exI [of _ ?t]) simp
  next
    case (snoc cs l)
    have "length bs \<le> NBUF"
      using card_mono [of "{..<NBUF}" "set bs"] c(2,3) by (auto simp: wants_def distinct_card)
    obtain h hs where h: "bs = h # hs" using snoc by (metis neq_Nil_conv snoc_eq_iff_butlast)
    have "ide_last NBUF ((qnext s)(b := None)) h = l"
    proof -
      have "ide_last NBUF ((qnext s)(b := None)) h = last (h # hs)"
        by (rule chain_last) (use qn h \<open>length bs \<le> NBUF\<close> in auto)
      then show ?thesis using snoc h by (metis last_snoc)
    qed
    note l = this
    have q: "idequeue s = Some h" "h \<noteq> b" using c(1) h b(2) by auto
    let ?t = "s\<lparr>qnext := (qnext s)(b := None, l := Some b)\<rparr>"
    have "ide_iderw b s = Sleep (ChanBuf b) ?t"
      using x c(4) q l by (auto simp: ide_iderw_def ide_append_def iderw_wait_def bind_def gets_def modify_def panic_if_def
        whenk_def return_def sleep_on_def)
    moreover have "chain (qnext ?t) (idequeue ?t) (bs @ [b])"
      using chain_append [of "(qnext s)(b := None)" "idequeue s" cs l b] qn c(2) b(2) snoc by simp
    moreover from this have "ide_sim ?t (bs @ [b]) d"
      using sim b h by (auto simp: ide_sim_def ahead_def started_def wants_def)
    ultimately show ?thesis by (intro exI [of _ ?t]) simp
  qed
qed

text \<open>The buffer after its request is done.\<close>

definition served :: "(nat \<Rightarrow> block) \<Rightarrow> buf \<Rightarrow> buf" where
  "served d x = (if b_dirty x then x\<lparr>b_dirty := False, b_valid := True\<rparr> else x\<lparr>b_data := d (b_blockno x), b_valid := True\<rparr>)"

lemma memide_Ok:
  fixes s :: "'z idest_scheme"
  assumes "wants s b"
  shows "iderw b (s\<lparr>disk := d\<rparr>) = Ok () (s\<lparr>bufs := (bufs s)(b := served d (bufs s b)), disk := ahead (bufs s) [b] d,
    dwrites := (if b_dirty (bufs s b) then dwrites s @ [(b_blockno (bufs s b), b_data (bufs s b))] else dwrites s)\<rparr>)"
  using assms by (auto simp: iderw_def wants_def bind_def gets_def panic_if_def return_def modify_def served_def ahead_def
    upd_buf_def)

lemma clean_buf:
  "\<not> b_dirty x \<Longrightarrow> x\<lparr>b_data := e, b_valid := True, b_dirty := False\<rparr> = x\<lparr>b_data := e, b_valid := True\<rparr>"
  "x\<lparr>b_valid := True, b_dirty := False\<rparr> = x\<lparr>b_dirty := False, b_valid := True\<rparr>"
  by (cases x, simp)+

lemma push_wakes: "wakes_update (\<lambda>w. w @ l) (s :: 'z idest_scheme) = s\<lparr>wakes := wakes s @ l\<rparr>"
  by (cases s) simp

text \<open>An interrupt without an error serves the first request.\<close>

lemma interrupt_sim:
  fixes s :: "'z idest_scheme"
  assumes sim: "ide_sim s (b # bs) d" and ok: "idewait True sts = Some 0"
  shows "\<exists>t u. ideintr sts s = Ok () t \<and> iderw b (s\<lparr>disk := d\<rparr>) = Ok () u \<and> ide_sim t bs (disk u) \<and>
    bufs t = bufs u \<and> disksize t = disksize u \<and> wakes t = wakes s @ [ChanBuf b]"
proof -
  let ?f = "(bufs s)(b := served d (bufs s b))" and ?e = "ahead (bufs s) [b] d"
  have c: "chain (qnext s) (qnext s b) bs" "idequeue s = Some b" "distinct bs" "b \<notin> set bs" "havedisk1 s" "wants s b"
    "\<forall>c\<in>set bs. wants s c" "disk s = ?e" "lba (regs s) = b_blockno (bufs s b)" "drive1 (regs s)"
    using sim by (auto simp: ide_sim_def started_def ahead_def)
  let ?s = "s\<lparr>idequeue := qnext s b, bufs := ?f, wakes := wakes s @ [ChanBuf b]\<rparr>"
  note u = memide_Ok [OF c(6), of d]
  have i: "ideintr sts s = (whenk (qnext s b \<noteq> None) (idestart (qnext s b))) ?s"
  proof (cases "b_dirty (bufs s b)")
    case True
    then show ?thesis
      using c(2,8) ok by (simp add: ideintr_def bind_def gets_def modify_def whenk_def return_def upd_buf_def served_def
        push_wakes clean_buf(2))
  next
    case False
    then show ?thesis
      using c(2,8-10) ok by (simp add: ideintr_def bind_def gets_def modify_def whenk_def return_def insl_def upd_buf_def
        served_def ahead_def push_wakes clean_buf(1))
  qed
  have wants': "\<forall>c\<in>set bs. wants ?s c" using c(4,7) by (auto simp: wants_def)
  show ?thesis
  proof (cases bs)
    case Nil
    then have "qnext s b = None" using c(1) by simp
    then have "ideintr sts s = Ok () ?s" using i by (simp add: whenk_def return_def)
    moreover have "ide_sim ?s [] ?e" using c(5,8) \<open>qnext s b = None\<close> by (simp add: ide_sim_def ahead_def started_def)
    ultimately show ?thesis using u Nil by simp
  next
    case (Cons h hs)
    then have q: "qnext s b = Some h" and "wants ?s h" using c(1) wants' by auto
    from this(2) obtain r' w' where st: "idestart (Some h) ?s = Ok () (?s\<lparr>regs := r', disk := ahead (bufs ?s) [h] (disk ?s), dwrites := w'\<rparr>)"
      "lba r' = b_blockno (bufs ?s h)" "drive1 r'" by (rule idestart_Ok)
    let ?t = "?s\<lparr>regs := r', disk := ahead (bufs ?s) [h] (disk ?s), dwrites := w'\<rparr>"
    have "ideintr sts s = Ok () ?t" using i q st(1) by (simp add: whenk_def)
    moreover have "ide_sim ?t bs ?e"
      using c(1,3,5) st(2,3) wants' c(8) unfolding Cons by (simp add: ide_sim_def ahead_def started_def wants_def)
    ultimately show ?thesis using u by simp
  qed
qed

text \<open>What \<^verbatim>\<open>iderw\<close> of memide.c does depends only on the buffers, the disk and its size.\<close>

definition same_bio :: "'z bio_scheme \<Rightarrow> 'z bio_scheme \<Rightarrow> bool" where
  "same_bio s t \<longleftrightarrow> bufs t = bufs s \<and> disk t = disk s \<and> disksize t = disksize s"

lemma iderw_same_bio:
  assumes "iderw b s = Ok () s'" "same_bio s t"
  shows "\<exists>t'. iderw b t = Ok () t' \<and> same_bio s' t'"
  using assms
  by (auto simp: iderw_def bind_def gets_def panic_if_def return_def modify_def panic_def same_bio_def upd_buf_def
    split: if_splits)

lemma for_each_iderw_same_bio:
  assumes "for_each bs iderw s = Ok () s'" "same_bio s t"
  shows "\<exists>t'. for_each bs iderw t = Ok () t' \<and> same_bio s' t'"
  using assms
proof (induction bs arbitrary: s t)
  case Nil
  then show ?case by (simp add: return_def)
next
  case (Cons b bs)
  obtain s1 where s1: "iderw b s = Ok () s1" "for_each bs iderw s1 = Ok () s'"
    using Cons.prems(1) by (auto simp: bind_def split: result.splits)
  obtain t1 where t1: "iderw b t = Ok () t1" "same_bio s1 t1" using iderw_same_bio [OF s1(1) Cons.prems(2)] by blast
  show ?case using Cons.IH [OF s1(2) t1(2)] t1(1) by (simp add: bind_def)
qed

lemma drain_sim:
  fixes s :: "'z idest_scheme"
  assumes "ide_sim s bs d" and ok: "idewait True sts = Some 0"
  shows "\<exists>t u. for_each bs (\<lambda>_. ideintr sts) s = Ok () t \<and> for_each bs iderw (s\<lparr>disk := d\<rparr>) = Ok () u \<and>
    bufs t = bufs u \<and> disk t = disk u \<and> wakes t = wakes s @ map ChanBuf bs \<and> idequeue t = None"
  using assms(1)
proof (induction bs arbitrary: s d)
  case Nil
  then show ?case by (auto simp: return_def ide_sim_def ahead_def)
next
  case (Cons b bs)
  obtain t u where i: "ideintr sts s = Ok () t" "iderw b (s\<lparr>disk := d\<rparr>) = Ok () u" "ide_sim t bs (disk u)"
    "bufs t = bufs u" "disksize t = disksize u" "wakes t = wakes s @ [ChanBuf b]"
    using interrupt_sim [OF Cons.prems ok] by blast
  obtain t' u' where j: "for_each bs (\<lambda>_. ideintr sts) t = Ok () t'" "for_each bs iderw (t\<lparr>disk := disk u\<rparr>) = Ok () u'"
    "bufs t' = bufs u'" "disk t' = disk u'" "wakes t' = wakes t @ map ChanBuf bs" "idequeue t' = None"
    using Cons.IH [OF i(3)] by blast
  have "same_bio (t\<lparr>disk := disk u\<rparr>) u" using i(4,5) by (simp add: same_bio_def)
  from for_each_iderw_same_bio [OF j(2) this]
  obtain u'' where "for_each bs iderw u = Ok () u''" "same_bio u' u''" by blast
  then show ?case using i(1,2,6) j(1,3-6) by (simp add: bind_def same_bio_def)
qed

text \<open>A read that ends in an error.\<close>

lemma read_error:
  fixes s :: "'z idest_scheme"
  assumes sim: "ide_sim s (b # bs) d" and x: "\<not> b_dirty (bufs s b)" and err: "idewait True sts = Some (-1)"
  shows "\<exists>t. ideintr sts s = Ok () t \<and> b_valid (bufs t b) \<and> b_data (bufs t b) = b_data (bufs s b)"
proof -
  let ?f = "(bufs s)(b := (bufs s b)\<lparr>b_valid := True, b_dirty := False\<rparr>)"
  let ?s = "s\<lparr>idequeue := qnext s b, bufs := ?f, wakes := wakes s @ [ChanBuf b]\<rparr>"
  have c: "chain (qnext s) (qnext s b) bs" "idequeue s = Some b" "b \<notin> set bs" "\<forall>c\<in>set bs. wants s c"
    using sim by (auto simp: ide_sim_def)
  have i: "ideintr sts s = (whenk (qnext s b \<noteq> None) (idestart (qnext s b))) ?s"
    using c(2) x err by (simp add: ideintr_def bind_def gets_def modify_def whenk_def return_def upd_buf_def push_wakes)
  show ?thesis
  proof (cases "qnext s b")
    case None
    then show ?thesis using i by (simp add: whenk_def return_def)
  next
    case (Some h)
    then have "wants ?s h" using c by (cases bs) (auto simp: wants_def)
    then show ?thesis using i Some by (elim idestart_Ok) (simp add: whenk_def)
  qed
qed

text \<open>A drive with a write in progress and a read behind it.\<close>

definition demo_ide_buf :: "bool \<Rightarrow> nat \<Rightarrow> buf" where
  "demo_ide_buf dirty n = \<lparr>b_busy = True, b_valid = dirty, b_dirty = dirty, b_dev = 1, b_blockno = n, b_prev = 0, b_next = 0,
     b_data = replicate 512 7\<rparr>"

definition demo_ide :: idest where
  "demo_ide = \<lparr>bufs = (\<lambda>b. demo_ide_buf (b = 0) (50 + b)), disk = (\<lambda>_. replicate 512 0)(50 := replicate 512 7), disksize = FSSIZE,
     dwrites = [], wakes = [], qnext = [0 \<mapsto> 1], idequeue = Some 0, havedisk1 = True,
     regs = request_regs 1 (of_nat 50) 1 IDE_CMD_WRITE, disk0 = (\<lambda>_. [])\<rparr>"

text \<open>
  C39. The interrupt-driven IDE driver does what the in-memory disk of memide.c does. While the requests \<open>bs\<close> are
  queued, a further request goes to the end of the queue and its process sleeps; and when the drive has reported the
  end of each request without an error, buffers and disk are what running memide's \<^verbatim>\<open>iderw\<close> on the buffers in
  the order of the queue gives, and the processes were woken in that order. A read that the drive ends
  with an error, however, marks the buffer valid with the bytes it had before.
\<close>

theorem ide_refines_memide:
  fixes s :: "'z idest_scheme"
  assumes sim: "ide_sim s bs d"
  shows "(\<forall>b. wants s b \<and> b \<notin> set bs \<longrightarrow>
      (\<exists>t. ide_iderw b s = Sleep (ChanBuf b) t \<and> ide_sim t (bs @ [b]) d \<and> bufs t = bufs s)) \<and>
    (\<forall>sts. idewait True sts = Some 0 \<longrightarrow>
      (\<exists>t u. for_each bs (\<lambda>_. ideintr sts) s = Ok () t \<and> for_each bs iderw (s\<lparr>disk := d\<rparr>) = Ok () u \<and>
        bufs t = bufs u \<and> disk t = disk u \<and> wakes t = wakes s @ map ChanBuf bs \<and> idequeue t = None)) \<and>
    (\<forall>b rest sts. bs = b # rest \<and> \<not> b_dirty (bufs s b) \<and> idewait True sts = Some (-1) \<longrightarrow>
      (\<exists>t. ideintr sts s = Ok () t \<and> b_valid (bufs t b) \<and> b_data (bufs t b) = b_data (bufs s b)))"
  using request_sim [OF sim] drain_sim [OF sim] read_error sim by blast

theorem ide_refines_memide_witness:
  "\<exists>t u. for_each [0, 1] (\<lambda>_. ideintr [0xD0, 0x50]) demo_ide = Ok () t \<and>
    for_each [0, 1] iderw (demo_ide\<lparr>disk := \<lambda>_. replicate 512 0\<rparr>) = Ok () u \<and> bufs t = bufs u \<and> disk t = disk u \<and>
    wakes t = [ChanBuf 0, ChanBuf 1] \<and> idequeue t = None"
proof -
  have sim: "ide_sim demo_ide [0, 1] (\<lambda>_. replicate 512 0)"
    using lba_request [of 50 1 IDE_CMD_WRITE]
    by (simp add: ide_sim_def demo_ide_def demo_ide_buf_def ahead_def started_def wants_def)
  have "idewait True [0xD0, 0x50] = Some 0" by simp
  moreover have "wakes demo_ide = []" by (simp add: demo_ide_def)
  ultimately show ?thesis using ide_refines_memide [OF sim] by simp
qed

end
