(* ===== verification/Mkfs.thy ===== *)
theory Mkfs
  imports Inode_Spec Dir
begin

text \<open>
  mkfs.c, the program of the build that makes the disk image. The image is a map from sector numbers to blocks;
  \<^verbatim>\<open>rsect\<close> and \<^verbatim>\<open>wsect\<close> seek and transfer one sector, and the host's file operations are taken to succeed. A file to be
  copied is its name and the pieces \<^verbatim>\<open>read\<close> returns. \<^verbatim>\<open>xint\<close> and \<^verbatim>\<open>xshort\<close> put a number into the byte order of the
  disk, so a structure the code fills with them is the record of their arguments, and the codecs of the kernel
  (\<open>encode_dinode\<close>, \<open>encode_sb\<close>, \<open>encode_dirent\<close>) give its bytes. An \<^verbatim>\<open>assert\<close> that fails is \<open>Panic\<close>.

  The lemmas refine the program to operations on a list of files, a type and a content for each: \<open>ialloc\<close> appends an empty file and
  \<open>iappend\<close> extends the content of one, whatever blocks are used for it. It follows that the image holds the files, at
  the places where the kernel looks for them.
\<close>

section \<open>State\<close>

record mkfsst =
  img :: "nat \<Rightarrow> block"
  freeinode :: nat
  freeblock :: nat

definition zeroes :: block where
  "zeroes = replicate BSIZE 0"

text \<open>\<^verbatim>\<open>xshort\<close> and \<^verbatim>\<open>xint\<close>: the bytes in memory of the number they return.\<close>

definition xshort :: "nat \<Rightarrow> byte list" where
  "xshort x = [of_nat x, of_nat (x div 2 ^ 8)]"

definition xint :: "nat \<Rightarrow> byte list" where
  "xint x = [of_nat x, of_nat (x div 2 ^ 8), of_nat (x div 2 ^ 16), of_nat (x div 2 ^ 24)]"

abbreviation wsect :: "nat \<Rightarrow> block \<Rightarrow> (mkfsst, unit) kop" where
  "wsect sec buf \<equiv> modify (\<lambda>s. s\<lparr>img := (img s)(sec := buf)\<rparr>)"

abbreviation rsect :: "nat \<Rightarrow> (mkfsst, block) kop" where
  "rsect sec \<equiv> gets (\<lambda>s. img s sec)"

text \<open>\<^verbatim>\<open>bzero(&din, sizeof(din))\<close>.\<close>

definition zero_dinode :: inode where
  "zero_dinode = \<lparr>i_dev = 0, i_inum = 0, i_bgn = 0, i_ref = 0, i_busy = False, i_valid = False, i_type = 0, i_major = 0, i_minor = 0,
     i_nlink = 0, i_size = 0, i_addrs = replicate NADDRS 0\<rparr>"

section \<open>Inodes\<close>

text \<open>\<^verbatim>\<open>((struct dinode*)buf) + (inum % IPB)\<close>; the kernel uses \<^verbatim>\<open>DINODEOFFSET\<close> instead.\<close>

definition mkfs_slot :: "nat \<Rightarrow> nat" where
  "mkfs_slot inum = inum mod IPB * sizeof_dinode"

definition winode :: "nat \<Rightarrow> inode \<Rightarrow> (mkfsst, unit) kop" where
  "winode inum ip =
     (let bn = IBLOCK inum mkfs_sb in
      bind (rsect bn) (\<lambda>buf.
      wsect bn (blit (mkfs_slot inum) (encode_dinode ip) buf)))"

definition rinode :: "nat \<Rightarrow> (mkfsst, inode) kop" where
  "rinode inum =
     (let bn = IBLOCK inum mkfs_sb in
      bind (rsect bn) (\<lambda>buf.
      return (load_dinode (slice (mkfs_slot inum) sizeof_dinode buf) zero_dinode)))"

definition mkfs_ialloc :: "int \<Rightarrow> (mkfsst, nat) kop" where
  "mkfs_ialloc type =
     bind (gets freeinode) (\<lambda>inum.
     bind (modify (\<lambda>s. s\<lparr>freeinode := inum + 1\<rparr>)) (\<lambda>_.
     bind (winode inum (zero_dinode\<lparr>i_type := type, i_nlink := 1, i_size := 0\<rparr>)) (\<lambda>_.
     return inum)))"

section \<open>Appending to a file\<close>

text \<open>\<^verbatim>\<open>DBLOCK(freeblock, sb)\<close>, then \<^verbatim>\<open>++freeblock\<close>.\<close>

definition take_block :: "(mkfsst, nat) kop" where
  "take_block =
     bind (gets freeblock) (\<lambda>b.
     bind (modify (\<lambda>s. s\<lparr>freeblock := b + 1\<rparr>)) (\<lambda>_.
     return (DBLOCK b mkfs_sb)))"

text \<open>The block \<^verbatim>\<open>x\<close> for file block \<open>fbn\<close>, with the inode updated.\<close>

definition iappend_block :: "inode \<Rightarrow> nat \<Rightarrow> (mkfsst, nat \<times> inode) kop" where
  "iappend_block din fbn =
     (if fbn < NDIRECT then
        if i_addrs din ! fbn = 0 then
          bind take_block (\<lambda>x. return (x, din\<lparr>i_addrs := (i_addrs din)[fbn := x]\<rparr>))
        else return (i_addrs din ! fbn, din)
      else
        bind (if i_addrs din ! NDIRECT = 0 then
                bind take_block (\<lambda>x. return (din\<lparr>i_addrs := (i_addrs din)[NDIRECT := x]\<rparr>))
              else return din) (\<lambda>din.
        let a = i_addrs din ! NDIRECT in
        bind (rsect a) (\<lambda>indirect.
        if le_nat (slice (4 * (fbn - NDIRECT)) 4 indirect) = 0 then
          bind take_block (\<lambda>x.
          bind (wsect a (blit (4 * (fbn - NDIRECT)) (le32 x) indirect)) (\<lambda>_.
          return (x, din)))
        else return (le_nat (slice (4 * (fbn - NDIRECT)) 4 indirect), din))))"

function iappend_loop :: "inode \<Rightarrow> nat \<Rightarrow> byte list \<Rightarrow> (mkfsst, inode \<times> nat) kop" where
  "iappend_loop din off p =
     (if p = [] then return (din, off)
      else
        let fbn = off div BSIZE; n1 = min (length p) ((fbn + 1) * BSIZE - off) in
        bind (panic_if (fbn \<ge> MAXFILE) ''assert'') (\<lambda>_.
        bind (iappend_block din fbn) (\<lambda>(x, din').
        bind (rsect x) (\<lambda>buf.
        bind (wsect x (blit (off - fbn * BSIZE) (take n1 p) buf)) (\<lambda>_.
        iappend_loop din' (off + n1) (drop n1 p))))))"
  by pat_completeness auto
termination
proof (relation "measure (\<lambda>(din, off, p). length p)", simp)
  fix din :: inode and off :: nat and p :: "byte list" and fbn n1 and x :: unit and y :: "nat \<times> inode" and xa din' buf xb
  assume "p \<noteq> []" "fbn = off div BSIZE" "n1 = min (length p) ((fbn + 1) * BSIZE - off)"
  then have "0 < n1" using dividend_less_div_times [of BSIZE off] by (simp add: algebra_simps)
  then show "((din', off + n1, drop n1 p), (din, off, p)) \<in> measure (\<lambda>(din, off, p). length p)"
    using \<open>p \<noteq> []\<close> by simp
qed

declare iappend_loop.simps [simp del]

definition iappend :: "nat \<Rightarrow> byte list \<Rightarrow> (mkfsst, unit) kop" where
  "iappend inum p =
     bind (rinode inum) (\<lambda>din.
     bind (iappend_loop din (i_size din) p) (\<lambda>(din', off).
     winode inum (din'\<lparr>i_size := off\<rparr>)))"

section \<open>The image\<close>

definition mkfs_balloc :: "nat \<Rightarrow> (mkfsst, unit) kop" where
  "mkfs_balloc used =
     bind (panic_if (used \<ge> BPB) ''assert'') (\<lambda>_.
     wsect (sb_bgstart mkfs_sb) (fold (\<lambda>i buf. mark_bit buf i) [0..<used] zeroes))"

text \<open>A leading underscore of the name is dropped.\<close>

definition mkfs_name :: "byte list \<Rightarrow> byte list" where
  "mkfs_name arg = (if arg \<noteq> [] \<and> hd arg = 95 then tl arg else arg)"

text \<open>One of the files on the command line.\<close>

definition mkfs_add :: "nat \<Rightarrow> byte list \<times> byte list list \<Rightarrow> (mkfsst, unit) kop" where
  "mkfs_add rootino f = (case f of (arg, pieces) \<Rightarrow>
     bind (panic_if (47 \<in> set arg) ''assert'') (\<lambda>_.
     bind (mkfs_ialloc T_FILE) (\<lambda>inum.
     bind (iappend rootino (encode_dirent inum (mkfs_name arg))) (\<lambda>_.
     for_each pieces (iappend inum)))))"

definition mkfs_main :: "(byte list \<times> byte list list) list \<Rightarrow> (mkfsst, unit) kop" where
  "mkfs_main files =
     bind (modify (\<lambda>s. s\<lparr>freeblock := mkfs_nmeta\<rparr>)) (\<lambda>_.
     bind (modify (\<lambda>s. s\<lparr>img := (\<lambda>i. if i < FSSIZE then zeroes else img s i)\<rparr>)) (\<lambda>_.
     bind (wsect 1 (blit 0 (encode_sb mkfs_sb) zeroes)) (\<lambda>_.
     bind (mkfs_ialloc T_DIR) (\<lambda>rootino.
     bind (panic_if (rootino \<noteq> ROOTINO) ''assert'') (\<lambda>_.
     bind (iappend rootino (encode_dirent rootino (cstr ''.''))) (\<lambda>_.
     bind (iappend rootino (encode_dirent rootino (cstr ''..''))) (\<lambda>_.
     bind (for_each files (mkfs_add rootino)) (\<lambda>_.
     bind (rinode rootino) (\<lambda>din.
     bind (winode rootino (din\<lparr>i_size := (i_size din div BSIZE + 1) * BSIZE\<rparr>)) (\<lambda>_.
     bind (gets freeblock) (\<lambda>used.
     mkfs_balloc used)))))))))))"

text \<open>The process starts with \<^verbatim>\<open>freeinode = 1\<close> and an empty file.\<close>

definition mkfs_start :: mkfsst where
  "mkfs_start = \<lparr>img = (\<lambda>_. []), freeinode = 1, freeblock = 0\<rparr>"

section \<open>Places\<close>

lemma of_nat_byte_mod: "(of_nat (v mod 256) :: byte) = of_nat v"
  by (simp add: word_unat_eq_iff unat_of_nat)

lemma xint_le32: "xint x = le32 x"
  by (simp add: xint_def le32_def upt_rec of_nat_byte_mod)

lemma xshort_le16: "xshort x = le16 x"
  by (simp add: xshort_def le16_def upt_rec of_nat_byte_mod)

lemma DBLOCK_small: "b < BPB \<Longrightarrow> DBLOCK b mkfs_sb = b + 36"
  by (simp add: DBLOCK_def mkfs_sb_def)

lemma IBLOCK_outside: "IBLOCK n mkfs_sb < 37 \<or> 4096 < IBLOCK n mkfs_sb" "32 < IBLOCK n mkfs_sb"
proof -
  have e: "IBLOCK n mkfs_sb = 32 + n div 29 * 4065 + (1 + n mod 29 div 8)" "1 + n mod 29 div 8 \<le> 4"
    using IBLOCK_group [OF mkfs_sb_geometry, of n] by (simp_all add: mkfs_sb_def)
  then show "IBLOCK n mkfs_sb < 37 \<or> 4096 < IBLOCK n mkfs_sb" by (cases "n div 29 = 0") auto
  show "32 < IBLOCK n mkfs_sb" by (simp add: e)
qed

lemma same_div_less: "a div 8 = b div 8 \<Longrightarrow> a < b + (8 :: nat)"
proof -
  assume "a div 8 = b div 8"
  then have "a = b div 8 * 8 + a mod 8" using div_mult_mod_eq [of a 8] by simp
  moreover have "a mod 8 < 8" "b div 8 * 8 \<le> b" by simp_all
  ultimately show ?thesis by linarith
qed

lemma same_block_slot:
  assumes "IBLOCK i mkfs_sb = IBLOCK j mkfs_sb" "i mod 8 = j mod 8"
  shows "i = j"
proof -
  have g: "i div 29 = j div 29 \<and> 1 + i mod 29 div 8 = 1 + j mod 29 div 8"
    using assms(1) IBLOCK_group [OF mkfs_sb_geometry, of i] IBLOCK_group [OF mkfs_sb_geometry, of j]
    by (intro group_member_eq [of "sb_bgstart mkfs_sb"]) simp_all
  have a: "i mod 29 div 8 = j mod 29 div 8" and q: "i div 29 = j div 29" using g by simp_all
  have lt: "i < j + 8" "j < i + 8"
    using same_div_less [OF a] same_div_less [OF a [symmetric]] div_mult_mod_eq [of i 29] div_mult_mod_eq [of j 29]
    unfolding q by linarith+
  consider "i \<le> j" | "j \<le> i" by linarith
  then show ?thesis
  proof cases
    case 1
    then have "8 dvd j - i" using assms(2) mod_eq_dvd_iff_nat [of i j 8] by simp
    then show ?thesis using lt(2) 1 by (auto dest: dvd_imp_le)
  next
    case 2
    then have "8 dvd i - j" using assms(2) mod_eq_dvd_iff_nat [of j i 8] by simp
    then show ?thesis using lt(1) 2 by (auto dest: dvd_imp_le)
  qed
qed

interpretation mkfs_slots: disk_slots "\<lambda>i. IBLOCK i mkfs_sb" mkfs_slot sizeof_dinode
proof
  fix i j
  have lt: "k mod 8 < 8" for k :: nat by simp
  show "mkfs_slot i + sizeof_dinode \<le> BSIZE" using lt [of i] by (simp add: mkfs_slot_def)
  assume "i \<noteq> j" "IBLOCK i mkfs_sb = IBLOCK j mkfs_sb"
  then have "i mod 8 \<noteq> j mod 8" using same_block_slot by blast
  then show "mkfs_slot i + sizeof_dinode \<le> mkfs_slot j \<or> mkfs_slot j + sizeof_dinode \<le> mkfs_slot i"
    by (simp add: mkfs_slot_def) linarith
qed

text \<open>mkfs and the kernel agree on the place of an inode in the first block group.\<close>

lemma kernel_slot: "n < IPBG \<Longrightarrow> DINODE_AT n mkfs_sb = mkfs_slot n"
  by (simp add: DINODE_AT_def mkfs_slot_def DINODEOFFSET_def mkfs_sb_def)

section \<open>The blocks of a file\<close>

definition fblk :: "(nat \<Rightarrow> block) \<Rightarrow> inode \<Rightarrow> nat \<Rightarrow> nat" where
  "fblk m i k = (if k < NDIRECT then i_addrs i ! k else le_nat (slice (4 * (k - NDIRECT)) 4 (m (i_addrs i ! NDIRECT))))"

abbreviation data_area :: "nat \<Rightarrow> nat set" where
  "data_area fb \<equiv> {193..<fb + 36}"

text \<open>
  The first \<open>nb\<close> blocks of the file are allocated, to different blocks below the free ones; the other entries are 0.
\<close>

definition blocks_ok :: "(nat \<Rightarrow> block) \<Rightarrow> nat \<Rightarrow> inode \<Rightarrow> nat \<Rightarrow> bool" where
  "blocks_ok m fb i nb \<longleftrightarrow> length (i_addrs i) = NADDRS \<and> nb \<le> MAXFILE \<and>
     (\<forall>k<nb. fblk m i k \<in> data_area fb) \<and> inj_on (fblk m i) {..<nb} \<and> (\<forall>k<NDIRECT. nb \<le> k \<longrightarrow> i_addrs i ! k = 0) \<and>
     (if nb \<le> NDIRECT then i_addrs i ! NDIRECT = 0
      else i_addrs i ! NDIRECT \<in> data_area fb \<and> i_addrs i ! NDIRECT \<notin> fblk m i ` {..<nb} \<and>
        (\<forall>k<MAXFILE. nb \<le> k \<longrightarrow> fblk m i k = 0))"

definition owned :: "(nat \<Rightarrow> block) \<Rightarrow> inode \<Rightarrow> nat \<Rightarrow> nat set" where
  "owned m i nb = fblk m i ` {..<nb} \<union> (if nb \<le> NDIRECT then {} else {i_addrs i ! NDIRECT})"

definition disk_ok :: "mkfsst \<Rightarrow> bool" where
  "disk_ok s \<longleftrightarrow> (\<forall>b<FSSIZE. length (img s b) = BSIZE) \<and> mkfs_nmeta \<le> freeblock s \<and> freeblock s \<le> BPB \<and>
     (\<forall>b<4096. freeblock s + 36 \<le> b \<longrightarrow> img s b = zeroes)"

text \<open>The number of blocks a file of \<open>nb\<close> blocks takes.\<close>

definition nused :: "nat \<Rightarrow> nat" where
  "nused nb = nb + (if nb \<le> NDIRECT then 0 else 1)"

text \<open>A file whose block \<open>fbn\<close> was looked up, and allocated if it was the first one missing.\<close>

definition grown :: "mkfsst \<Rightarrow> inode \<Rightarrow> nat \<Rightarrow> mkfsst \<Rightarrow> inode \<Rightarrow> nat \<Rightarrow> bool" where
  "grown s i nb t j nb' \<longleftrightarrow> disk_ok t \<and> blocks_ok (img t) (freeblock t) j nb' \<and> freeinode t = freeinode s \<and>
     freeblock s \<le> freeblock t \<and> freeblock t + nused nb = freeblock s + nused nb' \<and> j\<lparr>i_addrs := i_addrs i\<rparr> = i \<and>
     (\<forall>k<nb. fblk (img t) j k = fblk (img s) i k \<and> img t (fblk (img s) i k) = img s (fblk (img s) i k)) \<and>
     owned (img t) j nb' \<subseteq> owned (img s) i nb \<union> {freeblock s + 36..<freeblock t + 36} \<and>
     (\<forall>b. b \<notin> owned (img t) j nb' \<longrightarrow> img t b = img s b) \<and>
     (nb < nb' \<longrightarrow> img t (fblk (img t) j nb) = zeroes)"

lemma blocks_ok_present:
  assumes "blocks_ok m fb i nb" "k < nb"
  shows "fblk m i k \<noteq> 0" "NDIRECT \<le> k \<Longrightarrow> i_addrs i ! NDIRECT \<noteq> 0"
  using assms by (auto simp: blocks_ok_def split: if_splits)

lemma grown_same:
  assumes "disk_ok s" "blocks_ok (img s) (freeblock s) i nb"
  shows "grown s i nb s i nb"
  using assms by (simp add: grown_def)

text \<open>A direct block is added.\<close>

lemma grown_direct:
  assumes d: "disk_ok s" "freeblock s < BPB" and b: "blocks_ok (img s) (freeblock s) i nb" and nb: "nb < NDIRECT"
  defines "x \<equiv> freeblock s + 36"
  defines "j \<equiv> i\<lparr>i_addrs := (i_addrs i)[nb := x]\<rparr>" and "t \<equiv> s\<lparr>freeblock := freeblock s + 1\<rparr>"
  shows "grown s i nb t j (nb + 1)" "fblk (img t) j nb = x"
proof -
  have len: "length (i_addrs i) = NADDRS" using b by (simp add: blocks_ok_def)
  have f: "fblk (img t) j k = (if k = nb then x else fblk (img s) i k)" for k
    using nb len by (simp add: fblk_def j_def t_def nth_list_update)
  show "fblk (img t) j nb = x" by (simp add: f)
  have lt: "fblk (img s) i k < x" "193 \<le> fblk (img s) i k" if "k < nb" for k using b that by (auto simp: blocks_ok_def x_def)
  have x: "193 \<le> x" using d(1) by (simp add: disk_ok_def mkfs_nmeta_def mkfs_ninodeblocks_def mkfs_nbitmap_def x_def)
  have inj: "inj_on (fblk (img t) j) {..<nb + 1}"
  proof (rule inj_onI)
    fix k l assume k: "k \<in> {..<nb + 1}" "l \<in> {..<nb + 1}" "fblk (img t) j k = fblk (img t) j l"
    have "inj_on (fblk (img s) i) {..<nb}" using b by (simp add: blocks_ok_def)
    then show "k = l" using k lt(1) [of k] lt(1) [of l] by (auto simp: f less_Suc_eq dest: inj_onD split: if_splits)
  qed
  have a: "i_addrs j ! NDIRECT = 0" "\<forall>k<NDIRECT. nb + 1 \<le> k \<longrightarrow> i_addrs j ! k = 0"
    using b nb len by (auto simp: blocks_ok_def j_def)
  have "\<forall>k<nb + 1. fblk (img t) j k \<in> data_area (freeblock t)"
  proof (intro allI impI)
    fix k assume "k < nb + 1"
    then show "fblk (img t) j k \<in> data_area (freeblock t)"
      unfolding f using lt [of k] x by (cases "k = nb") (simp_all add: x_def t_def)
  qed
  then have "blocks_ok (img t) (freeblock t) j (nb + 1)"
    using inj a nb len by (simp add: blocks_ok_def j_def)
  moreover have "disk_ok t" using d by (simp add: disk_ok_def t_def)
  moreover have "owned (img t) j (nb + 1) \<subseteq> owned (img s) i nb \<union> {x..<x + 1}"
    using nb by (auto simp: owned_def f less_Suc_eq)
  moreover have "img t x = zeroes" using d by (simp add: disk_ok_def t_def x_def)
  then have "img t (fblk (img t) j nb) = zeroes" by (simp add: f)
  ultimately show "grown s i nb t j (nb + 1)"
    using f nb by (simp add: grown_def j_def t_def x_def nused_def)
qed

text \<open>An entry of the indirect block is filled in.\<close>

definition ind_ok :: "(nat \<Rightarrow> block) \<Rightarrow> nat \<Rightarrow> inode \<Rightarrow> nat \<Rightarrow> bool" where
  "ind_ok m fb i nb \<longleftrightarrow> length (i_addrs i) = NADDRS \<and> NDIRECT \<le> nb \<and> nb < MAXFILE \<and> (\<forall>k<nb. fblk m i k \<in> data_area fb) \<and>
     inj_on (fblk m i) {..<nb} \<and> i_addrs i ! NDIRECT \<in> data_area fb \<and> i_addrs i ! NDIRECT \<notin> fblk m i ` {..<nb} \<and>
     (\<forall>k<MAXFILE. nb \<le> k \<longrightarrow> fblk m i k = 0)"

lemma blocks_ok_ind: "blocks_ok m fb i nb \<Longrightarrow> NDIRECT < nb \<Longrightarrow> nb < MAXFILE \<Longrightarrow> ind_ok m fb i nb"
  by (simp add: blocks_ok_def ind_ok_def)

lemma grown_indirect:
  assumes d: "disk_ok s" "freeblock s < BPB" and b: "ind_ok (img s) (freeblock s) i nb"
  defines "x \<equiv> freeblock s + 36" and "a \<equiv> i_addrs i ! NDIRECT"
  defines "t \<equiv> s\<lparr>freeblock := freeblock s + 1, img := (img s)(a := blit (4 * (nb - NDIRECT)) (le32 x) (img s a))\<rparr>"
  shows "disk_ok t" "blocks_ok (img t) (freeblock t) i (nb + 1)" "fblk (img t) i nb = x"
    "\<forall>k<nb. fblk (img t) i k = fblk (img s) i k \<and> img t (fblk (img s) i k) = img s (fblk (img s) i k)"
    "owned (img t) i (nb + 1) = insert a (insert x (fblk (img s) i ` {..<nb}))"
proof -
  have nb: "NDIRECT \<le> nb" "nb < MAXFILE" and a: "193 \<le> a" "a < x" and fs: "freeblock s \<le> BPB" "mkfs_nmeta \<le> freeblock s"
    using b d by (auto simp: ind_ok_def a_def x_def disk_ok_def)
  then have "a < FSSIZE" by (simp add: x_def)
  then have la: "length (img s a) = BSIZE" using d(1) by (simp add: disk_ok_def)
  have xl: "x < 2 ^ 32" "193 \<le> x" using fs by (simp_all add: x_def mkfs_nmeta_def mkfs_ninodeblocks_def mkfs_nbitmap_def)
  have f: "fblk (img t) i k = (if k = nb then x else fblk (img s) i k)" if "k < MAXFILE" for k
  proof (cases "k < NDIRECT")
    case False
    have fit: "4 * (nb - NDIRECT) + 4 \<le> BSIZE" "4 * (k - NDIRECT) + 4 \<le> BSIZE" using nb that by auto
    have "k \<noteq> nb \<Longrightarrow> 4 * (k - NDIRECT) + 4 \<le> 4 * (nb - NDIRECT) \<or> 4 * (nb - NDIRECT) + 4 \<le> 4 * (k - NDIRECT)"
      using False nb by linarith
    then show ?thesis
      using False fit la xl by (auto simp: fblk_def t_def a_def [symmetric] slice_blit_same slice_blit_other le32_roundtrip)
  qed (use nb in \<open>auto simp: fblk_def t_def\<close>)
  show "fblk (img t) i nb = x" using nb f by simp
  show same: "\<forall>k<nb. fblk (img t) i k = fblk (img s) i k \<and> img t (fblk (img s) i k) = img s (fblk (img s) i k)"
  proof (intro allI impI)
    fix k assume "k < nb"
    then have "fblk (img s) i k \<in> fblk (img s) i ` {..<nb}" by simp
    then have "fblk (img s) i k \<noteq> a" using b unfolding ind_ok_def a_def by metis
    then show "fblk (img t) i k = fblk (img s) i k \<and> img t (fblk (img s) i k) = img s (fblk (img s) i k)"
      using f [of k] \<open>k < nb\<close> nb by (simp add: t_def)
  qed
  have lt: "fblk (img s) i k < x" "193 \<le> fblk (img s) i k" if "k < nb" for k using b that by (auto simp: ind_ok_def x_def)
  have img: "fblk (img t) i ` {..<nb + 1} = insert x (fblk (img s) i ` {..<nb})"
  proof -
    have "fblk (img t) i ` {..<nb + 1} = insert (fblk (img t) i nb) (fblk (img t) i ` {..<nb})" by (simp add: lessThan_Suc)
    also have "fblk (img t) i ` {..<nb} = fblk (img s) i ` {..<nb}" by (rule image_cong) (use f nb in auto)
    finally show ?thesis using f [of nb] nb by simp
  qed
  then show "owned (img t) i (nb + 1) = insert a (insert x (fblk (img s) i ` {..<nb}))"
    using nb by (simp add: owned_def a_def)
  have "inj_on (fblk (img t) i) {..<nb + 1}"
  proof (rule inj_onI)
    fix k l assume k: "k \<in> {..<nb + 1}" "l \<in> {..<nb + 1}" "fblk (img t) i k = fblk (img t) i l"
    have "inj_on (fblk (img s) i) {..<nb}" using b by (simp add: ind_ok_def)
    then show "k = l" using k lt(1) [of k] lt(1) [of l] nb by (auto simp: f less_Suc_eq dest: inj_onD split: if_splits)
  qed
  moreover have "\<forall>k<nb + 1. fblk (img t) i k \<in> data_area (freeblock t)"
  proof (intro allI impI)
    fix k assume k: "k < nb + 1"
    then have "k < MAXFILE" using nb by simp
    then show "fblk (img t) i k \<in> data_area (freeblock t)"
      unfolding f [OF \<open>k < MAXFILE\<close>] using lt [of k] k xl(2) by (cases "k = nb") (simp_all add: x_def t_def)
  qed
  moreover have "a \<notin> fblk (img t) i ` {..<nb + 1}" using b a unfolding img by (simp add: ind_ok_def a_def)
  moreover have "\<forall>k<MAXFILE. nb + 1 \<le> k \<longrightarrow> fblk (img t) i k = 0" using b by (auto simp: f ind_ok_def)
  ultimately show "blocks_ok (img t) (freeblock t) i (nb + 1)"
    using b nb a by (auto simp: blocks_ok_def ind_ok_def a_def x_def t_def)
  show "disk_ok t" using d la a nb by (auto simp: disk_ok_def t_def x_def)
qed

lemma zero_entry: "k < NINDIRECT \<Longrightarrow> le_nat (slice (4 * k) 4 zeroes) = 0"
  by (simp add: slice_def zeroes_def)

lemma grown_indirect_only:
  assumes d: "disk_ok s" "freeblock s < BPB" and b: "blocks_ok (img s) (freeblock s) i nb" and nb: "NDIRECT < nb" "nb < MAXFILE"
  defines "x \<equiv> freeblock s + 36" and "a \<equiv> i_addrs i ! NDIRECT"
  defines "t \<equiv> s\<lparr>freeblock := freeblock s + 1, img := (img s)(a := blit (4 * (nb - NDIRECT)) (le32 x) (img s a))\<rparr>"
  shows "grown s i nb t i (nb + 1)" "fblk (img t) i nb = x"
proof -
  note g = grown_indirect [OF d blocks_ok_ind [OF b nb], folded x_def a_def, folded t_def]
  show "fblk (img t) i nb = x" by (rule g(3))
  have "owned (img s) i nb = insert a (fblk (img s) i ` {..<nb})" using nb by (simp add: owned_def a_def)
  then have o: "owned (img t) i (nb + 1) = insert x (owned (img s) i nb)" unfolding g(5) by (simp add: insert_commute)
  have "b \<notin> owned (img t) i (nb + 1) \<Longrightarrow> img t b = img s b" for b unfolding g(5) by (simp add: t_def)
  moreover have "img t (fblk (img t) i nb) = zeroes"
  proof -
    have "a < x" using b nb by (simp add: blocks_ok_def a_def x_def)
    then have "img t x = img s x" by (simp add: t_def)
    then show ?thesis using d g(3) by (simp add: disk_ok_def x_def)
  qed
  ultimately show "grown s i nb t i (nb + 1)"
    using g(1,2,4) nb unfolding grown_def o by (auto simp: t_def x_def nused_def)
qed

lemma grown_indirect_both:
  assumes d: "disk_ok s" "freeblock s + 1 < BPB" and b: "blocks_ok (img s) (freeblock s) i NDIRECT"
  defines "a \<equiv> freeblock s + 36" and "x \<equiv> freeblock s + 37"
  defines "j \<equiv> i\<lparr>i_addrs := (i_addrs i)[NDIRECT := a]\<rparr>"
  defines "t \<equiv> s\<lparr>freeblock := freeblock s + 2, img := (img s)(a := blit 0 (le32 x) zeroes)\<rparr>"
  shows "grown s i NDIRECT t j (NDIRECT + 1)" "fblk (img t) j NDIRECT = x"
proof -
  let ?s = "s\<lparr>freeblock := freeblock s + 1\<rparr>"
  have len: "length (i_addrs i) = NADDRS" using b by (simp add: blocks_ok_def)
  have za: "img s a = zeroes" using d by (simp add: disk_ok_def a_def)
  have a: "i_addrs j ! NDIRECT = a" using len by (simp add: j_def)
  have f: "fblk (img s) j k = fblk (img s) i k" if "k < NDIRECT" for k using that len by (simp add: fblk_def j_def)
  have f0: "fblk (img s) j k = 0" if "NDIRECT \<le> k" "k < MAXFILE" for k
    using that zero_entry [of "k - NDIRECT"] by (simp add: fblk_def a za)
  have im: "fblk (img s) j ` {..<NDIRECT} = fblk (img s) i ` {..<NDIRECT}" by (rule image_cong) (use f in auto)
  have lt: "fblk (img s) i k < a" "193 \<le> fblk (img s) i k" if "k < NDIRECT" for k
    using b that by (auto simp: blocks_ok_def a_def)
  have n: "mkfs_nmeta \<le> freeblock s" using d by (simp add: disk_ok_def)
  have "ind_ok (img ?s) (freeblock ?s) j NDIRECT"
  proof -
    have "inj_on (fblk (img s) j) {..<NDIRECT} = inj_on (fblk (img s) i) {..<NDIRECT}" by (rule inj_on_cong) (use f in auto)
    then have "inj_on (fblk (img s) j) {..<NDIRECT}" using b by (simp add: blocks_ok_def)
    moreover have "\<forall>k<NDIRECT. fblk (img s) j k \<in> data_area (freeblock s + 1)"
    proof (intro allI impI)
      fix k assume "k < NDIRECT"
      then show "fblk (img s) j k \<in> data_area (freeblock s + 1)" using lt [of k] by (simp add: f a_def)
    qed
    moreover have "a \<notin> fblk (img s) j ` {..<NDIRECT}" unfolding im using lt by fastforce
    ultimately show ?thesis
      using len f0 n by (simp add: ind_ok_def a) (simp add: j_def a_def mkfs_nmeta_def mkfs_ninodeblocks_def mkfs_nbitmap_def)
  qed
  note ind = this
  have "disk_ok ?s" "freeblock ?s < BPB" using d by (auto simp: disk_ok_def)
  note g0 = grown_indirect [OF this ind]
  have "?s\<lparr>freeblock := freeblock ?s + 1, img := (img ?s)(i_addrs j ! NDIRECT :=
      blit (4 * (NDIRECT - NDIRECT)) (le32 (freeblock ?s + 36)) (img ?s (i_addrs j ! NDIRECT)))\<rparr> = t"
    "freeblock ?s + 36 = x" "img ?s = img s"
    by (simp_all add: a za t_def x_def add.commute)
  note g = g0 [unfolded this(1), unfolded this(2,3) a]
  show "fblk (img t) j NDIRECT = x" by (rule g(3))
  have o: "owned (img t) j (NDIRECT + 1) = insert a (insert x (owned (img s) i NDIRECT))"
    unfolding g(5) im by (simp add: owned_def)
  have "b \<notin> owned (img t) j (NDIRECT + 1) \<Longrightarrow> img t b = img s b" for b unfolding o by (simp add: t_def)
  moreover have "\<forall>k<NDIRECT. fblk (img t) j k = fblk (img s) i k \<and> img t (fblk (img s) i k) = img s (fblk (img s) i k)"
    using g(4) f by simp
  moreover have "owned (img t) j (NDIRECT + 1) \<subseteq> owned (img s) i NDIRECT \<union> {freeblock s + 36..<freeblock t + 36}"
    unfolding o by (auto simp: a_def x_def t_def)
  moreover have "img t (fblk (img t) j NDIRECT) = zeroes"
  proof -
    have "img t x = img s x" by (simp add: t_def a_def x_def)
    then show ?thesis using d unfolding g(3) by (simp add: disk_ok_def x_def)
  qed
  ultimately show "grown s i NDIRECT t j (NDIRECT + 1)"
    using g(1,2) unfolding grown_def by (simp add: j_def t_def nused_def)
qed

lemma iappend_block_wp:
  assumes d: "disk_ok s" "freeblock s + 2 \<le> BPB" and b: "blocks_ok (img s) (freeblock s) i nb" and k: "k \<le> nb" "k < MAXFILE"
  shows "wp (iappend_block i k) (\<lambda>(x, j) t. grown s i nb t j (max nb (k + 1)) \<and> x = fblk (img t) j k) s"
proof -
  have D: "DBLOCK (freeblock s) mkfs_sb = freeblock s + 36" "DBLOCK (Suc (freeblock s)) mkfs_sb = freeblock s + 37"
    using DBLOCK_small d(2) by auto
  consider "k < nb" | "k = nb" "nb < NDIRECT" | "k = nb" "nb = NDIRECT" | "k = nb" "NDIRECT < nb" using k by linarith
  then show ?thesis
  proof cases
    case 1
    then have "max nb (k + 1) = nb" by simp
    then show ?thesis
      using blocks_ok_present [OF b 1] grown_same [OF d(1) b]
      by (cases "k < NDIRECT") (auto simp: iappend_block_def wp_simps fblk_def Let_def)
  next
    case 2
    have z: "i_addrs i ! nb = 0" using b 2 by (simp add: blocks_ok_def)
    show ?thesis using grown_direct [OF d(1) _ b 2(2)] 2 d(2) z
      by (simp add: iappend_block_def take_block_def wp_simps D)
  next
    case 3
    have z: "i_addrs i ! NDIRECT = 0" "length (i_addrs i) = NADDRS" using b 3 by (simp_all add: blocks_ok_def)
    have za: "img s (freeblock s + 36) = zeroes" using d by (simp add: disk_ok_def)
    have "le_nat (slice 0 4 zeroes) = 0" using zero_entry [of 0] by simp
    then show ?thesis using grown_indirect_both [OF d(1) _ b [unfolded 3(2)]] 3 d(2) z za
      by (simp add: iappend_block_def take_block_def wp_simps D Let_def)
  next
    case 4
    have z: "i_addrs i ! NDIRECT \<noteq> 0" "le_nat (slice (4 * (nb - NDIRECT)) 4 (img s (i_addrs i ! NDIRECT))) = 0"
      using b 4 k by (auto simp: blocks_ok_def fblk_def split: if_splits)
    show ?thesis using grown_indirect_only [OF d(1) _ b 4(2)] 4 k d(2) z
      by (simp add: iappend_block_def take_block_def wp_simps D Let_def)
  qed
qed

section \<open>The content of a file\<close>

definition nblk :: "nat \<Rightarrow> nat" where
  "nblk sz = (sz + (BSIZE - 1)) div BSIZE"

definition content :: "(nat \<Rightarrow> block) \<Rightarrow> inode \<Rightarrow> nat \<Rightarrow> byte list" where
  "content m i sz = map (\<lambda>k. m (fblk m i (k div BSIZE)) ! (k mod BSIZE)) [0..<sz]"

text \<open>The rest of the last block of the file is zero.\<close>

definition zero_tail :: "(nat \<Rightarrow> block) \<Rightarrow> inode \<Rightarrow> nat \<Rightarrow> bool" where
  "zero_tail m i sz \<longleftrightarrow> (\<forall>k<nblk sz * BSIZE. sz \<le> k \<longrightarrow> m (fblk m i (k div BSIZE)) ! (k mod BSIZE) = 0)"

lemma nblk_step:
  assumes "0 < n" "off mod BSIZE + n \<le> BSIZE"
  shows "nblk (off + n) = off div BSIZE + 1" "off div BSIZE \<le> nblk off" "nblk off \<le> off div BSIZE + 1"
    "k < off \<Longrightarrow> k div BSIZE < nblk off"
proof -
  let ?q = "off div BSIZE" and ?r = "off mod BSIZE"
  have o: "off = BSIZE * ?q + ?r" by simp
  have "nblk (off + n) = (BSIZE * ?q + (?r + n + 511)) div BSIZE" by (subst o) (simp add: nblk_def algebra_simps)
  also have "\<dots> = ?q + (?r + n + 511) div BSIZE" by (rule div_mult_self4) simp
  also have "(?r + n + 511) div BSIZE = 1" using assms by (intro div_nat_eqI) auto
  finally show "nblk (off + n) = ?q + 1" .
  show "?q \<le> nblk off" unfolding nblk_def by (rule div_le_mono) simp
  have "nblk off = (BSIZE * ?q + (?r + 511)) div BSIZE" by (subst o) (simp add: nblk_def algebra_simps)
  also have "\<dots> = ?q + (?r + 511) div BSIZE" by (rule div_mult_self4) simp
  also have "(?r + 511) div BSIZE \<le> 1" using assms by (simp add: less_Suc_eq_le [symmetric] div_less_iff_less_mult)
  finally show "nblk off \<le> ?q + 1" by simp
  assume "k < off"
  then have "(k + 512) div BSIZE \<le> (off + 511) div BSIZE" by (intro div_le_mono) simp
  then show "k div BSIZE < nblk off" by (simp add: nblk_def)
qed

lemma div_mod_at: "k = BSIZE * q + y \<Longrightarrow> y < BSIZE \<Longrightarrow> k div BSIZE = q \<and> k mod BSIZE = y"
  by simp

lemma fblk_cong:
  assumes "m (i_addrs i ! NDIRECT) = m' (i_addrs i ! NDIRECT)"
  shows "fblk m i = fblk m' i"
  using assms by (simp add: fblk_def fun_eq_iff)

lemma indirect_apart:
  assumes "blocks_ok m fb i nb" "k < nb"
  shows "fblk m i k \<noteq> i_addrs i ! NDIRECT"
proof (cases "nb \<le> NDIRECT")
  case True
  then show ?thesis using assms blocks_ok_present(1) [OF assms] by (simp add: blocks_ok_def)
next
  case False
  have "fblk m i k \<in> fblk m i ` {..<nb}" using assms(2) by simp
  then show ?thesis using assms(1) False unfolding blocks_ok_def by metis
qed

text \<open>Writing one of the blocks of a file.\<close>

lemma write_block:
  assumes b: "blocks_ok (img t) (freeblock t) j nb" and d: "disk_ok t" and k: "k < nb"
    and c: "length src + off \<le> BSIZE"
  defines "x \<equiv> fblk (img t) j k"
  defines "u \<equiv> t\<lparr>img := (img t)(x := blit off src (img t x))\<rparr>"
  shows "disk_ok u" "fblk (img u) j = fblk (img t) j" "blocks_ok (img u) (freeblock u) j nb" "owned (img u) j nb = owned (img t) j nb"
proof -
  have x: "x \<in> data_area (freeblock t)" "x \<noteq> i_addrs j ! NDIRECT"
    using b k indirect_apart [OF b k] by (auto simp: blocks_ok_def x_def)
  show f: "fblk (img u) j = fblk (img t) j" by (rule fblk_cong) (use x(2) in \<open>simp add: u_def\<close>)
  have "freeblock u = freeblock t" by (simp add: u_def)
  then show "blocks_ok (img u) (freeblock u) j nb" using b unfolding blocks_ok_def f by metis
  show "owned (img u) j nb = owned (img t) j nb" by (simp add: owned_def f)
  have "x < FSSIZE" using x(1) d by (simp add: disk_ok_def)
  then have "length (img t x) = BSIZE" using d by (simp add: disk_ok_def)
  then show "disk_ok u" using d x(1) c by (auto simp: disk_ok_def u_def)
qed

text \<open>Writing at the end of the content extends it.\<close>

lemma write_content:
  assumes b: "blocks_ok (img t) (freeblock t) j (off div BSIZE + 1)" and d: "disk_ok t"
    and src: "src \<noteq> []" "off mod BSIZE + length src \<le> BSIZE"
  defines "x \<equiv> fblk (img t) j (off div BSIZE)"
  defines "u \<equiv> t\<lparr>img := (img t)(x := blit (off mod BSIZE) src (img t x))\<rparr>"
  shows "content (img u) j (off + length src) = content (img t) j off @ src"
proof (rule nth_equalityI)
  let ?q = "off div BSIZE" and ?r = "off mod BSIZE"
  have f: "fblk (img u) j = fblk (img t) j"
    unfolding u_def x_def by (rule write_block(2) [OF b d]) (use src in auto)
  have x: "x \<in> data_area (freeblock t)" using b by (simp add: blocks_ok_def x_def)
  then have "x < FSSIZE" using d by (simp add: disk_ok_def)
  then have lx: "length (img t x) = BSIZE" using d by (simp add: disk_ok_def)
  show "length (content (img u) j (off + length src)) = length (content (img t) j off @ src)" by (simp add: content_def)
  fix k assume "k < length (content (img u) j (off + length src))"
  then have k: "k < off + length src" by (simp add: content_def)
  show "content (img u) j (off + length src) ! k = (content (img t) j off @ src) ! k"
  proof (cases "k < off")
    case True
    have kq: "k div BSIZE \<le> ?q" using True by (simp add: div_le_mono)
    have "img u (fblk (img t) j (k div BSIZE)) ! (k mod BSIZE) = img t (fblk (img t) j (k div BSIZE)) ! (k mod BSIZE)"
    proof (cases "k div BSIZE = ?q")
      case True
      have "BSIZE * (k div BSIZE) + k mod BSIZE < BSIZE * ?q + ?r" using \<open>k < off\<close> by (simp only: mult_div_mod_eq)
      then have "k mod BSIZE < ?r" by (simp only: True add_less_cancel_left)
      then show ?thesis using True lx src by (simp add: u_def x_def [symmetric] nth_blit)
    next
      case False
      have "inj_on (fblk (img t) j) {..<?q + 1}" using b by (simp add: blocks_ok_def)
      then have "fblk (img t) j (k div BSIZE) \<noteq> x" using False kq by (auto simp: x_def dest: inj_onD)
      then show ?thesis by (simp add: u_def)
    qed
    then show ?thesis using True k by (simp add: content_def f nth_append)
  next
    case False
    then obtain l where l: "k = off + l" by (metis le_add_diff_inverse not_less)
    then have ll: "l < length src" using k by simp
    have "k = BSIZE * ?q + (?r + l)" "?r + l < BSIZE" using l ll src by (simp_all add: algebra_simps)
    note q = div_mod_at [OF this]
    have "img u x ! (?r + l) = src ! l" using lx src ll by (simp add: u_def nth_blit)
    then have "img u (fblk (img t) j (k div BSIZE)) ! (k mod BSIZE) = src ! l" unfolding conjunct1 [OF q] conjunct2 [OF q] x_def [symmetric] .
    then show ?thesis using l k by (simp add: content_def f nth_append)
  qed
qed

text \<open>What \<^verbatim>\<open>iappend\<close> has done to a file of \<open>off\<close> bytes when it has appended \<open>src\<close>.\<close>

definition extended :: "mkfsst \<Rightarrow> inode \<Rightarrow> nat \<Rightarrow> mkfsst \<Rightarrow> inode \<Rightarrow> nat \<Rightarrow> byte list \<Rightarrow> bool" where
  "extended s i off t j off' src \<longleftrightarrow> disk_ok t \<and> blocks_ok (img t) (freeblock t) j (nblk off') \<and> freeinode t = freeinode s \<and>
     freeblock s \<le> freeblock t \<and> freeblock t + nused (nblk off) = freeblock s + nused (nblk off') \<and> j\<lparr>i_addrs := i_addrs i\<rparr> = i \<and>
     off' = off + length src \<and> content (img t) j off' = content (img s) i off @ src \<and>
     (zero_tail (img s) i off \<longrightarrow> zero_tail (img t) j off') \<and>
     owned (img t) j (nblk off') \<subseteq> owned (img s) i (nblk off) \<union> {freeblock s + 36..<freeblock t + 36} \<and>
     (\<forall>b. b \<notin> owned (img s) i (nblk off) \<union> {freeblock s + 36..<freeblock t + 36} \<longrightarrow> img t b = img s b)"

lemma extended_refl: "disk_ok s \<Longrightarrow> blocks_ok (img s) (freeblock s) i (nblk off) \<Longrightarrow> extended s i off s i off []"
  by (simp add: extended_def)

lemma extended_trans:
  assumes s: "extended s i off t j off1 d1" and t: "extended t j off1 u l off2 d2"
  shows "extended s i off u l off2 (d1 @ d2)"
proof -
  have "\<And>b. b \<notin> owned (img s) i (nblk off) \<union> {freeblock s + 36..<freeblock u + 36} \<Longrightarrow> img u b = img s b"
  proof -
    fix b assume b: "b \<notin> owned (img s) i (nblk off) \<union> {freeblock s + 36..<freeblock u + 36}"
    then have "img t b = img s b" using s t by (auto simp: extended_def)
    moreover have "b \<notin> owned (img t) j (nblk off1) \<union> {freeblock t + 36..<freeblock u + 36}"
      using b s t by (auto simp: extended_def)
    then have "img u b = img t b" using t unfolding extended_def by blast
    ultimately show "img u b = img s b" by simp
  qed
  moreover have "owned (img u) l (nblk off2) \<subseteq> owned (img s) i (nblk off) \<union> {freeblock s + 36..<freeblock u + 36}"
  proof -
    have "owned (img u) l (nblk off2) \<subseteq> owned (img t) j (nblk off1) \<union> {freeblock t + 36..<freeblock u + 36}"
      using t unfolding extended_def by blast
    also have "\<dots> \<subseteq> owned (img s) i (nblk off) \<union> {freeblock s + 36..<freeblock u + 36}"
      using s t by (auto simp: extended_def)
    finally show ?thesis .
  qed
  moreover have "l\<lparr>i_addrs := i_addrs i\<rparr> = i"
  proof -
    have "j\<lparr>i_addrs := i_addrs i\<rparr> = i" "l\<lparr>i_addrs := i_addrs j\<rparr> = j" using s t unfolding extended_def by blast+
    then show ?thesis by (cases i; cases j; cases l) simp
  qed
  moreover have "content (img u) l off2 = content (img s) i off @ d1 @ d2" "off2 = off + length (d1 @ d2)"
    "freeblock u + nused (nblk off) = freeblock s + nused (nblk off2)" "freeblock s \<le> freeblock u" "freeinode u = freeinode s"
    "zero_tail (img s) i off \<longrightarrow> zero_tail (img u) l off2"
  proof -
    show "zero_tail (img s) i off \<longrightarrow> zero_tail (img u) l off2" using s t unfolding extended_def by blast
    have 1: "off1 = off + length d1" "content (img t) j off1 = content (img s) i off @ d1" "freeblock s \<le> freeblock t"
      "freeblock t + nused (nblk off) = freeblock s + nused (nblk off1)" "freeinode t = freeinode s"
      using s unfolding extended_def by blast+
    have 2: "off2 = off1 + length d2" "content (img u) l off2 = content (img t) j off1 @ d2" "freeblock t \<le> freeblock u"
      "freeblock u + nused (nblk off1) = freeblock t + nused (nblk off2)" "freeinode u = freeinode t"
      using t unfolding extended_def by blast+
    show "content (img u) l off2 = content (img s) i off @ d1 @ d2" using 1(2) 2(2) by simp
    show "off2 = off + length (d1 @ d2)" using 1(1) 2(1) by simp
    show "freeblock u + nused (nblk off) = freeblock s + nused (nblk off2)" using 1(4) 2(4) by linarith
    show "freeblock s \<le> freeblock u" using 1(3) 2(3) by simp
    show "freeinode u = freeinode s" using 1(5) 2(5) by simp
  qed
  ultimately show ?thesis using t unfolding extended_def by blast
qed

lemma grown_content:
  assumes "grown s i nb t j nb'" "\<And>k. k < off \<Longrightarrow> k div BSIZE < nb"
  shows "content (img t) j off = content (img s) i off"
  using assms by (simp add: content_def grown_def)

lemma write_zero_tail:
  assumes g: "grown s i (nblk off) t j (off div BSIZE + 1)" and src: "src \<noteq> []" "off mod BSIZE + length src \<le> BSIZE"
    and z: "zero_tail (img s) i off"
  defines "x \<equiv> fblk (img t) j (off div BSIZE)"
  defines "u \<equiv> t\<lparr>img := (img t)(x := blit (off mod BSIZE) src (img t x))\<rparr>"
  shows "zero_tail (img u) j (off + length src)"
  unfolding zero_tail_def
proof (intro allI impI)
  let ?q = "off div BSIZE" and ?r = "off mod BSIZE"
  have "0 < length src" using src by simp
  note st = nblk_step [OF this src(2)]
  have t: "disk_ok t" "blocks_ok (img t) (freeblock t) j (?q + 1)" using g by (simp_all add: grown_def)
  have f: "fblk (img u) j = fblk (img t) j"
    unfolding u_def x_def by (rule write_block(2) [OF t(2,1)]) (use src in auto)
  have "x \<in> data_area (freeblock t)" using t(2) by (simp add: blocks_ok_def x_def)
  then have "x < FSSIZE" using t(1) by (simp add: disk_ok_def)
  then have lx: "length (img t x) = BSIZE" using t(1) by (simp add: disk_ok_def)
  fix k assume k: "k < nblk (off + length src) * BSIZE" "off + length src \<le> k"
  then obtain l where l: "k = off + l" "length src \<le> l" by (metis add_le_cancel_left le_Suc_ex add_leD1)
  have o: "off = BSIZE * ?q + ?r" by simp
  have "k < BSIZE * ?q + BSIZE" using k(1) unfolding st(1) by (simp add: algebra_simps)
  then have "?r + l < BSIZE" using l(1) o by linarith
  moreover have "k = BSIZE * ?q + (?r + l)" using l(1) o by linarith
  ultimately have q: "k div BSIZE = ?q" "k mod BSIZE = ?r + l" using div_mod_at by blast+
  have "img t x ! (?r + l) = 0"
  proof (cases "?q < nblk off")
    case True
    then have "nblk off = ?q + 1" using st(3) by simp
    then have "img s (fblk (img s) i (k div BSIZE)) ! (k mod BSIZE) = 0" using z k l st(1) unfolding zero_tail_def by simp
    then show ?thesis using g True unfolding q by (simp add: grown_def x_def)
  next
    case False
    then have e: "nblk off = ?q" using st(2) by simp
    have "img t (fblk (img t) j (nblk off)) = zeroes" using g by (simp add: grown_def e)
    then show ?thesis using \<open>?r + l < BSIZE\<close> unfolding e x_def [symmetric] by (simp add: zeroes_def)
  qed
  then have "img u x ! (?r + l) = 0" using lx src l \<open>?r + l < BSIZE\<close> by (simp add: u_def nth_blit)
  then show "img u (fblk (img u) j (k div BSIZE)) ! (k mod BSIZE) = 0" unfolding f q x_def [symmetric] .
qed

lemma extended_step:
  assumes g: "grown s i (nblk off) t j (off div BSIZE + 1)" and src: "src \<noteq> []" "off mod BSIZE + length src \<le> BSIZE"
  defines "x \<equiv> fblk (img t) j (off div BSIZE)"
  defines "u \<equiv> t\<lparr>img := (img t)(x := blit (off mod BSIZE) src (img t x))\<rparr>"
  shows "extended s i off u j (off + length src) src"
proof -
  note st = nblk_step [of "length src" off, OF _ src(2)]
  have nb: "nblk (off + length src) = off div BSIZE + 1" using st(1) src(1) by simp
  have t: "disk_ok t" "blocks_ok (img t) (freeblock t) j (off div BSIZE + 1)" using g by (simp_all add: grown_def)
  have q: "off div BSIZE < off div BSIZE + 1" by simp
  have "length src + off mod BSIZE \<le> BSIZE" using src by simp
  note w = write_block [OF t(2,1) q this, folded x_def, folded u_def]
  have "content (img u) j (off + length src) = content (img t) j off @ src"
    unfolding u_def x_def by (rule write_content [OF t(2,1) src])
  moreover have "content (img t) j off = content (img s) i off"
    by (rule grown_content [OF g]) (use st(4) src in simp)
  ultimately have c: "content (img u) j (off + length src) = content (img s) i off @ src" by simp
  have xo: "x \<in> owned (img t) j (off div BSIZE + 1)" by (simp add: owned_def x_def)
  have o: "owned (img t) j (off div BSIZE + 1) \<subseteq> owned (img s) i (nblk off) \<union> {freeblock s + 36..<freeblock t + 36}"
    and f: "\<And>b. b \<notin> owned (img t) j (off div BSIZE + 1) \<Longrightarrow> img t b = img s b"
    and n: "freeblock t + nused (nblk off) = freeblock s + nused (off div BSIZE + 1)" "freeinode t = freeinode s"
      "freeblock s \<le> freeblock t" "j\<lparr>i_addrs := i_addrs i\<rparr> = i"
    using g unfolding grown_def by blast+
  have f': "\<forall>b. b \<notin> owned (img s) i (nblk off) \<union> {freeblock s + 36..<freeblock t + 36} \<longrightarrow> img u b = img s b"
  proof (intro allI impI)
    fix b assume "b \<notin> owned (img s) i (nblk off) \<union> {freeblock s + 36..<freeblock t + 36}"
    then have b: "b \<notin> owned (img t) j (off div BSIZE + 1)" using o by blast
    then have "b \<noteq> x" using xo by blast
    then show "img u b = img s b" using f [OF b] by (simp add: u_def)
  qed
  have u: "freeblock u = freeblock t" "freeinode u = freeinode t" by (simp_all add: u_def)
  have o': "owned (img u) j (off div BSIZE + 1) \<subseteq> owned (img s) i (nblk off) \<union> {freeblock s + 36..<freeblock t + 36}"
    unfolding w(4) by (rule o)
  have "blocks_ok (img u) (freeblock t) j (off div BSIZE + 1)" using w(3) unfolding u .
  moreover have "zero_tail (img s) i off \<longrightarrow> zero_tail (img u) j (off + length src)"
    unfolding u_def x_def using write_zero_tail [OF g src] by blast
  ultimately show ?thesis
    unfolding extended_def nb u by (intro conjI w(1) n c o' f' refl)
qed

lemma nblk_mono: "a \<le> b \<Longrightarrow> nblk a \<le> nblk b"
  unfolding nblk_def by (rule div_le_mono) simp

lemma nused_mono: "a \<le> b \<Longrightarrow> nused a \<le> nused b"
  by (simp add: nused_def)

lemma iappend_loop_wp:
  assumes "disk_ok s" "blocks_ok (img s) (freeblock s) i (nblk off)" "off + length p \<le> MAXFILE * BSIZE"
    "freeblock s + nused (nblk (off + length p)) + 2 \<le> BPB + nused (nblk off)"
  shows "wp (iappend_loop i off p) (\<lambda>(j, off') t. extended s i off t j off' p) s"
  using assms
proof (induction p arbitrary: s i off rule: length_induct)
  case (1 p)
  note IH = 1(1) [rule_format] and pre = 1(2-5)
  show ?case
  proof (cases "p = []")
    case True
    then show ?thesis using extended_refl [OF pre(1,2)] by (simp add: iappend_loop.simps wp_simps)
  next
    case False
    let ?q = "off div BSIZE"
    define n1 where "n1 = min (length p) ((?q + 1) * BSIZE - off)"
    have "off - ?q * BSIZE = off mod BSIZE" by (rule minus_div_mult_eq_mod)
    moreover have "(?q + 1) * BSIZE - off = BSIZE - off mod BSIZE"
      using div_mult_mod_eq [of off BSIZE] by (simp only: add_mult_distrib)
    ultimately have r: "off - ?q * BSIZE = off mod BSIZE" "(?q + 1) * BSIZE - off = BSIZE - off mod BSIZE" by blast+
    have "0 < BSIZE - off mod BSIZE" by simp
    then have n1: "0 < n1" "n1 \<le> length p" "off mod BSIZE + n1 \<le> BSIZE" using False unfolding n1_def r by auto
    let ?src = "take n1 p"
    have src: "?src \<noteq> []" "off mod BSIZE + length ?src \<le> BSIZE" "length ?src = n1" using n1 False by auto
    note st = nblk_step [OF n1(1,3)]
    have q: "?q < MAXFILE" using pre(3) n1 by (simp add: div_less_iff_less_mult)
    have "nused (nblk off) \<le> nused (nblk (off + length p))" by (intro nused_mono nblk_mono) simp
    then have room: "freeblock s + 2 \<le> BPB" using pre(4) by linarith
    have m: "max (nblk off) (?q + 1) = ?q + 1" using st(3) by simp
    have rest: "wp (iappend_loop j (off + n1) (drop n1 p)) (\<lambda>(l, off') v. extended s i off v l off' p) u"
      if "extended s i off u j (off + n1) ?src" for j u
    proof -
      have u: "disk_ok u" "blocks_ok (img u) (freeblock u) j (nblk (off + n1))"
        "freeblock u + nused (nblk off) = freeblock s + nused (nblk (off + n1))"
        using that unfolding extended_def by blast+
      have l: "off + n1 + length (drop n1 p) = off + length p" using n1 by simp
      have "wp (iappend_loop j (off + n1) (drop n1 p)) (\<lambda>(l, off') v. extended u j (off + n1) v l off' (drop n1 p)) u"
        by (rule IH) (use n1 False u pre l in auto)
      then show ?thesis
        by (rule wp_mono) (use extended_trans [OF that, of _ _ _ "drop n1 p"] in auto)
    qed
    have "wp (iappend_block i ?q) (\<lambda>(x, j) t. wp (wsect x (blit (off mod BSIZE) ?src (img t x)))
        (\<lambda>_. wp (iappend_loop j (off + n1) (drop n1 p)) (\<lambda>(l, off') v. extended s i off v l off' p)) t) s"
    proof (rule wp_mono [OF iappend_block_wp [OF pre(1) room pre(2) st(2) q]], clarify)
      fix x j t assume "grown s i (nblk off) t j (max (nblk off) (?q + 1))"
      then have "grown s i (nblk off) t j (?q + 1)" unfolding m .
      from rest [OF extended_step [OF this src(1,2), unfolded src(3)]]
      show "wp (wsect (fblk (img t) j ?q) (blit (off mod BSIZE) ?src (img t (fblk (img t) j ?q))))
        (\<lambda>_. wp (iappend_loop j (off + n1) (drop n1 p)) (\<lambda>(l, off') v. extended s i off v l off' p)) t"
        by (simp add: wp_simps)
    qed
    then show ?thesis
      using False q
      by (subst iappend_loop.simps, unfold Let_def n1_def [symmetric] r(1)) (simp add: wp_simps wp_funs split_def)
  qed
qed

section \<open>The image as a list of files\<close>

text \<open>A file does not notice changes to blocks that are not its own.\<close>

lemma keep_file:
  assumes b: "blocks_ok m fb i nb" and same: "\<And>x. x \<in> owned m i nb \<Longrightarrow> m' x = m x" and fb: "fb \<le> fb'"
  shows "blocks_ok m' fb' i nb" "owned m' i nb = owned m i nb" "nblk sz = nb \<Longrightarrow> content m' i sz = content m i sz"
    "nblk sz = nb \<Longrightarrow> zero_tail m' i sz = zero_tail m i sz"
proof -
  have ind: "m' (i_addrs i ! NDIRECT) = m (i_addrs i ! NDIRECT)" if "\<not> nb \<le> NDIRECT"
    using that same by (simp add: owned_def)
  have f: "fblk m' i k = fblk m i k" if "k < nb" for k
  proof (cases "k < NDIRECT")
    case True
    then show ?thesis by (simp add: fblk_def)
  next
    case False
    then show ?thesis using ind that by (simp add: fblk_def)
  qed
  have im: "fblk m' i ` {..<nb} = fblk m i ` {..<nb}" by (rule image_cong) (use f in auto)
  then show "owned m' i nb = owned m i nb" by (simp add: owned_def)
  have inj: "inj_on (fblk m' i) {..<nb} = inj_on (fblk m i) {..<nb}" by (rule inj_on_cong) (use f in auto)
  have all: "fblk m' i = fblk m i" if "\<not> nb \<le> NDIRECT" by (rule fblk_cong) (rule ind [OF that])
  have area: "data_area fb \<subseteq> data_area fb'" using fb by auto
  have c: "length (i_addrs i) = NADDRS" "nb \<le> MAXFILE" "\<forall>k<nb. fblk m i k \<in> data_area fb" "inj_on (fblk m i) {..<nb}"
    "\<forall>k<NDIRECT. nb \<le> k \<longrightarrow> i_addrs i ! k = 0"
    "if nb \<le> NDIRECT then i_addrs i ! NDIRECT = 0
     else i_addrs i ! NDIRECT \<in> data_area fb \<and> i_addrs i ! NDIRECT \<notin> fblk m i ` {..<nb} \<and> (\<forall>k<MAXFILE. nb \<le> k \<longrightarrow> fblk m i k = 0)"
    using b unfolding blocks_ok_def by blast+
  have c3: "\<forall>k<nb. fblk m' i k \<in> data_area fb'"
  proof (intro allI impI)
    fix k assume k: "k < nb"
    then show "fblk m' i k \<in> data_area fb'" unfolding f [OF k] using c(3) area by blast
  qed
  have "if nb \<le> NDIRECT then i_addrs i ! NDIRECT = 0
     else i_addrs i ! NDIRECT \<in> data_area fb' \<and> i_addrs i ! NDIRECT \<notin> fblk m i ` {..<nb} \<and> (\<forall>k<MAXFILE. nb \<le> k \<longrightarrow> fblk m' i k = 0)"
  proof (cases "nb \<le> NDIRECT")
    case True
    then show ?thesis using c(6) by simp
  next
    case False
    have "i_addrs i ! NDIRECT \<in> data_area fb'" using c(6) False area by auto
    then show ?thesis using c(6) all [OF False] unfolding if_not_P [OF False] by metis
  qed
  then show "blocks_ok m' fb' i nb"
    unfolding blocks_ok_def im inj using c(1,2,4,5) c3 by blast
  have block: "m' (fblk m' i k) = m (fblk m i k)" if "k < nb" for k
    using that f same by (simp add: owned_def)
  show "content m' i sz = content m i sz" if "nblk sz = nb"
  proof -
    have "k div BSIZE < nb" if "k < sz" for k
      using nblk_step(4) [of 1 sz k] that \<open>nblk sz = nb\<close> by (auto simp: Suc_le_eq)
    then show ?thesis using block by (simp add: content_def)
  qed
  show "zero_tail m' i sz = zero_tail m i sz" if "nblk sz = nb"
  proof -
    have "k div BSIZE < nb" if "k < nblk sz * BSIZE" for k using that \<open>nblk sz = nb\<close> by (simp add: div_less_iff_less_mult)
    then show ?thesis using block by (simp add: zero_tail_def)
  qed
qed

lemma owned_area: "blocks_ok m fb i nb \<Longrightarrow> owned m i nb \<subseteq> data_area fb"
  by (auto simp: blocks_ok_def owned_def split: if_splits)

lemma inode_area: "disk_ok s \<Longrightarrow> IBLOCK n mkfs_sb \<notin> data_area (freeblock s)"
  using IBLOCK_outside(1) [of n] by (auto simp: disk_ok_def)

definition din_at :: "(nat \<Rightarrow> block) \<Rightarrow> nat \<Rightarrow> inode" where
  "din_at m n = load_dinode (slice (mkfs_slot n) sizeof_dinode (m (IBLOCK n mkfs_sb))) zero_dinode"

definition has_file :: "mkfsst \<Rightarrow> nat \<Rightarrow> int \<times> byte list \<Rightarrow> bool" where
  "has_file s n f = (let i = din_at (img s) n; sz = length (snd f) in
     i_type i = fst f \<and> i_nlink i = 1 \<and> i_size i = sz \<and> short_range (i_major i) \<and> short_range (i_minor i) \<and>
     blocks_ok (img s) (freeblock s) i (nblk sz) \<and> content (img s) i sz = snd f \<and>
     zero_tail (img s) i sz)"

definition file_blocks :: "mkfsst \<Rightarrow> nat \<Rightarrow> nat set" where
  "file_blocks s n = (let i = din_at (img s) n in owned (img s) i (nblk (i_size i)))"

text \<open>The number of inodes is bounded by the inode blocks of the disk.\<close>

definition fs_image :: "mkfsst \<Rightarrow> (int \<times> byte list) list \<Rightarrow> bool" where
  "fs_image s fs \<longleftrightarrow> disk_ok s \<and> freeinode s = Suc (length fs) \<and> (\<forall>n<length fs. has_file s (Suc n) (fs ! n)) \<and>
     (\<forall>m<length fs. \<forall>n<length fs. m \<noteq> n \<longrightarrow> file_blocks s (Suc m) \<inter> file_blocks s (Suc n) = {})"

lemma blocks_addrs:
  assumes "blocks_ok m fb i nb" "fb \<le> BPB"
  shows "\<forall>a\<in>set (i_addrs i). a < 2 ^ 32"
proof
  have len: "length (i_addrs i) = NADDRS" using assms by (simp add: blocks_ok_def)
  fix a assume "a \<in> set (i_addrs i)"
  then obtain k where k: "k < NADDRS" "a = i_addrs i ! k" using len by (auto simp: in_set_conv_nth)
  consider "k < NDIRECT" "k < nb" | "k < NDIRECT" "nb \<le> k" | "k = NDIRECT" using k(1) by linarith
  then have "a = 0 \<or> a \<in> data_area fb"
  proof cases
    case 1
    then have "fblk m i k = a" by (simp add: fblk_def k)
    then show ?thesis using assms(1) 1 by (auto simp: blocks_ok_def)
  next
    case 2
    then show ?thesis using assms(1) by (simp add: blocks_ok_def k)
  next
    case 3
    then show ?thesis using assms(1) by (auto simp: blocks_ok_def k split: if_splits)
  qed
  then show "a < 2 ^ 32" using assms(2) by auto
qed

lemma winode_din:
  assumes "inode_ok i" "length (img s (IBLOCK n mkfs_sb)) = BSIZE"
  defines "m \<equiv> (img s)(IBLOCK n mkfs_sb := blit (mkfs_slot n) (encode_dinode i) (img s (IBLOCK n mkfs_sb)))"
  shows "din_at m n = zero_dinode\<lparr>i_type := i_type i, i_major := i_major i, i_minor := i_minor i,
      i_nlink := i_nlink i, i_size := i_size i, i_addrs := i_addrs i\<rparr>"
    and "k \<noteq> n \<Longrightarrow> din_at m k = din_at (img s) k"
proof -
  have l: "length (encode_dinode i) = sizeof_dinode" using assms(1) by (simp add: inode_ok_def)
  show "din_at m n = zero_dinode\<lparr>i_type := i_type i, i_major := i_major i, i_minor := i_minor i,
      i_nlink := i_nlink i, i_size := i_size i, i_addrs := i_addrs i\<rparr>"
    using mkfs_slots.get_put_same [OF l, of "img s" n] assms load_encode [OF assms(1), of zero_dinode]
    by (simp add: din_at_def m_def)
  show "k \<noteq> n \<Longrightarrow> din_at m k = din_at (img s) k"
    using mkfs_slots.get_put_other [OF _ l, of n k "img s"] assms(2) by (simp add: din_at_def m_def)
qed

lemma file_cong:
  assumes "i_addrs d = i_addrs j"
  shows "blocks_ok m fb d = blocks_ok m fb j" "owned m d = owned m j" "content m d = content m j"
    "zero_tail m d = zero_tail m j"
proof -
  have f: "fblk m d = fblk m j" by (rule ext) (simp add: fblk_def assms)
  show "blocks_ok m fb d = blocks_ok m fb j" by (rule ext) (simp add: blocks_ok_def f assms)
  show "owned m d = owned m j" by (rule ext) (simp add: owned_def f assms)
  show "content m d = content m j" by (rule ext) (simp add: content_def f)
  show "zero_tail m d = zero_tail m j" by (rule ext) (simp add: zero_tail_def f)
qed

lemma IBLOCK_on_disk: "n < IPBG * BLOCKGROUPS \<Longrightarrow> IBLOCK n mkfs_sb < FSSIZE"
  using IBLOCK_range(2) [OF mkfs_sb_geometry, of n] by (simp add: mkfs_sb_def)

lemma has_file_keep:
  assumes h: "has_file s n f" and d: "din_at (img t) n = din_at (img s) n" and fb: "freeblock s \<le> freeblock t"
    and same: "\<And>b. b \<in> file_blocks s n \<Longrightarrow> img t b = img s b"
  shows "has_file t n f" "file_blocks t n = file_blocks s n"
proof -
  let ?i = "din_at (img s) n" and ?nb = "nblk (length (snd f))"
  have b: "blocks_ok (img s) (freeblock s) ?i ?nb" and sz: "i_size ?i = length (snd f)" using h by (simp_all add: has_file_def Let_def)
  have "\<And>x. x \<in> owned (img s) ?i ?nb \<Longrightarrow> img t x = img s x" using same by (simp add: file_blocks_def Let_def sz)
  note k = keep_file [OF b this fb]
  show "has_file t n f" using h k(1,3,4) by (simp add: has_file_def Let_def d)
  show "file_blocks t n = file_blocks s n" using k(2) by (simp add: file_blocks_def Let_def d sz)
qed

lemma same_but_addrs:
  assumes "j\<lparr>i_addrs := i_addrs i\<rparr> = i"
  shows "i_type j = i_type i" "i_major j = i_major i" "i_minor j = i_minor i" "i_nlink j = i_nlink i"
proof -
  have "i_type (j\<lparr>i_addrs := a\<rparr>) = i_type j" "i_major (j\<lparr>i_addrs := a\<rparr>) = i_major j" "i_minor (j\<lparr>i_addrs := a\<rparr>) = i_minor j"
    "i_nlink (j\<lparr>i_addrs := a\<rparr>) = i_nlink j" for a by simp_all
  then show "i_type j = i_type i" "i_major j = i_major i" "i_minor j = i_minor i" "i_nlink j = i_nlink i"
    using assms by metis+
qed

text \<open>Putting an inode on the disk leaves the data alone.\<close>

lemma put_inode:
  assumes d: "disk_ok t" and n: "n < IPBG * BLOCKGROUPS" and i: "inode_ok i"
  defines "u \<equiv> t\<lparr>img := (img t)(IBLOCK n mkfs_sb := blit (mkfs_slot n) (encode_dinode i) (img t (IBLOCK n mkfs_sb)))\<rparr>"
  shows "wp (winode n i) (\<lambda>_ v. v = u) t" "disk_ok u" "freeblock u = freeblock t" "freeinode u = freeinode t"
    "i_addrs (din_at (img u) n) = i_addrs i" "i_type (din_at (img u) n) = i_type i" "i_nlink (din_at (img u) n) = i_nlink i"
    "i_size (din_at (img u) n) = i_size i" "i_major (din_at (img u) n) = i_major i" "i_minor (din_at (img u) n) = i_minor i"
    "k \<noteq> n \<Longrightarrow> din_at (img u) k = din_at (img t) k" "b \<in> data_area (freeblock t) \<or> b \<le> 32 \<Longrightarrow> img u b = img t b"
proof -
  let ?b = "IBLOCK n mkfs_sb"
  have bl: "length (img t ?b) = BSIZE" using d IBLOCK_on_disk [OF n] by (simp add: disk_ok_def)
  show "wp (winode n i) (\<lambda>_ v. v = u) t" by (simp add: winode_def Let_def wp_simps u_def)
  have l: "length (encode_dinode i) = sizeof_dinode" using i by (simp add: inode_ok_def)
  have "mkfs_slot n + sizeof_dinode \<le> BSIZE" by (rule mkfs_slots.fits)
  then have "length (blit (mkfs_slot n) (encode_dinode i) (img t ?b)) = BSIZE" using bl l by simp
  moreover have "?b < 4096 \<longrightarrow> ?b < freeblock t + 36" using IBLOCK_outside(1) [of n] d by (auto simp: disk_ok_def mkfs_nmeta_def)
  ultimately show "disk_ok u" using d by (auto simp: disk_ok_def u_def)
  show "freeblock u = freeblock t" "freeinode u = freeinode t" by (simp_all add: u_def)
  note w = winode_din [OF i bl]
  have m: "img u = (img t)(?b := blit (mkfs_slot n) (encode_dinode i) (img t ?b))" by (simp add: u_def)
  show "i_addrs (din_at (img u) n) = i_addrs i" "i_type (din_at (img u) n) = i_type i" "i_nlink (din_at (img u) n) = i_nlink i"
    "i_size (din_at (img u) n) = i_size i" "i_major (din_at (img u) n) = i_major i" "i_minor (din_at (img u) n) = i_minor i"
    unfolding m w(1) by simp_all
  show "k \<noteq> n \<Longrightarrow> din_at (img u) k = din_at (img t) k" unfolding m by (rule w(2))
  assume "b \<in> data_area (freeblock t) \<or> b \<le> 32"
  then have "b \<noteq> ?b" using inode_area [OF d, of n] IBLOCK_outside(2) [of n] by auto
  then show "img u b = img t b" by (simp add: u_def)
qed

lemma mkfs_nmeta_val: "mkfs_nmeta = 157"
  by (simp add: mkfs_nmeta_def mkfs_ninodeblocks_def mkfs_nbitmap_def)

text \<open>The sectors before the block groups.\<close>

abbreviation same_head :: "mkfsst \<Rightarrow> mkfsst \<Rightarrow> bool" where
  "same_head s t \<equiv> (\<forall>b<32. img t b = img s b)"

lemma fs_imageD:
  assumes "fs_image s fs" "n < length fs"
  shows "disk_ok s" "has_file s (Suc n) (fs ! n)"
    "m < length fs \<Longrightarrow> m \<noteq> n \<Longrightarrow> file_blocks s (Suc m) \<inter> file_blocks s (Suc n) = {}"
  using assms unfolding fs_image_def by blast+

lemma file_blocks_area: "has_file s n f \<Longrightarrow> file_blocks s n \<subseteq> data_area (freeblock s)"
  using owned_area by (fastforce simp: has_file_def file_blocks_def Let_def)

text \<open>One file changes and takes new blocks only; the others stay.\<close>

lemma image_other:
  assumes im: "fs_image s fs" and n: "n < length fs" and m: "m < length fs" "m \<noteq> n" and fb: "freeblock s \<le> freeblock u"
    and din: "din_at (img u) (Suc m) = din_at (img s) (Suc m)"
    and same: "\<And>b. b \<in> data_area (freeblock s) \<Longrightarrow> b \<notin> file_blocks s (Suc n) \<Longrightarrow> img u b = img s b"
  shows "has_file u (Suc m) (fs ! m)" "file_blocks u (Suc m) = file_blocks s (Suc m)"
proof -
  note hm = fs_imageD(2) [OF im m(1)]
  have st: "img u b = img s b" if "b \<in> file_blocks s (Suc m)" for b
    using that same file_blocks_area [OF hm] fs_imageD(3) [OF im n m] by blast
  show "has_file u (Suc m) (fs ! m)" "file_blocks u (Suc m) = file_blocks s (Suc m)"
    using has_file_keep [OF hm din fb st] by blast+
qed

lemma image_update:
  assumes im: "fs_image s fs" and n: "n < length fs" and u: "disk_ok u" "freeinode u = freeinode s" "freeblock s \<le> freeblock u"
    and f: "has_file u (Suc n) f" "file_blocks u (Suc n) \<subseteq> file_blocks s (Suc n) \<union> {freeblock s + 36..<freeblock u + 36}"
    and din: "\<And>m. m \<noteq> n \<Longrightarrow> din_at (img u) (Suc m) = din_at (img s) (Suc m)"
    and same: "\<And>b. b \<in> data_area (freeblock s) \<Longrightarrow> b \<notin> file_blocks s (Suc n) \<Longrightarrow> img u b = img s b"
  shows "fs_image u (fs[n := f])"
proof -
  note other = image_other [OF im n _ _ u(3) din same]
  have hs: "has_file u (Suc m) (fs[n := f] ! m)" if "m < length fs" for m
    using that f(1) other(1) by (cases "m = n") auto
  have away: "file_blocks u (Suc m) \<inter> file_blocks u (Suc n) = {}" if m: "m < length fs" "m \<noteq> n" for m
  proof -
    have "file_blocks s (Suc m) \<inter> file_blocks s (Suc n) = {}" by (rule fs_imageD(3) [OF im n m])
    moreover have "file_blocks s (Suc m) \<subseteq> data_area (freeblock s)" by (rule file_blocks_area [OF fs_imageD(2) [OF im m(1)]])
    ultimately show ?thesis using f(2) other(2) [OF m m(2)] by fastforce
  qed
  have dis: "file_blocks u (Suc m) \<inter> file_blocks u (Suc k) = {}" if m: "m < length fs" "k < length fs" "m \<noteq> k" for m k
  proof -
    consider "m = n" | "k = n" | "m \<noteq> n" "k \<noteq> n" by blast
    then show ?thesis
    proof cases
      case 1
      then show ?thesis using away [of k] m by (simp add: Int_commute)
    next
      case 2
      then show ?thesis using away [of m] m by simp
    next
      case 3
      then show ?thesis using other(2) m fs_imageD(3) [OF im m(2,1,3)] by simp
    qed
  qed
  show ?thesis using u hs dis im unfolding fs_image_def by simp
qed

text \<open>Writing the inode of a file whose blocks were extended.\<close>

lemma winode_image:
  assumes im: "fs_image s fs" and n: "n < length fs" "Suc n < IPBG * BLOCKGROUPS" and f: "fs ! n = (ty, bs)" and ty: "short_range ty"
    and sz: "length bs + length p \<le> MAXFILE * BSIZE" and e: "extended s (din_at (img s) (Suc n)) (length bs) t j off p"
  shows "wp (winode (Suc n) (j\<lparr>i_size := off\<rparr>)) (\<lambda>_ u. fs_image u (fs[n := (ty, bs @ p)]) \<and>
    freeblock u + nused (nblk (length bs)) = freeblock s + nused (nblk (length bs + length p)) \<and> same_head s u) t"
proof -
  let ?i = "din_at (img s) (Suc n)" and ?j = "j\<lparr>i_size := off\<rparr>"
  have d: "disk_ok s" and h: "has_file s (Suc n) (ty, bs)" using fs_imageD [OF im n(1)] f by auto
  have i: "i_type ?i = ty" "i_nlink ?i = 1" "i_size ?i = length bs" "short_range (i_major ?i)" "short_range (i_minor ?i)"
    "content (img s) ?i (length bs) = bs" "zero_tail (img s) ?i (length bs)"
    using h by (simp_all add: has_file_def Let_def)
  have own: "file_blocks s (Suc n) = owned (img s) ?i (nblk (length bs))" by (simp add: file_blocks_def Let_def i(3))
  have t: "disk_ok t" "blocks_ok (img t) (freeblock t) j (nblk off)" "freeinode t = freeinode s" "freeblock s \<le> freeblock t"
    "freeblock t + nused (nblk (length bs)) = freeblock s + nused (nblk off)" "j\<lparr>i_addrs := i_addrs ?i\<rparr> = ?i"
    "off = length bs + length p" "content (img t) j off = bs @ p" "zero_tail (img t) j off"
    and ow: "owned (img t) j (nblk off) \<subseteq> file_blocks s (Suc n) \<union> {freeblock s + 36..<freeblock t + 36}"
    and fr: "\<And>b. b \<notin> file_blocks s (Suc n) \<union> {freeblock s + 36..<freeblock t + 36} \<Longrightarrow> img t b = img s b"
    using e i(6,7) unfolding extended_def own by auto
  note jf = same_but_addrs [OF t(6)]
  have "freeblock t \<le> BPB" using t(1) by (simp add: disk_ok_def)
  then have jok: "inode_ok ?j"
    using jf i ty t(2,7) sz blocks_addrs [OF t(2)] by (simp add: inode_ok_def blocks_ok_def) (simp add: short_range_def)
  define u where "u = t\<lparr>img := (img t)(IBLOCK (Suc n) mkfs_sb := blit (mkfs_slot (Suc n)) (encode_dinode ?j) (img t (IBLOCK (Suc n) mkfs_sb)))\<rparr>"
  note p = put_inode [OF t(1) n(2) jok, folded u_def]
  have da: "i_addrs (din_at (img u) (Suc n)) = i_addrs j" using p(5) by simp
  have same_u: "img u b = img t b" if "b \<in> data_area (freeblock t) \<or> b \<le> 32" for b by (rule p(12) [OF that])
  have "\<And>b. b \<in> owned (img t) j (nblk off) \<Longrightarrow> img u b = img t b" using same_u owned_area [OF t(2)] by blast
  note kf = keep_file [OF t(2) this order_refl]
  have hn: "has_file u (Suc n) (ty, bs @ p)"
    using p(3,6-10) kf(1,3,4) t(7-9) jf i unfolding has_file_def Let_def file_cong [OF da] by simp
  have bn: "file_blocks u (Suc n) \<subseteq> file_blocks s (Suc n) \<union> {freeblock s + 36..<freeblock u + 36}"
    using kf(2) ow p(3,8) unfolding file_blocks_def Let_def file_cong [OF da] by simp
  have din: "din_at (img u) (Suc m) = din_at (img s) (Suc m)" if "m \<noteq> n" for m
  proof -
    have "IBLOCK (Suc m) mkfs_sb \<notin> file_blocks s (Suc n) \<union> {freeblock s + 36..<freeblock t + 36}"
      using inode_area [OF t(1), of "Suc m"] file_blocks_area [OF h] t(4) inode_area [OF d, of "Suc m"] d by (auto simp: disk_ok_def mkfs_nmeta_val)
    then have "din_at (img t) (Suc m) = din_at (img s) (Suc m)" using fr by (simp add: din_at_def)
    then show ?thesis using p(11) [of "Suc m"] that by simp
  qed
  have "img u b = img s b" if "b \<in> data_area (freeblock s)" "b \<notin> file_blocks s (Suc n)" for b
    using that t(4) same_u [of b] fr [of b] by auto
  then have "fs_image u (fs[n := (ty, bs @ p)])"
    using image_update [OF im n(1) p(2) _ _ hn bn din] p(3,4) t(3,4) by simp
  moreover have "img u b = img s b" if b: "b < 32" for b
  proof -
    have "b \<notin> file_blocks s (Suc n) \<union> {freeblock s + 36..<freeblock t + 36}" using file_blocks_area [OF h] b by auto
    then show ?thesis using fr same_u b by simp
  qed
  ultimately show ?thesis using wp_mono [OF p(1)] t(5,7) p(3) by simp
qed

lemma iappend_image:
  assumes im: "fs_image s fs" and n: "n < length fs" "Suc n < IPBG * BLOCKGROUPS" and f: "fs ! n = (ty, bs)" and ty: "short_range ty"
    and sz: "length bs + length p \<le> MAXFILE * BSIZE"
    and room: "freeblock s + nused (nblk (length bs + length p)) + 2 \<le> BPB + nused (nblk (length bs))"
  shows "wp (iappend (Suc n) p) (\<lambda>_ t. fs_image t (fs[n := (ty, bs @ p)]) \<and>
    freeblock t + nused (nblk (length bs)) = freeblock s + nused (nblk (length bs + length p)) \<and> same_head s t) s"
proof -
  let ?i = "din_at (img s) (Suc n)" and ?nb = "nblk (length bs)" and ?nb' = "nblk (length bs + length p)"
  have d: "disk_ok s" "i_size ?i = length bs" "blocks_ok (img s) (freeblock s) ?i ?nb"
    using fs_imageD [OF im n(1)] f by (auto simp: has_file_def Let_def)
  have "wp (iappend_loop ?i (length bs) p) (\<lambda>(j, off) t. extended s ?i (length bs) t j off p) s"
    by (rule iappend_loop_wp) (use d sz room in auto)
  then have "wp (iappend_loop ?i (length bs) p) (\<lambda>(j, off). wp (winode (Suc n) (j\<lparr>i_size := off\<rparr>))
      (\<lambda>_ u. fs_image u (fs[n := (ty, bs @ p)]) \<and> freeblock u + nused ?nb = freeblock s + nused ?nb' \<and> same_head s u)) s"
    by (rule wp_mono) (use winode_image [OF im n f ty sz] in auto)
  then show ?thesis
    by (simp add: iappend_def rinode_def Let_def wp_simps split_def d(2) flip: din_at_def)
qed

lemma new_inode_ok: "short_range ty \<Longrightarrow> inode_ok (zero_dinode\<lparr>i_type := ty, i_nlink := 1, i_size := 0\<rparr>)"
  by (simp add: inode_ok_def zero_dinode_def short_range_def)

lemma ialloc_image:
  assumes im: "fs_image s fs" and n: "Suc (length fs) < IPBG * BLOCKGROUPS" and ty: "short_range ty"
  shows "wp (mkfs_ialloc ty) (\<lambda>r t. r = Suc (length fs) \<and> fs_image t (fs @ [(ty, [])]) \<and> freeblock t = freeblock s \<and> same_head s t) s"
proof -
  let ?n = "Suc (length fs)" and ?i = "zero_dinode\<lparr>i_type := ty, i_nlink := 1, i_size := 0\<rparr>"
  let ?s = "s\<lparr>freeinode := Suc ?n\<rparr>"
  have fi: "freeinode s = ?n" and d: "disk_ok s" using im by (simp_all add: fs_image_def)
  then have ds: "disk_ok ?s" by (simp add: disk_ok_def)
  define u where "u = ?s\<lparr>img := (img ?s)(IBLOCK ?n mkfs_sb := blit (mkfs_slot ?n) (encode_dinode ?i) (img ?s (IBLOCK ?n mkfs_sb)))\<rparr>"
  note p = put_inode [OF ds n new_inode_ok [OF ty], folded u_def]
  have z: "nblk 0 = 0" by (simp add: nblk_def)
  have da: "i_addrs (din_at (img u) ?n) = replicate NADDRS 0" using p(5) by (simp add: zero_dinode_def)
  have hn: "has_file u ?n (ty, [])"
    using p(6-10) by (simp add: has_file_def Let_def z blocks_ok_def da content_def zero_tail_def) (simp add: zero_dinode_def short_range_def)
  have bn: "file_blocks u ?n = {}" using p(8) by (simp add: file_blocks_def Let_def z owned_def)
  have same: "img u b = img s b" if "b \<in> data_area (freeblock s) \<or> b \<le> 32" for b using p(12) that by simp
  have other: "has_file u (Suc m) (fs ! m) \<and> file_blocks u (Suc m) = file_blocks s (Suc m)" if m: "m < length fs" for m
  proof -
    note hm = fs_imageD(2) [OF im m]
    have st: "img u b = img s b" if "b \<in> file_blocks s (Suc m)" for b using that same file_blocks_area [OF hm] by blast
    have dd: "din_at (img u) (Suc m) = din_at (img s) (Suc m)" using p(11) [of "Suc m"] m by simp
    have fb: "freeblock s \<le> freeblock u" using p(3) by simp
    show ?thesis using has_file_keep [OF hm dd fb st] by blast
  qed
  have "fs_image u (fs @ [(ty, [])])"
  proof -
    have "has_file u (Suc m) ((fs @ [(ty, [])]) ! m)" if "m < Suc (length fs)" for m
      using that hn other by (cases "m = length fs") (auto simp: nth_append)
    moreover have "file_blocks u (Suc m) \<inter> file_blocks u (Suc k) = {}" if "m < Suc (length fs)" "k < Suc (length fs)" "m \<noteq> k" for m k
      using that bn other fs_imageD(3) [OF im, of k m] by (cases "m = length fs"; cases "k = length fs") auto
    ultimately show ?thesis using p(2,4) by (simp add: fs_image_def)
  qed
  moreover have "same_head s u" using same by simp
  ultimately show ?thesis
    using wp_mono [OF p(1)] p(3) by (simp add: mkfs_ialloc_def wp_simps fi)
qed

end
