(* ===== verification/Boot.thy ===== *)
theory Boot
  imports Crash Ialloc Inode_Spec Dir
begin

text \<open>
  The file system at boot: \<^verbatim>\<open>binit\<close> and \<^verbatim>\<open>userinit\<close>, which takes a reference to the root directory, of \<^verbatim>\<open>main\<close> (main.c); then what the
  first process runs in \<^verbatim>\<open>forkret\<close> (proc.c) before it returns to user space, \<^verbatim>\<open>iinit\<close> (fs.c) and \<^verbatim>\<open>initlog\<close> (log.c). \<^verbatim>\<open>iinit\<close> writes the statistics records of the block groups, past the log, and
  leaves every other byte of the disk alone (\<open>iinit_wp\<close>); recovery finds an empty log and only rewrites its header (\<open>boot_wp\<close>).
\<close>

section \<open>A cache at rest\<close>

definition clean :: "'z bio_scheme \<Rightarrow> bool" where
  "clean s \<longleftrightarrow> cache_inv s \<and> busyb s = {} \<and> dirtyb s = {}"

lemma clean_view: "clean s \<Longrightarrow> view s = disk s"
  by (rule ext) (simp add: clean_def view_clean)

lemma clean_cong: "bufs s = bufs t \<Longrightarrow> disk s = disk t \<Longrightarrow> disksize s = disksize t \<Longrightarrow> clean s = clean t"
  using bio_cong [of s t] by (simp add: clean_def)

lemma clean_length: "clean s \<Longrightarrow> k < disksize s \<Longrightarrow> length (disk s k) = BSIZE"
  by (simp add: clean_def cache_inv_def)

text \<open>A block read, changed and written through the cache.\<close>

definition rewrite_block :: "nat \<Rightarrow> (block \<Rightarrow> block) \<Rightarrow> ('z bio_scheme, unit) kop" where
  "rewrite_block blk f = bind (bread 1 blk) (\<lambda>bp. bind (bdata bp) (\<lambda>d. bind (set_bdata bp (f d)) (\<lambda>_. bind (bwrite bp) (\<lambda>_. brelse bp))))"

lemma rewrite_block_wp:
  fixes s :: "'z bio_scheme"
  assumes c: "clean s" and lt: "blk < disksize s" and len: "length (f (disk s blk)) = BSIZE"
  shows "wp (rewrite_block blk f) (\<lambda>_ t. clean t \<and> wrote s t [(blk, f (disk s blk))]) s"
proof -
  have s: "cache_inv s" "busyb s = {}" "dirtyb s = {}" using c by (simp_all add: clean_def)
  note v = clean_view [OF c]
  let ?d = "f (disk s blk)"
  have "wp (bread 1 blk) (\<lambda>b. wp (bdata b) (\<lambda>d. wp (bind (set_bdata b (f d)) (\<lambda>_. bwrite b)) (\<lambda>_.
    wp (brelse b) (\<lambda>_ t. clean t \<and> wrote s t [(blk, ?d)])))) s"
  proof (rule wp_mono [OF bread_wp [OF s(1) lt]])
    fix b and t :: "'z bio_scheme"
    assume t: "cache_inv t \<and> locked t b blk \<and> view t = view s \<and> (\<forall>c k. locked s c k \<longrightarrow> locked t c k) \<and>
      busyb t = insert blk (busyb s) \<and> dirtyb t = dirtyb s \<and> same_disk s t"
    have d: "b_data (bufs t b) = disk s blk" using locked_data [of t b] t v by auto
    have "wp (bind (set_bdata b ?d) (\<lambda>_. bwrite b)) (\<lambda>_. wp (brelse b) (\<lambda>_ t. clean t \<and> wrote s t [(blk, ?d)])) t"
    proof (rule wp_mono [OF store_bwrite_wp])
      show "cache_inv t" "locked t b blk" "length ?d = BSIZE" using t len by auto
      fix x and u :: "'z bio_scheme"
      assume u: "cache_inv u \<and> view u = (view t)(blk := ?d) \<and> (\<forall>c k. locked u c k = locked t c k) \<and> busyb u = busyb t \<and>
        dirtyb u = dirtyb t - {blk} \<and> wrote t u [(blk, ?d)]"
      have "wp (brelse b) (\<lambda>_ w. cache_inv w \<and> view w = view u \<and> (\<forall>c k. k \<noteq> blk \<longrightarrow> locked w c k = locked u c k) \<and>
        busyb w = busyb u - {blk} \<and> dirtyb w = dirtyb u \<and> same_disk u w) u"
        by (rule brelse_wp) (use t u in \<open>auto simp: wrote_def\<close>)
      then show "wp (brelse b) (\<lambda>_ t. clean t \<and> wrote s t [(blk, ?d)]) u"
      proof (rule wp_mono)
        fix y and w :: "'z bio_scheme"
        assume w: "cache_inv w \<and> view w = view u \<and> (\<forall>c k. k \<noteq> blk \<longrightarrow> locked w c k = locked u c k) \<and>
          busyb w = busyb u - {blk} \<and> dirtyb w = dirtyb u \<and> same_disk u w"
        then have "wrote s w ([] @ [(blk, ?d)] @ [])" using t u by (intro wrote_trans) (auto simp: same_disk_wrote)
        then show "clean w \<and> wrote s w [(blk, ?d)]" using w u t s by (auto simp: clean_def)
      qed
    qed
    then show "wp (bdata b) (\<lambda>d. wp (bind (set_bdata b (f d)) (\<lambda>_. bwrite b)) (\<lambda>_.
      wp (brelse b) (\<lambda>_ t. clean t \<and> wrote s t [(blk, ?d)]))) t"
      by (simp only: wp_gets d)
  qed (use s in simp_all)
  then show ?thesis unfolding rewrite_block_def wp_bind wp_bind_fun .
qed

section \<open>The statistics of the block groups\<close>

text \<open>Two disks that differ in the statistics records only.\<close>

definition but_stats :: "superblock \<Rightarrow> (nat \<Rightarrow> block) \<Rightarrow> (nat \<Rightarrow> block) \<Rightarrow> bool" where
  "but_stats sbk d e \<longleftrightarrow> (\<forall>b. take STATOFF (e b) = take STATOFF (d b) \<and>
     ((\<forall>g\<in>{..<sb_nblockgroups sbk}. b \<noteq> STATBLOCK g sbk) \<longrightarrow> e b = d b))"

definition stats_run :: "superblock \<Rightarrow> 'z bio_scheme \<Rightarrow> 'z bio_scheme \<Rightarrow> bool" where
  "stats_run sbk s t \<longleftrightarrow> clean t \<and> but_stats sbk (disk s) (disk t) \<and> disksize t = disksize s \<and> bio.more t = bio.more s"

lemma but_stats_refl [simp]: "but_stats sbk d d"
  by (simp add: but_stats_def)

lemma but_stats_trans: "but_stats sbk d e \<Longrightarrow> but_stats sbk e f \<Longrightarrow> but_stats sbk d f"
  by (simp add: but_stats_def)

lemma stats_run_refl: "clean s \<Longrightarrow> stats_run sbk s s"
  by (simp add: stats_run_def)

lemma stats_run_trans: "stats_run sbk s t \<Longrightarrow> stats_run sbk t u \<Longrightarrow> stats_run sbk s u"
  by (auto simp: stats_run_def intro: but_stats_trans)

lemma length_set_stats: "length d = BSIZE \<Longrightarrow> length (set_stats u p d) = BSIZE"
  by (simp add: set_stats_def STATOFF_def)

lemma take_set_stats: "length d = BSIZE \<Longrightarrow> take STATOFF (set_stats u p d) = take STATOFF d"
  by (simp add: set_stats_def blit_def STATOFF_def)

lemma write_stats_wp:
  fixes s :: "'z bio_scheme"
  assumes c: "clean s" and g: "g < sb_nblockgroups sbk" and lt: "STATBLOCK g sbk < disksize s"
  shows "wp (rewrite_block (STATBLOCK g sbk) (set_stats u p)) (\<lambda>_ t. stats_run sbk s t) s"
proof -
  let ?b = "STATBLOCK g sbk"
  have l: "length (disk s ?b) = BSIZE" by (rule clean_length [OF c lt])
  show ?thesis
  proof (rule wp_mono [OF rewrite_block_wp [OF c lt, of "set_stats u p", OF length_set_stats [OF l]]])
    fix x t assume t: "clean t \<and> wrote s t [(?b, set_stats u p (disk s ?b))]"
    then have "disk t = (disk s)(?b := set_stats u p (disk s ?b))" by (simp add: wrote_def)
    then have "but_stats sbk (disk s) (disk t)" using g take_set_stats [OF l] by (auto simp: but_stats_def)
    then show "stats_run sbk s t" using t by (simp add: stats_run_def wrote_def)
  qed
qed

lemma count_used_wp:
  fixes s :: "'z bio_scheme"
  assumes "clean s" and "\<forall>i\<in>set is. IBLOCK i sbk < disksize s"
  shows "wp (count_used sbk is n) (\<lambda>_ t. stats_run sbk s t) s"
  using assms
proof (induction "is" arbitrary: n s)
  case Nil
  then show ?case by (simp add: wp_simps stats_run_refl)
next
  case (Cons i "is")
  have s: "cache_inv s" "busyb s = {}" "dirtyb s = {}" "IBLOCK i sbk < disksize s" using Cons.prems by (simp_all add: clean_def)
  have "wp (bread 1 (IBLOCK i sbk)) (\<lambda>b t. b_data (bufs t b) = view s (IBLOCK i sbk) \<and>
      wp (brelse b) (\<lambda>_ u. quiet s u \<and> view u = view s \<and> dirtyb u = dirtyb s \<and> same_disk s u) t) s"
    by (rule bread_brelse_wp [where g = "\<lambda>t. t"]) (use s in auto)
  then have "wp (bread 1 (IBLOCK i sbk)) (\<lambda>b t. wp (brelse b) (\<lambda>_. wp (count_used sbk is
      (if 0 < as_short (le_nat (slice (DINODE_AT i sbk) 2 (b_data (bufs t b)))) then n + 1 else n)) (\<lambda>_ t. stats_run sbk s t)) t) s"
  proof (rule wp_mono, elim conjE)
    fix b and t :: "'z bio_scheme"
    assume "wp (brelse b) (\<lambda>_ u. quiet s u \<and> view u = view s \<and> dirtyb u = dirtyb s \<and> same_disk s u) t"
    then show "wp (brelse b) (\<lambda>_. wp (count_used sbk is
      (if 0 < as_short (le_nat (slice (DINODE_AT i sbk) 2 (b_data (bufs t b)))) then n + 1 else n)) (\<lambda>_ t. stats_run sbk s t)) t"
    proof (rule wp_mono)
      fix x and u :: "'z bio_scheme"
      assume u: "quiet s u \<and> view u = view s \<and> dirtyb u = dirtyb s \<and> same_disk s u"
      then have r: "stats_run sbk s u" using s by (simp add: stats_run_def clean_def quiet_def same_disk_def)
      then have "clean u" "\<forall>i\<in>set is. IBLOCK i sbk < disksize u" using Cons.prems(2) by (simp_all add: stats_run_def)
      note Cons.IH [OF this]
      then show "wp (count_used sbk is
        (if 0 < as_short (le_nat (slice (DINODE_AT i sbk) 2 (b_data (bufs t b)))) then n + 1 else n)) (\<lambda>_ t. stats_run sbk s t) u"
        by (rule wp_mono) (rule stats_run_trans [OF r])
    qed
  qed
  then show ?case by (simp add: wp_simps wp_funs)
qed

text \<open>The disk has all the blocks of the groups.\<close>

definition groups_on_disk :: "superblock \<Rightarrow> nat \<Rightarrow> bool" where
  "groups_on_disk sbk n \<longleftrightarrow> geometry sbk \<and> sb_bgstart sbk + sb_nblockgroups sbk * sb_bpbg sbk \<le> n"

lemma stat_on_disk:
  assumes "groups_on_disk sbk n" "g < sb_nblockgroups sbk"
  shows "STATBLOCK g sbk < n"
proof -
  have "g * 4065 + 4065 \<le> sb_nblockgroups sbk * 4065" using assms(2) by simp
  then show ?thesis using assms(1) by (auto simp: groups_on_disk_def STATBLOCK_def geometryD)
qed

lemma inode_on_disk:
  assumes "groups_on_disk sbk n" "g < sb_nblockgroups sbk" "i < (g + 1) * sb_ipbg sbk"
  shows "IBLOCK i sbk < n"
proof -
  have g: "geometry sbk" using assms(1) by (simp add: groups_on_disk_def)
  have "(g + 1) * 29 \<le> sb_nblockgroups sbk * 29" using assms(2) by simp
  then have "i < sb_ninodes sbk" using assms(3) g by (simp add: geometryD)
  then show ?thesis using IBLOCK_range(2) [OF g, of i] assms(1) by (simp add: groups_on_disk_def)
qed

lemma stats_run_each:
  fixes s :: "'z bio_scheme"
  assumes c: "clean s" and st: "\<And>g t. g \<in> set gs \<Longrightarrow> clean t \<Longrightarrow> disksize t = disksize s \<Longrightarrow> wp (m g) (\<lambda>_ u. stats_run sbk t u) t"
  shows "wp (for_each gs m) (\<lambda>_ t. stats_run sbk s t) s"
proof (rule wp_for_each [where I = "\<lambda>_ t. stats_run sbk s t"])
  fix g js t assume t: "stats_run sbk s t" and g: "set (g # js) \<subseteq> set gs"
  have "wp (m g) (\<lambda>_ u. stats_run sbk t u) t" by (rule st) (use t g in \<open>auto simp: stats_run_def\<close>)
  then show "wp (m g) (\<lambda>_ t. stats_run sbk s t) t" by (rule wp_mono) (rule stats_run_trans [OF t])
qed (use c in \<open>simp_all add: stats_run_refl\<close>)

lemma clearFSStats_wp:
  fixes s :: "'z fsst_scheme"
  assumes "clean s" "sb s = sbk" "groups_on_disk sbk (disksize s)"
  shows "wp clearFSStats (\<lambda>_ t. stats_run sbk s t) s"
proof -
  have "wp (for_each [0..<sb_nblockgroups sbk] (\<lambda>g. rewrite_block (STATBLOCK g sbk) (set_stats 0 0))) (\<lambda>_ t. stats_run sbk s t) s"
    by (rule stats_run_each [OF assms(1)], rule write_stats_wp) (use stat_on_disk assms(3) in auto)
  then show ?thesis by (simp add: clearFSStats_def wp_simps assms(2) rewrite_block_def)
qed

lemma fillFSStats_wp:
  fixes s :: "'z fsst_scheme"
  assumes "clean s" "sb s = sbk" "groups_on_disk sbk (disksize s)"
  shows "wp fillFSStats (\<lambda>_ t. stats_run sbk s t) s"
proof -
  let ?m = "\<lambda>g. bind (count_used sbk [(if g = 0 then 1 else g * sb_ipbg sbk)..<(g + 1) * sb_ipbg sbk] 0)
    (\<lambda>n. rewrite_block (STATBLOCK g sbk) (set_stats n (STAT_PERCENTAGE_ABS n sbk)))"
  have "wp (for_each [0..<sb_nblockgroups sbk] ?m) (\<lambda>_ t. stats_run sbk s t) s"
  proof (rule stats_run_each [OF assms(1)])
    fix g and t :: "'z fsst_scheme"
    assume g: "g \<in> set [0..<sb_nblockgroups sbk]" and t: "clean t" "disksize t = disksize s"
    have gt: "groups_on_disk sbk (disksize t)" "g < sb_nblockgroups sbk" using g t(2) assms(3) by auto
    show "wp (?m g) (\<lambda>_ u. stats_run sbk t u) t"
      unfolding wp_bind
    proof (rule wp_mono [OF count_used_wp [OF t(1)]])
      show "\<forall>i\<in>set [(if g = 0 then 1 else g * sb_ipbg sbk)..<(g + 1) * sb_ipbg sbk]. IBLOCK i sbk < disksize t"
        using inode_on_disk [OF gt] by auto
      fix n and u :: "'z fsst_scheme" assume u: "stats_run sbk t u"
      show "wp (rewrite_block (STATBLOCK g sbk) (set_stats n (STAT_PERCENTAGE_ABS n sbk))) (\<lambda>_ u. stats_run sbk t u) u"
        by (rule wp_mono [OF write_stats_wp [OF _ gt(2)]])
          (use u stat_on_disk [OF gt] in \<open>auto simp: stats_run_def intro: but_stats_trans\<close>)
    qed
  qed
  then show ?thesis unfolding fillFSStats_def rewrite_block_def by (simp only: wp_bind wp_gets assms(2))
qed

lemma iinit_wp:
  fixes s :: "'z fsst_scheme"
  assumes c: "clean s" and sbk: "sbk = decode_sb (slice 0 sizeof_superblock (disk s 1))" and d: "groups_on_disk sbk (disksize s)"
  shows "wp (iinit 1) (\<lambda>_ t. stats_run sbk (s\<lparr>sb := sbk\<rparr>) t) s"
proof -
  let ?s = "s\<lparr>sb := sbk\<rparr>"
  have s: "cache_inv s" "busyb s = {}" "dirtyb s = {}" using c by (simp_all add: clean_def)
  have lt: "1 < disksize s" using d by (auto simp: groups_on_disk_def geometryD)
  have "wp (readsb 1) (\<lambda>x t. wp clearFSStats (\<lambda>_. wp fillFSStats (\<lambda>_ t. stats_run sbk ?s t)) (t\<lparr>sb := x\<rparr>)) s"
  proof (rule wp_mono [OF readsb_wp [OF s(1) lt]])
    fix x and t :: "'z fsst_scheme"
    assume t: "x = decode_sb (slice 0 sizeof_superblock (view s 1)) \<and> quiet s t \<and> view t = view s \<and> dirtyb t = dirtyb s \<and> same_disk s t"
    define u where "u = t\<lparr>sb := sbk\<rparr>"
    have "clean t" using t s by (simp add: clean_def quiet_def)
    then have cu: "clean u" using clean_cong [of u t] by (simp add: u_def)
    have "bio.more u = bio.more ?s" using t by (cases s; cases t) (simp add: u_def same_disk_def)
    then have r: "stats_run sbk ?s u" using t cu by (simp add: stats_run_def u_def same_disk_def)
    have du: "groups_on_disk sbk (disksize u)" "sb u = sbk" using d t by (simp_all add: u_def same_disk_def)
    have "wp clearFSStats (\<lambda>_. wp fillFSStats (\<lambda>_ t. stats_run sbk ?s t)) u"
    proof (rule wp_mono [OF clearFSStats_wp [OF cu du(2,1)]])
      fix y and w :: "'z fsst_scheme" assume w: "stats_run sbk u w"
      have "bio.more w = bio.more u" using w by (simp add: stats_run_def)
      then have "sb w = sbk" using du(2) by (cases u; cases w) simp
      then have "wp fillFSStats (\<lambda>_ t. stats_run sbk w t) w"
        using w du(1) by (intro fillFSStats_wp) (simp_all add: stats_run_def)
      then show "wp fillFSStats (\<lambda>_ t. stats_run sbk ?s t) w"
        by (rule wp_mono) (rule stats_run_trans [OF stats_run_trans [OF r w]])
    qed
    moreover have "x = sbk" using t sbk clean_view [OF c] by simp
    ultimately show "wp clearFSStats (\<lambda>_. wp fillFSStats (\<lambda>_ t. stats_run sbk ?s t)) (t\<lparr>sb := x\<rparr>)" by (simp add: u_def)
  qed (use s in simp_all)
  then show ?thesis by (simp add: iinit_def wp_simps wp_funs)
qed

section \<open>From power-on to the first transaction\<close>

text \<open>
  \<^verbatim>\<open>main\<close> calls \<^verbatim>\<open>binit\<close> and later \<^verbatim>\<open>userinit\<close>, which calls \<^verbatim>\<open>namei("/")\<close>; the first process that runs calls \<^verbatim>\<open>iinit\<close> and \<^verbatim>\<open>initlog\<close> in
  \<^verbatim>\<open>forkret\<close>.
\<close>

definition boot :: "'z fsst_scheme devsw \<Rightarrow> ('z fsst_scheme, unit) kop" where
  "boot dv = bind binit (\<lambda>_. bind (namei dv [slash]) (\<lambda>_. bind (iinit ROOTDEV) (\<lambda>_. initlog ROOTDEV)))"

text \<open>The memory of the kernel at power-on, as far as the file system goes: buffers, log and inode cache are zero.\<close>

definition powered_on :: "'z fsst_scheme \<Rightarrow> bool" where
  "powered_on s \<longleftrightarrow> zeroed_bufs s \<and> outstanding s = 0 \<and> \<not> committing s \<and> (\<forall>i<NINODE. i_ref (icache s i) = 0)"

definition bootable_disk :: "superblock \<Rightarrow> nat \<Rightarrow> (nat \<Rightarrow> block) \<Rightarrow> bool" where
  "bootable_disk sbk n d \<longleftrightarrow> decode_sb (slice 0 sizeof_superblock (d 1)) = sbk \<and> groups_on_disk sbk n \<and> sb_nlog sbk = LOGSIZE \<and>
     head_n (d 2) = 0 \<and> (\<forall>k<n. length (d k) = BSIZE)"

text \<open>An inode cache that holds references only, to inodes that were not read in, and has room for one more.\<close>

definition idle_icache :: "(nat \<Rightarrow> inode) \<Rightarrow> bool" where
  "idle_icache f \<longleftrightarrow> icache_inv f \<and> (\<forall>i<NINODE. 0 < i_ref (f i) \<longrightarrow> \<not> i_busy (f i) \<and> \<not> i_valid (f i)) \<and> (\<exists>i<NINODE. i_ref (f i) = 0)"

lemma iget_idle:
  fixes s :: "'z fsst_scheme"
  assumes "idle_icache (icache s)"
  shows "wp (iget dev inum) (\<lambda>ip t. \<exists>x. t = upd_ino ip (\<lambda>_. x) s \<and> i_dev x = dev \<and> i_inum x = inum \<and> 1 \<le> i_ref x \<and>
    \<not> i_busy x \<and> \<not> i_valid x) s"
proof -
  have inv: "icache_inv (icache s)" and z: "\<exists>i<NINODE. i_ref (icache s i) = 0" using assms by (simp_all add: idle_icache_def)
  obtain ip t where t: "iget dev inum s = Ok ip t" using iget_panics [of dev inum s] z by auto
  have idle: "0 < i_ref (icache s ip) \<Longrightarrow> ip < NINODE \<Longrightarrow> \<not> i_busy (icache s ip) \<and> \<not> i_valid (icache s ip)"
    using assms by (simp add: idle_icache_def)
  from iget_cases [OF inv t] show ?thesis
  proof (elim conjE disjE)
    assume a: "ip < NINODE" "0 < i_ref (icache s ip)" "i_dev (icache s ip) = dev" "i_inum (icache s ip) = inum"
      "t = upd_ino ip (\<lambda>i. i\<lparr>i_ref := i_ref i + 1\<rparr>) s"
    let ?x = "(icache s ip)\<lparr>i_ref := i_ref (icache s ip) + 1\<rparr>"
    have "t = upd_ino ip (\<lambda>_. ?x) s" using a(5) by (simp add: upd_ino_def)
    then show ?thesis using t a(2-4) idle [OF a(2,1)] unfolding wp_Ok by (intro exI [of _ ip] exI [of _ t] exI [of _ ?x] conjI) simp_all
  next
    assume a: "t = upd_ino ip (\<lambda>i. i\<lparr>i_dev := dev, i_inum := inum, i_ref := 1, i_busy := False, i_valid := False\<rparr>) s"
    let ?x = "(icache s ip)\<lparr>i_dev := dev, i_inum := inum, i_ref := 1, i_busy := False, i_valid := False\<rparr>"
    have "t = upd_ino ip (\<lambda>_. ?x) s" using a by (simp add: upd_ino_def)
    then show ?thesis using t unfolding wp_Ok by (intro exI [of _ ip] exI [of _ t] exI [of _ ?x] conjI) simp_all
  qed
qed

lemma iget_first:
  fixes s :: "'z fsst_scheme"
  assumes z: "\<forall>i<NINODE. i_ref (icache s i) = 0"
  shows "wp (iget dev inum) (\<lambda>ip t. \<exists>f. t = s\<lparr>icache := f\<rparr> \<and> idle_icache f) s"
proof -
  have inv: "icache_inv (icache s)" using z by (simp add: icache_inv_def)
  have "i_ref (icache s 0) = 0" using z by simp
  then obtain ip t where t: "iget dev inum s = Ok ip t" using iget_panics [of dev inum s] by (auto dest: spec [of _ 0])
  define x where "x = (icache s ip)\<lparr>i_dev := dev, i_inum := inum, i_ref := 1, i_busy := False, i_valid := False\<rparr>"
  have c: "ip < NINODE" "t = s\<lparr>icache := (icache s)(ip := x)\<rparr>" using iget_cases [OF inv t] z by (auto simp: upd_ino_def x_def)
  have "\<exists>i<NINODE. i \<noteq> ip" by (cases "ip = 0") (auto intro: exI [of _ 1] exI [of _ 0])
  then have "idle_icache ((icache s)(ip := x))" using z by (auto simp: idle_icache_def icache_inv_def x_def)
  then show ?thesis using t c(2) by (auto simp: wp_Ok)
qed

lemma namei_root:
  fixes s :: "'z fsst_scheme"
  assumes "\<forall>i<NINODE. i_ref (icache s i) = 0"
  shows "wp (namei dv [slash]) (\<lambda>_ t. \<exists>f. t = s\<lparr>icache := f\<rparr> \<and> idle_icache f) s"
proof -
  have "namex_loop dv False ip [slash] [] = return (Some (ip, []))" for ip
    by (subst namex_loop.simps) (simp add: skipelem_def)
  then have "namei dv [slash] = bind (iget ROOTDEV ROOTINO) (\<lambda>ip. return (Some ip))"
    by (simp add: namei_def namex_def bind_def return_def fun_eq_iff split: result.splits)
  then show ?thesis using iget_first [OF assms, of ROOTDEV ROOTINO] by (simp add: wp_simps wp_funs)
qed

text \<open>What boot leaves of a disk: the statistics and the header of the log are rewritten.\<close>

definition booted :: "superblock \<Rightarrow> 'z fsst_scheme \<Rightarrow> 'z fsst_scheme \<Rightarrow> bool" where
  "booted sbk s t \<longleftrightarrow> clean t \<and> lh_n t = 0 \<and> lstart t = 2 \<and> lsize t = int LOGSIZE \<and> ldev t = 1 \<and> outstanding t = 0 \<and>
     \<not> committing t \<and> disksize t = disksize s \<and> sb t = sbk \<and> idle_icache (icache t) \<and>
     (\<exists>d. but_stats sbk (disk s) d \<and> disk t = d(2 := put_head 0 (\<lambda>_. 0) (d 2)))"

lemma not_stat: "geometry sbk \<Longrightarrow> b \<le> 2 \<Longrightarrow> b \<noteq> STATBLOCK g sbk"
  by (simp add: STATBLOCK_def geometryD)

lemma boot_wp:
  fixes s :: "'z fsst_scheme"
  assumes p: "powered_on s" and d: "bootable_disk sbk (disksize s) (disk s)"
  shows "wp (boot dv) (\<lambda>_ t. booted sbk s t) s"
proof -
  have z: "zeroed_bufs s" "outstanding s = 0" "\<not> committing s" "\<forall>i<NINODE. i_ref (icache s i) = 0" using p by (simp_all add: powered_on_def)
  have k: "decode_sb (slice 0 sizeof_superblock (disk s 1)) = sbk" "groups_on_disk sbk (disksize s)" "sb_nlog sbk = LOGSIZE"
    "head_n (disk s 2) = 0" "\<forall>k<disksize s. length (disk s k) = BSIZE" using d by (simp_all add: bootable_disk_def)
  have g: "geometry sbk" "2 + LOGSIZE \<le> disksize s" using k(2,3) by (auto simp: groups_on_disk_def geometryD)
  have log: "wp (initlog 1) (\<lambda>_ u. booted sbk s u) t"
    if t: "stats_run sbk (a\<lparr>sb := sbk\<rparr>) t" and a: "disk a = disk s" "disksize a = disksize s" "outstanding a = 0" "\<not> committing a"
      "idle_icache (icache a)" for a t :: "'z fsst_scheme"
  proof -
    have bs: "but_stats sbk (disk s) (disk t)" "disksize t = disksize s" "clean t" "bio.more t = bio.more (a\<lparr>sb := sbk\<rparr>)"
      using t a by (simp_all add: stats_run_def)
    then have c: "cache_inv t" "busyb t = {}" "dirtyb t = {}" by (simp_all add: clean_def)
    have same: "disk t b = disk s b" if "b \<le> 2" for b using bs(1) not_stat [OF g(1) that] by (simp add: but_stats_def)
    have at: "log_at 2 (int LOGSIZE) (disk t)" using k(1,3) g(1) same [of 1] by (simp add: log_at_def Let_def as_int_def geometryD)
    have ok: "valid_log 2 (int LOGSIZE) (disksize t) (disk t)" using k(4) g(2) same [of 2] bs(2) by (simp add: valid_log_def)
    have m: "outstanding t = outstanding a" "committing t = committing a" "sb t = sbk" "icache t = icache a"
      using bs(4) by (cases a; cases t; simp)+
    have "wp (initlog 1) (\<lambda>_ u. recovered t u \<and> lstart u = 2 \<and> lsize u = int LOGSIZE) t"
      by (rule initlog_wp [OF c _ at ok]) (use g(2) bs(2) in simp)
    then show ?thesis
    proof (rule wp_mono, elim conjE)
      fix x u assume u: "recovered t u" "lstart u = 2" "lsize u = int LOGSIZE"
      have "logst.more u = logst.more t" using u(1) by (simp add: recovered_def)
      then have "sb u = sb t" "icache u = icache t" by (cases t; cases u; simp)+
      moreover have "disk u = (disk t)(2 := put_head 0 (\<lambda>_. 0) (disk t 2))"
        using u(1,2) k(4) same [of 2] by (simp add: recovered_def rec_writes_def)
      ultimately show "booted sbk s u" using u m a(3-5) bs(1,2) by (auto simp: booted_def recovered_def clean_def)
    qed
  qed
  have "wp binit (\<lambda>_. wp (namei dv [slash]) (\<lambda>_. wp (iinit 1) (\<lambda>_. wp (initlog 1) (\<lambda>_ t. booted sbk s t)))) s"
  proof (rule wp_mono [OF binit_wp [OF z(1) k(5)]])
    fix x and a :: "'z fsst_scheme"
    assume a: "cache_inv a \<and> view a = disk s \<and> busyb a = {} \<and> dirtyb a = {} \<and> same_disk s a"
    then have c: "clean a" "disk a = disk s" "disksize a = disksize s" "bio.more a = bio.more s" by (simp_all add: clean_def same_disk_def)
    then have f: "icache a = icache s" "outstanding a = 0" "\<not> committing a" using z(2,3) by (cases a; cases s; simp)+
    then have "\<forall>i<NINODE. i_ref (icache a i) = 0" using z(4) by simp
    then show "wp (namei dv [slash]) (\<lambda>_. wp (iinit 1) (\<lambda>_. wp (initlog 1) (\<lambda>_ t. booted sbk s t))) a"
    proof (rule wp_mono [OF namei_root], elim exE conjE)
      fix y h and b :: "'z fsst_scheme" assume b: "b = a\<lparr>icache := h\<rparr>" "idle_icache h"
      have "clean b = clean a" by (rule clean_cong) (simp_all add: b(1))
      then have "clean b" "sbk = decode_sb (slice 0 sizeof_superblock (disk b 1))" "groups_on_disk sbk (disksize b)"
        using c k by (simp_all add: b(1))
      from iinit_wp [OF this] show "wp (iinit 1) (\<lambda>_. wp (initlog 1) (\<lambda>_ t. booted sbk s t)) b"
        by (rule wp_mono) (rule log [of b], use b c f in auto)
    qed
  qed
  then show ?thesis by (simp add: boot_def wp_simps wp_funs)
qed

text \<open>The first system call opens a transaction.\<close>

lemma begin_op_wp:
  fixes s :: "'z fsst_scheme"
  assumes "booted sbk s0 s" and "2 + LOGSIZE \<le> disksize s"
  shows "wp begin_op (\<lambda>_ t. txn t \<and> room t \<and> busyb t = {} \<and> lstart t = 2 \<and> sb t = sbk \<and> disksize t = disksize s \<and>
    view t = disk s \<and> icache t = icache s) s"
proof -
  have b: "clean s" "lh_n s = 0" "\<not> committing s" "outstanding s = 0" "lstart s = 2" "lsize s = int LOGSIZE" "ldev s = 1" "sb s = sbk"
    using assms(1) by (simp_all add: booted_def)
  let ?t = "s\<lparr>outstanding := 1\<rparr>"
  have c: "cache_inv ?t = cache_inv s" "busyb ?t = busyb s" "dirtyb ?t = dirtyb s" "view ?t = view s" by (rule bio_cong; simp)+
  have s: "cache_inv s" "busyb s = {}" "dirtyb s = {}" using b(1) by (simp_all add: clean_def)
  have "log_blocks ?t = []" by (simp add: log_blocks_def b)
  then have "txn ?t" using c s b assms(2) by (simp add: txn_def)
  moreover have "room ?t" using c s b by (simp add: room_def)
  ultimately show ?thesis using b c s clean_view [OF b(1)] by (simp add: begin_op_def wp_simps)
qed

end
