(* ===== verification/Mkfs_Spec.thy ===== *)
theory Mkfs_Spec
  imports Mkfs Content_Spec Boot
begin

text \<open>
  mkfs.c refines an operation on a list of files. \<open>mkfs_tree\<close> is what the command line asks for, \<open>mkfs_disk\<close> the same with the
  root directory filled up to its block; \<open>exact_image s fs\<close> says that the image holds the files \<open>fs\<close> and that no other block is
  taken. Every step of \<^verbatim>\<open>main\<close> (\<open>ialloc_exact\<close>, \<open>iappend_exact\<close>, \<open>pieces_exact\<close>, \<open>mkfs_add_exact\<close>, \<open>root_size\<close>, \<open>balloc_image\<close>) keeps
  that relation, and \<open>mkfs_main_wp\<close> puts them together. The last part boots the kernel on the image and reads the files
  with its \<^verbatim>\<open>iget\<close>, \<^verbatim>\<open>ilock\<close>, \<^verbatim>\<open>stati\<close> and \<^verbatim>\<open>readi\<close>.
\<close>

section \<open>Blocks in use\<close>

definition blocks_in :: "(int \<times> byte list) list \<Rightarrow> nat" where
  "blocks_in fs = sum_list (map (\<lambda>f. nused (nblk (length (snd f)))) fs)"

text \<open>The image holds the files, and no block is allocated but theirs.\<close>

definition exact_image :: "mkfsst \<Rightarrow> (int \<times> byte list) list \<Rightarrow> bool" where
  "exact_image s fs \<longleftrightarrow> fs_image s fs \<and> freeblock s = mkfs_nmeta + blocks_in fs"

lemma blocks_in_Nil [simp]: "blocks_in [] = 0"
  by (simp add: blocks_in_def)

lemma blocks_in_Cons [simp]: "blocks_in (f # fs) = nused (nblk (length (snd f))) + blocks_in fs"
  by (simp add: blocks_in_def)

lemma blocks_in_append [simp]: "blocks_in (fs @ gs) = blocks_in fs + blocks_in gs"
  by (simp add: blocks_in_def)

lemma blocks_in_update:
  "n < length fs \<Longrightarrow> blocks_in (fs[n := f]) + nused (nblk (length (snd (fs ! n)))) = blocks_in fs + nused (nblk (length (snd f)))"
proof (induction fs arbitrary: n)
  case (Cons g fs)
  then show ?case by (cases n) (auto simp: algebra_simps)
qed simp

lemma nused_nblk_mono: "a \<le> b \<Longrightarrow> nused (nblk a) \<le> nused (nblk b)"
  by (simp add: nused_mono nblk_mono)

lemma iappend_exact:
  assumes im: "exact_image s fs" and n: "n < length fs" "Suc n < IPBG * BLOCKGROUPS" and f: "fs ! n = (ty, bs)" and ty: "short_range ty"
    and sz: "length bs + length p \<le> MAXFILE * BSIZE" and room: "mkfs_nmeta + blocks_in (fs[n := (ty, bs @ p)]) + 2 \<le> BPB"
  shows "wp (iappend (Suc n) p) (\<lambda>_ t. exact_image t (fs[n := (ty, bs @ p)]) \<and> same_head s t) s"
proof -
  have im': "fs_image s fs" and fb: "freeblock s = mkfs_nmeta + blocks_in fs" using im by (simp_all add: exact_image_def)
  note u = blocks_in_update [OF n(1), of "(ty, bs @ p)", unfolded f, simplified]
  have "freeblock s + nused (nblk (length bs + length p)) + 2 \<le> BPB + nused (nblk (length bs))"
    using room u fb by linarith
  note w = iappend_image [OF im' n f ty sz this]
  show ?thesis by (rule wp_mono [OF w]) (use u fb in \<open>auto simp: exact_image_def\<close>)
qed

lemma ialloc_exact:
  assumes "exact_image s fs" "Suc (length fs) < IPBG * BLOCKGROUPS" "short_range ty"
  shows "wp (mkfs_ialloc ty) (\<lambda>r t. r = Suc (length fs) \<and> exact_image t (fs @ [(ty, [])]) \<and> same_head s t) s"
proof -
  have "fs_image s fs" using assms(1) by (simp add: exact_image_def)
  then show ?thesis
    by (rule wp_mono [OF ialloc_image [OF _ assms(2,3)]]) (use assms(1) in \<open>auto simp: exact_image_def nused_def nblk_def\<close>)
qed

text \<open>A file copied piece by piece.\<close>

lemma pieces_exact:
  assumes "exact_image s fs" "n < length fs" "Suc n < IPBG * BLOCKGROUPS" "fs ! n = (ty, bs)" "short_range ty"
    "length bs + length (concat ps) \<le> MAXFILE * BSIZE" "mkfs_nmeta + blocks_in (fs[n := (ty, bs @ concat ps)]) + 2 \<le> BPB"
  shows "wp (for_each ps (iappend (Suc n))) (\<lambda>_ t. exact_image t (fs[n := (ty, bs @ concat ps)]) \<and> same_head s t) s"
  using assms
proof (induction ps arbitrary: s fs bs)
  case Nil
  then have "fs[n := (ty, bs)] = fs" by (metis list_update_id)
  then show ?case using Nil(1) by (simp add: wp_simps)
next
  case (Cons p ps)
  let ?fs = "fs[n := (ty, bs @ p)]" and ?all = "fs[n := (ty, bs @ concat (p # ps))]"
  have eq: "?fs[n := (ty, (bs @ p) @ concat ps)] = ?all" by simp
  have "nused (nblk (length (bs @ p))) \<le> nused (nblk (length (bs @ concat (p # ps))))" by (rule nused_nblk_mono) simp
  then have "blocks_in ?fs \<le> blocks_in ?all"
    using blocks_in_update [OF Cons.prems(2), of "(ty, bs @ p)"] blocks_in_update [OF Cons.prems(2), of "(ty, bs @ concat (p # ps))"] by simp
  then have room: "mkfs_nmeta + blocks_in ?fs + 2 \<le> BPB" using Cons.prems(7) by linarith
  have sz: "length bs + length p \<le> MAXFILE * BSIZE" "length (bs @ p) + length (concat ps) \<le> MAXFILE * BSIZE" using Cons.prems(6) by simp_all
  note w = iappend_exact [OF Cons.prems(1-5) sz(1) room]
  have n: "n < length ?fs" "?fs ! n = (ty, bs @ p)" using Cons.prems(2) by simp_all
  have "wp (iappend (Suc n) p) (\<lambda>_. wp (for_each ps (iappend (Suc n))) (\<lambda>_ t. exact_image t ?all \<and> same_head s t)) s"
  proof (rule wp_mono [OF w])
    fix x t assume t: "exact_image t ?fs \<and> same_head s t"
    then have "exact_image t ?fs" by simp
    note Cons.IH [OF this n(1) Cons.prems(3) n(2) Cons.prems(5) sz(2), unfolded eq, OF Cons.prems(7)]
    then show "wp (for_each ps (iappend (Suc n))) (\<lambda>_ t. exact_image t ?all \<and> same_head s t) t"
      by (rule wp_mono) (use t in auto)
  qed
  then show ?case by (simp add: wp_simps)
qed


section \<open>The directory and the files\<close>

lemma cstrn_length: "length (cstrn p n) \<le> n"
  by (induction p n rule: cstrn.induct) auto

lemma length_encode_dirent [simp]: "length (encode_dirent n name) = sizeof_dirent"
  by (simp add: encode_dirent_def pad_name_def Let_def cstrn_length)

definition mkfs_root :: "(byte list \<times> byte list list) list \<Rightarrow> byte list" where
  "mkfs_root files = encode_dirent ROOTINO (cstr ''.'') @ encode_dirent ROOTINO (cstr ''..'') @
     concat (map (\<lambda>k. encode_dirent (k + 2) (mkfs_name (fst (files ! k)))) [0..<length files])"

definition mkfs_tree :: "(byte list \<times> byte list list) list \<Rightarrow> (int \<times> byte list) list" where
  "mkfs_tree files = (T_DIR, mkfs_root files) # map (\<lambda>f. (T_FILE, concat (snd f))) files"

lemma length_mkfs_root: "length (mkfs_root files) = (length files + 2) * sizeof_dirent"
  by (simp add: mkfs_root_def length_concat o_def sum_list_triv)

lemma mkfs_root_snoc: "mkfs_root (files @ [f]) = mkfs_root files @ encode_dirent (length files + 2) (mkfs_name (fst f))"
proof -
  have "map (\<lambda>k. encode_dirent (k + 2) (mkfs_name (fst ((files @ [f]) ! k)))) [0..<length files] =
    map (\<lambda>k. encode_dirent (k + 2) (mkfs_name (fst (files ! k)))) [0..<length files]"
    by (rule map_cong) (auto simp: nth_append)
  then show ?thesis by (simp add: mkfs_root_def del: map_eq_conv)
qed

lemma mkfs_tree_snoc:
  "mkfs_tree (files @ [f]) = (T_DIR, mkfs_root files @ encode_dirent (length files + 2) (mkfs_name (fst f))) #
     map (\<lambda>f. (T_FILE, concat (snd f))) files @ [(T_FILE, concat (snd f))]"
  by (simp add: mkfs_tree_def mkfs_root_snoc)

lemma mkfs_tree_mono: "blocks_in (mkfs_tree files) \<le> blocks_in (mkfs_tree (files @ rest))"
proof -
  have "nused (nblk (length (mkfs_root files))) \<le> nused (nblk (length (mkfs_root (files @ rest))))"
    by (rule nused_nblk_mono) (simp add: length_mkfs_root)
  then show ?thesis by (simp add: mkfs_tree_def)
qed

lemma short_types: "short_range T_DIR" "short_range T_FILE"
  by (simp_all add: short_range_def)

text \<open>What the command line has to satisfy: the inodes are in the first group and the blocks as well.\<close>

definition packable :: "(byte list \<times> byte list list) list \<Rightarrow> bool" where
  "packable files \<longleftrightarrow> (\<forall>(arg, pieces)\<in>set files. slash \<notin> set arg \<and> length (concat pieces) \<le> MAXFILE * BSIZE) \<and>
     length files + 2 \<le> IPBG \<and> mkfs_nmeta + blocks_in (mkfs_tree files) + 2 \<le> BPB"

lemma packable_prefix: "packable (files @ rest) \<Longrightarrow> packable files"
  using mkfs_tree_mono [of files rest] by (auto simp: packable_def)

lemma mkfs_add_exact:
  assumes im: "exact_image s (mkfs_tree files)" and ok: "packable (files @ [f])"
  shows "wp (mkfs_add ROOTINO f) (\<lambda>_ t. exact_image t (mkfs_tree (files @ [f])) \<and> same_head s t) s"
proof -
  obtain arg pieces where f: "f = (arg, pieces)" by (cases f)
  let ?e = "encode_dirent (length files + 2) (mkfs_name arg)" and ?fs = "map (\<lambda>f. (T_FILE, concat (snd f))) files"
  let ?a = "mkfs_tree files @ [(T_FILE, [])]" and ?b = "(T_DIR, mkfs_root files @ ?e) # ?fs @ [(T_FILE, [])]"
  have b: "?a[0 := (T_DIR, mkfs_root files @ ?e)] = ?b" by (simp add: mkfs_tree_def)
  have c: "?b[Suc (length files) := (T_FILE, [] @ concat pieces)] = mkfs_tree (files @ [f])"
    unfolding mkfs_tree_snoc f by (simp add: list_update_append)
  have l: "length (mkfs_tree files) = Suc (length files)" by (simp add: mkfs_tree_def)
  have ok': "slash \<notin> set arg" "length (concat pieces) \<le> MAXFILE * BSIZE" "length files + 3 \<le> IPBG"
    "mkfs_nmeta + blocks_in (mkfs_tree (files @ [f])) + 2 \<le> BPB"
    using ok by (auto simp: packable_def f)
  have roomb: "mkfs_nmeta + blocks_in ?b + 2 \<le> BPB"
    using ok'(4) unfolding mkfs_tree_snoc f by (simp add: nused_def nblk_def)
  have one: "wp (mkfs_ialloc T_FILE) (\<lambda>r t. r = Suc (Suc (length files)) \<and> exact_image t ?a \<and> same_head s t) s"
    using ialloc_exact [OF im _ short_types(2)] ok'(3) by (simp add: l)
  have two: "wp (iappend ROOTINO ?e) (\<lambda>_ u. exact_image u ?b \<and> same_head t u) t" if "exact_image t ?a" for t
    using iappend_exact [OF that, of 0 T_DIR "mkfs_root files" ?e] roomb short_types ok'(3)
    unfolding b by (simp add: mkfs_tree_def length_mkfs_root)
  have three: "wp (for_each pieces (iappend (Suc (Suc (length files))))) (\<lambda>_ u. exact_image u (mkfs_tree (files @ [f])) \<and> same_head t u) t"
    if "exact_image t ?b" for t
    using pieces_exact [OF that, of "Suc (length files)" T_FILE "[]" pieces] ok' short_types
    unfolding c by (simp add: nth_append)
  have "wp (mkfs_ialloc T_FILE) (\<lambda>r. wp (iappend ROOTINO (encode_dirent r (mkfs_name arg))) (\<lambda>_.
      wp (for_each pieces (iappend r)) (\<lambda>_ t. exact_image t (mkfs_tree (files @ [f])) \<and> same_head s t))) s"
  proof (rule wp_mono [OF one], elim conjE, hypsubst)
    fix t assume t: "exact_image t ?a" "same_head s t"
    have e: "encode_dirent (Suc (Suc (length files))) (mkfs_name arg) = ?e" by simp
    show "wp (iappend ROOTINO (encode_dirent (Suc (Suc (length files))) (mkfs_name arg))) (\<lambda>_.
      wp (for_each pieces (iappend (Suc (Suc (length files))))) (\<lambda>_ t. exact_image t (mkfs_tree (files @ [f])) \<and> same_head s t)) t"
      unfolding e
    proof (rule wp_mono [OF two [OF t(1)]])
      fix x u assume u: "exact_image u ?b \<and> same_head t u"
      show "wp (for_each pieces (iappend (Suc (Suc (length files))))) (\<lambda>_ t. exact_image t (mkfs_tree (files @ [f])) \<and> same_head s t) u"
        by (rule wp_mono [OF three]) (use u t(2) in auto)
    qed
  qed
  then show ?thesis using ok'(1) by (simp add: mkfs_add_def f wp_simps wp_funs)
qed

lemma mkfs_adds_exact:
  assumes "exact_image s (mkfs_tree files)" "packable (files @ rest)"
  shows "wp (for_each rest (mkfs_add ROOTINO)) (\<lambda>_ t. exact_image t (mkfs_tree (files @ rest)) \<and> same_head s t) s"
  using assms
proof (induction rest arbitrary: s files)
  case Nil
  then show ?case by (simp add: wp_simps)
next
  case (Cons f rest)
  have "packable (files @ [f])" by (rule packable_prefix [of _ rest]) (use Cons.prems in simp)
  note w = mkfs_add_exact [OF Cons.prems(1) this]
  have "wp (mkfs_add ROOTINO f) (\<lambda>_. wp (for_each rest (mkfs_add ROOTINO)) (\<lambda>_ t. exact_image t (mkfs_tree (files @ f # rest)) \<and> same_head s t)) s"
  proof (rule wp_mono [OF w])
    fix x t assume t: "exact_image t (mkfs_tree (files @ [f])) \<and> same_head s t"
    then have "wp (for_each rest (mkfs_add ROOTINO)) (\<lambda>_ u. exact_image u (mkfs_tree (files @ f # rest)) \<and> same_head t u) t"
      using Cons.IH [of t "files @ [f]"] Cons.prems(2) by simp
    then show "wp (for_each rest (mkfs_add ROOTINO)) (\<lambda>_ t. exact_image t (mkfs_tree (files @ f # rest)) \<and> same_head s t) t"
      by (rule wp_mono) (use t in auto)
  qed
  then show ?case by (simp add: wp_simps)
qed


section \<open>The size of the root directory\<close>

lemma nblk_pad: "0 < off \<Longrightarrow> off + k \<le> nblk off * BSIZE \<Longrightarrow> nblk (off + k) = nblk off"
proof -
  assume "0 < off" "off + k \<le> nblk off * BSIZE"
  moreover have "nblk off \<le> nblk (off + k)" by (simp add: nblk_mono)
  moreover have "nblk (off + k) \<le> nblk (nblk off * BSIZE)" using calculation(2) by (rule nblk_mono)
  moreover have "nblk (nblk off * BSIZE) = nblk off" by (simp add: nblk_def)
  ultimately show ?thesis by simp
qed

lemma extended_pad:
  assumes d: "disk_ok s" "blocks_ok (img s) (freeblock s) i (nblk off)" "zero_tail (img s) i off"
    and k: "0 < off" "off + k \<le> nblk off * BSIZE"
  shows "extended s i off s i (off + k) (replicate k 0)"
proof -
  note nb = nblk_pad [OF k]
  let ?f = "\<lambda>j. img s (fblk (img s) i (j div BSIZE)) ! (j mod BSIZE)"
  have z: "?f j = 0" if "off \<le> j" "j < off + k" for j
    using d(3) that k(2) unfolding zero_tail_def by (meson order_less_le_trans)
  have "map ?f [off..<off + k] = map (\<lambda>_. 0) [off..<off + k]" by (rule map_cong [OF refl]) (rule z, simp_all)
  then have "map ?f [off..<off + k] = replicate k 0" by (simp only: map_replicate_const length_upt diff_add_inverse)
  then have "content (img s) i (off + k) = content (img s) i off @ replicate k 0"
    unfolding content_def upt_add_eq_append [OF le0, of off k] map_append by simp
  moreover have "zero_tail (img s) i (off + k)" using d(3) by (simp add: zero_tail_def nb)
  ultimately show ?thesis using d by (simp add: extended_def nb)
qed

section \<open>The bitmap\<close>

lemma bit_free_mark:
  assumes "length d = BSIZE" "i < BPB"
  shows "bit_free (mark_bit d i) b \<longleftrightarrow> bit_free d b \<and> b \<noteq> i"
proof (cases "b div 8 = i div 8")
  case True
  have i: "i div 8 < length d" using assms by simp
  have bit: "bit (2 ^ c :: byte) k \<longleftrightarrow> k = c" if "c < 8" for c k
    using that by (auto simp: bit_simps)
  have free: "x AND 2 ^ c = 0 \<longleftrightarrow> \<not> bit x c" if "c < 8" for x :: byte and c
    using bit_eq_iff [of "x AND 2 ^ c" 0] that by (auto simp: bit_and_iff bit)
  have "b \<noteq> i \<longleftrightarrow> b mod 8 \<noteq> i mod 8" using True div_mult_mod_eq [of b 8] div_mult_mod_eq [of i 8] by metis
  then show ?thesis using True i by (simp add: bit_free_def mark_bit_def free bit_or_iff bit)
next
  case False
  then show ?thesis by (auto simp: bit_free_def mark_bit_def)
qed

lemma length_mark_bit [simp]: "length (mark_bit d i) = length d"
  by (simp add: mark_bit_def)

lemma bitmap_used:
  assumes "n \<le> BPB" "b < BPB"
  shows "length (fold (\<lambda>i buf. mark_bit buf i) [0..<n] zeroes) = BSIZE"
    "bit_free (fold (\<lambda>i buf. mark_bit buf i) [0..<n] zeroes) b \<longleftrightarrow> n \<le> b"
proof -
  have "length (fold (\<lambda>i buf. mark_bit buf i) [0..<n] zeroes) = BSIZE \<and>
    (bit_free (fold (\<lambda>i buf. mark_bit buf i) [0..<n] zeroes) b \<longleftrightarrow> n \<le> b)" using assms(1)
  proof (induction n)
    case 0
    have "b div 8 < BSIZE" using assms(2) by simp
    then show ?case by (simp add: zeroes_def bit_free_def)
  next
    case (Suc n)
    then show ?case using bit_free_mark [of "fold (\<lambda>i buf. mark_bit buf i) [0..<n] zeroes" n b] by auto
  qed
  then show "length (fold (\<lambda>i buf. mark_bit buf i) [0..<n] zeroes) = BSIZE"
    "bit_free (fold (\<lambda>i buf. mark_bit buf i) [0..<n] zeroes) b \<longleftrightarrow> n \<le> b" by blast+
qed


section \<open>The whole image\<close>

text \<open>The files in the end: the root directory is filled up to the end of its block.\<close>

definition mkfs_disk :: "(byte list \<times> byte list list) list \<Rightarrow> (int \<times> byte list) list" where
  "mkfs_disk files = (mkfs_tree files)[0 := (T_DIR, mkfs_root files @ replicate (BSIZE - length (mkfs_root files)) 0)]"

definition mkfs_zeroed :: mkfsst where
  "mkfs_zeroed = \<lparr>img = (\<lambda>i. if i = 1 then demo_disk 1 else if i < FSSIZE then zeroes else []), freeinode = 1, freeblock = mkfs_nmeta\<rparr>"

lemma zeroed_exact: "exact_image mkfs_zeroed []"
  by (auto simp: exact_image_def fs_image_def disk_ok_def mkfs_zeroed_def mkfs_nmeta_val zeroes_def demo_disk_def encode_sb_def)

lemma zeroed_main:
  "wp (bind (modify (\<lambda>s. s\<lparr>freeblock := mkfs_nmeta\<rparr>)) (\<lambda>_.
     bind (modify (\<lambda>s. s\<lparr>img := (\<lambda>i. if i < FSSIZE then zeroes else img s i)\<rparr>)) (\<lambda>_.
     bind (wsect 1 (blit 0 (encode_sb mkfs_sb) zeroes)) m))) Q mkfs_start = wp (m ()) Q mkfs_zeroed"
  unfolding wp_bind wp_modify
  by (rule arg_cong [of _ _ "wp (m ()) Q"]) (auto simp: mkfs_start_def mkfs_zeroed_def demo_disk_def zeroes_def)

text \<open>The root directory with its first two entries.\<close>

lemma root_exact:
  assumes "exact_image s []"
  shows "wp (mkfs_ialloc T_DIR) (\<lambda>r. wp (panic_if (r \<noteq> ROOTINO) ''assert'') (\<lambda>_. wp (iappend r (encode_dirent r (cstr ''.''))) (\<lambda>_.
    wp (iappend r (encode_dirent r (cstr ''..''))) (\<lambda>_ t. r = ROOTINO \<and> exact_image t (mkfs_tree []) \<and> same_head s t)))) s"
proof (rule wp_mono)
  show "wp (mkfs_ialloc T_DIR) (\<lambda>r t. r = ROOTINO \<and> exact_image t [(T_DIR, [])] \<and> same_head s t) s"
    using ialloc_exact [OF assms _ short_types(1)] by simp
next
  fix r t assume t: "r = ROOTINO \<and> exact_image t [(T_DIR, [])] \<and> same_head s t"
  let ?d = "encode_dirent ROOTINO (cstr ''.'')" and ?dd = "encode_dirent ROOTINO (cstr ''..'')"
  have one: "wp (iappend ROOTINO ?d) (\<lambda>_ u. exact_image u [(T_DIR, ?d)] \<and> same_head t u) t"
    using t iappend_exact [of t "[(T_DIR, [])]" 0 T_DIR "[]" ?d] short_types
    by (simp add: nused_def nblk_def mkfs_nmeta_val)
  have two: "wp (iappend ROOTINO ?dd) (\<lambda>_ v. exact_image v (mkfs_tree []) \<and> same_head u v) u" if "exact_image u [(T_DIR, ?d)]" for u
    using that iappend_exact [of u "[(T_DIR, ?d)]" 0 T_DIR ?d ?dd] short_types
    by (simp add: nused_def nblk_def mkfs_nmeta_val mkfs_tree_def mkfs_root_def)
  have "wp (iappend ROOTINO ?d) (\<lambda>_. wp (iappend ROOTINO ?dd) (\<lambda>_ v. exact_image v (mkfs_tree []) \<and> same_head s v)) t"
  proof (rule wp_mono [OF one])
    fix x u assume u: "exact_image u [(T_DIR, ?d)] \<and> same_head t u"
    show "wp (iappend ROOTINO ?dd) (\<lambda>_ v. exact_image v (mkfs_tree []) \<and> same_head s v) u"
      by (rule wp_mono [OF two]) (use u t in auto)
  qed
  then show "wp (panic_if (r \<noteq> ROOTINO) ''assert'') (\<lambda>_. wp (iappend r (encode_dirent r (cstr ''.''))) (\<lambda>_.
    wp (iappend r (encode_dirent r (cstr ''..''))) (\<lambda>_ t. r = ROOTINO \<and> exact_image t (mkfs_tree []) \<and> same_head s t))) t"
    using t by (simp add: wp_simps)
qed


text \<open>The size of the root directory, which has one block.\<close>

lemma root_size:
  assumes im: "exact_image s (mkfs_tree files)" and ok: "packable files"
  shows "wp (rinode ROOTINO) (\<lambda>din. wp (winode ROOTINO (din\<lparr>i_size := (i_size din div BSIZE + 1) * BSIZE\<rparr>))
    (\<lambda>_ t. fs_image t (mkfs_disk files) \<and> freeblock t = freeblock s \<and> same_head s t)) s"
proof -
  let ?i = "din_at (img s) (Suc 0)" and ?r = "mkfs_root files"
  have f: "mkfs_tree files ! 0 = (T_DIR, ?r)" and im': "fs_image s (mkfs_tree files)" and l: "0 < length (mkfs_tree files)"
    using im by (simp_all add: mkfs_tree_def exact_image_def)
  have len: "length ?r = 16 * length files + 32" "length files + 2 \<le> 29" using ok by (simp_all add: length_mkfs_root packable_def)
  have nb: "nblk (length ?r) = 1" using len by (simp add: nblk_def)
  have d: "disk_ok s" "i_size ?i = length ?r" "blocks_ok (img s) (freeblock s) ?i (nblk (length ?r))" "zero_tail (img s) ?i (length ?r)"
    using fs_imageD [OF im' l] unfolding f by (simp_all add: has_file_def Let_def)
  have div: "(length ?r div BSIZE + 1) * BSIZE = length ?r + (BSIZE - length ?r)" using len by simp
  have "extended s ?i (length ?r) s ?i (length ?r + (BSIZE - length ?r)) (replicate (BSIZE - length ?r) 0)"
    by (rule extended_pad [OF d(1,3,4)]; (unfold nb)?; use len in simp)
  note w = winode_image [OF im' l _ f short_types(1) _ this]
  have "nblk (length ?r + (BSIZE - length ?r)) = 1" using len by (simp add: nblk_def)
  then have "wp (winode ROOTINO (?i\<lparr>i_size := (length ?r div BSIZE + 1) * BSIZE\<rparr>))
      (\<lambda>_ t. fs_image t (mkfs_disk files) \<and> freeblock t = freeblock s \<and> same_head s t) s"
    using w len nb [unfolded len(1)] unfolding div mkfs_disk_def by simp
  then show ?thesis by (simp add: rinode_def Let_def wp_simps d(2) flip: din_at_def)
qed

lemma image_frame:
  assumes im: "fs_image s fs" and u: "disk_ok u" "freeinode u = freeinode s" "freeblock u = freeblock s"
    and same: "\<And>b. 32 < b \<Longrightarrow> img u b = img s b"
  shows "fs_image u fs"
proof -
  have k: "has_file u (Suc n) (fs ! n) \<and> file_blocks u (Suc n) = file_blocks s (Suc n)" if n: "n < length fs" for n
  proof -
    note h = fs_imageD(2) [OF im n]
    have d: "din_at (img u) (Suc n) = din_at (img s) (Suc n)" using same [OF IBLOCK_outside(2)] by (simp add: din_at_def)
    have b: "img u b = img s b" if "b \<in> file_blocks s (Suc n)" for b using that file_blocks_area [OF h] by (intro same) auto
    have fb: "freeblock s \<le> freeblock u" using u(3) by simp
    show ?thesis using has_file_keep [OF h d fb b] by blast
  qed
  show ?thesis using im u k unfolding fs_image_def by simp
qed

lemma balloc_image:
  assumes im: "fs_image s fs" and fb: "freeblock s < BPB"
  shows "wp (mkfs_balloc (freeblock s)) (\<lambda>_ t. fs_image t fs \<and> freeblock t = freeblock s \<and> same_head s t \<and>
    (\<forall>b<BPB. bit_free (img t (sb_bgstart mkfs_sb)) b \<longleftrightarrow> freeblock t \<le> b)) s"
proof -
  let ?m = "fold (\<lambda>i buf. mark_bit buf i) [0..<freeblock s] zeroes"
  let ?t = "s\<lparr>img := (img s)(32 := ?m)\<rparr>"
  have n: "freeblock s \<le> BPB" using fb by simp
  have d: "disk_ok s" using im by (simp add: fs_image_def)
  have bg: "sb_bgstart mkfs_sb = 32" by (simp add: mkfs_sb_def)
  have "length ?m = BSIZE" by (rule bitmap_used(1) [OF n, of 0]) simp
  then have "disk_ok ?t" using d by (auto simp: disk_ok_def mkfs_nmeta_val)
  then have "fs_image ?t fs" by (rule image_frame [OF im]) simp_all
  moreover have "\<forall>b<BPB. bit_free ?m b \<longleftrightarrow> freeblock s \<le> b" using bitmap_used(2) [OF n] by blast
  ultimately show ?thesis using fb by (simp add: mkfs_balloc_def wp_simps bg)
qed

lemma mkfs_main_wp:
  assumes ok: "packable files"
  shows "wp (mkfs_main files) (\<lambda>_ t. fs_image t (mkfs_disk files) \<and> freeblock t = mkfs_nmeta + blocks_in (mkfs_tree files) \<and>
    same_head mkfs_zeroed t \<and> (\<forall>b<BPB. bit_free (img t (sb_bgstart mkfs_sb)) b \<longleftrightarrow> freeblock t \<le> b)) mkfs_start"
proof -
  let ?Q = "\<lambda>(_ :: unit) t. fs_image t (mkfs_disk files) \<and> freeblock t = mkfs_nmeta + blocks_in (mkfs_tree files) \<and>
    same_head mkfs_zeroed t \<and> (\<forall>b<BPB. bit_free (img t (sb_bgstart mkfs_sb)) b \<longleftrightarrow> freeblock t \<le> b)"
  let ?balloc = "bind (gets freeblock) (\<lambda>used. mkfs_balloc used)"
  let ?size = "bind (rinode ROOTINO) (\<lambda>din. bind (winode ROOTINO (din\<lparr>i_size := (i_size din div BSIZE + 1) * BSIZE\<rparr>)) (\<lambda>_. ?balloc))"
  let ?adds = "bind (for_each files (mkfs_add ROOTINO)) (\<lambda>_. ?size)"
  have balloc: "wp ?balloc ?Q t"
    if t: "fs_image t (mkfs_disk files)" "freeblock t = mkfs_nmeta + blocks_in (mkfs_tree files)" "same_head mkfs_zeroed t" for t
  proof -
    have "freeblock t < BPB" using ok t(2) by (simp add: packable_def)
    then show ?thesis using wp_mono [OF balloc_image [OF t(1)]] t by (simp add: wp_simps)
  qed
  have size: "wp ?size ?Q t" if t: "exact_image t (mkfs_tree files)" "same_head mkfs_zeroed t" for t
  proof -
    have fb: "freeblock t = mkfs_nmeta + blocks_in (mkfs_tree files)" using t by (simp add: exact_image_def)
    show ?thesis unfolding wp_bind wp_bind_fun
    proof (rule wp_mono [OF root_size [OF t(1) ok]], rule wp_mono, assumption)
      fix din x u assume "fs_image u (mkfs_disk files) \<and> freeblock u = freeblock t \<and> same_head t u"
      then show "wp (gets freeblock) (\<lambda>used. wp (mkfs_balloc used) ?Q) u"
        using balloc [of u] fb t(2) by (simp add: wp_simps)
    qed
  qed
  have adds: "wp ?adds ?Q t" if t: "exact_image t (mkfs_tree [])" "same_head mkfs_zeroed t" for t
  proof -
    have "wp (for_each files (mkfs_add ROOTINO)) (\<lambda>_ u. exact_image u (mkfs_tree files) \<and> same_head t u) t"
      using mkfs_adds_exact [OF t(1), of files] ok by simp
    then have "wp (for_each files (mkfs_add ROOTINO)) (\<lambda>_. wp ?size ?Q) t"
    proof (rule wp_mono)
      fix x u assume "exact_image u (mkfs_tree files) \<and> same_head t u"
      then show "wp ?size ?Q u" using size [of u] t(2) by simp
    qed
    then show ?thesis by (simp only: wp_bind)
  qed
  show ?thesis
    unfolding mkfs_main_def zeroed_main unfolding wp_bind wp_bind_fun
  proof (rule wp_mono [OF root_exact [OF zeroed_exact]], rule wp_mono, assumption, rule wp_mono, assumption, rule wp_mono, assumption)
    fix r x y z t assume "r = ROOTINO \<and> exact_image t (mkfs_tree []) \<and> same_head mkfs_zeroed t"
    then show "wp (for_each files (mkfs_add r)) (\<lambda>_. wp (rinode r) (\<lambda>din. wp (winode r (din\<lparr>i_size := (i_size din div BSIZE + 1) * BSIZE\<rparr>)) (\<lambda>_.
        wp (gets freeblock) (\<lambda>used. wp (mkfs_balloc used) ?Q)))) t"
      using adds [of t] unfolding wp_bind wp_bind_fun by simp
  qed
qed


section \<open>The kernel on the image\<close>

text \<open>
  A transaction of the kernel over a disk that has the blocks of the image, as they are in its cache or on the disk, except
  for the statistics records of the block groups, which the kernel writes when it boots.
\<close>

definition mounted :: "'z fsst_scheme \<Rightarrow> mkfsst \<Rightarrow> bool" where
  "mounted s t \<longleftrightarrow> txn s \<and> room s \<and> busyb s = {} \<and> sb s = mkfs_sb \<and> lstart s = 2 \<and> disksize s = FSSIZE \<and>
     (\<forall>b<FSSIZE. 32 < b \<longrightarrow> take STATOFF (view s b) = take STATOFF (img t b) \<and>
        ((\<forall>g\<in>{..<BLOCKGROUPS}. b \<noteq> STATBLOCK g mkfs_sb) \<longrightarrow> view s b = img t b))"

lemma STATBLOCK_val: "STATBLOCK g mkfs_sb = 36 + g * 4065"
  by (simp add: STATBLOCK_def mkfs_sb_def)

lemma slice_take: "off + k \<le> n \<Longrightarrow> slice off k (take n d) = slice off k d"
  by (simp add: slice_def drop_take min_def)

lemma mounted_data: "mounted s t \<Longrightarrow> b \<in> data_area BPB \<Longrightarrow> view s b = img t b"
proof -
  assume m: "mounted s t" and b: "b \<in> data_area BPB"
  have "b \<noteq> STATBLOCK g mkfs_sb" for g using b by (cases g) (auto simp: STATBLOCK_val)
  moreover have "32 < b" "b < FSSIZE" using b by auto
  ultimately show ?thesis using m by (simp add: mounted_def)
qed

lemma mounted_inode:
  assumes "mounted s t" "n < IPBG"
  shows "dinode_at (view s) mkfs_sb n = slice (mkfs_slot n) sizeof_dinode (img t (IBLOCK n mkfs_sb))"
proof -
  let ?b = "IBLOCK n mkfs_sb"
  have b: "32 < ?b" "?b < FSSIZE" using IBLOCK_outside(2) IBLOCK_on_disk [of n] assms(2) by simp_all
  have "slice (DINODE_AT n mkfs_sb) sizeof_dinode (view s ?b) = slice (DINODE_AT n mkfs_sb) sizeof_dinode (img t ?b)"
  proof (cases "\<exists>g. ?b = STATBLOCK g mkfs_sb")
    case True
    then have "DINODE_AT n mkfs_sb + sizeof_dinode \<le> STATOFF"
      using inode_clear_of_stats [OF mkfs_sb_geometry] by (auto simp: DINODE_AT_def add.commute)
    moreover have "take STATOFF (view s ?b) = take STATOFF (img t ?b)" using assms(1) b by (simp add: mounted_def)
    ultimately show ?thesis using slice_take by metis
  next
    case False
    then show ?thesis using assms(1) b by (simp add: mounted_def)
  qed
  then show ?thesis by (simp add: dinode_at_def kernel_slot [OF assms(2)])
qed

text \<open>A reference to inode \<open>n\<close> that was not read in yet, as \<^verbatim>\<open>iget\<close> returns it.\<close>

definition fresh_ref :: "'z fsst_scheme \<Rightarrow> nat \<Rightarrow> nat \<Rightarrow> bool" where
  "fresh_ref s ip n \<longleftrightarrow> i_dev (icache s ip) = 1 \<and> i_inum (icache s ip) = n \<and> 1 \<le> i_ref (icache s ip) \<and>
     \<not> i_busy (icache s ip) \<and> \<not> i_valid (icache s ip)"

lemma mounted_home: "mounted s t \<Longrightarrow> 32 < b \<Longrightarrow> b < FSSIZE \<Longrightarrow> home s b"
  by (simp add: mounted_def home_def txn_def)

text \<open>The inode the kernel reads is the one mkfs wrote.\<close>

lemma loaded_image:
  assumes "mounted s t" "fresh_ref s ip n" "n < IPBG"
  shows "i_addrs (loaded s ip) = i_addrs (din_at (img t) n)" "i_type (loaded s ip) = i_type (din_at (img t) n)"
    "i_size (loaded s ip) = i_size (din_at (img t) n)" "i_dev (loaded s ip) = 1" "i_inum (loaded s ip) = n"
    "i_nlink (loaded s ip) = i_nlink (din_at (img t) n)"
proof -
  have sb: "sb s = mkfs_sb" using assms(1) by (simp add: mounted_def)
  note d = mounted_inode [OF assms(1,3)]
  show "i_addrs (loaded s ip) = i_addrs (din_at (img t) n)" "i_type (loaded s ip) = i_type (din_at (img t) n)"
    "i_size (loaded s ip) = i_size (din_at (img t) n)" "i_dev (loaded s ip) = 1" "i_inum (loaded s ip) = n"
    "i_nlink (loaded s ip) = i_nlink (din_at (img t) n)"
    using assms(2) d by (simp_all add: loaded_def din_at_def load_dinode_def fresh_ref_def sb)
qed

lemma image_file:
  assumes m: "mounted s t" and f: "fresh_ref s ip n" "n < IPBG" and h: "has_file t n (ty, bs)" and d: "disk_ok t"
  defines "u \<equiv> upd_ino ip (\<lambda>_. loaded s ip) s"
  shows "file_ok u ip (nblk (length bs))" "k < length bs \<Longrightarrow> fbyte u ip k = bs ! k"
proof -
  let ?i = "din_at (img t) n" and ?nb = "nblk (length bs)"
  have i: "blocks_ok (img t) (freeblock t) ?i ?nb" "content (img t) ?i (length bs) = bs"
    using h by (simp_all add: has_file_def Let_def)
  have ad: "i_addrs (icache u ip) = i_addrs ?i" "i_inum (icache u ip) = n"
    using loaded_image [OF m f] by (simp_all add: u_def)
  have fb: "freeblock t \<le> BPB" using d by (simp add: disk_ok_def)
  have v: "view u b = img t b" "home u b" "b \<noteq> 0" "b \<noteq> IBLOCK n mkfs_sb" if "b \<in> data_area (freeblock t)" for b
    using that m fb mounted_home [OF m, of b] inode_area [OF d, of n] mounted_data [OF m, of b] by (auto simp: u_def)
  have ub: "usable u ip b" if "b \<in> data_area (freeblock t)" for b
    using v [OF that] m ad(2) by (simp add: usable_def) (simp add: u_def mounted_def)
  have blk: "file_block u ip k = fblk (img t) ?i k" if "k < ?nb" for k
  proof (cases "k < NDIRECT")
    case False
    then have "i_addrs ?i ! NDIRECT \<in> data_area (freeblock t)" using i(1) that by (auto simp: blocks_ok_def split: if_splits)
    then show ?thesis using False v(1) by (simp add: file_block_def fblk_def ad)
  qed (simp add: file_block_def fblk_def ad)
  have im: "file_block u ip ` {..<?nb} = fblk (img t) ?i ` {..<?nb}" by (rule image_cong) (use blk in auto)
  have "inj_on (file_block u ip) {..<?nb}"
    using i(1) by (subst inj_on_cong [OF blk]) (auto simp: blocks_ok_def)
  then show "file_ok u ip ?nb"
    using i(1) ub blk unfolding file_ok_def im ad by (auto simp: blocks_ok_def split: if_splits)
  assume k: "k < length bs"
  then have q: "k div BSIZE < ?nb" using nblk_step(4) [of 1 "length bs" k] by (auto simp: Suc_le_eq)
  then have "fblk (img t) ?i (k div BSIZE) \<in> data_area (freeblock t)" using i(1) by (simp add: blocks_ok_def)
  then have "fbyte u ip k = content (img t) ?i (length bs) ! k" using v(1) k by (simp add: fbyte_def blk [OF q] content_def)
  then show "fbyte u ip k = bs ! k" by (simp add: i(2))
qed


lemma kernel_read:
  fixes s :: "'z fsst_scheme"
  assumes m: "mounted s t" and f: "fresh_ref s ip n" "n < IPBG" and h: "has_file t n (ty, bs)" and d: "disk_ok t"
    and ty: "ty = T_DIR \<or> ty = T_FILE" and at: "at \<le> length bs" "at + cnt < 2 ^ 32"
  defines "st \<equiv> \<lparr>st_type = ty, st_dev = 1, st_ino = n, st_nlink = 1, st_size = length bs\<rparr>"
  shows "wp (bind (ilock ip) (\<lambda>_. bind (stati ip) (\<lambda>x. bind (readi dv ip at cnt) (\<lambda>r. return (x, r)))))
    (\<lambda>r _. r = (st, int (length (take cnt (drop at bs))), take cnt (drop at bs))) s"
proof -
  let ?u = "upd_ino ip (\<lambda>_. loaded s ip) s" and ?data = "take cnt (drop at bs)"
  note l = loaded_image [OF m f]
  have i: "i_type (loaded s ip) = ty" "i_size (loaded s ip) = length bs" "blocks_ok (img t) (freeblock t) (din_at (img t) n) (nblk (length bs))"
    "i_nlink (loaded s ip) = 1" using h l by (simp_all add: has_file_def Let_def)
  have mo: "txn s" "room s" "busyb s = {}" "sb s = mkfs_sb" using m by (simp_all add: mounted_def)
  have "IBLOCK n mkfs_sb < FSSIZE" by (rule IBLOCK_on_disk) (use f in simp)
  then have c: "can_inode s n" using mo mounted_home [OF m IBLOCK_outside(2)] by (simp add: can_inode_def mkfs_sb_geometry)
  note fo = image_file [OF m f h d]
  have size: "length bs \<le> nblk (length bs) * BSIZE" by (simp add: nblk_def)
  have "wp (ilock ip) (\<lambda>_ v. same_txn ?u v) s"
    by (rule ilock_wp) (use c f ty i in \<open>auto simp: fresh_ref_def\<close>)
  then have "wp (ilock ip) (\<lambda>_. wp (stati ip) (\<lambda>x. wp (readi dv ip at cnt) (\<lambda>r _. (x, r) = (st, int (length ?data), ?data)))) s"
  proof (rule wp_mono)
    fix x :: unit and v assume v: "same_txn ?u v"
    note fv = file_same [OF v] and fs = same_txn_fs [OF v]
    have ic: "icache v ip = loaded s ip" using fs by simp
    have bu: "busyb v = {}" "sb v = mkfs_sb" "txn v" "home v = home s" "lh_n v = lh_n s"
      using v mo fs home_frame [of ?u v] by (auto simp: same_txn_def quiet_def)
    have "can_content v ip (nblk (length bs)) 0"
      using c l i ic bu fo(1) fv(3) size ty mo by (auto simp: can_content_def can_inode_def room_def blocks_ok_def)
    note r = readi_wp [OF this, of at cnt dv]
    have "wp (readi dv ip at cnt) (\<lambda>r _. r = (int (length ?data), ?data)) v"
    proof (rule wp_mono [OF r])
      show "at \<le> i_size (icache v ip)" "at + cnt < 2 ^ 32" using at by (simp_all add: ic i(2))
      fix y w assume y: "(case y of (r, data) \<Rightarrow> \<lambda>w. r = int (length data) \<and> length data = min cnt (i_size (icache v ip) - at) \<and>
        (\<forall>k<length data. data ! k = fbyte v ip (at + k)) \<and> same_txn v w) w"
      obtain r data where yd: "y = (r, data)" by (cases y)
      have dl: "length data = min cnt (length bs - at)" and dk: "\<And>k. k < length data \<Longrightarrow> data ! k = fbyte v ip (at + k)"
        using y by (simp_all add: yd ic i(2))
      have "data = ?data" by (rule nth_equalityI) (use dl dk fo(2) fv(2) in auto)
      then show "y = (int (length ?data), ?data)" using y by (simp add: yd)
    qed
    then show "wp (stati ip) (\<lambda>x. wp (readi dv ip at cnt) (\<lambda>r _. (x, r) = (st, int (length ?data), ?data))) v"
      using l i by (simp add: stati_def wp_simps ic st_def)
  qed
  then show ?thesis by (simp only: wp_bind wp_bind_fun wp_return_fun)
qed

text \<open>A system call that looks at an inode: its status and \<open>cnt\<close> bytes from \<open>at\<close> on.\<close>

definition read_inode :: "'z fsst_scheme devsw \<Rightarrow> nat \<Rightarrow> nat \<Rightarrow> nat \<Rightarrow> ('z fsst_scheme, stat \<times> int \<times> byte list) kop" where
  "read_inode dv inum at cnt =
     bind begin_op (\<lambda>_. bind (iget ROOTDEV inum) (\<lambda>ip. bind (ilock ip) (\<lambda>_. bind (stati ip) (\<lambda>st. bind (readi dv ip at cnt) (\<lambda>r. return (st, r))))))"

text \<open>The disk mkfs wrote is one the kernel boots from, and what it boots to has the files.\<close>

lemma image_bootable:
  assumes im: "fs_image t fs" and hd: "same_head mkfs_zeroed t" and d: "\<forall>b<FSSIZE. d b = img t b"
  shows "bootable_disk mkfs_sb FSSIZE d"
proof -
  have "d 1 = demo_disk 1" "d 2 = zeroes" using hd d by (simp_all add: mkfs_zeroed_def)
  moreover have "head_n zeroes = 0" by (simp add: head_n_def zeroes_def slice_def as_int_def numeral_Bit0)
  ultimately have "decode_sb (slice 0 sizeof_superblock (d 1)) = mkfs_sb" "head_n (d 2) = 0"
    by (simp_all only: decode_demo)
  moreover have "groups_on_disk mkfs_sb FSSIZE" "sb_nlog mkfs_sb = LOGSIZE"
    by (simp_all add: groups_on_disk_def mkfs_sb_geometry) (simp_all add: mkfs_sb_def)
  moreover have "\<forall>k<FSSIZE. length (d k) = BSIZE" using im d by (simp add: fs_image_def disk_ok_def)
  ultimately show ?thesis by (simp add: bootable_disk_def)
qed

lemma booted_mounted:
  fixes s v :: "'z fsst_scheme"
  assumes u: "booted mkfs_sb s u" and s: "disksize s = FSSIZE" "\<forall>b<FSSIZE. disk s b = img t b"
    and v: "txn v" "room v" "busyb v = {}" "lstart v = 2" "sb v = mkfs_sb" "disksize v = disksize u" "view v = disk u"
  shows "mounted v t"
proof -
  obtain d where d: "but_stats mkfs_sb (disk s) d" "disk u = d(2 := put_head 0 (\<lambda>_. 0) (d 2))" using u by (auto simp: booted_def)
  have n: "sb_nblockgroups mkfs_sb = BLOCKGROUPS" by (simp add: mkfs_sb_def)
  have "take STATOFF (view v b) = take STATOFF (img t b) \<and>
      ((\<forall>g\<in>{..<BLOCKGROUPS}. b \<noteq> STATBLOCK g mkfs_sb) \<longrightarrow> view v b = img t b)" if "b < FSSIZE" "32 < b" for b
    using d that s(2) v(7) by (simp add: but_stats_def n)
  then show ?thesis using v u s(1) by (simp add: mounted_def booted_def)
qed

section \<open>Properties\<close>

lemma mkfs_disk_nth:
  assumes "n < length (mkfs_disk files)" "mkfs_disk files ! n = (ty, bs)"
  shows "ty = T_DIR \<or> ty = T_FILE"
  using assms by (cases n) (auto simp: mkfs_disk_def mkfs_tree_def)

text \<open>
  The blocks of the files are counted: they are different ones, all of them in the data area, and as many as the data area has.
\<close>

lemma card_owned: "blocks_ok m fb i nb \<Longrightarrow> card (owned m i nb) = nused nb"
  by (auto simp: blocks_ok_def owned_def nused_def card_image)

lemma blocks_in_sum: "blocks_in fs = (\<Sum>n<length fs. nused (nblk (length (snd (fs ! n)))))"
  by (simp add: blocks_in_def sum_list_sum_nth atLeast0LessThan)

lemma image_blocks:
  assumes im: "fs_image t fs" and fb: "freeblock t = mkfs_nmeta + blocks_in fs"
  shows "(\<Union>n<length fs. file_blocks t (Suc n)) = data_area (freeblock t)"
proof (rule card_subset_eq)
  have k: "file_blocks t (Suc n) \<subseteq> data_area (freeblock t)" "card (file_blocks t (Suc n)) = nused (nblk (length (snd (fs ! n))))"
    if "n < length fs" for n
  proof -
    have h: "has_file t (Suc n) (fs ! n)" by (rule fs_imageD(2) [OF im that])
    show "file_blocks t (Suc n) \<subseteq> data_area (freeblock t)" by (rule file_blocks_area [OF h])
    show "card (file_blocks t (Suc n)) = nused (nblk (length (snd (fs ! n))))"
      using h card_owned unfolding has_file_def file_blocks_def Let_def by auto
  qed
  show "(\<Union>n<length fs. file_blocks t (Suc n)) \<subseteq> data_area (freeblock t)" using k(1) by blast
  have "card (\<Union>n<length fs. file_blocks t (Suc n)) = (\<Sum>n<length fs. card (file_blocks t (Suc n)))"
  proof (rule card_UN_disjoint)
    show "\<forall>n\<in>{..<length fs}. finite (file_blocks t (Suc n))" using k(1) finite_subset by blast
    show "\<forall>m\<in>{..<length fs}. \<forall>n\<in>{..<length fs}. m \<noteq> n \<longrightarrow> file_blocks t (Suc m) \<inter> file_blocks t (Suc n) = {}"
      using im by (simp add: fs_image_def)
  qed simp
  also have "\<dots> = blocks_in fs" unfolding blocks_in_sum by (rule sum.cong) (use k(2) in auto)
  also have "\<dots> = card (data_area (freeblock t))" using fb by (simp add: mkfs_nmeta_val)
  finally show "card (\<Union>n<length fs. file_blocks t (Suc n)) = card (data_area (freeblock t))" .
qed simp

lemma blocks_in_disk:
  assumes "packable files"
  shows "blocks_in (mkfs_disk files) = blocks_in (mkfs_tree files)"
proof -
  have "length (mkfs_root files) = 16 * length files + 32" "length files + 2 \<le> 29"
    using assms by (simp_all add: length_mkfs_root packable_def)
  then have "nblk (length (mkfs_root files)) = 1" "nblk (length (mkfs_root files @ replicate (BSIZE - length (mkfs_root files)) 0)) = 1"
    by (simp_all add: nblk_def)
  then show ?thesis
    using blocks_in_update [of 0 "mkfs_tree files" "(T_DIR, mkfs_root files @ replicate (BSIZE - length (mkfs_root files)) 0)"]
    unfolding mkfs_disk_def by (simp add: mkfs_tree_def)
qed

text \<open>
  C7. When the inodes of the files fit in the first block group and their blocks in its bitmap, mkfs completes, and the image
  is consistent: the kernel finds the superblock in block 1; the bitmap of the first group marks the numbers before
  \<open>freeblock\<close> and no others; the first \<open>mkfs_nmeta\<close> of them are reserved, and the blocks of the others are exactly the blocks of
  the files, the indirect ones included; and no block belongs to two files.
\<close>

theorem mkfs_image_consistent:
  assumes "packable files"
  shows "wp (mkfs_main files) (\<lambda>_ t. decode_sb (slice 0 sizeof_superblock (img t 1)) = mkfs_sb \<and>
    (\<forall>b<BPB. bit_free (img t (sb_bgstart mkfs_sb)) b \<longleftrightarrow> freeblock t \<le> b) \<and>
    freeblock t = mkfs_nmeta + blocks_in (mkfs_tree files) \<and>
    (\<Union>n<length (mkfs_disk files). file_blocks t (Suc n)) =
      {DBLOCK b mkfs_sb | b. mkfs_nmeta \<le> b \<and> b < BPB \<and> \<not> bit_free (img t (sb_bgstart mkfs_sb)) b} \<and>
    (\<forall>m<length (mkfs_disk files). \<forall>n<length (mkfs_disk files). m \<noteq> n \<longrightarrow> file_blocks t (Suc m) \<inter> file_blocks t (Suc n) = {}))
    mkfs_start"
proof (rule wp_mono [OF mkfs_main_wp [OF assms]], elim conjE, intro conjI)
  fix t
  assume im: "fs_image t (mkfs_disk files)" and fb: "freeblock t = mkfs_nmeta + blocks_in (mkfs_tree files)" and hd: "same_head mkfs_zeroed t"
    and bits: "\<forall>b<BPB. bit_free (img t (sb_bgstart mkfs_sb)) b \<longleftrightarrow> freeblock t \<le> b"
  have "img t 1 = demo_disk 1" using hd by (simp add: mkfs_zeroed_def)
  then show "decode_sb (slice 0 sizeof_superblock (img t 1)) = mkfs_sb" by (simp only: decode_demo)
  show "\<forall>b<BPB. bit_free (img t (sb_bgstart mkfs_sb)) b \<longleftrightarrow> freeblock t \<le> b" by (rule bits)
  show "freeblock t = mkfs_nmeta + blocks_in (mkfs_tree files)" by (rule fb)
  show "\<forall>m<length (mkfs_disk files). \<forall>n<length (mkfs_disk files). m \<noteq> n \<longrightarrow> file_blocks t (Suc m) \<inter> file_blocks t (Suc n) = {}"
    using im by (simp add: fs_image_def)
  have le: "freeblock t \<le> BPB" using im by (simp add: fs_image_def disk_ok_def)
  have "x \<in> data_area (freeblock t) \<longleftrightarrow>
      (\<exists>b. x = DBLOCK b mkfs_sb \<and> mkfs_nmeta \<le> b \<and> b < BPB \<and> \<not> bit_free (img t (sb_bgstart mkfs_sb)) b)" for x
  proof
    assume "x \<in> data_area (freeblock t)"
    then have "x = x - 36 + 36" "mkfs_nmeta \<le> x - 36" "x - 36 < freeblock t" "x - 36 < BPB" using le by (auto simp: mkfs_nmeta_val)
    then show "\<exists>b. x = DBLOCK b mkfs_sb \<and> mkfs_nmeta \<le> b \<and> b < BPB \<and> \<not> bit_free (img t (sb_bgstart mkfs_sb)) b"
      using bits DBLOCK_small [of "x - 36"] by (intro exI [of _ "x - 36"]) simp
  next
    assume "\<exists>b. x = DBLOCK b mkfs_sb \<and> mkfs_nmeta \<le> b \<and> b < BPB \<and> \<not> bit_free (img t (sb_bgstart mkfs_sb)) b"
    then show "x \<in> data_area (freeblock t)" using bits DBLOCK_small by (auto simp: mkfs_nmeta_val not_le)
  qed
  then show "(\<Union>n<length (mkfs_disk files). file_blocks t (Suc n)) =
      {DBLOCK b mkfs_sb | b. mkfs_nmeta \<le> b \<and> b < BPB \<and> \<not> bit_free (img t (sb_bgstart mkfs_sb)) b}"
    unfolding image_blocks [OF im fb [folded blocks_in_disk [OF assms]]] by blast
qed

text \<open>Two programs: one with an underscore, read in two pieces, and one of a single byte.\<close>

definition demo_files :: "(byte list \<times> byte list list) list" where
  "demo_files = [(cstr ''_cat'', [[1, 2, 3], [4, 5]]), (cstr ''README'', [[6]])]"

lemma demo_files_packable: "packable demo_files"
  by (simp add: packable_def demo_files_def mkfs_tree_def length_mkfs_root mkfs_nmeta_val nused_def nblk_def cstr_def)

theorem mkfs_image_consistent_witness:
  "wp (mkfs_main demo_files) (\<lambda>_ t. decode_sb (slice 0 sizeof_superblock (img t 1)) = mkfs_sb \<and> freeblock t = 160 \<and>
    bit_free (img t 32) 160 \<and> \<not> bit_free (img t 32) 159 \<and> DBLOCK 159 mkfs_sb \<in> (\<Union>n<3. file_blocks t (Suc n)) \<and>
    file_blocks t 2 \<inter> file_blocks t 3 = {}) mkfs_start"
proof (rule wp_mono [OF mkfs_image_consistent [OF demo_files_packable]], elim conjE, intro conjI)
  fix t
  assume a: "decode_sb (slice 0 sizeof_superblock (img t 1)) = mkfs_sb"
    "\<forall>b<BPB. bit_free (img t (sb_bgstart mkfs_sb)) b \<longleftrightarrow> freeblock t \<le> b" "freeblock t = mkfs_nmeta + blocks_in (mkfs_tree demo_files)"
    "\<forall>m<length (mkfs_disk demo_files). \<forall>n<length (mkfs_disk demo_files). m \<noteq> n \<longrightarrow> file_blocks t (Suc m) \<inter> file_blocks t (Suc n) = {}"
    "(\<Union>n<length (mkfs_disk demo_files). file_blocks t (Suc n)) =
      {DBLOCK b mkfs_sb | b. mkfs_nmeta \<le> b \<and> b < BPB \<and> \<not> bit_free (img t (sb_bgstart mkfs_sb)) b}"
  have bg: "sb_bgstart mkfs_sb = 32" and l: "length (mkfs_disk demo_files) = 3"
    by (simp_all add: mkfs_sb_def mkfs_disk_def mkfs_tree_def demo_files_def)
  show fb: "freeblock t = 160"
    using a(3) by (simp add: mkfs_tree_def length_mkfs_root mkfs_nmeta_val nused_def nblk_def demo_files_def)
  show "decode_sb (slice 0 sizeof_superblock (img t 1)) = mkfs_sb" by (rule a(1))
  show "bit_free (img t 32) 160" and m: "\<not> bit_free (img t 32) 159" using a(2) by (simp_all add: bg fb)
  show "DBLOCK 159 mkfs_sb \<in> (\<Union>n<3. file_blocks t (Suc n))"
    unfolding a(5) [unfolded l bg] using m by (auto simp: mkfs_nmeta_val)
  show "file_blocks t 2 \<inter> file_blocks t 3 = {}" using a(4) [unfolded l, rule_format, of 1 2] by (simp add: numeral_2_eq_2 numeral_3_eq_3)
qed


text \<open>
  C3. What mkfs packs is what the kernel reads. Let mkfs have built the image from files whose inodes and blocks fit in the first
  block group, and let a kernel be started on that disk. It boots (buffers, root directory, statistics of the block groups, recovery of the log),
  and a system call that then takes inode \<open>n + 1\<close>, locks it and reads \<open>cnt\<close> bytes at \<open>at\<close> gets those bytes of the \<open>n\<close>-th file of
  \<open>mkfs_disk\<close>, up to its end, and its type, link count and size; although boot has changed the disk. File 0 is the root directory:
  the entries for \<^verbatim>\<open>.\<close>, \<^verbatim>\<open>..\<close> and the names of the command line without the leading underscore, in this order, then zeroes up to
  the end of the block; the others are the concatenation of the pieces read from the host, whether or not they are
  aligned to blocks.
\<close>

theorem kernel_reads_image:
  fixes s :: "'z fsst_scheme"
  assumes "packable files" and "mkfs_main files mkfs_start = Ok () t"
    and "powered_on s" and "disksize s = FSSIZE" and "\<forall>b<FSSIZE. disk s b = img t b"
    and "n < length (mkfs_disk files)" and "mkfs_disk files ! n = (ty, bs)" and "at \<le> length bs" and "at + cnt < 2 ^ 32"
  shows "wp (bind (boot dv) (\<lambda>_. read_inode dv (Suc n) at cnt))
    (\<lambda>(st, r, data) _. st = \<lparr>st_type = ty, st_dev = 1, st_ino = Suc n, st_nlink = 1, st_size = length bs\<rparr> \<and>
       r = int (length data) \<and> data = take cnt (drop at bs)) s"
proof -
  let ?st = "\<lparr>st_type = ty, st_dev = 1, st_ino = Suc n, st_nlink = 1, st_size = length bs\<rparr>" and ?data = "take cnt (drop at bs)"
  let ?Q = "\<lambda>r (_ :: 'z fsst_scheme). r = (?st, int (length ?data), ?data)"
  have im: "fs_image t (mkfs_disk files)" "same_head mkfs_zeroed t" using wp_OkD [OF mkfs_main_wp [OF assms(1)] assms(2)] by simp_all
  have "length (mkfs_disk files) < IPBG" using assms(1) by (simp add: packable_def mkfs_disk_def mkfs_tree_def)
  then have n: "Suc n < IPBG" using assms(6) by simp
  have h: "has_file t (Suc n) (ty, bs)" using fs_imageD(2) [OF im(1) assms(6)] assms(7) by simp
  have "wp (boot dv) (\<lambda>_ u. booted mkfs_sb s u) s"
    by (rule boot_wp [OF assms(3)]) (unfold assms(4), rule image_bootable [OF im assms(5)])
  then have "wp (boot dv) (\<lambda>_. wp (read_inode dv (Suc n) at cnt) ?Q) s"
  proof (rule wp_mono)
    fix x :: unit and u :: "'z fsst_scheme"
    assume u: "booted mkfs_sb s u"
    then have du: "2 + LOGSIZE \<le> disksize u" using assms(4) by (simp add: booted_def)
    show "wp (read_inode dv (Suc n) at cnt) ?Q u"
      unfolding read_inode_def wp_bind [of begin_op]
    proof (rule wp_mono [OF begin_op_wp [OF u du]], elim conjE)
      fix y :: unit and v :: "'z fsst_scheme"
      assume v: "txn v" "room v" "busyb v = {}" "lstart v = 2" "sb v = mkfs_sb" "disksize v = disksize u" "view v = disk u" "icache v = icache u"
      have m: "mounted v t" by (rule booted_mounted [OF u assms(4,5) v(1-7)])
      have "idle_icache (icache v)" using u v(8) by (simp add: booted_def)
      then show "wp (bind (iget ROOTDEV (Suc n)) (\<lambda>ip. bind (ilock ip) (\<lambda>_. bind (stati ip) (\<lambda>st. bind (readi dv ip at cnt) (\<lambda>r. return (st, r)))))) ?Q v"
        unfolding wp_bind [of "iget ROOTDEV (Suc n)"]
      proof (rule wp_mono [OF iget_idle], elim exE conjE)
        fix ip x and w :: "'z fsst_scheme"
        assume w: "w = upd_ino ip (\<lambda>_. x) v" and x: "i_dev x = 1" "i_inum x = Suc n" "1 \<le> i_ref x" "\<not> i_busy x" "\<not> i_valid x"
        have "mounted w t" "fresh_ref w ip (Suc n)" using m x unfolding w by (simp_all add: mounted_def fresh_ref_def)
        then show "wp (bind (ilock ip) (\<lambda>_. bind (stati ip) (\<lambda>st. bind (readi dv ip at cnt) (\<lambda>r. return (st, r))))) ?Q w"
          by (rule kernel_read [OF _ _ n h fs_imageD(1) [OF im(1) assms(6)] mkfs_disk_nth [OF assms(6,7)] assms(8,9)])
      qed
    qed
  qed
  then show ?thesis unfolding wp_bind by (rule wp_mono) (erule wp_mono, simp)
qed

text \<open>A kernel that was just started on the disk.\<close>

definition demo_power_on :: "mkfsst \<Rightarrow> fsst" where
  "demo_power_on t = \<lparr>bufs = (\<lambda>_. demo_buf), disk = img t, disksize = FSSIZE, dwrites = [], wakes = [],
     lstart = 0, lsize = 0, outstanding = 0, committing = False, ldev = 0, lh_n = 0, lh_block = (\<lambda>_. 0),
     sb = mkfs_sb, icache = (\<lambda>_. demo_inode\<lparr>i_ref := 0\<rparr>), cwd = 0\<rparr>"

definition no_devices :: "fsst devsw" where
  "no_devices = \<lparr>dev_read = \<lambda>_. None, dev_write = \<lambda>_. None\<rparr>"

theorem kernel_reads_image_witness:
  "\<exists>t. mkfs_main demo_files mkfs_start = Ok () t \<and>
     wp (bind (boot no_devices) (\<lambda>_. read_inode no_devices 2 1 100))
       (\<lambda>(st, r, data) u. data = [2, 3, 4, 5] \<and> st_size st = 5) (demo_power_on t)"
proof -
  obtain t where t: "mkfs_main demo_files mkfs_start = Ok () t"
    using mkfs_main_wp [OF demo_files_packable] unfolding wp_Ok by auto
  have f: "mkfs_disk demo_files ! 1 = (T_FILE, [1, 2, 3, 4, 5])" "1 < length (mkfs_disk demo_files)"
    by (simp_all add: mkfs_disk_def mkfs_tree_def demo_files_def)
  have p: "powered_on (demo_power_on t)" "disksize (demo_power_on t) = FSSIZE" "\<forall>b<FSSIZE. disk (demo_power_on t) b = img t b"
    by (simp_all add: powered_on_def zeroed_bufs_def demo_power_on_def demo_buf_def)
  have "wp (bind (boot no_devices) (\<lambda>_. read_inode no_devices (Suc 1) 1 100))
    (\<lambda>(st, r, data) u. data = [2, 3, 4, 5] \<and> st_size st = 5) (demo_power_on t)"
    by (rule wp_mono [OF kernel_reads_image [OF demo_files_packable t p f(2,1)]]) auto
  then have "wp (bind (boot no_devices) (\<lambda>_. read_inode no_devices 2 1 100))
    (\<lambda>(st, r, data) u. data = [2, 3, 4, 5] \<and> st_size st = 5) (demo_power_on t)" by (simp only: Suc_1)
  then show ?thesis using t by blast
qed

end
