(* ===== verification/Umalloc.thy ===== *)
theory Umalloc
  imports Prelude
begin

text \<open>
  umalloc.c, the memory allocator of the user programs: a circular list of free blocks, ordered by address, that starts at the static
  header \<^verbatim>\<open>base\<close>. The state has the two fields of the header at every address; sizes count units of a header. Sizes are
  unsigned 32-bit numbers, with the wrap-around written out; addresses are natural numbers. Whether the kernel grants
  a new break is an argument. A loop that never ends has the value \<open>None\<close>.

  The invariant (\<open>free_list\<close>) is about the list of the free headers; the operations are specified by the set of the free bytes: a
  block is carved out of it, or given back.
\<close>

section \<open>The allocator\<close>

record heap =
  hptr :: "nat \<Rightarrow> nat"
  hsize :: "nat \<Rightarrow> nat"
  freep :: nat
  base_at :: nat
  brk :: nat

abbreviation sizeof_Header :: nat where "sizeof_Header \<equiv> 8"

text \<open>The loop of \<^verbatim>\<open>free\<close> that finds the place of the block.\<close>

partial_function (option) free_loop :: "heap \<Rightarrow> nat \<Rightarrow> nat \<Rightarrow> nat option" where
  "free_loop s bp p =
     (if bp > p \<and> bp < hptr s p then Some p
      else if p \<ge> hptr s p \<and> (bp > p \<or> bp < hptr s p) then Some p
      else free_loop s bp (hptr s p))"

definition free_at :: "nat \<Rightarrow> nat \<Rightarrow> heap \<Rightarrow> heap" where
  "free_at bp p s =
     (let n = hptr s p;
          s1 = (if bp + sizeof_Header * hsize s bp = n
                then s\<lparr>hsize := (hsize s)(bp := (hsize s bp + hsize s n) mod 2 ^ 32), hptr := (hptr s)(bp := hptr s n)\<rparr>
                else s\<lparr>hptr := (hptr s)(bp := n)\<rparr>);
          s2 = (if p + sizeof_Header * hsize s1 p = bp
                then s1\<lparr>hsize := (hsize s1)(p := (hsize s1 p + hsize s1 bp) mod 2 ^ 32), hptr := (hptr s1)(p := hptr s1 bp)\<rparr>
                else s1\<lparr>hptr := (hptr s1)(p := bp)\<rparr>)
      in s2\<lparr>freep := p\<rparr>)"

definition ufree :: "nat \<Rightarrow> heap \<Rightarrow> heap option" where
  "ufree ap s =
     (let bp = ap - sizeof_Header in
      map_option (\<lambda>p. free_at bp p s) (free_loop s bp (freep s)))"

text \<open>\<^verbatim>\<open>sbrk\<close>: the argument is an int; the old break, or nothing if the kernel refuses.\<close>

definition as_int32 :: "nat \<Rightarrow> int" where
  "as_int32 n = (if n < 2 ^ 31 then int n else int n - 2 ^ 32)"

definition sbrk :: "(int \<Rightarrow> bool) \<Rightarrow> int \<Rightarrow> heap \<Rightarrow> (nat \<times> heap) option" where
  "sbrk grants n s = (if grants (int (brk s) + n) then Some (brk s, s\<lparr>brk := nat (int (brk s) + n)\<rparr>) else None)"

definition morecore :: "(int \<Rightarrow> bool) \<Rightarrow> nat \<Rightarrow> heap \<Rightarrow> (nat \<times> heap) option" where
  "morecore grants nu s =
     (let nu = (if nu < 4096 then 4096 else nu) in
      case sbrk grants (as_int32 (nu * sizeof_Header mod 2 ^ 32)) s of
        None \<Rightarrow> Some (0, s)
      | Some (hp, s1) \<Rightarrow> map_option (\<lambda>t. (freep t, t)) (ufree (hp + sizeof_Header) (s1\<lparr>hsize := (hsize s1)(hp := nu)\<rparr>)))"

text \<open>A block that is large enough: all of it, or its end.\<close>

definition carve :: "nat \<Rightarrow> nat \<Rightarrow> nat \<Rightarrow> heap \<Rightarrow> nat \<times> heap" where
  "carve nunits prevp p s =
     (if hsize s p = nunits then (p + sizeof_Header, s\<lparr>hptr := (hptr s)(prevp := hptr s p), freep := prevp\<rparr>)
      else
        let sz = hsize s p - nunits; q = p + sizeof_Header * sz in
        (q + sizeof_Header, s\<lparr>hsize := (hsize s)(p := sz, q := nunits), freep := prevp\<rparr>))"

partial_function (option) malloc_loop :: "(int \<Rightarrow> bool) \<Rightarrow> nat \<Rightarrow> heap \<Rightarrow> nat \<Rightarrow> nat \<Rightarrow> (nat \<times> heap) option" where
  "malloc_loop grants nunits s prevp p =
     (if hsize s p \<ge> nunits then Some (carve nunits prevp p s)
      else if p = freep s then
        Option.bind (morecore grants nunits s) (\<lambda>(p', t).
        if p' = 0 then Some (0, t) else malloc_loop grants nunits t p' (hptr t p'))
      else malloc_loop grants nunits s p (hptr s p))"

definition units :: "nat \<Rightarrow> nat" where
  "units nbytes = (nbytes + sizeof_Header - 1) mod 2 ^ 32 div sizeof_Header + 1"

definition umalloc :: "(int \<Rightarrow> bool) \<Rightarrow> nat \<Rightarrow> heap \<Rightarrow> (nat \<times> heap) option" where
  "umalloc grants nbytes s =
     (let s1 = (if freep s = 0 then s\<lparr>hptr := (hptr s)(base_at s := base_at s), hsize := (hsize s)(base_at s := 0), freep := base_at s\<rparr> else s)
      in malloc_loop grants (units nbytes) s1 (freep s1) (hptr s1 (freep s1)))"

section \<open>Chains of headers\<close>

fun hchain :: "(nat \<Rightarrow> nat \<Rightarrow> bool) \<Rightarrow> nat list \<Rightarrow> nat \<Rightarrow> bool" where
  "hchain R [] e = True"
| "hchain R (x # xs) e = (R x (hd (xs @ [e])) \<and> hchain R xs e)"

lemma hchain_append [simp]: "hchain R (xs @ ys) e \<longleftrightarrow> hchain R xs (hd (ys @ [e])) \<and> hchain R ys e"
proof (induction xs)
  case (Cons x xs)
  then show ?case by (cases xs) auto
qed simp

lemma hchain_cong: "(\<And>x y. x \<in> set xs \<Longrightarrow> R x y = R' x y) \<Longrightarrow> hchain R xs e = hchain R' xs e"
  by (induction xs) auto

definition linked :: "(nat \<Rightarrow> nat) \<Rightarrow> nat list \<Rightarrow> nat \<Rightarrow> bool" where
  "linked h = hchain (\<lambda>x y. h x = y)"

definition spaced :: "(nat \<Rightarrow> nat) \<Rightarrow> nat list \<Rightarrow> nat \<Rightarrow> bool" where
  "spaced z = hchain (\<lambda>x y. x + 8 * max 1 (z x) \<le> y)"

lemma linked_simps [simp]:
  "linked h [] e" "linked h (x # xs) e \<longleftrightarrow> h x = hd (xs @ [e]) \<and> linked h xs e"
  "linked h (xs @ ys) e \<longleftrightarrow> linked h xs (hd (ys @ [e])) \<and> linked h ys e"
  "q \<notin> set xs \<Longrightarrow> linked (h(q := v)) xs e = linked h xs e"
  by (simp_all add: linked_def) (rule hchain_cong, auto)

lemma spaced_simps [simp]:
  "spaced z [] e" "spaced z (x # xs) e \<longleftrightarrow> x + 8 * max 1 (z x) \<le> hd (xs @ [e]) \<and> spaced z xs e"
  "spaced z (xs @ ys) e \<longleftrightarrow> spaced z xs (hd (ys @ [e])) \<and> spaced z ys e"
  "q \<notin> set xs \<Longrightarrow> spaced (z(q := v)) xs e = spaced z xs e"
  by (simp_all add: spaced_def) (rule hchain_cong, auto)

lemma spaced_mono: "spaced z xs e \<Longrightarrow> e \<le> e' \<Longrightarrow> spaced z xs e'"
proof (induction xs)
  case (Cons x xs)
  then show ?case by (cases xs) auto
qed simp

lemma spaced_below: "spaced z xs e \<Longrightarrow> x \<in> set xs \<Longrightarrow> x + 8 * max 1 (z x) \<le> e"
proof (induction xs arbitrary: x)
  case (Cons a xs)
  show ?case
  proof (cases xs)
    case Nil
    then show ?thesis using Cons.prems by simp
  next
    case (Cons b ys)
    then have "b + 8 * max 1 (z b) \<le> e" "x \<in> set xs \<Longrightarrow> x + 8 * max 1 (z x) \<le> e" "a + 8 * max 1 (z a) \<le> b" "x = a \<or> x \<in> set xs"
      using Cons.IH [of b] Cons.IH [of x] Cons.prems by simp_all
    then show ?thesis by auto
  qed
qed simp

lemma spaced_above: "spaced z (x # xs) e \<Longrightarrow> y \<in> set xs \<Longrightarrow> x + 8 * max 1 (z x) \<le> y"
proof (induction xs arbitrary: x)
  case (Cons a xs)
  show ?case
  proof (cases "y = a")
    case False
    then have "a + 8 * max 1 (z a) \<le> y" "x + 8 * max 1 (z x) \<le> a" using Cons.IH [of a] Cons.prems by auto
    then show ?thesis by linarith
  qed (use Cons.prems in simp)
qed simp

lemma spaced_sorted: "spaced z xs e \<Longrightarrow> sorted_wrt (<) xs"
proof (induction xs)
  case (Cons x xs)
  then show ?case using spaced_above [of z x xs e] by fastforce
qed simp

lemma spaced_distinct: "spaced z xs e \<Longrightarrow> distinct xs"
  using spaced_sorted strict_sorted_iff by blast


section \<open>The free list\<close>

definition free_list :: "heap \<Rightarrow> nat list \<Rightarrow> bool" where
  "free_list s bs \<longleftrightarrow> bs \<noteq> [] \<and> hd bs = base_at s \<and> 0 < base_at s \<and> hsize s (base_at s) = 0 \<and>
     linked (hptr s) bs (base_at s) \<and> spaced (hsize s) bs (brk s) \<and> brk s \<le> 2 ^ 31 \<and> (\<forall>b\<in>set bs. b = base_at s \<or> 0 < hsize s b)"

definition free_bytes :: "heap \<Rightarrow> nat list \<Rightarrow> nat set" where
  "free_bytes s bs = (\<Union>b\<in>set bs. {b..<b + 8 * hsize s b})"

lemma free_list_distinct: "free_list s bs \<Longrightarrow> distinct bs"
  using spaced_distinct by (auto simp: free_list_def)

lemma free_bytes_split: "free_bytes s (xs @ p # ys) = free_bytes s xs \<union> {p..<p + 8 * hsize s p} \<union> free_bytes s ys"
  by (auto simp: free_bytes_def)

lemma free_list_freep [simp]: "free_list (s\<lparr>freep := q\<rparr>) bs = free_list s bs" "free_bytes (s\<lparr>freep := q\<rparr>) bs = free_bytes s bs"
  by (simp_all add: free_list_def free_bytes_def)

lemma free_list_base:
  assumes "free_list s bs"
  shows "base_at s \<in> set bs" "b \<in> set bs \<Longrightarrow> base_at s \<le> b"
proof -
  obtain xs where bs: "bs = base_at s # xs" using assms by (cases bs) (auto simp: free_list_def)
  show "base_at s \<in> set bs" by (simp add: bs)
  have "spaced (hsize s) (base_at s # xs) (brk s)" using assms unfolding free_list_def bs by blast
  note spaced_above [OF this]
  then show "b \<in> set bs \<Longrightarrow> base_at s \<le> b" using bs by fastforce
qed

lemma free_list_freep_pos: "free_list s bs \<Longrightarrow> freep s \<in> set bs \<Longrightarrow> freep s \<noteq> 0"
  using free_list_base(2) [of s bs "freep s"] by (auto simp: free_list_def)

lemma header_free:
  assumes "free_list s bs" "b \<in> set bs"
  shows "b = base_at s \<or> b \<in> free_bytes s bs"
proof -
  have "b = base_at s \<or> 0 < hsize s b" using assms by (simp add: free_list_def)
  then show ?thesis using assms(2) by (auto simp: free_bytes_def intro!: bexI [of _ b])
qed

lemma free_bytes_cong: "(\<And>b. b \<in> set bs \<Longrightarrow> hsize t b = hsize s b) \<Longrightarrow> free_bytes t bs = free_bytes s bs"
  by (simp add: free_bytes_def)

lemma free_list_hd: "free_list s (xs @ p # ys) \<Longrightarrow> hd (xs @ [p]) = base_at s"
  by (cases xs) (auto simp: free_list_def)

lemma hd_of: "hd (xs @ [p]) = b \<Longrightarrow> hd (xs @ p # ys) = b"
  by (cases xs) auto

lemma link_list:
  assumes l: "free_list s (xs @ p # ys)" and bp: "p + 8 * max 1 (hsize s p) \<le> bp" "bp + 8 * max 1 (hsize s bp) \<le> hd (ys @ [brk s])"
    "0 < hsize s bp"
  defines "t \<equiv> s\<lparr>hptr := (hptr s)(bp := hptr s p, p := bp)\<rparr>"
  shows "free_list t (xs @ p # bp # ys)" "free_bytes t (xs @ p # bp # ys) = free_bytes s (xs @ p # ys) \<union> {bp..<bp + 8 * hsize s bp}"
proof -
  have sp: "spaced (hsize s) (xs @ p # bp # ys) (brk s)" using l bp by (simp add: free_list_def)
  note d = spaced_distinct [OF sp]
  note hd = hd_of [OF free_list_hd [OF l]]
  have f: "base_at t = base_at s" "hsize t = hsize s" "brk t = brk s" by (simp_all add: t_def)
  have "linked (hptr t) (xs @ p # bp # ys) (base_at s)" using l d by (auto simp: free_list_def t_def)
  then show "free_list t (xs @ p # bp # ys)" using l sp bp(3) unfolding free_list_def f hd by auto
  show "free_bytes t (xs @ p # bp # ys) = free_bytes s (xs @ p # ys) \<union> {bp..<bp + 8 * hsize s bp}"
    by (auto simp: free_bytes_def t_def)
qed

lemma unlink_list:
  assumes l: "free_list s (xs @ a # b # ys)"
  defines "t \<equiv> s\<lparr>hptr := (hptr s)(a := hptr s b)\<rparr>"
  shows "free_list t (xs @ a # ys)" "free_bytes t (xs @ a # ys) = free_bytes s (xs @ a # b # ys) - {b..<b + 8 * hsize s b}"
proof -
  have sp: "spaced (hsize s) (xs @ a # b # ys) (brk s)" using l by (simp add: free_list_def)
  note d = spaced_distinct [OF sp]
  have "a + 8 * max 1 (hsize s a) \<le> b" "b \<le> hd (ys @ [brk s])" using sp by simp_all
  then have "spaced (hsize s) (xs @ a # ys) (brk s)" using sp by simp
  moreover have "linked (hptr t) (xs @ a # ys) (base_at s)" using l d by (auto simp: free_list_def t_def)
  moreover have f: "base_at t = base_at s" "hsize t = hsize s" "brk t = brk s" by (simp_all add: t_def)
  ultimately show "free_list t (xs @ a # ys)" using l unfolding free_list_def f hd_of [OF free_list_hd [OF l]] by (simp del: linked_simps spaced_simps)
  have "x + 8 * hsize s x \<le> b" if "x \<in> set (xs @ [a])" for x
    using spaced_below [of "hsize s" "xs @ [a]" b x] sp that by auto
  moreover have "b + 8 * hsize s b \<le> x" if "x \<in> set ys" for x
    using spaced_above [of "hsize s" b ys "brk s" x] sp that by auto
  ultimately show "free_bytes t (xs @ a # ys) = free_bytes s (xs @ a # b # ys) - {b..<b + 8 * hsize s b}"
    by (fastforce simp: free_bytes_def t_def)
qed

lemma join_list:
  assumes l: "free_list s (xs @ a # b # ys)" and b: "a + 8 * hsize s a = b"
  defines "t \<equiv> s\<lparr>hsize := (hsize s)(a := (hsize s a + hsize s b) mod 2 ^ 32), hptr := (hptr s)(a := hptr s b)\<rparr>"
  shows "free_list t (xs @ a # ys)" "free_bytes t (xs @ a # ys) = free_bytes s (xs @ a # b # ys)" "hsize t a = hsize s a + hsize s b"
proof -
  let ?u = "s\<lparr>hptr := (hptr s)(a := hptr s b)\<rparr>"
  note u = unlink_list [OF l]
  have sp: "spaced (hsize s) (xs @ a # b # ys) (brk s)" using l by (simp add: free_list_def)
  note d = spaced_distinct [OF sp]
  have ab: "a + 8 * max 1 (hsize s a) \<le> b" "b + 8 * max 1 (hsize s b) \<le> hd (ys @ [brk s])" using sp by simp_all
  have pos: "0 < hsize s a" using ab(1) b by (cases "hsize s a") auto
  have na: "a \<noteq> base_at s" using pos l by (auto simp: free_list_def)
  have "b + 8 * hsize s b \<le> brk s" using spaced_below [OF sp, of b] by simp
  then have m: "(hsize s a + hsize s b) mod 2 ^ 32 = hsize s a + hsize s b" using l b by (simp add: free_list_def)
  have e: "t = ?u\<lparr>hsize := (hsize ?u)(a := hsize s a + hsize s b)\<rparr>" unfolding t_def m by simp
  then show "hsize t a = hsize s a + hsize s b" by simp
  have "a + 8 * max 1 (hsize s a + hsize s b) \<le> hd (ys @ [brk s])"
    using ab b pos max.cobounded2 [of "hsize s b" 1] by (simp add: max_def split: if_splits)
  then have sp': "spaced (hsize t) (xs @ a # ys) (brk s)" using sp d by (simp add: e)
  have f: "base_at t = base_at ?u" "hptr t = hptr ?u" "brk t = brk s" "hsize t (base_at ?u) = hsize ?u (base_at ?u)" using na by (simp_all add: e)
  have "\<forall>x\<in>set (xs @ a # ys). x = base_at s \<or> 0 < hsize t x" using l pos by (auto simp: e free_list_def)
  then show "free_list t (xs @ a # ys)" using u(1) sp' unfolding free_list_def f by (simp del: linked_simps spaced_simps)
  have "free_bytes t xs = free_bytes s xs" "free_bytes t ys = free_bytes s ys"
    using d by (auto simp: e intro!: free_bytes_cong)
  moreover have "{a..<a + 8 * hsize t a} = {a..<a + 8 * hsize s a} \<union> {b..<b + 8 * hsize s b}" using b by (auto simp: e)
  ultimately show "free_bytes t (xs @ a # ys) = free_bytes s (xs @ a # b # ys)"
    using free_bytes_split [of s "xs @ [a]" b ys] by (simp add: free_bytes_split) (auto simp: free_bytes_def)
qed


section \<open>Giving a block back\<close>

lemma free_place:
  assumes l: "free_list s bs" and bp: "base_at s + 8 \<le> bp" "0 < n" "bp + 8 * n \<le> brk s" "{bp..<bp + 8 * n} \<inter> free_bytes s bs = {}"
  obtains xs p ys where "bs = xs @ p # ys" "\<forall>x\<in>set (xs @ [p]). x < bp" "\<forall>y\<in>set ys. bp < y"
    "p + 8 * max 1 (hsize s p) \<le> bp" "bp + 8 * n \<le> hd (ys @ [brk s])"
proof -
  let ?us = "takeWhile (\<lambda>b. b < bp) bs" and ?ys = "dropWhile (\<lambda>b. b < bp) bs"
  have "hd bs < bp" "bs \<noteq> []" using l bp(1) by (simp_all add: free_list_def)
  then have ne: "?us \<noteq> []" by (cases bs) auto
  obtain xs p where us: "?us = xs @ [p]" using ne by (metis append_butlast_last_id)
  have bs: "bs = xs @ p # ?ys" using takeWhile_dropWhile_id [of "\<lambda>b. b < bp" bs] us by simp
  have lt: "\<forall>x\<in>set (xs @ [p]). x < bp" using set_takeWhileD [of _ "\<lambda>b. b < bp" bs] unfolding us by blast
  have sp: "spaced (hsize s) bs (brk s)" using l by (simp add: free_list_def)
  have off: "b + 8 * max 1 (hsize s b) \<le> bp \<or> bp + 8 * n \<le> b" if b: "b \<in> set bs" for b
  proof (cases "b = base_at s")
    case True
    then show ?thesis using l bp(1) by (simp add: free_list_def)
  next
    case False
    then have "0 < hsize s b" "{b..<b + 8 * hsize s b} \<subseteq> free_bytes s bs" using l b by (auto simp: free_list_def free_bytes_def)
    then have d: "{bp..<bp + 8 * n} \<inter> {b..<b + 8 * hsize s b} = {}" using bp(4) by blast
    consider "b \<le> bp" | "bp \<le> b" by linarith
    then show ?thesis
    proof cases
      case 1
      then have "bp \<notin> {b..<b + 8 * hsize s b}" using d bp(2) by auto
      then show ?thesis using 1 \<open>0 < hsize s b\<close> by auto
    next
      case 2
      then have "b \<notin> {bp..<bp + 8 * n}" using d \<open>0 < hsize s b\<close> by auto
      then show ?thesis using 2 by auto
    qed
  qed
  have pbp: "p + 8 * max 1 (hsize s p) \<le> bp"
  proof -
    have "p \<in> set bs" using bs by (metis in_set_conv_decomp)
    then show ?thesis using off [of p] lt by auto
  qed
  have hdy: "bp + 8 * n \<le> hd (?ys @ [brk s])"
  proof (cases ?ys)
    case (Cons y zs)
    then have "\<not> y < bp" using hd_dropWhile [of "\<lambda>b. b < bp" bs] by simp
    moreover have "y \<in> set bs" using Cons by (metis list.set_intros(1) set_dropWhileD)
    ultimately show ?thesis using off [of y] unfolding Cons by auto
  next
    case Nil
    show ?thesis using bp(3) unfolding Nil by simp
  qed
  have "\<forall>y\<in>set ?ys. bp < y"
  proof (cases ?ys)
    case (Cons y zs)
    then have "bp < y" using hdy bp(2) by simp
    moreover have "sorted_wrt (<) (y # zs)" using spaced_sorted [OF sp] bs unfolding Cons by (metis sorted_wrt_append sorted_wrt.simps(2))
    ultimately show ?thesis unfolding Cons by fastforce
  next
    case Nil
    show ?thesis unfolding Nil by simp
  qed
  then show ?thesis using that [OF bs lt _ pbp hdy] by blast
qed

lemma free_loop_low:
  assumes l: "free_list s bs" and bs: "bs = xs @ p # ys" "\<forall>x\<in>set (xs @ [p]). x < bp" "\<forall>y\<in>set ys. bp < y" and q: "xs @ [p] = us @ q # vs"
  shows "free_loop s bp q = Some p"
  using q
proof (induction vs arbitrary: us q)
  case Nil
  then have "q = p" by simp
  moreover have "hptr s p = hd (ys @ [base_at s])" using l bs(1) by (simp add: free_list_def)
  moreover have "base_at s \<le> p"
  proof (cases xs)
    case (Cons b zs)
    then show ?thesis using l bs(1) spaced_above [of "hsize s" b "zs @ p # ys" "brk s" p] by (auto simp: free_list_def)
  qed (use l bs(1) in \<open>simp add: free_list_def\<close>)
  ultimately show ?case using bs(2,3) by (subst free_loop.simps) (cases ys; auto)
next
  case (Cons v vs)
  have "bs = us @ q # v # vs @ ys" using bs(1) Cons.prems by simp
  then have "hptr s q = v" "q < v" using l by (auto simp: free_list_def max_def split: if_splits)
  moreover have "v < bp" using bs(2) Cons.prems by simp
  ultimately have "free_loop s bp q = free_loop s bp v" by (subst free_loop.simps) simp
  then show ?case using Cons.IH [of "us @ [q]" v] Cons.prems by simp
qed

lemma free_loop_finds:
  assumes l: "free_list s bs" and bs: "bs = xs @ p # ys" "\<forall>x\<in>set (xs @ [p]). x < bp" "\<forall>y\<in>set ys. bp < y" and q: "q \<in> set bs"
  shows "free_loop s bp q = Some p"
proof -
  have base: "free_loop s bp (base_at s) = Some p" "base_at s < bp"
  proof -
    have "hd (xs @ [p]) = base_at s" using free_list_hd l bs(1) by simp
    then obtain vs where e: "xs @ [p] = [] @ base_at s # vs" by (cases xs) auto
    show "free_loop s bp (base_at s) = Some p" by (rule free_loop_low [OF l bs e])
    show "base_at s < bp" using bs(2) unfolding e by simp
  qed
  have high: "free_loop s bp q = Some p" if "ys = us @ q # vs" for us q vs using that
  proof (induction vs arbitrary: us q)
    case Nil
    then have "hptr s q = base_at s" "bp < q" using l bs by (auto simp: free_list_def)
    then have "free_loop s bp q = free_loop s bp (base_at s)" using base(2) by (subst free_loop.simps) simp
    then show ?case using base(1) by simp
  next
    case (Cons v vs)
    then have "hptr s q = v" "q < v" "bp < q" using l bs by (auto simp: free_list_def max_def split: if_splits)
    then have "free_loop s bp q = free_loop s bp v" by (subst free_loop.simps) simp
    then show ?case using Cons.IH [of "us @ [q]" v] Cons.prems by simp
  qed
  have "q \<in> set (xs @ [p]) \<or> q \<in> set ys" using q bs(1) by auto
  then show ?thesis
  proof
    assume "q \<in> set (xs @ [p])"
    then obtain us vs where "xs @ [p] = us @ q # vs" by (meson split_list)
    then show ?thesis by (rule free_loop_low [OF l bs])
  next
    assume "q \<in> set ys"
    then obtain us vs where "ys = us @ q # vs" by (meson split_list)
    then show ?thesis by (rule high)
  qed
qed


text \<open>The two joins of \<^verbatim>\<open>free\<close> after the block was linked in.\<close>

definition join :: "nat \<Rightarrow> heap \<Rightarrow> heap" where
  "join a s = (let b = hptr s a in
     if a + 8 * hsize s a = b
     then s\<lparr>hsize := (hsize s)(a := (hsize s a + hsize s b) mod 2 ^ 32), hptr := (hptr s)(a := hptr s b)\<rparr> else s)"

lemma free_at_steps:
  assumes "p < bp" "0 < hsize s bp"
  shows "free_at bp p s = (join p (join bp (s\<lparr>hptr := (hptr s)(bp := hptr s p, p := bp)\<rparr>)))\<lparr>freep := p\<rparr>"
proof -
  have "bp + 8 * hsize s bp = hptr s p \<Longrightarrow> hptr s p \<noteq> p" using assms by linarith
  then show ?thesis using assms
    by (auto simp: free_at_def join_def Let_def fun_upd_twist)
qed

lemma join_other:
  "base_at (join a s) = base_at s" "brk (join a s) = brk s" "freep (join a s) = freep s" "x \<noteq> a \<Longrightarrow> hsize (join a s) x = hsize s x"
  "x \<noteq> a \<Longrightarrow> hptr (join a s) x = hptr s x" "hsize s a = 0 \<Longrightarrow> a \<noteq> hptr s a \<Longrightarrow> join a s = s"
  by (auto simp: join_def Let_def)

lemma join_ok:
  assumes l: "free_list s (xs @ a # ys)" and na: "xs \<noteq> [] \<or> ys \<noteq> []"
  obtains zs where "free_list (join a s) (xs @ a # zs)" "free_bytes (join a s) (xs @ a # zs) = free_bytes s (xs @ a # ys)"
    "\<forall>b\<in>set (xs @ a # ys). \<exists>c\<in>set (xs @ a # zs). hsize s b \<le> hsize (join a s) c"
proof (cases "a + 8 * hsize s a = hptr s a \<and> ys \<noteq> []")
  case True
  then obtain b zs where ys: "ys = b # zs" by (cases ys) auto
  then have b: "hptr s a = b" using l by (simp add: free_list_def)
  have j: "join a s = s\<lparr>hsize := (hsize s)(a := (hsize s a + hsize s b) mod 2 ^ 32), hptr := (hptr s)(a := hptr s b)\<rparr>"
    using True b by (simp add: join_def)
  note jl = join_list [OF l [unfolded ys], folded j]
  have ab: "a + 8 * hsize s a = b" using True b by simp
  have "a \<notin> set (xs @ zs)" using free_list_distinct [OF l] ys by simp
  then have "\<forall>c\<in>set (xs @ zs). hsize (join a s) c = hsize s c" by (auto simp: j)
  then have "\<forall>x\<in>set (xs @ a # ys). \<exists>c\<in>set (xs @ a # zs). hsize s x \<le> hsize (join a s) c"
    using jl(3) [OF ab] ys by auto
  then show ?thesis using that [OF jl(1) [OF ab]] jl(2) [OF ab] ys by simp
next
  case False
  have "join a s = s"
  proof (cases "ys = []")
    case True
    then have "hptr s a = base_at s" using l by (simp add: free_list_def)
    moreover have "base_at s < a"
    proof (cases xs)
      case (Cons b zs)
      then show ?thesis using l spaced_above [of "hsize s" b "zs @ [a]" "brk s" a] True by (auto simp: free_list_def)
    qed (use na True in simp)
    ultimately show ?thesis by (simp add: join_def)
  qed (use False in \<open>simp add: join_def Let_def\<close>)
  then show ?thesis using that l by auto
qed

text \<open>What an operation leaves alone: the headers outside the bytes it may touch and outside \<^verbatim>\<open>base\<close>.\<close>

definition untouched :: "heap \<Rightarrow> heap \<Rightarrow> nat set \<Rightarrow> bool" where
  "untouched s t A \<longleftrightarrow> base_at t = base_at s \<and> (\<forall>a. a \<notin> A \<and> a \<noteq> base_at s \<longrightarrow> hptr t a = hptr s a \<and> hsize t a = hsize s a)"

lemma ufree_ok:
  assumes l: "free_list s bs" "freep s \<in> set bs"
    and bp: "base_at s + 8 \<le> bp" "0 < hsize s bp" "bp + 8 * hsize s bp \<le> brk s" "{bp..<bp + 8 * hsize s bp} \<inter> free_bytes s bs = {}"
  obtains t bs' where "ufree (bp + 8) s = Some t" "free_list t bs'" "freep t \<in> set bs'"
    "free_bytes t bs' = free_bytes s bs \<union> {bp..<bp + 8 * hsize s bp}" "brk t = brk s"
    "untouched s t (free_bytes s bs \<union> {bp..<bp + 8 * hsize s bp})" "\<exists>c\<in>set bs'. hsize s bp \<le> hsize t c"
proof -
  obtain xs p ys where bs: "bs = xs @ p # ys" "\<forall>x\<in>set (xs @ [p]). x < bp" "\<forall>y\<in>set ys. bp < y"
    and at: "p + 8 * max 1 (hsize s p) \<le> bp" "bp + 8 * hsize s bp \<le> hd (ys @ [brk s])"
    by (rule free_place [OF l(1) bp])
  have f: "free_loop s bp (freep s) = Some p" by (rule free_loop_finds [OF l(1) bs l(2)])
  let ?u = "s\<lparr>hptr := (hptr s)(bp := hptr s p, p := bp)\<rparr>"
  have at2: "bp + 8 * max 1 (hsize s bp) \<le> hd (ys @ [brk s])" using at(2) bp(2) by (simp add: max_def)
  note u = link_list [OF l(1) [unfolded bs(1)] at(1) at2 bp(2)]
  have u': "free_list ?u ((xs @ [p]) @ bp # ys)" using u(1) by simp
  obtain zs where v: "free_list (join bp ?u) (xs @ p # bp # zs)" "free_bytes (join bp ?u) (xs @ p # bp # zs) = free_bytes ?u (xs @ p # bp # ys)"
    "\<exists>c\<in>set (xs @ p # bp # zs). hsize s bp \<le> hsize (join bp ?u) c"
  proof -
    obtain zs where zs: "free_list (join bp ?u) ((xs @ [p]) @ bp # zs)"
      "free_bytes (join bp ?u) ((xs @ [p]) @ bp # zs) = free_bytes ?u ((xs @ [p]) @ bp # ys)"
      "\<forall>b\<in>set ((xs @ [p]) @ bp # ys). \<exists>c\<in>set ((xs @ [p]) @ bp # zs). hsize ?u b \<le> hsize (join bp ?u) c"
      using join_ok [OF u'] by blast
    from zs(3) have "\<exists>c\<in>set (xs @ p # bp # zs). hsize s bp \<le> hsize (join bp ?u) c" by simp
    then show ?thesis using that zs by simp
  qed
  obtain ws where w: "free_list (join p (join bp ?u)) (xs @ p # ws)"
    "free_bytes (join p (join bp ?u)) (xs @ p # ws) = free_bytes ?u (xs @ p # bp # ys)"
    "\<exists>c\<in>set (xs @ p # ws). hsize s bp \<le> hsize (join p (join bp ?u)) c"
  proof -
    obtain ws where ws: "free_list (join p (join bp ?u)) (xs @ p # ws)"
      "free_bytes (join p (join bp ?u)) (xs @ p # ws) = free_bytes (join bp ?u) (xs @ p # bp # zs)"
      "\<forall>b\<in>set (xs @ p # bp # zs). \<exists>c\<in>set (xs @ p # ws). hsize (join bp ?u) b \<le> hsize (join p (join bp ?u)) c"
      using join_ok [OF v(1)] by blast
    from v(3) ws(3) have "\<exists>c\<in>set (xs @ p # ws). hsize s bp \<le> hsize (join p (join bp ?u)) c" by (meson order_trans)
    then show ?thesis using that ws v(2) by simp
  qed
  define t where "t = (join p (join bp ?u))\<lparr>freep := p\<rparr>"
  have "p < bp" using bs(2) by simp
  then have "ufree (bp + 8) s = Some t" using bp(2) by (simp add: ufree_def f free_at_steps t_def)
  moreover have "free_list t (xs @ p # ws)" "freep t \<in> set (xs @ p # ws)" using w(1) by (simp_all only: t_def free_list_freep) simp
  moreover have "free_bytes t (xs @ p # ws) = free_bytes s bs \<union> {bp..<bp + 8 * hsize s bp}"
    unfolding t_def free_list_freep using w(2) u(2) bs(1) by simp
  moreover have "brk t = brk s" by (simp add: t_def join_other)
  moreover have "untouched s t (free_bytes s bs \<union> {bp..<bp + 8 * hsize s bp})"
  proof -
    have "p = base_at s \<or> p \<in> free_bytes s bs" using l(1) by (rule header_free) (simp add: bs(1))
    moreover have "bp \<in> {bp..<bp + 8 * hsize s bp}" using bp(2) by simp
    moreover have "hptr t a = hptr s a \<and> hsize t a = hsize s a" if "a \<noteq> p" "a \<noteq> bp" for a using that by (simp add: t_def join_other)
    moreover have "base_at t = base_at s" by (simp add: t_def join_other)
    ultimately show ?thesis unfolding untouched_def by (metis UnI1 UnI2)
  qed
  moreover have "\<exists>c\<in>set (xs @ p # ws). hsize s bp \<le> hsize t c" using w(3) by (simp add: t_def)
  ultimately show ?thesis by (rule that)
qed



section \<open>Taking a block out\<close>

lemma free_list_next:
  assumes "free_list s bs" "q \<in> set bs" "hptr s q = c" "0 < hsize s c"
  obtains xs ys where "bs = xs @ q # c # ys"
proof -
  obtain xs vs where bs: "bs = xs @ q # vs" using assms(2) by (meson split_list)
  then have "c = hd (vs @ [base_at s])" using assms(1,3) by (simp add: free_list_def)
  moreover have "c \<noteq> base_at s" using assms(1,4) by (auto simp: free_list_def)
  ultimately obtain ys where "vs = c # ys" by (cases vs) auto
  then show ?thesis using that bs by blast
qed

lemma free_list_low:
  assumes "free_list s (xs @ q # c # ys)"
  shows "base_at s + 8 \<le> c"
proof -
  obtain zs where e: "xs @ q # c # ys = base_at s # zs" using assms by (cases "xs @ q # c # ys") (auto simp: free_list_def)
  have "spaced (hsize s) (base_at s # zs) (brk s)" "hsize s (base_at s) = 0" using assms unfolding free_list_def e by blast+
  moreover have "c \<in> set zs" using e by (cases xs) auto
  ultimately show ?thesis using spaced_above [of "hsize s" "base_at s" zs "brk s" c] by simp
qed

lemma shrink_list:
  fixes n :: nat
  assumes l: "free_list s (xs @ c # ys)" and sz: "0 < z" "z < hsize s c"
  defines "h \<equiv> c + 8 * z"
  defines "t \<equiv> s\<lparr>hsize := (hsize s)(c := z, h := n)\<rparr>"
  shows "free_list t (xs @ c # ys)" "free_bytes t (xs @ c # ys) = free_bytes s (xs @ c # ys) - {h..<c + 8 * hsize s c}"
proof -
  have sp: "spaced (hsize s) (xs @ c # ys) (brk s)" using l by (simp add: free_list_def)
  note d = spaced_distinct [OF sp]
  have c: "c + 8 * hsize s c \<le> hd (ys @ [brk s])" using sp sz by simp
  have lo: "x + 8 * hsize s x \<le> c" "x < c" if "x \<in> set xs" for x
    using spaced_below [of "hsize s" xs c x] sp that by auto
  have hi: "c + 8 * hsize s c \<le> y" if "y \<in> set ys" for y
    using spaced_above [of "hsize s" c ys "brk s" y] sp that by auto
  have h: "h \<notin> set xs" "h \<notin> set ys" "h \<noteq> c" using lo hi sz by (fastforce simp: h_def)+
  have nb: "c \<noteq> base_at s" "h \<noteq> base_at s"
  proof -
    show nc: "c \<noteq> base_at s" using l sz by (auto simp: free_list_def)
    then have "base_at s \<in> set xs" using l by (cases xs) (auto simp: free_list_def)
    then show "h \<noteq> base_at s" using h by auto
  qed
  have z: "hsize t c = z" "\<And>b. b \<in> set xs \<union> set ys \<Longrightarrow> hsize t b = hsize s b" using d h by (auto simp: t_def)
  have "spaced (hsize t) xs c = spaced (hsize s) xs c" "spaced (hsize t) ys (brk s) = spaced (hsize s) ys (brk s)"
    unfolding spaced_def by (rule hchain_cong; simp add: z(2))+
  then have "spaced (hsize t) (xs @ c # ys) (brk s)" using sp c sz z(1) by simp
  moreover have f: "base_at t = base_at s" "hptr t = hptr s" "brk t = brk s" "hsize t (base_at s) = hsize s (base_at s)"
    using nb by (simp_all add: t_def)
  moreover have "\<forall>b\<in>set (xs @ c # ys). b = base_at s \<or> 0 < hsize t b" using l z sz by (auto simp: free_list_def)
  ultimately show "free_list t (xs @ c # ys)" using l unfolding free_list_def f by (simp del: linked_simps spaced_simps)
  have "free_bytes t xs = free_bytes s xs" "free_bytes t ys = free_bytes s ys" by (auto intro!: free_bytes_cong simp: z)
  moreover have "{c..<c + 8 * z} = {c..<c + 8 * hsize s c} - {h..<c + 8 * hsize s c}" using sz by (auto simp: h_def)
  moreover have "free_bytes s xs \<inter> {h..<c + 8 * hsize s c} = {}" using lo by (fastforce simp: free_bytes_def h_def)
  moreover have "free_bytes s ys \<inter> {h..<c + 8 * hsize s c} = {}" using hi by (fastforce simp: free_bytes_def)
  ultimately show "free_bytes t (xs @ c # ys) = free_bytes s (xs @ c # ys) - {h..<c + 8 * hsize s c}"
    unfolding free_bytes_split z(1) by blast
qed

text \<open>The block at \<open>h\<close>, of \<open>n\<close> units, was taken out of the free bytes \<open>F\<close>.\<close>

definition taken :: "heap \<Rightarrow> nat set \<Rightarrow> nat \<Rightarrow> nat \<Rightarrow> heap \<Rightarrow> nat list \<Rightarrow> bool" where
  "taken s F h n t bs' \<longleftrightarrow> free_list t bs' \<and> freep t \<in> set bs' \<and> {h..<h + 8 * n} \<subseteq> F \<and> free_bytes t bs' = F - {h..<h + 8 * n} \<and>
     hsize t h = n \<and> base_at s + 8 \<le> h \<and> h + 8 * n \<le> brk t \<and> untouched s t F"

lemma carve_ok:
  assumes l: "free_list s bs" and q: "q \<in> set bs" "hptr s q = c" and n: "0 < n" "n \<le> hsize s c"
  obtains h t bs' where "carve n q c s = (h + 8, t)" "taken s (free_bytes s bs) h n t bs'" "brk t = brk s"
proof -
  have pos: "0 < hsize s c" using n by simp
  obtain xs ys where bs: "bs = xs @ q # c # ys" by (rule free_list_next [OF l q pos])
  note l' = l [unfolded bs]
  have low: "base_at s + 8 \<le> c" by (rule free_list_low [OF l'])
  have high: "c + 8 * hsize s c \<le> brk s" using l spaced_below [of "hsize s" bs "brk s" c] bs by (auto simp: free_list_def)
  have cin: "{c..<c + 8 * hsize s c} \<subseteq> free_bytes s bs" by (auto simp: free_bytes_def bs)
  have qb: "q = base_at s \<or> q \<in> free_bytes s bs" using l q(1) by (rule header_free)
  show ?thesis
  proof (cases "hsize s c = n")
    case True
    let ?t = "s\<lparr>hptr := (hptr s)(q := hptr s c)\<rparr>"
    have "free_list (?t\<lparr>freep := q\<rparr>) (xs @ q # ys)" using unlink_list(1) [OF l'] by (simp only: free_list_freep)
    moreover have "free_bytes (?t\<lparr>freep := q\<rparr>) (xs @ q # ys) = free_bytes s bs - {c..<c + 8 * n}"
      unfolding free_list_freep using unlink_list(2) [OF l'] True bs by simp
    moreover have "untouched s (?t\<lparr>freep := q\<rparr>) (free_bytes s bs)" using qb by (auto simp: untouched_def)
    ultimately have "taken s (free_bytes s bs) c n (?t\<lparr>freep := q\<rparr>) (xs @ q # ys)"
      using True low high cin by (simp add: taken_def)
    then show ?thesis using that [of c] True by (simp add: carve_def)
  next
    case False
    let ?z = "hsize s c - n" and ?h = "c + 8 * (hsize s c - n)"
    let ?t = "s\<lparr>hsize := (hsize s)(c := ?z, ?h := n)\<rparr>"
    have z: "0 < ?z" "?z < hsize s c" and fin: "?h + 8 * n = c + 8 * hsize s c" using False n by auto
    have l2: "free_list s ((xs @ [q]) @ c # ys)" using l' by simp
    have "free_list (?t\<lparr>freep := q\<rparr>) bs" unfolding free_list_freep using shrink_list(1) [OF l2 z] bs by simp
    moreover have "free_bytes (?t\<lparr>freep := q\<rparr>) bs = free_bytes s bs - {?h..<?h + 8 * n}"
      unfolding free_list_freep fin using shrink_list(2) [OF l2 z] bs by simp
    moreover have hin: "{?h..<?h + 8 * n} \<subseteq> free_bytes s bs" unfolding fin using cin z by auto
    moreover have "untouched s (?t\<lparr>freep := q\<rparr>) (free_bytes s bs)"
    proof -
      have "c \<in> free_bytes s bs" "?h \<in> free_bytes s bs" using cin pos hin n by auto
      then show ?thesis by (auto simp: untouched_def)
    qed
    ultimately have "taken s (free_bytes s bs) ?h n (?t\<lparr>freep := q\<rparr>) bs"
      using low high q unfolding taken_def fin by simp
    then show ?thesis using that [of ?h] False by (simp add: carve_def Let_def)
  qed
qed


text \<open>The search for a block, once around the list.\<close>

definition after_morecore :: "(int \<Rightarrow> bool) \<Rightarrow> nat \<Rightarrow> heap \<Rightarrow> (nat \<times> heap) option" where
  "after_morecore grants n s = Option.bind (morecore grants n s) (\<lambda>(p', t).
     if p' = 0 then Some (0, t) else malloc_loop grants n t p' (hptr t p'))"

lemma malloc_walk:
  assumes "linked (hptr s) (q # us) (freep s)" "freep s \<notin> set us"
  shows "(\<exists>p c. malloc_loop g n s q (hptr s q) = Some (carve n p c s) \<and> p \<in> insert q (set us) \<and> hptr s p = c \<and> n \<le> hsize s c) \<or>
    ((\<forall>c\<in>insert (freep s) (set us). hsize s c < n) \<and> malloc_loop g n s q (hptr s q) = after_morecore g n s)"
  using assms
proof (induction us arbitrary: q)
  case Nil
  then have q: "hptr s q = freep s" by simp
  show ?case
  proof (cases "n \<le> hsize s (freep s)")
    case True
    then have "malloc_loop g n s q (hptr s q) = Some (carve n q (freep s) s)" unfolding q by (subst malloc_loop.simps) simp
    then show ?thesis using True q by auto
  next
    case False
    then have "malloc_loop g n s q (hptr s q) = after_morecore g n s"
      unfolding q after_morecore_def by (subst malloc_loop.simps) simp
    then show ?thesis using False by auto
  qed
next
  case (Cons u us)
  then have q: "hptr s q = u" "u \<noteq> freep s" by auto
  show ?case
  proof (cases "n \<le> hsize s u")
    case True
    then have "malloc_loop g n s q (hptr s q) = Some (carve n q u s)" unfolding q(1) by (subst malloc_loop.simps) simp
    then show ?thesis using True q by auto
  next
    case False
    then have e: "malloc_loop g n s q (hptr s q) = malloc_loop g n s u (hptr s u)"
      unfolding q(1) using q(2) by (subst malloc_loop.simps) simp
    show ?thesis unfolding e using Cons.IH [of u] Cons.prems False by auto
  qed
qed

lemma malloc_find:
  assumes l: "free_list s bs" "freep s \<in> set bs"
  shows "(\<exists>p c. malloc_loop g n s (freep s) (hptr s (freep s)) = Some (carve n p c s) \<and> p \<in> set bs \<and> hptr s p = c \<and> n \<le> hsize s c) \<or>
    ((\<forall>c\<in>set bs. hsize s c < n) \<and> malloc_loop g n s (freep s) (hptr s (freep s)) = after_morecore g n s)"
proof -
  obtain us vs where bs: "bs = us @ freep s # vs" using l(2) by (meson split_list)
  have b: "hd (us @ [freep s]) = base_at s" using l(1) unfolding bs by (rule free_list_hd)
  have "linked (hptr s) bs (base_at s)" using l(1) by (simp add: free_list_def)
  then have k: "linked (hptr s) us (freep s)" "hptr s (freep s) = hd (vs @ [base_at s])" "linked (hptr s) vs (base_at s)"
    unfolding bs by simp_all
  have "hd ((vs @ us) @ [freep s]) = hd (vs @ [base_at s])" using b by (cases vs) simp_all
  then have "linked (hptr s) (freep s # vs @ us) (freep s)" using k b by (simp del: append_assoc)
  moreover have "freep s \<notin> set (vs @ us)" using free_list_distinct [OF l(1)] bs by simp
  moreover have "set bs = insert (freep s) (set (vs @ us))" using bs by auto
  ultimately show ?thesis using malloc_walk [of s "freep s" "vs @ us" g n] by simp
qed

lemma untouched_trans: "untouched s t A \<Longrightarrow> untouched t u A \<Longrightarrow> untouched s u A"
  by (auto simp: untouched_def)

lemma morecore_ok:
  assumes l: "free_list s bs" "freep s \<in> set bs" and n: "8 * max 4096 n < 2 ^ 31" and g: "\<forall>x. grants x \<longrightarrow> x \<le> 2 ^ 31"
  shows "morecore grants n s = Some (0, s) \<or>
    (\<exists>t bs'. morecore grants n s = Some (freep t, t) \<and> freep t \<noteq> 0 \<and> free_list t bs' \<and> freep t \<in> set bs' \<and> brk s \<le> brk t \<and>
       free_bytes t bs' = free_bytes s bs \<union> {brk s..<brk t} \<and> untouched s t (free_bytes s bs \<union> {brk s..<brk t}) \<and> (\<exists>c\<in>set bs'. n \<le> hsize t c))"
proof -
  let ?nu = "max 4096 n" and ?h = "brk s"
  have nu: "(if n < 4096 then 4096 else n) = ?nu" by (simp add: max_def)
  have arg: "as_int32 (?nu * 8 mod 2 ^ 32) = int (8 * ?nu)" using n by (simp add: as_int32_def mult.commute)
  show ?thesis
  proof (cases "grants (int (brk s) + int (8 * ?nu))")
    case False
    then show ?thesis by (simp only: morecore_def nu arg Let_def sbrk_def) simp
  next
    case True
    define u where "u = s\<lparr>brk := brk s + 8 * ?nu, hsize := (hsize s)(?h := ?nu)\<rparr>"
    have top: "b + 8 * max 1 (hsize s b) \<le> ?h" if "b \<in> set bs" for b using spaced_below l(1) that by (auto simp: free_list_def)
    then have nh: "?h \<notin> set bs" by force
    note base = free_list_base(1) [OF l(1)]
    have nat_le: "x + y \<le> 2 ^ 31" if "int x + int y \<le> 2 ^ 31" for x y :: nat using that by simp
    have lim: "brk s + 8 * ?nu \<le> 2 ^ 31" by (rule nat_le) (rule g [rule_format, OF True])
    have sp: "spaced (hsize u) bs (brk u)"
      using l(1) nh spaced_mono [of "hsize s" bs "brk s" "brk u"] by (simp add: free_list_def u_def)
    have z: "hsize u b = hsize s b" if "b \<in> set bs" for b using that nh by (auto simp: u_def)
    have f: "base_at u = base_at s" "hptr u = hptr s" "brk u = brk s + 8 * ?nu" "freep u = freep s" "hsize u ?h = ?nu" by (simp_all add: u_def)
    have lu: "free_list u bs" using l(1) sp lim z base unfolding free_list_def f by (simp del: linked_simps spaced_simps)
    have fu: "free_bytes u bs = free_bytes s bs" by (rule free_bytes_cong) (rule z)
    have below: "free_bytes s bs \<subseteq> {..<?h}" using top by (fastforce simp: free_bytes_def)
    obtain t bs' where t: "ufree (?h + 8) u = Some t" "free_list t bs'" "freep t \<in> set bs'"
      "free_bytes t bs' = free_bytes u bs \<union> {?h..<?h + 8 * hsize u ?h}" "brk t = brk u"
      "untouched u t (free_bytes u bs \<union> {?h..<?h + 8 * hsize u ?h})" "\<exists>c\<in>set bs'. hsize u ?h \<le> hsize t c"
    proof (rule ufree_ok [OF lu])
      show "freep u \<in> set bs" using l(2) by (simp add: f)
      show "base_at u + 8 \<le> ?h" using top [OF base] by (simp add: f max_def split: if_splits)
      show "0 < hsize u ?h" "?h + 8 * hsize u ?h \<le> brk u" by (simp_all add: f)
      show "{?h..<?h + 8 * hsize u ?h} \<inter> free_bytes u bs = {}" using below fu by fastforce
    qed
    have "morecore grants n s = Some (freep t, t)"
      using True t(1) by (simp only: morecore_def nu arg Let_def sbrk_def) (simp add: u_def nat_add_distrib nat_mult_distrib)
    moreover have "freep t \<noteq> 0" by (rule free_list_freep_pos [OF t(2,3)])
    moreover have "untouched s t (free_bytes s bs \<union> {brk s..<brk t})"
    proof (rule untouched_trans [of s u])
      have "?h \<in> {brk s..<brk t}" using t(5) f(3) by simp
      then show "untouched s u (free_bytes s bs \<union> {brk s..<brk t})" by (auto simp: untouched_def u_def)
      show "untouched u t (free_bytes s bs \<union> {brk s..<brk t})" using t(5,6) fu f by simp
    qed
    moreover have "\<exists>c\<in>set bs'. n \<le> hsize t c"
    proof -
      have "n \<le> hsize u ?h" unfolding f(5) by simp
      then show ?thesis using t(7) order_trans by blast
    qed
    moreover have "brk s \<le> brk t" "free_bytes t bs' = free_bytes s bs \<union> {brk s..<brk t}" unfolding t(4,5) fu f by simp_all
    ultimately show ?thesis using t(2,3) by blast
  qed
qed


lemma malloc_loop_ok:
  assumes l: "free_list s bs" "freep s \<in> set bs" and n: "0 < n" "8 * max 4096 n < 2 ^ 31" and g: "\<forall>x. grants x \<longrightarrow> x \<le> 2 ^ 31"
  shows "malloc_loop grants n s (freep s) (hptr s (freep s)) = Some (0, s) \<or>
    (\<exists>h t bs'. malloc_loop grants n s (freep s) (hptr s (freep s)) = Some (h + 8, t) \<and> brk s \<le> brk t \<and>
       taken s (free_bytes s bs \<union> {brk s..<brk t}) h n t bs')"
  using malloc_find [OF l, of grants n]
proof (elim disjE exE conjE)
  fix p c assume p: "malloc_loop grants n s (freep s) (hptr s (freep s)) = Some (carve n p c s)" "p \<in> set bs" "hptr s p = c" "n \<le> hsize s c"
  obtain h t bs' where "carve n p c s = (h + 8, t)" "taken s (free_bytes s bs) h n t bs'" "brk t = brk s"
    by (rule carve_ok [OF l(1) p(2,3) n(1) p(4)])
  then show ?thesis using p(1) by (intro disjI2 exI [of _ h] exI [of _ t] exI [of _ bs']) simp
next
  assume m: "malloc_loop grants n s (freep s) (hptr s (freep s)) = after_morecore grants n s"
  show ?thesis using morecore_ok [OF l n(2) g]
  proof (elim disjE exE conjE)
    assume "morecore grants n s = Some (0, s)"
    then show ?thesis unfolding m by (simp add: after_morecore_def)
  next
    fix t bs' assume mc: "morecore grants n s = Some (freep t, t)" "freep t \<noteq> 0" and t: "free_list t bs'" "freep t \<in> set bs'"
      and b: "brk s \<le> brk t" and F: "free_bytes t bs' = free_bytes s bs \<union> {brk s..<brk t}"
      and u: "untouched s t (free_bytes s bs \<union> {brk s..<brk t})" and big: "\<exists>c\<in>set bs'. n \<le> hsize t c"
    have e: "after_morecore grants n s = malloc_loop grants n t (freep t) (hptr t (freep t))" using mc by (simp add: after_morecore_def)
    have "\<not> (\<forall>c\<in>set bs'. hsize t c < n)" using big leD by blast
    then obtain p c where p: "malloc_loop grants n t (freep t) (hptr t (freep t)) = Some (carve n p c t)" "p \<in> set bs'" "hptr t p = c" "n \<le> hsize t c"
      using malloc_find [OF t, of grants n] by blast
    obtain h v bs'' where v: "carve n p c t = (h + 8, v)" "taken t (free_bytes t bs') h n v bs''" "brk v = brk t"
      by (rule carve_ok [OF t(1) p(2,3) n(1) p(4)])
    have "base_at t = base_at s" using u by (simp add: untouched_def)
    then have "taken s (free_bytes s bs \<union> {brk s..<brk v}) h n v bs''"
      using v(2) untouched_trans [OF u] unfolding taken_def F v(3) by metis
    then show ?thesis unfolding m e p(1) v(1) using b v(3) by (intro disjI2 exI [of _ h] exI [of _ v] exI [of _ bs'']) simp
  qed
qed

section \<open>The allocator and its clients\<close>

text \<open>The invariant, with the set of the free bytes; before the first \<^verbatim>\<open>malloc\<close> there is no list.\<close>

definition heap_inv :: "heap \<Rightarrow> nat set \<Rightarrow> bool" where
  "heap_inv s F \<longleftrightarrow> (freep s = 0 \<and> F = {} \<and> 0 < base_at s \<and> base_at s + 8 \<le> brk s \<and> brk s \<le> 2 ^ 31) \<or>
     (\<exists>bs. free_list s bs \<and> freep s \<in> set bs \<and> F = free_bytes s bs)"

lemma units_bounds: "nbytes < 2 ^ 31 - 16 \<Longrightarrow> nbytes + 8 \<le> 8 * units nbytes \<and> 8 * max 4096 (units nbytes) < 2 ^ 31"
  by (simp add: units_def max_def) presburger

lemma umalloc_ok:
  assumes inv: "heap_inv s F" and n: "nbytes < 2 ^ 31 - 16" and g: "\<forall>x. grants x \<longrightarrow> x \<le> 2 ^ 31"
  shows "(\<exists>t. umalloc grants nbytes s = Some (0, t) \<and> heap_inv t F \<and> freep t \<noteq> 0 \<and> brk t = brk s \<and> untouched s t F) \<or>
    (\<exists>h t. umalloc grants nbytes s = Some (h + 8, t) \<and> freep t \<noteq> 0 \<and> brk s \<le> brk t \<and> {h..<h + 8 * units nbytes} \<subseteq> F \<union> {brk s..<brk t} \<and>
       heap_inv t (F \<union> {brk s..<brk t} - {h..<h + 8 * units nbytes}) \<and> hsize t h = units nbytes \<and> base_at s + 8 \<le> h \<and>
       h + 8 * units nbytes \<le> brk t \<and> untouched s t (F \<union> {brk s..<brk t}))"
proof -
  define s1 where "s1 = (if freep s = 0 then s\<lparr>hptr := (hptr s)(base_at s := base_at s), hsize := (hsize s)(base_at s := 0), freep := base_at s\<rparr> else s)"
  have un: "0 < units nbytes" "8 * max 4096 (units nbytes) < 2 ^ 31" using units_bounds [OF n] by (auto simp: units_def)
  have "\<exists>bs. free_list s1 bs \<and> freep s1 \<in> set bs \<and> F = free_bytes s1 bs"
  proof (cases "freep s = 0")
    case True
    then have "free_list s bs \<Longrightarrow> freep s \<notin> set bs" for bs using free_list_freep_pos by blast
    then have "F = {}" "0 < base_at s" "base_at s + 8 \<le> brk s" "brk s \<le> 2 ^ 31" using inv by (auto simp: heap_inv_def)
    then show ?thesis using True by (intro exI [of _ "[base_at s]"]) (simp add: s1_def free_list_def free_bytes_def)
  qed (use inv in \<open>auto simp: s1_def heap_inv_def\<close>)
  then obtain bs where l: "free_list s1 bs" "freep s1 \<in> set bs" and F: "F = free_bytes s1 bs" by blast
  have f: "brk s1 = brk s" "base_at s1 = base_at s" by (simp_all add: s1_def)
  have u1: "untouched s s1 A" for A by (auto simp: untouched_def s1_def)
  have m: "umalloc grants nbytes s = malloc_loop grants (units nbytes) s1 (freep s1) (hptr s1 (freep s1))"
    by (simp add: umalloc_def s1_def Let_def)
  from malloc_loop_ok [OF l un g] show ?thesis
  proof (elim disjE exE conjE)
    assume "malloc_loop grants (units nbytes) s1 (freep s1) (hptr s1 (freep s1)) = Some (0, s1)"
    moreover have "freep s1 \<noteq> 0" by (rule free_list_freep_pos [OF l])
    ultimately show ?thesis using l F f u1 m by (auto simp: heap_inv_def)
  next
    fix h t bs' assume t: "malloc_loop grants (units nbytes) s1 (freep s1) (hptr s1 (freep s1)) = Some (h + 8, t)" "brk s1 \<le> brk t"
      "taken s1 (free_bytes s1 bs \<union> {brk s1..<brk t}) h (units nbytes) t bs'"
    have "heap_inv t (F \<union> {brk s..<brk t} - {h..<h + 8 * units nbytes})" using t(3) f F by (auto simp: heap_inv_def taken_def)
    moreover have "untouched s t (F \<union> {brk s..<brk t})" using untouched_trans [OF u1] t(3) f F by (auto simp: taken_def)
    moreover have "freep t \<noteq> 0" using t(3) free_list_freep_pos by (auto simp: taken_def)
    ultimately show ?thesis using m t f F unfolding taken_def by (intro disjI2 exI [of _ h] exI [of _ t]) simp
  qed
qed


lemma ufree_inv:
  assumes inv: "heap_inv s F" "freep s \<noteq> 0"
    and bp: "base_at s + 8 \<le> bp" "0 < hsize s bp" "bp + 8 * hsize s bp \<le> brk s" "{bp..<bp + 8 * hsize s bp} \<inter> F = {}"
  obtains t where "ufree (bp + 8) s = Some t" "heap_inv t (F \<union> {bp..<bp + 8 * hsize s bp})" "freep t \<noteq> 0" "brk t = brk s"
    "untouched s t (F \<union> {bp..<bp + 8 * hsize s bp})"
proof -
  obtain bs where l: "free_list s bs" "freep s \<in> set bs" and F: "F = free_bytes s bs" using inv by (auto simp: heap_inv_def)
  obtain t bs' where t: "ufree (bp + 8) s = Some t" "free_list t bs'" "freep t \<in> set bs'"
    "free_bytes t bs' = free_bytes s bs \<union> {bp..<bp + 8 * hsize s bp}" "brk t = brk s"
    "untouched s t (free_bytes s bs \<union> {bp..<bp + 8 * hsize s bp})"
    by (rule ufree_ok [OF l bp [unfolded F]])
  have "heap_inv t (F \<union> {bp..<bp + 8 * hsize s bp})" using t(2-4) F by (auto simp: heap_inv_def)
  then show ?thesis using that t(1,5,6) F free_list_freep_pos [OF t(2,3)] by simp
qed

lemma heap_inv_range:
  assumes "heap_inv s F"
  shows "F \<subseteq> {base_at s + 8..<brk s}"
proof
  fix a assume a: "a \<in> F"
  then obtain bs where l: "free_list s bs" and F: "F = free_bytes s bs" using assms by (auto simp: heap_inv_def)
  then obtain b where b: "b \<in> set bs" "b \<le> a" "a < b + 8 * hsize s b" using a by (auto simp: free_bytes_def)
  have "b + 8 * hsize s b \<le> brk s" using l spaced_below [of "hsize s" bs "brk s" b] b(1) by (auto simp: free_list_def)
  moreover have "base_at s + 8 \<le> b"
  proof -
    obtain xs where bs: "bs = base_at s # xs" using l by (cases bs) (auto simp: free_list_def)
    have "b \<noteq> base_at s" using l b by (auto simp: free_list_def)
    moreover have "spaced (hsize s) (base_at s # xs) (brk s)" "hsize s (base_at s) = 0" using l unfolding free_list_def bs by blast+
    ultimately show ?thesis using spaced_above [of "hsize s" "base_at s" xs "brk s" b] b(1) bs by simp
  qed
  ultimately show "a \<in> {base_at s + 8..<brk s}" using b by simp
qed

lemma spaced_end: "spaced z xs e \<Longrightarrow> \<forall>x\<in>set xs. x + 8 * max 1 (z x) \<le> e' \<Longrightarrow> spaced z xs e'"
proof (induction xs)
  case (Cons x xs)
  then show ?case by (cases xs) auto
qed simp

text \<open>The break may be moved, also down, as long as it stays above the free blocks.\<close>

lemma heap_inv_brk:
  assumes inv: "heap_inv s F" and b: "base_at s + 8 \<le> b" "F \<subseteq> {..<b}" "b \<le> 2 ^ 31"
  shows "heap_inv (s\<lparr>brk := b\<rparr>) F"
proof -
  have l': "free_list (s\<lparr>brk := b\<rparr>) bs" if l: "free_list s bs" and F: "F = free_bytes s bs" for bs
  proof -
    have "x + 8 * max 1 (hsize s x) \<le> b" if x: "x \<in> set bs" for x
    proof (cases "hsize s x = 0")
      case True
      then have "x = base_at s" using l x by (auto simp: free_list_def)
      then show ?thesis using True b(1) by simp
    next
      case False
      then have "x + 8 * hsize s x - 1 \<in> F" using x by (auto simp: F free_bytes_def intro!: bexI [of _ x])
      then show ?thesis using False b(2) by (auto simp: max_def)
    qed
    moreover have "spaced (hsize s) bs (brk s)" using l unfolding free_list_def by blast
    ultimately have "spaced (hsize s) bs b" using spaced_end by blast
    then show ?thesis using l b(3) by (simp add: free_list_def)
  qed
  have f': "free_bytes (s\<lparr>brk := b\<rparr>) bs = free_bytes s bs" for bs by (rule free_bytes_cong) simp
  show ?thesis using inv unfolding heap_inv_def
  proof (elim disjE exE conjE)
    fix bs assume bs: "free_list s bs" "freep s \<in> set bs" "F = free_bytes s bs"
    show "(freep (s\<lparr>brk := b\<rparr>) = 0 \<and> F = {} \<and> 0 < base_at (s\<lparr>brk := b\<rparr>) \<and> base_at (s\<lparr>brk := b\<rparr>) + 8 \<le> brk (s\<lparr>brk := b\<rparr>) \<and>
        brk (s\<lparr>brk := b\<rparr>) \<le> 2 ^ 31) \<or>
      (\<exists>bs. free_list (s\<lparr>brk := b\<rparr>) bs \<and> freep (s\<lparr>brk := b\<rparr>) \<in> set bs \<and> F = free_bytes (s\<lparr>brk := b\<rparr>) bs)"
      using l' [OF bs(1,3)] bs(2,3) by (intro disjI2 exI [of _ bs]) (simp add: f')
  qed (use b in simp)
qed

text \<open>
  A program calls \<^verbatim>\<open>malloc\<close>, frees what it was given, and may move the break itself, up and down. \<open>L\<close> has the blocks it holds: the
  address it was given and the number of bytes it asked for. \<open>lim\<close> is the end of the last memory \<^verbatim>\<open>malloc\<close> took from the kernel, at
  first the end of the program; the program must not give back memory below it. What the kernel grants may differ from
  call to call.
\<close>

inductive heap_step :: "heap \<times> (nat \<times> nat) set \<times> nat \<Rightarrow> heap \<times> (nat \<times> nat) set \<times> nat \<Rightarrow> bool" where
  step_malloc: "\<forall>x. grants x \<longrightarrow> x \<le> 2 ^ 31 \<Longrightarrow> nbytes < 2 ^ 31 - 16 \<Longrightarrow> umalloc grants nbytes s = Some (r, t) \<Longrightarrow>
    heap_step (s, L, lim) (t, if r = 0 then L else insert (r, nbytes) L, if brk t = brk s then lim else brk t)"
| step_free: "(r, nbytes) \<in> L \<Longrightarrow> ufree r s = Some t \<Longrightarrow> heap_step (s, L, lim) (t, L - {(r, nbytes)}, lim)"
| step_sbrk: "\<forall>x. grants x \<longrightarrow> x \<le> 2 ^ 31 \<Longrightarrow> sbrk grants k s = Some (p, t) \<Longrightarrow> lim \<le> brk t \<Longrightarrow> heap_step (s, L, lim) (t, L, lim)"

definition blk :: "nat \<times> nat \<Rightarrow> nat set" where
  "blk x = {fst x - 8..<fst x - 8 + 8 * units (snd x)}"

definition client_inv :: "heap \<Rightarrow> nat set \<Rightarrow> (nat \<times> nat) set \<Rightarrow> nat \<Rightarrow> bool" where
  "client_inv s F L lim \<longleftrightarrow> heap_inv s F \<and> (freep s = 0 \<longrightarrow> L = {}) \<and> base_at s + 8 \<le> lim \<and> lim \<le> brk s \<and> F \<subseteq> {..<lim} \<and>
     (\<forall>x\<in>L. base_at s + 16 \<le> fst x \<and> snd x < 2 ^ 31 - 16 \<and> hsize s (fst x - 8) = units (snd x) \<and> blk x \<inter> F = {} \<and>
        blk x \<subseteq> {..<lim}) \<and>
     (\<forall>x\<in>L. \<forall>y\<in>L. x \<noteq> y \<longrightarrow> blk x \<inter> blk y = {})"

lemma blk_simps:
  assumes "8 \<le> fst x" "snd x < 2 ^ 31 - 16"
  shows "fst x - 8 \<in> blk x" "{fst x - 8..<fst x + snd x} \<subseteq> blk x"
  using assms units_bounds [OF assms(2)] by (auto simp: blk_def)

text \<open>An operation that stays away from the blocks of the program keeps them.\<close>

lemma client_keep:
  assumes c: "client_inv s F L lim" and t: "heap_inv t F'" "freep t \<noteq> 0" "untouched s t A"
    and lim: "lim \<le> lim'" "lim' \<le> brk t" "F' \<subseteq> {..<lim'}"
    and away: "\<forall>x\<in>L'. blk x \<inter> (A \<union> F') = {}" and L': "L' \<subseteq> L"
  shows "client_inv t F' L' lim'"
proof -
  have b: "base_at t = base_at s" using t(3) by (simp add: untouched_def)
  have "base_at t + 16 \<le> fst x \<and> snd x < 2 ^ 31 - 16 \<and> hsize t (fst x - 8) = units (snd x) \<and> blk x \<inter> F' = {} \<and> blk x \<subseteq> {..<lim'}"
    if x: "x \<in> L'" for x
  proof -
    have i: "base_at s + 16 \<le> fst x" "snd x < 2 ^ 31 - 16" "hsize s (fst x - 8) = units (snd x)" "blk x \<subseteq> {..<lim}"
      using c x L' by (auto simp: client_inv_def)
    then have "fst x - 8 \<in> blk x" "fst x - 8 \<noteq> base_at s" using blk_simps(1) [of x] by auto
    then have "hsize t (fst x - 8) = hsize s (fst x - 8)" using t(3) away x by (auto simp: untouched_def)
    then show ?thesis using i away x lim(1) b by auto
  qed
  moreover have "\<forall>x\<in>L'. \<forall>y\<in>L'. x \<noteq> y \<longrightarrow> blk x \<inter> blk y = {}"
  proof (intro ballI impI)
    fix x y assume "x \<in> L'" "y \<in> L'" "x \<noteq> y"
    moreover from this have "x \<in> L" "y \<in> L" using L' by auto
    ultimately show "blk x \<inter> blk y = {}" using c unfolding client_inv_def by blast
  qed
  moreover have "base_at t + 8 \<le> lim'" using c lim(1) b by (simp add: client_inv_def)
  ultimately show ?thesis using t(1,2) lim(2,3) by (simp add: client_inv_def)
qed

lemma client_malloc:
  assumes c: "client_inv s F L lim" and n: "nbytes < 2 ^ 31 - 16" and g: "\<forall>x. grants x \<longrightarrow> x \<le> 2 ^ 31"
  obtains r t F' where "umalloc grants nbytes s = Some (r, t)"
    "client_inv t F' (if r = 0 then L else insert (r, nbytes) L) (if brk t = brk s then lim else brk t)"
    "r \<noteq> 0 \<longrightarrow> (\<forall>x\<in>L. blk x \<inter> blk (r, nbytes) = {})"
proof -
  have inv: "heap_inv s F" "lim \<le> brk s" "F \<subseteq> {..<lim}" using c by (simp_all add: client_inv_def)
  have own: "blk x \<inter> F = {}" "blk x \<subseteq> {..<lim}" if "x \<in> L" for x using c that by (auto simp: client_inv_def)
  from umalloc_ok [OF inv(1) n g] show ?thesis
  proof (elim disjE exE conjE)
    fix t assume t: "umalloc grants nbytes s = Some (0, t)" "heap_inv t F" "freep t \<noteq> 0" "brk t = brk s" "untouched s t F"
    have "client_inv t F L lim" by (rule client_keep [OF c t(2,3,5)]) (use t(4) own inv in auto)
    then show ?thesis using that [OF t(1)] t(4) by simp
  next
    fix h t assume t: "umalloc grants nbytes s = Some (h + 8, t)" "freep t \<noteq> 0" "brk s \<le> brk t"
      and B: "{h..<h + 8 * units nbytes} \<subseteq> F \<union> {brk s..<brk t}" "hsize t h = units nbytes" "base_at s + 8 \<le> h" "h + 8 * units nbytes \<le> brk t"
      and i: "heap_inv t (F \<union> {brk s..<brk t} - {h..<h + 8 * units nbytes})" and u: "untouched s t (F \<union> {brk s..<brk t})"
    let ?x = "(h + 8, nbytes)" and ?F = "F \<union> {brk s..<brk t} - {h..<h + 8 * units nbytes}"
    let ?lim = "if brk t = brk s then lim else brk t"
    have bx: "blk ?x = {h..<h + 8 * units nbytes}" by (simp add: blk_def)
    have tops: "lim \<le> ?lim" "?lim \<le> brk t" "F \<union> {brk s..<brk t} \<subseteq> {..<?lim}" using t(3) inv(2,3) by auto
    have away: "blk x \<inter> (F \<union> {brk s..<brk t}) = {}" if "x \<in> L" for x using own [OF that] inv(2) by fastforce
    have k: "client_inv t ?F L ?lim" by (rule client_keep [OF c i t(2) u tops(1,2)]) (use away tops(3) in auto)
    have new: "blk x \<inter> blk ?x = {}" if "x \<in> L" for x using away [OF that] B(1) unfolding bx by blast
    moreover have "base_at t = base_at s" using u by (simp add: untouched_def)
    moreover have "blk ?x \<inter> ?F = {}" "blk ?x \<subseteq> {..<?lim}" using B(1) tops(3) unfolding bx by blast+
    ultimately have "client_inv t ?F (insert ?x L) ?lim" using k B(2,3) n t(2) unfolding client_inv_def by (auto simp: Int_commute)
    then show ?thesis using that [OF t(1)] new by simp
  qed
qed

lemma client_free:
  assumes c: "client_inv s F L lim" and x: "(r, nbytes) \<in> L"
  obtains t F' where "ufree r s = Some t" "client_inv t F' (L - {(r, nbytes)}) lim"
proof -
  let ?h = "r - 8"
  have i: "base_at s + 16 \<le> r" "hsize s ?h = units nbytes" "blk (r, nbytes) \<inter> F = {}" "blk (r, nbytes) \<subseteq> {..<lim}"
    and inv: "heap_inv s F" "freep s \<noteq> 0" and tb: "lim \<le> brk s" "F \<subseteq> {..<lim}"
    using c x by (auto simp: client_inv_def)
  have B: "{?h..<?h + 8 * hsize s ?h} = blk (r, nbytes)" by (simp add: blk_def i(2))
  have pos: "0 < hsize s ?h" by (simp add: i(2) units_def)
  have le: "?h + 8 * hsize s ?h \<le> brk s"
  proof -
    have "?h + 8 * hsize s ?h - 1 \<in> blk (r, nbytes)" unfolding B [symmetric] using pos by simp
    then show ?thesis using i(4) tb(1) by auto
  qed
  have base: "base_at s + 8 \<le> ?h" and r: "?h + 8 = r" using i(1) by auto
  obtain t where t: "ufree r s = Some t" "heap_inv t (F \<union> blk (r, nbytes))" "freep t \<noteq> 0" "brk t = brk s" "untouched s t (F \<union> blk (r, nbytes))"
    by (rule ufree_inv [OF inv base pos le, unfolded B r, OF i(3)])
  have "blk y \<inter> (F \<union> blk (r, nbytes)) = {}" if "y \<in> L - {(r, nbytes)}" for y
  proof -
    have "y \<in> L" "y \<noteq> (r, nbytes)" using that by auto
    then have "blk y \<inter> F = {}" "blk y \<inter> blk (r, nbytes) = {}" using c x unfolding client_inv_def by blast+
    then show ?thesis by blast
  qed
  then have "client_inv t (F \<union> blk (r, nbytes)) (L - {(r, nbytes)}) lim"
    by (intro client_keep [OF c t(2,3,5)]) (use t(4) tb i(4) in auto)
  then show ?thesis using that t(1) by blast
qed

lemma client_sbrk:
  assumes c: "client_inv s F L lim" and g: "\<forall>x. grants x \<longrightarrow> x \<le> 2 ^ 31" and k: "sbrk grants k s = Some (p, t)" "lim \<le> brk t"
  shows "client_inv t F L lim"
proof -
  have t: "t = s\<lparr>brk := brk t\<rparr>" "brk t \<le> 2 ^ 31" using k(1) g by (auto simp: sbrk_def split: if_splits)
  have "F \<subseteq> {..<lim}" "base_at s + 8 \<le> lim" "heap_inv s F" using c by (simp_all add: client_inv_def)
  then have "heap_inv (s\<lparr>brk := brk t\<rparr>) F" using k(2) t(2) by (intro heap_inv_brk) auto
  moreover have "base_at t = base_at s" "freep t = freep s" "hsize t = hsize s" by (subst t(1), simp)+
  ultimately show ?thesis using c k(2) unfolding client_inv_def t(1) [symmetric] by simp
qed

lemma client_step:
  assumes c: "client_inv s F L lim" and st: "heap_step (s, L, lim) (t, M, lim')"
  shows "\<exists>F'. client_inv t F' M lim'"
  using st
proof cases
  case (step_malloc grants nbytes r)
  obtain r' t' F' where "umalloc grants nbytes s = Some (r', t')"
    "client_inv t' F' (if r' = 0 then L else insert (r', nbytes) L) (if brk t' = brk s then lim else brk t')"
    by (rule client_malloc [OF c step_malloc(4,3)])
  then show ?thesis using step_malloc by auto
next
  case (step_free r nbytes)
  obtain t' F' where "ufree r s = Some t'" "client_inv t' F' (L - {(r, nbytes)}) lim" by (rule client_free [OF c step_free(3)])
  then show ?thesis using step_free by auto
next
  case (step_sbrk grants k p)
  then show ?thesis using client_sbrk [OF c step_sbrk(3,4)] by auto
qed

text \<open>
  C10. The allocator of the user programs is safe and returns. A program starts with an empty list and makes any sequence of calls of
  \<^verbatim>\<open>malloc\<close> of less than \<open>2 ^ 31 - 16\<close> bytes, of \<^verbatim>\<open>free\<close> for a block it holds, and of \<^verbatim>\<open>sbrk\<close> of any amount, also negative, that does not
  give back memory \<^verbatim>\<open>malloc\<close> took or the program itself; the kernel may refuse any request and never moves the break
  above its own addresses. Then the blocks the program holds, with their headers, do not overlap and lie below the break and
  above the header \<^verbatim>\<open>base\<close>; the next such \<^verbatim>\<open>malloc\<close> returns, and if it does not return 0 the new block does not overlap one that is
  held; and \<^verbatim>\<open>free\<close> of any block that is held returns.
\<close>

theorem umalloc_safe:
  assumes init: "freep s0 = 0" "0 < base_at s0" "base_at s0 + 8 \<le> brk s0" "brk s0 \<le> 2 ^ 31"
    and run: "heap_step\<^sup>*\<^sup>* (s0, {}, brk s0) (s, L, lim)"
  shows "(\<forall>(r, n)\<in>L. base_at s + 8 \<le> r - 8 \<and> r + n \<le> brk s \<and> (\<exists>t. ufree r s = Some t)) \<and>
    (\<forall>(r, n)\<in>L. \<forall>(r', n')\<in>L. (r, n) \<noteq> (r', n') \<longrightarrow> {r - 8..<r + n} \<inter> {r' - 8..<r' + n'} = {}) \<and>
    (\<forall>grants n. (\<forall>x. grants x \<longrightarrow> x \<le> 2 ^ 31) \<and> n < 2 ^ 31 - 16 \<longrightarrow> (\<exists>r t. umalloc grants n s = Some (r, t) \<and>
       (r \<noteq> 0 \<longrightarrow> r + n \<le> brk t \<and> (\<forall>(r', n')\<in>L. {r - 8..<r + n} \<inter> {r' - 8..<r' + n'} = {}))))"
proof -
  have "\<exists>F. client_inv s F L lim" using run
  proof (induction "(s, L, lim)" arbitrary: s L lim rule: rtranclp_induct)
    case base
    then show ?case using init by (auto simp: client_inv_def heap_inv_def)
  next
    case (step y)
    obtain s' L' lim' where y: "y = (s', L', lim')" by (cases y)
    then show ?case using step(3) [OF y] client_step step(2) by blast
  qed
  then obtain F where c: "client_inv s F L lim" by blast
  have own: "base_at t + 16 \<le> r \<and> {r - 8..<r + n} \<subseteq> blk (r, n) \<and> r + n \<le> brk t" if c: "client_inv t F M q" "(r, n) \<in> M" for t F M q r n
  proof -
    have "q \<le> brk t" "blk (r, n) \<subseteq> {..<q}" and i: "base_at t + 16 \<le> r" "n < 2 ^ 31 - 16" using c by (auto simp: client_inv_def)
    then have b: "blk (r, n) \<subseteq> {..<brk t}" by auto
    have "{r - 8..<r + n} \<subseteq> blk (r, n)" using blk_simps(2) [of "(r, n)"] i by simp
    moreover from this have "{r - 8..<r + n} \<subseteq> {..<brk t}" using b by blast
    then have "r + n - 1 < brk t" using i(1) by (auto dest!: subsetD [where c = "r + n - 1"])
    ultimately show ?thesis using i(1) by linarith
  qed
  have apart: "{r - 8..<r + n} \<inter> {r' - 8..<r' + n'} = {}"
    if c: "client_inv t F M q" "(r, n) \<in> M" "(r', n') \<in> M" "(r, n) \<noteq> (r', n')" for t F M q r n r' n'
  proof -
    have "blk (r, n) \<inter> blk (r', n') = {}" using c unfolding client_inv_def by blast
    then show ?thesis using own [OF c(1,2)] own [OF c(1,3)] by blast
  qed
  have mal: "\<exists>r t. umalloc grants n s = Some (r, t) \<and>
       (r \<noteq> 0 \<longrightarrow> r + n \<le> brk t \<and> (\<forall>(r', n')\<in>L. {r - 8..<r + n} \<inter> {r' - 8..<r' + n'} = {}))"
    if g: "(\<forall>x. grants x \<longrightarrow> x \<le> 2 ^ 31) \<and> n < 2 ^ 31 - 16" for grants n
  proof -
    obtain r t F' where m: "umalloc grants n s = Some (r, t)" "client_inv t F' (if r = 0 then L else insert (r, n) L) (if brk t = brk s then lim else brk t)"
      "r \<noteq> 0 \<longrightarrow> (\<forall>x\<in>L. blk x \<inter> blk (r, n) = {})"
      by (rule client_malloc [OF c conjunct2 [OF g] conjunct1 [OF g]])
    have "r + n \<le> brk t \<and> (\<forall>(r', n')\<in>L. {r - 8..<r + n} \<inter> {r' - 8..<r' + n'} = {})" if r: "r \<noteq> 0"
    proof -
      have c': "client_inv t F' (insert (r, n) L) (if brk t = brk s then lim else brk t)" using m(2) r by simp
      have o: "{r - 8..<r + n} \<subseteq> blk (r, n)" "r + n \<le> brk t" using own [OF c', of r n] by auto
      have "{r - 8..<r + n} \<inter> {r' - 8..<r' + n'} = {}" if x: "(r', n') \<in> L" for r' n'
      proof -
        have "{r' - 8..<r' + n'} \<subseteq> blk (r', n')" using own [OF c x] by simp
        moreover have "blk (r', n') \<inter> blk (r, n) = {}" using m(3) r x by blast
        ultimately show ?thesis using o(1) by blast
      qed
      then show ?thesis using o(2) by blast
    qed
    then show ?thesis using m(1) by blast
  qed
  have fr: "\<exists>t. ufree r s = Some t" if "(r, n) \<in> L" for r n using client_free [OF c that] by blast
  show ?thesis
  proof (intro conjI ballI allI impI)
    fix x assume x: "x \<in> L"
    then show "case x of (r, n) \<Rightarrow> base_at s + 8 \<le> r - 8 \<and> r + n \<le> brk s \<and> (\<exists>t. ufree r s = Some t)"
      using own [OF c, of "fst x" "snd x"] fr [of "fst x" "snd x"] by (auto simp: split_def)
    show "case x of (r, n) \<Rightarrow> \<forall>(r', n')\<in>L. (r, n) \<noteq> (r', n') \<longrightarrow> {r - 8..<r + n} \<inter> {r' - 8..<r' + n'} = {}"
      using apart [OF c, of "fst x" "snd x"] x by (cases x) (simp add: split_def del: atLeastLessThan_iff)
  qed (rule mal)
qed

definition demo_heap :: heap where
  "demo_heap = \<lparr>hptr = (\<lambda>_. 0), hsize = (\<lambda>_. 0), freep = 0, base_at = 4000, brk = 12288\<rparr>"

text \<open>A program that holds a block of 10 bytes asks for 100 more.\<close>

lemma demo_heap_malloc: "\<exists>s. umalloc (\<lambda>x. x \<le> 2 ^ 31) 10 demo_heap = Some (45040, s) \<and> brk s = 45056"
proof -
  let ?g = "\<lambda>x :: int. x \<le> 2 ^ 31"
  define s where "s = \<lparr>hptr = (\<lambda>_. 0)(4000 := 4000), hsize = (\<lambda>_. 0)(4000 := 0), freep = 4000, base_at = 4000, brk = 12288\<rparr>"
  define u where "u = s\<lparr>brk := 45056, hsize := (hsize s)(12288 := 4096)\<rparr>"
  define t where "t = free_at 12288 4000 u"
  have "free_loop u 12288 4000 = Some 4000" by (subst free_loop.simps) (simp add: u_def s_def)
  then have "ufree 12296 u = Some t" by (simp add: ufree_def t_def u_def s_def)
  then have m: "morecore ?g 3 s = Some (4000, t)"
    by (simp add: morecore_def sbrk_def as_int32_def u_def s_def t_def free_at_def Let_def)
  have t: "hptr t 4000 = 12288" "hsize t 12288 = 4096" by (simp_all add: t_def free_at_def u_def s_def Let_def)
  have "malloc_loop ?g 3 s 4000 4000 = malloc_loop ?g 3 t 4000 12288"
    using m by (subst malloc_loop.simps) (simp add: s_def t)
  also have "\<dots> = Some (carve 3 4000 12288 t)" by (subst malloc_loop.simps) (simp add: t)
  finally have "malloc_loop ?g 3 s 4000 4000 = Some (45040, snd (carve 3 4000 12288 t))" by (simp add: carve_def t Let_def)
  moreover have "brk (snd (carve 3 4000 12288 t)) = 45056" by (simp add: carve_def t Let_def) (simp add: t_def free_at_def u_def s_def Let_def)
  moreover have "umalloc ?g 10 demo_heap = malloc_loop ?g 3 s 4000 4000"
    by (simp add: umalloc_def demo_heap_def units_def Let_def s_def)
  ultimately show ?thesis by simp
qed

text \<open>The break after that is 45056; the program moves it up and down again before the next call.\<close>

theorem umalloc_safe_witness:
  "\<exists>s lim r t. heap_step\<^sup>*\<^sup>* (demo_heap, {}, 12288) (s, {(45040, 10)}, lim) \<and> umalloc (\<lambda>x. x \<le> 2 ^ 31) 100 s = Some (r, t) \<and>
     (r \<noteq> 0 \<longrightarrow> {r - 8..<r + 100} \<inter> {45032..<45050} = {})"
proof -
  let ?g = "\<lambda>x :: int. x \<le> 2 ^ 31"
  obtain s where s: "umalloc ?g 10 demo_heap = Some (45040, s)" "brk s = 45056" using demo_heap_malloc by blast
  define u where "u = s\<lparr>brk := 53248\<rparr>"
  have init: "freep demo_heap = 0" "0 < base_at demo_heap" "base_at demo_heap + 8 \<le> brk demo_heap" "brk demo_heap \<le> 2 ^ 31"
    and b: "brk demo_heap = 12288" by (simp_all add: demo_heap_def)
  have "heap_step (demo_heap, {}, 12288) (s, if (45040 :: nat) = 0 then {} else insert (45040, 10) {}, if brk s = brk demo_heap then 12288 else brk s)"
    by (rule step_malloc [OF _ _ s(1)]) simp_all
  then have "heap_step (demo_heap, {}, 12288) (s, {(45040, 10)}, 45056)" using s(2) b by simp
  moreover have "sbrk ?g 8192 s = Some (45056, u)" by (simp add: sbrk_def s(2) u_def)
  then have "heap_step (s, {(45040, 10)}, 45056) (u, {(45040, 10)}, 45056)" by (rule step_sbrk [rotated]) (simp_all add: u_def)
  moreover have "sbrk ?g (- 4096) u = Some (53248, u\<lparr>brk := 49152\<rparr>)" by (simp add: sbrk_def u_def)
  then have "heap_step (u, {(45040, 10)}, 45056) (u\<lparr>brk := 49152\<rparr>, {(45040, 10)}, 45056)" by (rule step_sbrk [rotated]) simp_all
  ultimately have run: "heap_step\<^sup>*\<^sup>* (demo_heap, {}, brk demo_heap) (u\<lparr>brk := 49152\<rparr>, {(45040, 10)}, 45056)"
    unfolding b by (blast intro: rtranclp.rtrancl_into_rtrancl)
  have g: "(\<forall>x :: int. x \<le> 2 ^ 31 \<longrightarrow> x \<le> 2 ^ 31) \<and> (100 :: nat) < 2 ^ 31 - 16" by simp
  obtain r t where r: "umalloc ?g 100 (u\<lparr>brk := 49152\<rparr>) = Some (r, t)"
    "r \<noteq> 0 \<longrightarrow> r + 100 \<le> brk t \<and> (\<forall>(r', n')\<in>{(45040, 10)}. {r - 8..<r + 100} \<inter> {r' - 8..<r' + n'} = {})"
    using umalloc_safe [OF init run, THEN conjunct2, THEN conjunct2, THEN spec, THEN spec, THEN mp, OF g] by blast
  then have "r \<noteq> 0 \<longrightarrow> {r - 8..<r + 100} \<inter> {45032..<45050} = {}" by auto
  then show ?thesis using run r(1) unfolding b by blast
qed

end
