(* ===== verification/Grep.thy ===== *)
theory Grep
  imports Printf
begin

text \<open>
  The user program grep.c: the regular-expression matcher, proved equivalent to the language a pattern
  denotes, and the loop that cuts the input into lines. Strings are lists of bytes without their NUL;
  \<open>ch\<close> is the character at the start of a string, NUL at its end.

  What a program reads from a descriptor is the list of what the successive calls of \<^verbatim>\<open>read\<close> find there
  (\<open>delivery\<close>); a regular file is a single \<open>Data\<close>, of which every call takes as much as it asked for. What a
  program writes is the list of its writes.
\<close>

section \<open>Reading and writing\<close>

datatype delivery = Data "byte list" | Fault

fun uread :: "nat \<Rightarrow> delivery list \<Rightarrow> int \<times> byte list \<times> delivery list" where
  "uread n [] = (0, [], [])"
| "uread n (Fault # s) = (-1, [], s)"
| "uread n (Data c # s) =
     (if length c \<le> n then (int (length c), c, s) else (int n, take n c, Data (drop n c) # s))"

fun delivery_size :: "delivery \<Rightarrow> nat" where
  "delivery_size (Data c) = Suc (length c)"
| "delivery_size Fault = 1"

abbreviation input_size :: "delivery list \<Rightarrow> nat" where
  "input_size s \<equiv> sum_list (map delivery_size s)"

lemma uread_shrinks: "uread n s = (k, d, s') \<Longrightarrow> k > 0 \<Longrightarrow> input_size s' < input_size s"
  by (induction n s rule: uread.induct) (auto split: if_splits)

section \<open>The matcher\<close>

definition ch :: "byte list \<Rightarrow> byte" where
  "ch s = (case s of [] \<Rightarrow> 0 | c # _ \<Rightarrow> c)"

lemma ch_simps [simp]: "ch [] = 0" "ch (c # s) = c"
  by (simp_all add: ch_def)

function matchhere :: "byte list \<Rightarrow> byte list \<Rightarrow> bool"
  and matchstar :: "byte \<Rightarrow> byte list \<Rightarrow> byte list \<Rightarrow> bool" where
  "matchhere re tx =
     (if ch re = 0 then True
      else if ch (tl re) = 42 then matchstar (ch re) (tl (tl re)) tx
      else if ch re = 36 \<and> ch (tl re) = 0 then ch tx = 0
      else if ch tx \<noteq> 0 \<and> (ch re = 46 \<or> ch re = ch tx) then matchhere (tl re) (tl tx)
      else False)"
| "matchstar c re tx =
     (if matchhere re tx then True
      else if ch tx \<noteq> 0 \<and> (ch tx = c \<or> c = 46) then matchstar c re (tl tx)
      else False)"
  by pat_completeness auto
termination
  by (relation "measures [\<lambda>x. case x of Inl (re, _) \<Rightarrow> 2 * length re | Inr (_, re, _) \<Rightarrow> 2 * length re + 1,
        \<lambda>x. case x of Inl (_, tx) \<Rightarrow> length tx | Inr (_, _, tx) \<Rightarrow> length tx]")
    (auto simp: ch_def split: list.splits)

declare matchhere.simps [simp del] matchstar.simps [simp del]

function match_from :: "byte list \<Rightarrow> byte list \<Rightarrow> bool" where
  "match_from re tx =
     (if matchhere re tx then True else if ch tx \<noteq> 0 then match_from re (tl tx) else False)"
  by pat_completeness auto
termination
  by (relation "measure (length \<circ> snd)") (auto simp: ch_def split: list.splits)

declare match_from.simps [simp del]

definition match :: "byte list \<Rightarrow> byte list \<Rightarrow> bool" where
  "match re tx = (if ch re = 94 then matchhere (tl re) tx else match_from re tx)"

section \<open>The program\<close>

text \<open>\<^verbatim>\<open>strchr(p, '\n')\<close>: the line before the first newline and what follows it.\<close>

fun split_line :: "byte list \<Rightarrow> (byte list \<times> byte list) option" where
  "split_line [] = None"
| "split_line (c # p) =
     (if c = 0 then None
      else if c = 10 then Some ([], p)
      else case split_line p of None \<Rightarrow> None | Some (l, r) \<Rightarrow> Some (c # l, r))"

lemma split_line_eq: "split_line p = Some (l, r) \<Longrightarrow> p = l @ 10 # r \<and> 10 \<notin> set l"
  by (induction p arbitrary: l) (auto split: if_splits option.splits)

text \<open>The inner loop: the lines written, and what is left of the buffer at \<^verbatim>\<open>p\<close>.\<close>

function grep_lines :: "byte list \<Rightarrow> byte list \<Rightarrow> byte list list \<times> byte list" where
  "grep_lines pattern p =
     (case split_line p of
        None \<Rightarrow> ([], p)
      | Some (l, r) \<Rightarrow>
          let (out, p') = grep_lines pattern r
          in ((if match pattern l then [l @ [10]] else []) @ out, p'))"
  by pat_completeness auto
termination
  by (relation "measure (length \<circ> snd)") (auto dest: split_line_eq)

declare grep_lines.simps [simp del]

text \<open>\<open>held\<close> are the first \<^verbatim>\<open>m\<close> bytes of \<^verbatim>\<open>buf\<close>.\<close>

function grep_loop :: "byte list \<Rightarrow> byte list \<Rightarrow> delivery list \<Rightarrow> byte list list" where
  "grep_loop pattern held s =
     (case uread (1024 - length held - 1) s of (n, d, s') \<Rightarrow>
        if n > 0 then
          (case grep_lines pattern (held @ d) of (out, p) \<Rightarrow>
             out @ grep_loop pattern (if length p = length (held @ d) then [] else p) s')
        else [])"
  by pat_completeness auto
termination
  by (relation "measure (input_size \<circ> (snd \<circ> snd))") (auto intro: uread_shrinks [OF sym])

declare grep_loop.simps [simp del]

definition grep :: "byte list \<Rightarrow> delivery list \<Rightarrow> byte list list" where
  "grep pattern fd = grep_loop pattern [] fd"

text \<open>\<open>opens\<close> is what \<^verbatim>\<open>open\<close> finds under a name; the writes carry their descriptor.\<close>

fun grep_files ::
  "(byte list \<Rightarrow> delivery list option) \<Rightarrow> byte list \<Rightarrow> byte list list \<Rightarrow> (nat \<times> byte list) list" where
  "grep_files opens pattern [] = []"
| "grep_files opens pattern (f # fs) =
     (case opens f of
        None \<Rightarrow> [(1, printf_args ''grep: cannot open %s'' [Str f] @ [10])]
      | Some s \<Rightarrow> map (Pair 1) (grep pattern s) @ grep_files opens pattern fs)"

definition grep_main ::
  "(byte list \<Rightarrow> delivery list option) \<Rightarrow> delivery list \<Rightarrow> byte list list \<Rightarrow> (nat \<times> byte list) list" where
  "grep_main opens stdin argv =
     (if length argv \<le> 1 then [(2, printf_args ''usage: grep pattern [file ...]'' [] @ [10])]
      else if length argv \<le> 2 then map (Pair 1) (grep (argv ! 1) stdin)
      else grep_files opens (argv ! 1) (drop 2 argv))"

section \<open>What a pattern denotes\<close>

datatype atom = AnyChar | Char byte

fun accepts :: "atom \<Rightarrow> byte \<Rightarrow> bool" where
  "accepts AnyChar x = True"
| "accepts (Char c) x = (x = c)"

definition atom_of :: "byte \<Rightarrow> atom" where
  "atom_of c = (if c = 46 then AnyChar else Char c)"

datatype item = One atom | Many atom

text \<open>The items of a pattern, and whether it ends in \<^verbatim>\<open>$\<close>.\<close>

fun parse :: "byte list \<Rightarrow> item list \<times> bool" where
  "parse [] = ([], False)"
| "parse [c] = (if c = 36 then ([], True) else ([One (atom_of c)], False))"
| "parse (c # d # re) =
     (if d = 42 then apfst ((#) (Many (atom_of c))) (parse re)
      else apfst ((#) (One (atom_of c))) (parse (d # re)))"

fun lang :: "item list \<Rightarrow> byte list set" where
  "lang [] = {[]}"
| "lang (One a # is) = {x # w |x w. accepts a x \<and> w \<in> lang is}"
| "lang (Many a # is) = {u @ w |u w. list_all (accepts a) u \<and> w \<in> lang is}"

definition fits :: "item list \<times> bool \<Rightarrow> byte list \<Rightarrow> bool" where
  "fits re tx \<longleftrightarrow> (\<exists>u v. tx = u @ v \<and> u \<in> lang (fst re) \<and> (snd re \<longrightarrow> v = []))"

definition matches_at :: "byte list \<Rightarrow> byte list \<Rightarrow> bool" where
  "matches_at re tx \<longleftrightarrow> fits (parse re) tx"

definition matches :: "byte list \<Rightarrow> byte list \<Rightarrow> bool" where
  "matches re tx \<longleftrightarrow>
     (if re \<noteq> [] \<and> hd re = 94 then matches_at (tl re) tx
      else \<exists>a b. tx = a @ b \<and> matches_at re b)"

lemma fits_Nil: "fits ([], e) tx \<longleftrightarrow> (e \<longrightarrow> tx = [])"
  by (auto simp: fits_def)

lemma fits_One:
  "fits (apfst ((#) (One a)) re) tx \<longleftrightarrow> tx \<noteq> [] \<and> accepts a (hd tx) \<and> fits re (tl tx)"
proof (cases tx)
  case Nil
  then show ?thesis by (cases re) (auto simp: fits_def)
next
  case (Cons x t)
  then show ?thesis by (cases re) (auto simp: fits_def Cons_eq_append_conv)
qed

lemma fits_Many:
  "fits (apfst ((#) (Many a)) re) tx \<longleftrightarrow> (\<exists>u v. tx = u @ v \<and> list_all (accepts a) u \<and> fits re v)"
proof
  assume "fits (apfst ((#) (Many a)) re) tx"
  then obtain x v where x: "tx = x @ v" "x \<in> lang (Many a # fst re)" "snd re \<longrightarrow> v = []"
    unfolding fits_def fst_apfst snd_apfst by blast
  then obtain u w where "x = u @ w" "list_all (accepts a) u" "w \<in> lang (fst re)" by auto
  with x have "tx = u @ w @ v" "list_all (accepts a) u" "w \<in> lang (fst re)" "snd re \<longrightarrow> v = []" by simp_all
  then show "\<exists>u v. tx = u @ v \<and> list_all (accepts a) u \<and> fits re v"
    unfolding fits_def by blast
next
  assume "\<exists>u v. tx = u @ v \<and> list_all (accepts a) u \<and> fits re v"
  then obtain u w v where u: "tx = (u @ w) @ v" "list_all (accepts a) u" "w \<in> lang (fst re)" "snd re \<longrightarrow> v = []"
    by (auto simp: fits_def)
  then have "u @ w \<in> lang (Many a # fst re)" by auto
  with u(1,4) show "fits (apfst ((#) (Many a)) re) tx" unfolding fits_def fst_apfst snd_apfst by blast
qed

lemma matches_at_simps:
  "matches_at [] tx"
  "matches_at [c] tx \<longleftrightarrow> (if c = 36 then tx = [] else tx \<noteq> [] \<and> accepts (atom_of c) (hd tx))"
  using fits_One [of "atom_of c" "([], False)" tx] by (simp_all add: matches_at_def fits_Nil)

lemma matches_at_One:
  "d \<noteq> 42 \<Longrightarrow> matches_at (c # d # re) tx \<longleftrightarrow>
     tx \<noteq> [] \<and> accepts (atom_of c) (hd tx) \<and> matches_at (d # re) (tl tx)"
  by (simp add: matches_at_def fits_One)

lemma matches_at_star:
  "matches_at (c # 42 # re) tx \<longleftrightarrow>
     (\<exists>u v. tx = u @ v \<and> list_all (accepts (atom_of c)) u \<and> matches_at re v)"
  by (simp add: matches_at_def fits_Many)

text \<open>One turn of the loop of \<^verbatim>\<open>matchstar\<close>.\<close>

lemma matches_at_star_step:
  "matches_at (c # 42 # re) tx \<longleftrightarrow>
     matches_at re tx \<or> tx \<noteq> [] \<and> accepts (atom_of c) (hd tx) \<and> matches_at (c # 42 # re) (tl tx)"
proof
  assume "matches_at (c # 42 # re) tx"
  then obtain u v where u: "tx = u @ v" "list_all (accepts (atom_of c)) u" "matches_at re v"
    unfolding matches_at_star by blast
  show "matches_at re tx \<or> tx \<noteq> [] \<and> accepts (atom_of c) (hd tx) \<and> matches_at (c # 42 # re) (tl tx)"
  proof (cases u)
    case (Cons x u')
    with u have "tx \<noteq> []" "accepts (atom_of c) (hd tx)" "tl tx = u' @ v" "list_all (accepts (atom_of c)) u'" by simp_all
    with u(3) show ?thesis unfolding matches_at_star by blast
  qed (use u in simp)
next
  assume "matches_at re tx \<or> tx \<noteq> [] \<and> accepts (atom_of c) (hd tx) \<and> matches_at (c # 42 # re) (tl tx)"
  then show "matches_at (c # 42 # re) tx"
  proof
    assume "matches_at re tx"
    then show ?thesis unfolding matches_at_star by (intro exI [of _ "[]"] exI [of _ tx]) simp
  next
    assume a: "tx \<noteq> [] \<and> accepts (atom_of c) (hd tx) \<and> matches_at (c # 42 # re) (tl tx)"
    then obtain u v where u: "tl tx = u @ v" "list_all (accepts (atom_of c)) u" "matches_at re v"
      unfolding matches_at_star by blast
    with a have "tx = (hd tx # u) @ v" "list_all (accepts (atom_of c)) (hd tx # u)" by (cases tx; simp)+
    with u(3) show ?thesis unfolding matches_at_star by blast
  qed
qed

lemma matcher_correct:
  "0 \<notin> set re \<Longrightarrow> 0 \<notin> set tx \<Longrightarrow> matchhere re tx = matches_at re tx"
  "0 \<notin> set re \<Longrightarrow> 0 \<notin> set tx \<Longrightarrow> c \<noteq> 0 \<Longrightarrow> matchstar c re tx = matches_at (c # 42 # re) tx"
proof (induction re tx and c re tx rule: matchhere_matchstar.induct)
  case (1 re tx)
  show ?case
  proof (cases re)
    case Nil
    then show ?thesis by (simp add: matchhere.simps matches_at_simps)
  next
    case c: (Cons c re')
    then have nz: "c \<noteq> 0" using "1.prems" by auto
    show ?thesis
    proof (cases re')
      case Nil
      then show ?thesis using 1 c nz
        by (cases tx) (auto simp: matchhere.simps matches_at_simps atom_of_def)
    next
      case d: (Cons d re'')
      then have "d \<noteq> 0" "0 \<notin> set re''" using "1.prems" c by auto
      then show ?thesis using 1 c d nz
        by (cases tx) (auto simp: matchhere.simps [of "c # d # re''"] matches_at_One atom_of_def)
    qed
  qed
next
  case (2 c re tx)
  then show ?case
    by (cases tx; subst matchstar.simps; subst matches_at_star_step) (auto simp: atom_of_def matches_at_simps)
qed

lemma match_from_correct:
  "0 \<notin> set re \<Longrightarrow> 0 \<notin> set tx \<Longrightarrow> match_from re tx \<longleftrightarrow> (\<exists>a b. tx = a @ b \<and> matches_at re b)"
proof (induction tx)
  case Nil
  then show ?case by (subst match_from.simps) (simp add: matcher_correct)
next
  case (Cons x tx)
  then show ?case by (subst match_from.simps) (auto simp: matcher_correct Cons_eq_append_conv)
qed

text \<open>
  C31. The matcher decides the language of the pattern: \<^verbatim>\<open>match\<close> succeeds exactly if the text has a part
  (a prefix, for a pattern that starts with \<^verbatim>\<open>^\<close>; a suffix, for one that ends in \<^verbatim>\<open>$\<close>) that is a word of
  the pattern's items, each a character or a starred one.
\<close>

theorem match_equiv:
  assumes "0 \<notin> set re" and "0 \<notin> set tx"
  shows "match re tx \<longleftrightarrow> matches re tx"
  using assms by (cases re) (auto simp: match_def matches_def matcher_correct match_from_correct)

theorem match_equiv_witness:
  "matches (cstr ''^a.*c$'') (cstr ''abbcc'') \<and> \<not> matches (cstr ''^a.*c$'') (cstr ''abbcd'')"
proof -
  have "match (cstr ''^a.*c$'') (cstr ''abbcc'')" and "\<not> match (cstr ''^a.*c$'') (cstr ''abbcd'')"
    by (simp_all add: match_def cstr_def matchhere.simps matchstar.simps)
  then show ?thesis
    using match_equiv [of "cstr ''^a.*c$''" "cstr ''abbcc''"] match_equiv [of "cstr ''^a.*c$''" "cstr ''abbcd''"]
    by (simp add: cstr_def)
qed

section \<open>What grep prints\<close>

abbreviation unlines :: "byte list list \<Rightarrow> byte list" where
  "unlines ls \<equiv> concat (map (\<lambda>l. l @ [10]) ls)"

lemma split_line_None: "10 \<notin> set p \<Longrightarrow> split_line p = None"
  by (induction p) auto

lemma split_line_append: "0 \<notin> set l \<Longrightarrow> 10 \<notin> set l \<Longrightarrow> split_line (l @ 10 # r) = Some (l, r)"
  by (induction l) auto

lemma grep_lines_unlines:
  assumes "\<forall>l \<in> set ls. 0 \<notin> set l \<and> 10 \<notin> set l" and "10 \<notin> set r"
  shows "grep_lines pattern (unlines ls @ r) = (map (\<lambda>l. l @ [10]) (filter (match pattern) ls), r)"
  using assms(1)
proof (induction ls)
  case Nil
  then show ?case by (simp add: grep_lines.simps split_line_None assms(2))
next
  case (Cons l ls)
  then have "split_line (unlines (l # ls) @ r) = Some (l, unlines ls @ r)"
    using split_line_append [of l "unlines ls @ r"] by simp
  with Cons show ?case by (subst grep_lines.simps) simp
qed

text \<open>Where a buffer ends inside the text: the lines it holds, and the start of the next one.\<close>

lemma cut_lines:
  assumes "b @ e = unlines ls @ rest" and "\<forall>l \<in> set ls. 10 \<notin> set l" and "10 \<notin> set rest"
  shows "\<exists>ls1 ls2 r. ls = ls1 @ ls2 \<and> b = unlines ls1 @ r \<and> 10 \<notin> set r \<and> r @ e = unlines ls2 @ rest"
  using assms(1,2)
proof (induction ls arbitrary: b)
  case Nil
  then have "b @ e = rest" by simp
  with assms(3) have "10 \<notin> set b" by auto
  with Nil show ?case by (intro exI [of _ "[]"] exI [of _ b]) simp
next
  case step: (Cons l ls)
  then have eq: "b @ e = l @ 10 # (unlines ls @ rest)" and l: "10 \<notin> set l" by simp_all
  have inside: ?case if "10 \<notin> set b"
    using that eq by (intro exI [of _ "[]"] exI [of _ "l # ls"] exI [of _ b]) simp
  from eq consider us where "b @ us = l" | us where "b = l @ us" "us @ e = 10 # (unlines ls @ rest)"
    by (auto simp: append_eq_append_conv2)
  then show ?case
  proof cases
    case (1 us)
    with l show ?thesis by (intro inside) auto
  next
    case (2 us)
    show ?thesis
    proof (cases us)
      case Nil
      with 2 l show ?thesis by (intro inside) simp
    next
      case (Cons x b')
      with 2 have b': "us = 10 # b'" "b' @ e = unlines ls @ rest" by simp_all
      have "\<forall>l \<in> set ls. 10 \<notin> set l" using step.prems(2) by simp
      from step.IH [OF b'(2) this] obtain ls1 ls2 r where
        "ls = ls1 @ ls2" "b' = unlines ls1 @ r" "10 \<notin> set r" "r @ e = unlines ls2 @ rest" by blast
      with 2 b'(1) show ?thesis by (intro exI [of _ "l # ls1"] exI [of _ ls2] exI [of _ r]) simp
    qed
  qed
qed

lemma grep_loop_end: "grep_loop pattern held [] = []"
  by (subst grep_loop.simps) simp

lemma grep_loop_lines:
  assumes "held @ d = unlines ls @ rest" and "\<forall>l \<in> set ls. 0 \<notin> set l \<and> 10 \<notin> set l \<and> length l \<le> 1022"
    and "10 \<notin> set rest" and "10 \<notin> set held" and "length held \<le> 1022"
  shows "grep_loop pattern held [Data d] = map (\<lambda>l. l @ [10]) (filter (match pattern) ls)"
  using assms(1-5)
proof (induction "length d" arbitrary: d held ls rest rule: less_induct)
  case less
  define cap where "cap = 1023 - length held"
  have lines: "\<forall>l \<in> set ls. 0 \<notin> set l \<and> 10 \<notin> set l" "\<forall>l \<in> set ls. 10 \<notin> set l" using less.prems(2) by auto
  have none: "ls = []" if "10 \<notin> set (unlines ls)" for ls using that by (cases ls) auto
  show ?case
  proof (cases "length d \<le> cap")
    case True
    show ?thesis
    proof (cases "d = []")
      case True
      then have "ls = []" using less.prems(1,4) by (intro none) auto
      with True show ?thesis by (subst grep_loop.simps) simp
    next
      case False
      with True show ?thesis
        by (subst grep_loop.simps)
          (simp add: cap_def less.prems(1) grep_lines_unlines [OF lines(1) less.prems(3)] grep_loop_end)
    qed
  next
    case False
    define b where "b = held @ take cap d"
    have len: "length b = 1023" and cap: "0 < cap" using False less.prems(5) by (auto simp: b_def cap_def)
    have "b @ drop cap d = unlines ls @ rest" using less.prems(1) by (simp add: b_def)
    from cut_lines [OF this lines(2) less.prems(3)] obtain ls1 ls2 r where
      c: "ls = ls1 @ ls2" "b = unlines ls1 @ r" "10 \<notin> set r" "r @ drop cap d = unlines ls2 @ rest" by blast
    have g: "grep_lines pattern b = (map (\<lambda>l. l @ [10]) (filter (match pattern) ls1), r)"
      unfolding c(2) using lines(1) c(1,3) by (intro grep_lines_unlines) auto
    have step: "grep_loop pattern held [Data d] = map (\<lambda>l. l @ [10]) (filter (match pattern) ls1) @
        grep_loop pattern (if length r = length b then [] else r) [Data (drop cap d)]"
      using False cap g unfolding b_def by (subst grep_loop.simps) (simp add: cap_def)
    have short: "length (drop cap d) < length d" using False cap by simp
    show ?thesis
    proof (cases "length r = length b")
      case True
      with c(2) have "ls1 = []" and r: "r = b" by (auto intro: none)
      have "ls2 = []"
      proof (rule ccontr)
        assume "ls2 \<noteq> []"
        then obtain l ls' where ls2: "ls2 = l # ls'" by (cases ls2) auto
        then have "b @ drop cap d = l @ 10 # (unlines ls' @ rest)" using c(4) r by simp
        moreover have "length l < length b" using less.prems(2) ls2 c(1) len by auto
        ultimately have "b ! length l = 10" by (metis nth_append nth_append_length)
        with \<open>length l < length b\<close> have "10 \<in> set b" by (metis nth_mem)
        with c(3) r show False by simp
      qed
      moreover have "10 \<notin> set (drop cap d)" using c(4) \<open>ls2 = []\<close> less.prems(3) by (metis Un_iff append_Nil concat.simps(1) list.map(1) set_append)
      then have "grep_loop pattern [] [Data (drop cap d)] = []"
        using less.hyps [OF short, of "[]" "[]" "drop cap d"] by simp
      ultimately show ?thesis using step True c(1) \<open>ls1 = []\<close> by simp
    next
      case F: False
      have "length b = length (unlines ls1) + length r" using c(2) by (rule arg_cong [where f = length, THEN trans]) simp
      with F len have "length r \<le> 1022" by linarith
      then have "grep_loop pattern r [Data (drop cap d)] = map (\<lambda>l. l @ [10]) (filter (match pattern) ls2)"
        using less.prems(2,3) c(1,3) by (intro less.hyps [OF short c(4)]) auto
      with step F c(1) show ?thesis by simp
    qed
  qed
qed

text \<open>
  C32. Of a file whose lines fit into its buffer of 1023 characters \<^verbatim>\<open>grep\<close> prints exactly the lines that
  match, in order; the characters after the last newline are not a line for it. From a pipe, which may
  deliver a line in two pieces, it loses the first one: with the newline not yet there it empties
  the buffer.
\<close>

theorem grep_prints_matching_lines:
  assumes "\<forall>l \<in> set ls. 0 \<notin> set l \<and> 10 \<notin> set l \<and> length l \<le> 1022" and "10 \<notin> set rest"
  shows "grep pattern [Data (unlines ls @ rest)] = map (\<lambda>l. l @ [10]) (filter (match pattern) ls) \<and>
    match (cstr ''ab'') (cstr ''ab'') \<and> grep (cstr ''ab'') [Data (cstr ''a''), Data (cstr ''b'' @ [10])] = []"
proof (intro conjI)
  show "grep pattern [Data (unlines ls @ rest)] = map (\<lambda>l. l @ [10]) (filter (match pattern) ls)"
    unfolding grep_def using assms by (intro grep_loop_lines) auto
  show "match (cstr ''ab'') (cstr ''ab'')"
    by (simp add: match_def match_from.simps matchhere.simps cstr_def)
  show "grep (cstr ''ab'') [Data (cstr ''a''), Data (cstr ''b'' @ [10])] = []"
    by (simp add: grep_def grep_loop.simps grep_lines.simps match_def match_from.simps matchhere.simps cstr_def)
qed

theorem grep_prints_matching_lines_witness:
  "grep (cstr ''x'') [Data (unlines [cstr ''axb'', cstr ''ab''] @ cstr ''xx'')] = [cstr ''axb'' @ [10]]"
proof -
  have "filter (match (cstr ''x'')) [cstr ''axb'', cstr ''ab''] = [cstr ''axb'']"
    by (simp add: match_def match_from.simps matchhere.simps cstr_def)
  then show ?thesis
    using grep_prints_matching_lines [of "[cstr ''axb'', cstr ''ab'']" "cstr ''xx''" "cstr ''x''"]
    by (simp add: cstr_def)
qed

end
