(* ===== verification/Utils.thy ===== *)
theory Utils
  imports Grep
begin

text \<open>
  The small user programs: cat.c, wc.c, echo.c, ls.c, rm.c, mkdir.c, ln.c, kill.c, and \<^verbatim>\<open>gets\<close> of ulib.c. A program is
  the list of its writes, with their descriptors. System calls that change the state of the kernel are
  functions on an abstract state \<open>'s\<close>.
\<close>

section \<open>cat and wc\<close>

text \<open>The writes, and whether the last \<^verbatim>\<open>read\<close> failed.\<close>

function cat :: "delivery list \<Rightarrow> byte list list \<times> bool" where
  "cat s =
     (case uread 512 s of (n, d, s') \<Rightarrow>
        if n > 0 then (case cat s' of (out, e) \<Rightarrow> (d # out, e)) else ([], n < 0))"
  by pat_completeness auto
termination
  by (relation "measure input_size") (auto intro: uread_shrinks [OF sym])

declare cat.simps [simp del]

fun cat_files :: "(byte list \<Rightarrow> delivery list option) \<Rightarrow> byte list list \<Rightarrow> (nat \<times> byte list) list" where
  "cat_files opens [] = []"
| "cat_files opens (f # fs) =
     (case opens f of
        None \<Rightarrow> [(1, printf_args ''cat: cannot open %s'' [Str f] @ [10])]
      | Some s \<Rightarrow>
          (case cat s of (out, e) \<Rightarrow>
             map (Pair 1) out @
             (if e then [(1, printf_args ''cat: read error'' [] @ [10])] else cat_files opens fs)))"

definition cat_main :: "(byte list \<Rightarrow> delivery list option) \<Rightarrow> delivery list \<Rightarrow> byte list list \<Rightarrow> (nat \<times> byte list) list" where
  "cat_main opens stdin argv =
     (if length argv \<le> 1 then
        (case cat stdin of (out, e) \<Rightarrow>
           map (Pair 1) out @ (if e then [(1, printf_args ''cat: read error'' [] @ [10])] else []))
      else cat_files opens (drop 1 argv))"

text \<open>\<^verbatim>\<open>strchr(" \r\t\n\v", c)\<close>\<close>

definition is_space :: "byte \<Rightarrow> bool" where
  "is_space c \<longleftrightarrow> c \<in> set [32, 13, 9, 10, 11]"

record wcount =
  wc_l :: uint32
  wc_w :: uint32
  wc_c :: uint32
  wc_inword :: bool

definition wc_char :: "wcount \<Rightarrow> byte \<Rightarrow> wcount" where
  "wc_char k x =
     (let k1 = k\<lparr>wc_c := wc_c k + 1\<rparr>;
          k2 = (if x = 10 then k1\<lparr>wc_l := wc_l k1 + 1\<rparr> else k1)
      in if is_space x then k2\<lparr>wc_inword := False\<rparr>
         else if \<not> wc_inword k2 then k2\<lparr>wc_w := wc_w k2 + 1, wc_inword := True\<rparr>
         else k2)"

function wc_loop :: "wcount \<Rightarrow> delivery list \<Rightarrow> wcount option" where
  "wc_loop k s =
     (case uread 512 s of (n, d, s') \<Rightarrow>
        if n > 0 then wc_loop (foldl wc_char k d) s' else if n < 0 then None else Some k)"
  by pat_completeness auto
termination
  by (relation "measure (input_size \<circ> snd)") (auto intro: uread_shrinks [OF sym])

declare wc_loop.simps [simp del]

definition wc_start :: wcount where
  "wc_start = \<lparr>wc_l = 0, wc_w = 0, wc_c = 0, wc_inword = False\<rparr>"

text \<open>The output, and whether the program goes on.\<close>

definition wc :: "delivery list \<Rightarrow> byte list \<Rightarrow> byte list \<times> bool" where
  "wc s name =
     (case wc_loop wc_start s of
        None \<Rightarrow> (printf_args ''wc: read error'' [] @ [10], False)
      | Some k \<Rightarrow> (printf_args ''%d %d %d %s'' [Num (wc_l k), Num (wc_w k), Num (wc_c k), Str name] @ [10], True))"

fun wc_files :: "(byte list \<Rightarrow> delivery list option) \<Rightarrow> byte list list \<Rightarrow> (nat \<times> byte list) list" where
  "wc_files opens [] = []"
| "wc_files opens (f # fs) =
     (case opens f of
        None \<Rightarrow> [(1, printf_args ''wc: cannot open %s'' [Str f] @ [10])]
      | Some s \<Rightarrow> (case wc s f of (out, go) \<Rightarrow> (1, out) # (if go then wc_files opens fs else [])))"

definition wc_main :: "(byte list \<Rightarrow> delivery list option) \<Rightarrow> delivery list \<Rightarrow> byte list list \<Rightarrow> (nat \<times> byte list) list" where
  "wc_main opens stdin argv =
     (if length argv \<le> 1 then [(1, fst (wc stdin []))] else wc_files opens (drop 1 argv))"

section \<open>echo, ls and the programs on names\<close>

fun echo :: "byte list list \<Rightarrow> byte list" where
  "echo [] = []"
| "echo (a # as) = printf_args ''%s%s'' [Str a, Str (if as \<noteq> [] then [32] else [10])] @ echo as"

definition echo_main :: "byte list list \<Rightarrow> (nat \<times> byte list) list" where
  "echo_main argv = [(1, echo (drop 1 argv))]"

text \<open>The part of a path behind its last slash.\<close>

fun base_name :: "byte list \<Rightarrow> byte list \<Rightarrow> byte list" where
  "base_name b [] = b"
| "base_name b (c # cs) = (if c = 47 then base_name cs cs else base_name b cs)"

definition fmtname :: "byte list \<Rightarrow> byte list" where
  "fmtname path =
     (let p = base_name path path in if length p \<ge> 14 then p else p @ replicate (14 - length p) 32)"

record ustat =
  us_type :: uint32
  us_ino :: uint32
  us_size :: uint32

definition ls_line :: "byte list \<Rightarrow> ustat \<Rightarrow> byte list" where
  "ls_line path st =
     printf_args ''%s %d %d %d'' [Str (fmtname path), Num (us_type st), Num (us_ino st), Num (us_size st)] @ [10]"

text \<open>The entries of a directory, each read as 16 bytes; \<open>stats\<close> is \<^verbatim>\<open>stat\<close>. A name ends at its first NUL.\<close>

function ls_entries :: "(byte list \<Rightarrow> ustat option) \<Rightarrow> byte list \<Rightarrow> delivery list \<Rightarrow> byte list list" where
  "ls_entries stats path s =
     (case uread 16 s of (n, d, s') \<Rightarrow>
        if n = 16 then
          (if le_nat (take 2 d) = 0 then []
           else let name = path @ [47] @ takeWhile (\<lambda>c. c \<noteq> 0) (drop 2 d)
                in [case stats name of
                      None \<Rightarrow> printf_args ''ls: cannot stat %s'' [Str name] @ [10]
                    | Some st \<Rightarrow> ls_line name st]) @
          ls_entries stats path s'
        else [])"
  by pat_completeness auto
termination
  by (relation "measure (input_size \<circ> (snd \<circ> snd))") (auto intro: uread_shrinks [OF sym])

declare ls_entries.simps [simp del]

text \<open>\<open>opens\<close>: what \<^verbatim>\<open>open\<close> finds, with what \<^verbatim>\<open>fstat\<close> says of it.\<close>

definition ls ::
  "(byte list \<Rightarrow> (ustat option \<times> delivery list) option) \<Rightarrow> (byte list \<Rightarrow> ustat option) \<Rightarrow> byte list \<Rightarrow> (nat \<times> byte list) list" where
  "ls opens stats path =
     (case opens path of
        None \<Rightarrow> [(2, printf_args ''ls: cannot open %s'' [Str path] @ [10])]
      | Some (None, _) \<Rightarrow> [(2, printf_args ''ls: cannot stat %s'' [Str path] @ [10])]
      | Some (Some st, s) \<Rightarrow>
          if us_type st = 2 then [(1, ls_line path st)]
          else if us_type st = 1 then
            (if length path + 1 + 14 + 1 > 512 then [(1, printf_args ''ls: path too long'' [] @ [10])]
             else map (Pair 1) (ls_entries stats path s))
          else [])"

definition ls_main ::
  "(byte list \<Rightarrow> (ustat option \<times> delivery list) option) \<Rightarrow> (byte list \<Rightarrow> ustat option) \<Rightarrow> byte list list \<Rightarrow> (nat \<times> byte list) list" where
  "ls_main opens stats argv =
     (if length argv < 2 then ls opens stats (cstr ''.'') else concat (map (ls opens stats) (drop 1 argv)))"

text \<open>\<^verbatim>\<open>rm\<close> and \<^verbatim>\<open>mkdir\<close> stop at the first failure.\<close>

fun each_file :: "(byte list \<Rightarrow> 's \<Rightarrow> int \<times> 's) \<Rightarrow> string \<Rightarrow> byte list list \<Rightarrow> 's \<Rightarrow> (nat \<times> byte list) list \<times> 's" where
  "each_file call msg [] k = ([], k)"
| "each_file call msg (f # fs) k =
     (case call f k of (r, k') \<Rightarrow>
        if r < 0 then ([(2, printf_args msg [Str f] @ [10])], k') else each_file call msg fs k')"

definition rm_main :: "(byte list \<Rightarrow> 's \<Rightarrow> int \<times> 's) \<Rightarrow> byte list list \<Rightarrow> 's \<Rightarrow> (nat \<times> byte list) list \<times> 's" where
  "rm_main unlink argv k =
     (if length argv < 2 then ([(2, printf_args ''Usage: rm files...'' [] @ [10])], k)
      else each_file unlink ''rm: %s failed to delete'' (drop 1 argv) k)"

definition mkdir_main :: "(byte list \<Rightarrow> 's \<Rightarrow> int \<times> 's) \<Rightarrow> byte list list \<Rightarrow> 's \<Rightarrow> (nat \<times> byte list) list \<times> 's" where
  "mkdir_main mkdir argv k =
     (if length argv < 2 then ([(2, printf_args ''Usage: mkdir files...'' [] @ [10])], k)
      else each_file mkdir ''mkdir: %s failed to create'' (drop 1 argv) k)"

definition ln_main :: "(byte list \<Rightarrow> byte list \<Rightarrow> 's \<Rightarrow> int \<times> 's) \<Rightarrow> byte list list \<Rightarrow> 's \<Rightarrow> (nat \<times> byte list) list \<times> 's" where
  "ln_main link argv k =
     (if length argv \<noteq> 3 then ([(2, printf_args ''Usage: ln old new'' [] @ [10])], k)
      else case link (argv ! 1) (argv ! 2) k of (r, k') \<Rightarrow>
        ((if r < 0 then [(2, printf_args ''link %s %s: failed'' [Str (argv ! 1), Str (argv ! 2)] @ [10])] else []), k'))"

text \<open>The argument of \<^verbatim>\<open>kill\<close> is what \<^verbatim>\<open>atoi\<close> makes of the string, stored with its NUL.\<close>

fun kill_all :: "(int \<Rightarrow> 's \<Rightarrow> 's) \<Rightarrow> byte list list \<Rightarrow> 's \<Rightarrow> 's" where
  "kill_all kill [] k = k"
| "kill_all kill (a # as) k =
     kill_all kill as (case atoi (\<lambda>i. (a @ [0]) ! i) of None \<Rightarrow> k | Some n \<Rightarrow> kill n k)"

definition kill_main :: "(int \<Rightarrow> 's \<Rightarrow> 's) \<Rightarrow> byte list list \<Rightarrow> 's \<Rightarrow> (nat \<times> byte list) list \<times> 's" where
  "kill_main kill argv k =
     (if length argv < 2 then ([(2, printf_args ''usage: kill pid...'' [] @ [10])], k)
      else ([], kill_all kill (drop 1 argv) k))"

text \<open>\<^verbatim>\<open>gets\<close>: the line, without its NUL, and what is left of the input. \<open>n\<close> is \<^verbatim>\<open>max - 1 - i\<close>.\<close>

fun gets_loop :: "nat \<Rightarrow> delivery list \<Rightarrow> byte list \<times> delivery list" where
  "gets_loop 0 s = ([], s)"
| "gets_loop (Suc n) s =
     (case uread 1 s of (cc, d, s') \<Rightarrow>
        if cc < 1 then ([], s')
        else if hd d = 10 \<or> hd d = 13 then ([hd d], s')
        else case gets_loop n s' of (b, s'') \<Rightarrow> (hd d # b, s''))"

definition ulib_gets :: "nat \<Rightarrow> delivery list \<Rightarrow> byte list \<times> delivery list" where
  "ulib_gets mx s = gets_loop (mx - 1) s"

section \<open>What they print\<close>

text \<open>The data a reader sees: everything before the first failing \<^verbatim>\<open>read\<close>, and whether there is one. An empty
  delivery is the end of the file.\<close>

fun seen :: "delivery list \<Rightarrow> byte list \<times> bool" where
  "seen [] = ([], False)"
| "seen (Fault # s) = ([], True)"
| "seen (Data c # s) = (if c = [] then ([], False) else apfst ((@) c) (seen s))"

lemma uread_seen:
  assumes "uread n s = (k, d, s')" and "0 < n"
  shows "(k > 0 \<longrightarrow> seen s = apfst ((@) d) (seen s')) \<and> (k = 0 \<longrightarrow> seen s = ([], False)) \<and> (k < 0 \<longrightarrow> seen s = ([], True))"
  using assms
proof (cases s)
  case (Cons x xs)
  then show ?thesis using assms by (cases x) (auto simp: apfst_compose split: if_splits)
qed simp

lemma cat_seen: "fst (seen s) = concat (fst (cat s)) \<and> snd (cat s) = snd (seen s)"
proof (induction s rule: cat.induct)
  case (1 s)
  obtain n d s' where u: "uread 512 s = (n, d, s')" by (cases "uread 512 s")
  consider "n > 0" | "n = 0" | "n < 0" by linarith
  then show ?case
  proof cases
    case n: 1
    with uread_seen [OF u] have "seen s = apfst ((@) d) (seen s')" by simp
    with 1 [OF u [symmetric] refl n] u n show ?thesis by (subst (1 2) cat.simps) (auto split: prod.splits)
  qed (use uread_seen [OF u] u in \<open>subst (1 2) cat.simps, simp\<close>)+
qed

lemma wc_loop_seen:
  "wc_loop k s = (if snd (seen s) then None else Some (foldl wc_char k (fst (seen s))))"
proof (induction k s rule: wc_loop.induct)
  case (1 k s)
  obtain n d s' where u: "uread 512 s = (n, d, s')" by (cases "uread 512 s")
  consider "n > 0" | "n = 0" | "n < 0" by linarith
  then show ?case
  proof cases
    case n: 1
    with uread_seen [OF u] have "seen s = apfst ((@) d) (seen s')" by simp
    with 1 [OF u [symmetric] refl n] u n show ?thesis by (subst wc_loop.simps) simp
  qed (use uread_seen [OF u] u in \<open>subst wc_loop.simps, simp\<close>)+
qed

text \<open>A word starts at a character that is no space and has none before it.\<close>

fun word_starts :: "bool \<Rightarrow> byte list \<Rightarrow> nat" where
  "word_starts inword [] = 0"
| "word_starts inword (c # cs) = (if \<not> is_space c \<and> \<not> inword then 1 else 0) + word_starts (\<not> is_space c) cs"

lemma wc_char_fields:
  "wc_c (wc_char k x) = wc_c k + 1"
  "wc_l (wc_char k x) = wc_l k + (if x = 10 then 1 else 0)"
  "wc_w (wc_char k x) = wc_w k + (if \<not> is_space x \<and> \<not> wc_inword k then 1 else 0)"
  "wc_inword (wc_char k x) = (\<not> is_space x)"
  by (simp_all add: wc_char_def Let_def)

lemma wc_counts_from:
  "wc_c (foldl wc_char k d) = wc_c k + of_nat (length d)"
  "wc_l (foldl wc_char k d) = wc_l k + of_nat (count_list d 10)"
  "wc_w (foldl wc_char k d) = wc_w k + of_nat (word_starts (wc_inword k) d)"
  by (induction d arbitrary: k) (auto simp: wc_char_fields)

lemma word_starts_positions:
  "word_starts b d = card {i. i < length d \<and> \<not> is_space (d ! i) \<and> (if i = 0 then \<not> b else is_space (d ! (i - 1)))}"
proof (induction d arbitrary: b)
  case (Cons c cs)
  define A where "A = {i. i < length cs \<and> \<not> is_space (cs ! i) \<and> (if i = 0 then is_space c else is_space (cs ! (i - 1)))}"
  have "{i. i < length (c # cs) \<and> \<not> is_space ((c # cs) ! i) \<and> (if i = 0 then \<not> b else is_space ((c # cs) ! (i - 1)))} =
      (if \<not> is_space c \<and> \<not> b then {0} else {}) \<union> Suc ` A" (is "?L = ?R")
  proof (rule set_eqI)
    fix i
    show "i \<in> ?L \<longleftrightarrow> i \<in> ?R"
    proof (cases i)
      case (Suc j)
      then show ?thesis by (cases j) (auto simp: A_def image_iff)
    qed (auto simp: image_iff)
  qed
  moreover have "finite A" by (simp add: A_def)
  ultimately have "card {i. i < length (c # cs) \<and> \<not> is_space ((c # cs) ! i) \<and> (if i = 0 then \<not> b else is_space ((c # cs) ! (i - 1)))} =
      (if \<not> is_space c \<and> \<not> b then 1 else 0) + card A"
    by (simp add: card_image card_insert_if image_iff)
  with Cons show ?case by (simp add: A_def)
qed simp

text \<open>
  C36. However \<^verbatim>\<open>read\<close> cuts the input, \<^verbatim>\<open>cat\<close> writes what it reads, and \<^verbatim>\<open>wc\<close> counts its characters, newlines
  and words (modulo \<open>2 ^ 32\<close>); both notice a \<^verbatim>\<open>read\<close> that fails.
\<close>

theorem cat_and_wc:
  "concat (fst (cat s)) = fst (seen s) \<and> snd (cat s) = snd (seen s) \<and>
   (case wc_loop wc_start s of
      None \<Rightarrow> snd (seen s)
    | Some k \<Rightarrow> \<not> snd (seen s) \<and>
        (let d = fst (seen s) in
           wc_c k = of_nat (length d) \<and> wc_l k = of_nat (count_list d 10) \<and>
           wc_w k = of_nat (card {i. i < length d \<and> \<not> is_space (d ! i) \<and> (i = 0 \<or> is_space (d ! (i - 1)))})))"
proof -
  have "{i. i < length d \<and> \<not> is_space (d ! i) \<and> (if i = 0 then \<not> False else is_space (d ! (i - 1)))} =
      {i. i < length d \<and> \<not> is_space (d ! i) \<and> (i = 0 \<or> is_space (d ! (i - 1)))}" for d by auto
  then show ?thesis
    using cat_seen [of s]
    by (simp add: wc_loop_seen wc_counts_from wc_start_def Let_def word_starts_positions [of False])
qed

end
