(* ===== verification/Sh.thy ===== *)
theory Sh
  imports Utils "HOL-Library.Sublist"
begin

text \<open>
  The shell sh.c. A pointer into the command line is the rest of the line from there on; \<open>gettoken\<close> and \<open>peek\<close>
  return the new value of \<^verbatim>\<open>*ps\<close>. A word of a command is the pair of its pointers \<^verbatim>\<open>q\<close> and \<^verbatim>\<open>eq\<close>. The three
  parsers that call each other take a bound on the depth of their calls; \<open>parsecmd\<close> passes one that
  suffices for every line.

  \<^verbatim>\<open>runcmd\<close> is the list of the system calls it makes, where \<open>Fork\<close> holds what the child does.
\<close>

unbundle bit_operations_syntax

section \<open>Commands\<close>

datatype 'w cmd =
    EXEC "'w list"
  | REDIR "'w cmd" 'w uint32 nat
  | PIPE "'w cmd" "'w cmd"
  | LIST "'w cmd" "'w cmd"
  | BACK "'w cmd"

type_synonym span = "byte list \<times> byte list"

abbreviation MAXARGS :: nat where "MAXARGS \<equiv> 10"

section \<open>Tokens\<close>

definition whitespace :: "byte list" where "whitespace = [32, 9, 13, 10, 11]"

definition symbols :: "byte list" where "symbols = cstr ''<|>&;()''"

definition skip_ws :: "byte list \<Rightarrow> byte list" where
  "skip_ws s = dropWhile (\<lambda>c. c \<in> set whitespace) s"

text \<open>\<open>ret\<close>, \<open>q\<close>, \<open>eq\<close> and the new \<^verbatim>\<open>*ps\<close>; 97 is \<^verbatim>\<open>'a'\<close>, 43 is \<^verbatim>\<open>'+'\<close>.\<close>

definition gettoken :: "byte list \<Rightarrow> byte \<times> byte list \<times> byte list \<times> byte list" where
  "gettoken ps =
     (let q = skip_ws ps; c = ch q;
          (ret, eq) =
            (if c = 0 then (0, q)
             else if c \<in> set (cstr ''|();&<'') then (c, tl q)
             else if c = 62 then (if ch (tl q) = 62 then (43, tl (tl q)) else (c, tl q))
             else (97, dropWhile (\<lambda>x. x \<notin> set whitespace \<and> x \<notin> set symbols) q))
      in (ret, q, eq, skip_ws eq))"

definition peek :: "byte list \<Rightarrow> string \<Rightarrow> bool \<times> byte list" where
  "peek ps toks = (let s = skip_ws ps in (ch s \<noteq> 0 \<and> ch s \<in> set (cstr toks), s))"

section \<open>Parsing\<close>

datatype 'a parse = Parsed 'a | Syntax string | Deep

definition pbind :: "'a parse \<Rightarrow> ('a \<Rightarrow> 'b parse) \<Rightarrow> 'b parse" where
  "pbind m f = (case m of Parsed x \<Rightarrow> f x | Syntax e \<Rightarrow> Syntax e | Deep \<Rightarrow> Deep)"

lemma pbind_simps [simp]:
  "pbind (Parsed x) f = f x" "pbind (Syntax e) f = Syntax e" "pbind Deep f = Deep"
  by (simp_all add: pbind_def)

lemma pbind_cong [fundef_cong]:
  "m = m' \<Longrightarrow> (\<And>x. m' = Parsed x \<Longrightarrow> f x = f' x) \<Longrightarrow> pbind m f = pbind m' f'"
  by (cases m') simp_all

lemma pbind_Parsed: "pbind m f = Parsed y \<longleftrightarrow> (\<exists>x. m = Parsed x \<and> f x = Parsed y)"
  by (cases m) simp_all

lemma pbind_Deep: "pbind m f = Deep \<longleftrightarrow> m = Deep \<or> (\<exists>x. m = Parsed x \<and> f x = Deep)"
  by (cases m) simp_all

text \<open>The redirections in front of \<open>ps\<close>, in order, as file, mode and descriptor.\<close>

type_synonym redir = "span \<times> uint32 \<times> nat"

fun redir_of :: "byte \<Rightarrow> span \<Rightarrow> redir list" where
  "redir_of tok w =
     (if tok = 60 then [(w, O_RDONLY, 0)]
      else if tok = 62 then [(w, O_WRONLY OR O_CREATE, 1)]
      else if tok = 43 then [(w, O_WRONLY OR O_CREATE, 1)]
      else [])"

lemma skip_ws_le: "length (skip_ws s) \<le> length s"
  by (simp add: skip_ws_def length_dropWhile_le)

lemma gettoken_le: "gettoken ps = (ret, q, eq, s) \<Longrightarrow> length s \<le> length ps"
proof -
  assume g: "gettoken ps = (ret, q, eq, s)"
  then have s: "s = skip_ws eq" by (auto simp: gettoken_def Let_def split: prod.splits)
  from g have "length eq \<le> length (skip_ws ps)"
    by (auto simp: gettoken_def Let_def length_dropWhile_le split: if_splits)
  with s skip_ws_le [of eq] skip_ws_le [of ps] show ?thesis by simp
qed

lemma gettoken_less: "gettoken ps = (ret, q, eq, s) \<Longrightarrow> ret \<noteq> 0 \<Longrightarrow> length s < length ps"
proof -
  assume g: "gettoken ps = (ret, q, eq, s)" and nz: "ret \<noteq> 0"
  then have s: "s = skip_ws eq" by (auto simp: gettoken_def Let_def split: prod.splits)
  obtain c r where c: "skip_ws ps = c # r" using g nz by (cases "skip_ws ps") (auto simp: gettoken_def)
  then have "c \<notin> set whitespace" by (metis dropWhile_eq_Cons_conv skip_ws_def)
  with g nz c have "length eq \<le> length r"
    by (auto simp: gettoken_def Let_def length_dropWhile_le symbols_def cstr_def split: if_splits)
  with s c skip_ws_le [of eq] skip_ws_le [of ps] show ?thesis by simp
qed

function parseredirs :: "byte list \<Rightarrow> (redir list \<times> byte list) parse" where
  "parseredirs ps =
     (case peek ps ''<>'' of (p, s) \<Rightarrow>
        if p then
          (case gettoken s of (tok, _, _, s1) \<Rightarrow>
             case gettoken s1 of (ret, q, eq, s2) \<Rightarrow>
               if ret \<noteq> 97 then Syntax ''missing file for redirection''
               else pbind (parseredirs s2) (\<lambda>(rs, s3). Parsed (redir_of tok (q, eq) @ rs, s3)))
        else Parsed ([], s))"
  by pat_completeness auto
termination
proof (relation "measure length")
  fix ps p s tok x s1 ret q eq s2 and y z w v u
  assume a: "(p, s) = peek ps ''<>''" "(tok, x) = gettoken s" "(y, z) = x" "(w, s1) = z"
    "(ret, v) = gettoken s1" "(q, u) = v" "(eq, s2) = u" "\<not> ret \<noteq> 97"
  have "length s \<le> length ps" using a(1) skip_ws_le by (simp add: peek_def Let_def)
  moreover have "length s1 \<le> length s" using a(2-4) gettoken_le [of s tok y w s1] by simp
  moreover have "length s2 < length s1" using a(5-8) gettoken_less [of s1 ret q eq s2] by simp
  ultimately show "(s2, ps) \<in> measure length" by simp
qed simp

declare parseredirs.simps [simp del]

text \<open>\<open>redircmd\<close> around a command, first redirection innermost.\<close>

definition add_redirs :: "'w cmd \<Rightarrow> ('w \<times> uint32 \<times> nat) list \<Rightarrow> 'w cmd" where
  "add_redirs c rs = foldl (\<lambda>c (w, mode, fd). REDIR c w mode fd) c rs"

lemma parseredirs_le: "parseredirs ps = Parsed (rs, s) \<Longrightarrow> length s \<le> length ps"
proof (induction ps arbitrary: rs s rule: parseredirs.induct)
  case (1 ps)
  obtain p s0 where p: "peek ps ''<>'' = (p, s0)" by (cases "peek ps ''<>''")
  then have le: "length s0 \<le> length ps" using skip_ws_le by (auto simp: peek_def Let_def)
  obtain tok q0 e0 s1 where g: "gettoken s0 = (tok, q0, e0, s1)" by (cases "gettoken s0")
  obtain ret q e s2 where h: "gettoken s1 = (ret, q, e, s2)" by (cases "gettoken s1")
  note gettoken_le [OF g] gettoken_le [OF h]
  with 1 le p g h show ?case
    by (subst (asm) (2) parseredirs.simps) (force simp: pbind_Parsed split: if_splits)
qed

text \<open>The loop of \<^verbatim>\<open>parseexec\<close>: arguments and redirections from \<open>ps\<close> on, after \<open>argc\<close> arguments.\<close>

function parse_args :: "nat \<Rightarrow> byte list \<Rightarrow> (span list \<times> redir list \<times> byte list) parse" where
  "parse_args argc ps =
     (case peek ps ''|)&;'' of (p, s) \<Rightarrow>
        if p then Parsed ([], [], s)
        else
          (case gettoken s of (tok, q, eq, s1) \<Rightarrow>
             if tok = 0 then Parsed ([], [], s1)
             else if tok \<noteq> 97 then Syntax ''syntax''
             else if argc + 1 \<ge> MAXARGS then Syntax ''too many args''
             else
               pbind (parseredirs s1) (\<lambda>(rs, s2).
               pbind (parse_args (argc + 1) s2) (\<lambda>(ws, rs', s3).
               Parsed ((q, eq) # ws, rs @ rs', s3)))))"
  by pat_completeness auto
termination
  by (relation "measure (\<lambda>(argc, ps). MAXARGS - argc)") auto

declare parse_args.simps [simp del]

function (sequential) parseline :: "nat \<Rightarrow> byte list \<Rightarrow> (span cmd \<times> byte list) parse"
  and parse_backs :: "nat \<Rightarrow> span cmd \<Rightarrow> byte list \<Rightarrow> (span cmd \<times> byte list) parse"
  and parsepipe :: "nat \<Rightarrow> byte list \<Rightarrow> (span cmd \<times> byte list) parse"
  and parseblock :: "nat \<Rightarrow> byte list \<Rightarrow> (span cmd \<times> byte list) parse"
  and parseexec :: "nat \<Rightarrow> byte list \<Rightarrow> (span cmd \<times> byte list) parse" where
  "parseline 0 ps = Deep"
| "parseline (Suc n) ps =
     pbind (parsepipe n ps) (\<lambda>(c, s).
     pbind (parse_backs n c s) (\<lambda>(c', s1).
     case peek s1 '';'' of (p, s2) \<Rightarrow>
       if p then
         (case gettoken s2 of (_, _, _, s3) \<Rightarrow>
            pbind (parseline n s3) (\<lambda>(d, s4). Parsed (LIST c' d, s4)))
       else Parsed (c', s2)))"
| "parse_backs 0 c ps = Deep"
| "parse_backs (Suc n) c ps =
     (case peek ps ''&'' of (p, s) \<Rightarrow>
        if p then (case gettoken s of (_, _, _, s1) \<Rightarrow> parse_backs n (BACK c) s1) else Parsed (c, s))"
| "parsepipe 0 ps = Deep"
| "parsepipe (Suc n) ps =
     pbind (parseexec n ps) (\<lambda>(c, s).
     case peek s ''|'' of (p, s1) \<Rightarrow>
       if p then
         (case gettoken s1 of (_, _, _, s2) \<Rightarrow>
            pbind (parsepipe n s2) (\<lambda>(d, s3). Parsed (PIPE c d, s3)))
       else Parsed (c, s1))"
| "parseblock 0 ps = Deep"
| "parseblock (Suc n) ps =
     (case peek ps ''('' of (p, s) \<Rightarrow>
        if \<not> p then Syntax ''parseblock''
        else
          (case gettoken s of (_, _, _, s1) \<Rightarrow>
             pbind (parseline n s1) (\<lambda>(c, s2).
             case peek s2 '')'' of (p', s3) \<Rightarrow>
               if \<not> p' then Syntax ''syntax - missing )''
               else
                 (case gettoken s3 of (_, _, _, s4) \<Rightarrow>
                    pbind (parseredirs s4) (\<lambda>(rs, s5). Parsed (add_redirs c rs, s5))))))"
| "parseexec 0 ps = Deep"
| "parseexec (Suc n) ps =
     (case peek ps ''('' of (p, s) \<Rightarrow>
        if p then parseblock n s
        else
          pbind (parseredirs s) (\<lambda>(rs, s1).
          pbind (parse_args 0 s1) (\<lambda>(ws, rs', s2).
          Parsed (add_redirs (EXEC ws) (rs @ rs'), s2))))"
  by pat_completeness auto
termination
  by (relation "measure (\<lambda>x. case x of
        Inl (Inl (n, _)) \<Rightarrow> n | Inl (Inr (n, _, _)) \<Rightarrow> n
      | Inr (Inl (n, _)) \<Rightarrow> n | Inr (Inr (Inl (n, _))) \<Rightarrow> n | Inr (Inr (Inr (n, _))) \<Rightarrow> n)") auto

definition parsecmd :: "byte list \<Rightarrow> span cmd parse" where
  "parsecmd s =
     pbind (parseline (5 * length s + 5) s) (\<lambda>(c, s1).
     case peek s1 [] of (_, s2) \<Rightarrow> if s2 \<noteq> [] then Syntax ''syntax'' else Parsed c)"

text \<open>\<^verbatim>\<open>nulterminate\<close> on the buffer that holds the line and its NUL; \<open>n\<close> is the length of the line.\<close>

fun nulterminate :: "nat \<Rightarrow> span cmd \<Rightarrow> byte list \<Rightarrow> byte list" where
  "nulterminate n (EXEC ws) b = foldl (\<lambda>b (q, eq). b[n - length eq := 0]) b ws"
| "nulterminate n (REDIR c (q, eq) mode fd) b = (nulterminate n c b)[n - length eq := 0]"
| "nulterminate n (PIPE l r) b = nulterminate n r (nulterminate n l b)"
| "nulterminate n (LIST l r) b = nulterminate n r (nulterminate n l b)"
| "nulterminate n (BACK c) b = nulterminate n c b"

fun word_of :: "span \<Rightarrow> byte list" where
  "word_of (q, eq) = take (length q - length eq) q"

section \<open>Running\<close>

text \<open>
  \<open>DupEnd\<close> and \<open>CloseEnd\<close> act on \<^verbatim>\<open>p[0]\<close> and \<^verbatim>\<open>p[1]\<close> of the last \<open>MkPipe\<close>. An \<open>OpenOrExit\<close> that fails says so and exits,
  and so does \<open>Fork\<close>; \<open>ExecArgs\<close> goes on only if it fails.
\<close>

datatype act =
    Say nat "byte list" | ExecArgs "byte list list" | CloseFd nat | OpenOrExit "byte list" uint32
  | Fork "act list" | Wait | MkPipe | DupEnd nat | CloseEnd nat | Chdir "byte list" | Exit

fun cmd_type :: "'w cmd \<Rightarrow> uint32" where
  "cmd_type (EXEC ws) = 1"
| "cmd_type (REDIR c f mode fd) = 2"
| "cmd_type (PIPE l r) = 3"
| "cmd_type (LIST l r) = 4"
| "cmd_type (BACK c) = 5"

definition running :: "'w cmd \<Rightarrow> act" where
  "running c = Say 1 (printf_args ''Running Command : %d'' [Num (cmd_type c)] @ [10])"

fun runcmd :: "byte list cmd \<Rightarrow> act list" where
  "runcmd (EXEC ws) =
     running (EXEC ws) #
     (if ws = [] then [Exit] else [ExecArgs ws, Say 2 (printf_args ''exec %s failed'' [Str (hd ws)] @ [10]), Exit])"
| "runcmd (REDIR c f mode fd) = running (REDIR c f mode fd) # [CloseFd fd, OpenOrExit f mode] @ runcmd c"
| "runcmd (LIST l r) = running (LIST l r) # [Fork (runcmd l), Wait] @ runcmd r"
| "runcmd (PIPE l r) =
     running (PIPE l r) #
     [MkPipe,
      Fork ([CloseFd 1, DupEnd 1, CloseEnd 0, CloseEnd 1] @ runcmd l),
      Fork ([CloseFd 0, DupEnd 0, CloseEnd 0, CloseEnd 1] @ runcmd r),
      CloseEnd 0, CloseEnd 1, Wait, Wait, Exit]"
| "runcmd (BACK c) = running (BACK c) # [Fork (runcmd c), Exit]"

text \<open>
  A line in the child process. The message \<^verbatim>\<open>leftovers\<close> that \<^verbatim>\<open>parsecmd\<close> prints before it fails on an unread rest is left out.
\<close>

definition run_line :: "byte list \<Rightarrow> act list" where
  "run_line line =
     (case parsecmd line of
        Parsed c \<Rightarrow> runcmd (map_cmd word_of c)
      | Syntax e \<Rightarrow> [Say 2 (cstr e @ [10]), Exit]
      | Deep \<Rightarrow> [])"

lemma uread_le: "uread n s = (k, d, s') \<Longrightarrow> input_size s' \<le> input_size s"
  by (induction n s rule: uread.induct) (auto split: if_splits)

lemma gets_shrinks: "gets_loop n s = (l, s') \<Longrightarrow> l \<noteq> [] \<Longrightarrow> input_size s' < input_size s"
proof (induction n s arbitrary: l s' rule: gets_loop.induct)
  case (2 n s)
  obtain cc d s1 where u: "uread 1 s = (cc, d, s1)" by (cases "uread 1 s")
  obtain b s2 where g: "gets_loop n s1 = (b, s2)" by (cases "gets_loop n s1")
  have r: "cc \<ge> 1 \<Longrightarrow> input_size s1 < input_size s" using uread_shrinks [OF u] by simp
  moreover have "input_size s2 \<le> input_size s1" if "\<not> cc < 1" "\<not> (hd d = 10 \<or> hd d = 13)"
  proof (cases "b = []")
    case False
    then show ?thesis using "2.IH" [OF u [symmetric] refl that g] by simp
  next
    case True
    then show ?thesis using g uread_le [of 1 s1] by (cases n) (auto split: if_splits prod.splits)
  qed
  ultimately show ?case using "2.prems" u g by (auto split: if_splits)
qed simp

text \<open>
  The loop of \<^verbatim>\<open>main\<close>: what the shell does with the lines it reads. A line ends at a NUL. The greeting and the opening of the
  console before the loop, and the message of a \<^verbatim>\<open>cd\<close> that fails, are left out.
\<close>

function sh_loop :: "delivery list \<Rightarrow> act list" where
  "sh_loop s =
     Say 2 (cstr ''$ '') #
     (case ulib_gets 100 s of (buf, s') \<Rightarrow>
        let line = takeWhile (\<lambda>c. c \<noteq> 0) buf in
        if line = [] then [Exit]
        else (if take 3 line = cstr ''cd '' then [Chdir (drop 3 (butlast line))]
              else [Fork (run_line line), Wait]) @ sh_loop s')"
  by pat_completeness auto
termination
  by (relation "measure input_size") (auto simp: ulib_gets_def intro: gets_shrinks [OF sym])

declare sh_loop.simps [simp del]

section \<open>Words and rests are parts of the line\<close>

lemma skip_ws_idem [simp]: "skip_ws (skip_ws s) = skip_ws s"
  by (simp add: skip_ws_def)

lemma peek_eq: "peek ps toks = (ch (skip_ws ps) \<noteq> 0 \<and> ch (skip_ws ps) \<in> set (cstr toks), skip_ws ps)"
  by (simp add: peek_def Let_def)

lemma suffix_skip_ws: "suffix (skip_ws s) s"
  by (simp add: skip_ws_def suffix_dropWhile)

definition in_word :: "byte \<Rightarrow> bool" where
  "in_word c \<longleftrightarrow> c \<noteq> 0 \<and> c \<notin> set whitespace \<and> c \<notin> set symbols"

text \<open>The pointers of a word of the line \<open>ps\<close>.\<close>

definition span_ok :: "byte list \<Rightarrow> span \<Rightarrow> bool" where
  "span_ok ps = (\<lambda>(q, eq). suffix q ps \<and> (\<exists>w. q = w @ eq \<and> w \<noteq> [] \<and> list_all in_word w) \<and> \<not> in_word (ch eq))"

lemma span_ok_mono: "span_ok s w \<Longrightarrow> suffix s ps \<Longrightarrow> span_ok ps w"
  by (auto simp: span_ok_def dest: suffix_order.trans)

lemma gettoken_suffix: "gettoken ps = (ret, q, eq, s) \<Longrightarrow> suffix s ps"
proof -
  assume g: "gettoken ps = (ret, q, eq, s)"
  have "suffix (dropWhile P (skip_ws ps)) (skip_ws ps)" for P by (rule suffix_dropWhile)
  then have "suffix eq (skip_ws ps)" using g
    by (auto simp: gettoken_def Let_def suffix_tl intro: suffix_order.trans [OF suffix_tl suffix_tl] split: if_splits)
  moreover have "s = skip_ws eq" using g by (auto simp: gettoken_def Let_def split: prod.splits)
  ultimately show ?thesis using suffix_skip_ws suffix_order.trans by blast
qed

lemma gettoken_word:
  assumes "gettoken ps = (97, q, eq, s)" and "0 \<notin> set ps"
  shows "span_ok ps (q, eq)"
proof -
  have q: "q = skip_ws ps" using assms(1) by (auto simp: gettoken_def Let_def split: prod.splits)
  have sub: "suffix q ps" unfolding q by (rule suffix_skip_ws)
  then have z: "0 \<notin> set q" using assms(2) by (auto dest: set_mono_suffix)
  define P where "P = (\<lambda>x. x \<notin> set whitespace \<and> x \<notin> set symbols)"
  have d: "eq = dropWhile P q" and c: "ch q \<noteq> 0" "ch q \<notin> set (cstr ''|();&<'')" "ch q \<noteq> 62"
    using assms(1) q by (auto simp: gettoken_def Let_def P_def cstr_def split: if_splits)
  then obtain x r where x: "q = x # r" by (cases q) auto
  then have "x \<notin> set whitespace" using q by (metis dropWhile_eq_Cons_conv skip_ws_def)
  moreover have "x \<notin> set symbols" using c x by (auto simp: symbols_def cstr_def)
  ultimately have "takeWhile P q \<noteq> []" using x by (simp add: P_def)
  moreover have "q = takeWhile P q @ eq" by (simp add: d)
  moreover have "list_all in_word (takeWhile P q)"
    using z by (auto simp: list_all_iff in_word_def P_def dest: set_takeWhileD)
  moreover have "\<not> in_word (ch eq)"
  proof (cases eq)
    case (Cons y ys)
    then have "\<not> P y" using d by (metis dropWhile_eq_Cons_conv)
    with Cons show ?thesis by (auto simp: in_word_def P_def)
  qed (simp add: in_word_def)
  ultimately show ?thesis using sub by (auto simp: span_ok_def)
qed

abbreviation redirs_ok :: "byte list \<Rightarrow> redir list \<Rightarrow> bool" where
  "redirs_ok ps rs \<equiv> \<forall>w \<in> fst ` set rs. span_ok ps w"

lemma no_nul_suffix: "suffix s ps \<Longrightarrow> 0 \<notin> set ps \<Longrightarrow> 0 \<notin> set s"
  by (auto dest: set_mono_suffix)

lemma parseredirs_spans:
  "parseredirs ps = Parsed (rs, s) \<Longrightarrow> 0 \<notin> set ps \<Longrightarrow> suffix s ps \<and> redirs_ok ps rs"
proof (induction ps arbitrary: rs s rule: parseredirs.induct)
  case (1 ps)
  obtain tok q0 e0 s1 where g: "gettoken (skip_ws ps) = (tok, q0, e0, s1)" by (cases "gettoken (skip_ws ps)")
  obtain ret q e s2 where h: "gettoken s1 = (ret, q, e, s2)" by (cases "gettoken s1")
  have s1: "suffix s1 ps" using gettoken_suffix [OF g] suffix_skip_ws suffix_order.trans by blast
  have s2: "suffix s2 ps" using gettoken_suffix [OF h] s1 suffix_order.trans by blast
  show ?case
  proof (cases "fst (peek ps ''<>'')")
    case False
    with 1(2) show ?thesis by (subst (asm) parseredirs.simps) (auto simp: peek_eq suffix_skip_ws)
  next
    case True
    then have p: "(True, skip_ws ps) = peek ps ''<>''" by (simp add: peek_eq)
    from 1(2) True g h obtain rs' where ret: "ret = 97" and r: "parseredirs s2 = Parsed (rs', s)"
        "rs = redir_of tok (q, e) @ rs'"
      by (subst (asm) parseredirs.simps) (auto simp: peek_eq pbind_Parsed split: if_splits)
    have "suffix s s2 \<and> redirs_ok s2 rs'"
      by (rule 1(1) [OF p _ g [symmetric] refl refl h [symmetric] refl refl _ r(1)])
        (use ret no_nul_suffix [OF s2 1(3)] in auto)
    moreover have "span_ok ps (q, e)"
      using gettoken_word [of s1 q e s2] h ret s1 no_nul_suffix [OF s1 1(3)] by (auto intro: span_ok_mono)
    ultimately show ?thesis using r(2) s2
      by (auto intro: span_ok_mono suffix_order.trans split: if_splits)
  qed
qed

lemma parse_args_cases:
  assumes "parse_args argc ps = Parsed (ws, rs, s)"
  obtains (stop) "ws = []" "rs = []" "s = skip_ws ps"
  | (stop0) q eq where "ws = []" "rs = []" "gettoken (skip_ws ps) = (0, q, eq, s)"
  | (arg) q eq s1 rs1 s2 ws' rs' where "gettoken (skip_ws ps) = (97, q, eq, s1)" "argc + 1 < MAXARGS"
      "parseredirs s1 = Parsed (rs1, s2)" "parse_args (argc + 1) s2 = Parsed (ws', rs', s)"
      "ws = (q, eq) # ws'" "rs = rs1 @ rs'"
proof -
  obtain tok q eq s1 where g: "gettoken (skip_ws ps) = (tok, q, eq, s1)" by (cases "gettoken (skip_ws ps)")
  show ?thesis
    using assms stop stop0 arg g
    by (subst (asm) parse_args.simps) (auto simp: peek_eq pbind_Parsed split: if_splits)
qed

lemma parse_args_spans:
  "parse_args argc ps = Parsed (ws, rs, s) \<Longrightarrow> 0 \<notin> set ps \<Longrightarrow>
   suffix s ps \<and> redirs_ok ps rs \<and> (\<forall>w \<in> set ws. span_ok ps w)"
proof (induction "MAXARGS - argc" arbitrary: argc ps ws rs s)
  case 0
  from 0(2) show ?case
    by (cases rule: parse_args_cases) (use 0(1) suffix_skip_ws gettoken_suffix suffix_order.trans in \<open>auto; blast\<close>)+
next
  case (Suc k)
  from Suc(3) show ?case
  proof (cases rule: parse_args_cases)
    case stop
    then show ?thesis by (simp add: suffix_skip_ws)
  next
    case (stop0 q eq)
    then show ?thesis using gettoken_suffix suffix_skip_ws suffix_order.trans by auto blast
  next
    case (arg q eq s1 rs1 s2 ws' rs')
    have s1: "suffix s1 ps" using gettoken_suffix [OF arg(1)] suffix_skip_ws suffix_order.trans by blast
    note z = no_nul_suffix [OF s1 Suc(4)]
    have s2: "suffix s2 s1 \<and> redirs_ok s1 rs1" by (rule parseredirs_spans [OF arg(3) z])
    then have z2: "0 \<notin> set s2" using no_nul_suffix z by blast
    have "suffix s s2 \<and> redirs_ok s2 rs' \<and> (\<forall>w \<in> set ws'. span_ok s2 w)"
      by (rule Suc(1) [OF _ arg(4) z2]) (use Suc(2) in simp)
    moreover have "span_ok ps (q, eq)"
      using gettoken_word [OF arg(1)] no_nul_suffix [OF suffix_skip_ws Suc(4)] suffix_skip_ws span_ok_mono by blast
    ultimately show ?thesis using s1 s2 arg(5,6)
      by (auto intro: span_ok_mono suffix_order.trans dest: suffix_order.trans)
  qed
qed

text \<open>A result whose words and rest are parts of \<open>ps\<close>.\<close>

definition within :: "byte list \<Rightarrow> span cmd \<times> byte list \<Rightarrow> bool" where
  "within ps = (\<lambda>(c, s). suffix s ps \<and> (\<forall>w \<in> set_cmd c. span_ok ps w))"

lemma within_mono: "within s x \<Longrightarrow> suffix s ps \<Longrightarrow> within ps x"
  by (auto simp: within_def intro: span_ok_mono dest: suffix_order.trans)

lemma set_add_redirs: "set_cmd (add_redirs c rs) = set_cmd c \<union> fst ` set rs"
  unfolding add_redirs_def by (induction rs arbitrary: c) (auto split: prod.splits)

lemma spans_mono: "\<forall>w \<in> A. span_ok s w \<Longrightarrow> suffix s ps \<Longrightarrow> \<forall>w \<in> A. span_ok ps w"
  by (blast intro: span_ok_mono)

lemma within_add_redirs:
  "\<forall>w \<in> set_cmd c. span_ok ps w \<Longrightarrow> redirs_ok ps rs \<Longrightarrow> suffix s ps \<Longrightarrow> within ps (add_redirs c rs, s)"
  unfolding within_def prod.case set_add_redirs by blast

lemma gettoken_skip: "gettoken (skip_ws ps) = (ret, q, eq, s) \<Longrightarrow> suffix s ps"
  using gettoken_suffix suffix_skip_ws suffix_order.trans by blast

lemma within_LIST: "within ps (c, s) \<Longrightarrow> suffix s1 s \<Longrightarrow> within s1 (d, s2) \<Longrightarrow> within ps (LIST c d, s2)"
  and within_PIPE: "within ps (c, s) \<Longrightarrow> suffix s1 s \<Longrightarrow> within s1 (d, s2) \<Longrightarrow> within ps (PIPE c d, s2)"
  by (auto simp: within_def intro: span_ok_mono dest: suffix_order.trans)

lemma within_rest: "within ps (c, s) \<Longrightarrow> suffix s1 s \<Longrightarrow> within ps (c, s1)"
  by (auto simp: within_def dest: suffix_order.trans)

lemma within_nul: "within ps (c, s) \<Longrightarrow> 0 \<notin> set ps \<Longrightarrow> suffix s1 s \<Longrightarrow> 0 \<notin> set s1"
  by (auto simp: within_def dest: no_nul_suffix suffix_order.trans)

lemma parser_within:
  assumes "0 \<notin> set ps"
  shows "parseline n ps = Parsed x \<Longrightarrow> within ps x"
    and "parse_backs n c ps = Parsed x \<Longrightarrow> \<forall>w \<in> set_cmd c. span_ok ps0 w \<Longrightarrow> suffix ps ps0 \<Longrightarrow> within ps0 x"
    and "parsepipe n ps = Parsed x \<Longrightarrow> within ps x"
    and "parseblock n ps = Parsed x \<Longrightarrow> within ps x"
    and "parseexec n ps = Parsed x \<Longrightarrow> within ps x"
  using assms
proof (induction n arbitrary: ps x c ps0)
  case (Suc n)
  {
    case 1
    then obtain c s c1 s1 where a: "parsepipe n ps = Parsed (c, s)" "parse_backs n c s = Parsed (c1, s1)"
      by (auto simp: pbind_Parsed)
    have w: "within ps (c, s)" by (rule Suc(3) [OF a(1) 1(2)])
    have z: "0 \<notin> set s" using within_nul [OF w 1(2)] by simp
    have w1: "within ps (c1, s1)"
      by (rule Suc(2) [OF a(2) _ _ z]) (use w in \<open>auto simp: within_def\<close>)
    obtain ret q eq s3 where g: "gettoken (skip_ws s1) = (ret, q, eq, s3)" by (cases "gettoken (skip_ws s1)")
    show ?case
    proof (cases "fst (peek s1 '';'')")
      case True
      with 1(1) a g obtain d s4 where d: "parseline n s3 = Parsed (d, s4)" "x = (LIST c1 d, s4)"
        by (auto simp: pbind_Parsed peek_eq)
      have "0 \<notin> set s3" by (rule within_nul [OF w1 1(2) gettoken_skip [OF g]])
      from Suc(1) [OF d(1) this] show ?thesis unfolding d(2) by (rule within_LIST [OF w1 gettoken_skip [OF g]])
    next
      case False
      with 1(1) a have "x = (c1, skip_ws s1)" by (auto simp: peek_eq)
      with w1 show ?thesis by (auto intro: within_rest suffix_skip_ws)
    qed
  next
    case 2
    obtain ret q eq s1 where g: "gettoken (skip_ws ps) = (ret, q, eq, s1)" by (cases "gettoken (skip_ws ps)")
    note s1 = gettoken_skip [OF g]
    show ?case
    proof (cases "fst (peek ps ''&'')")
      case True
      with 2(1) g have "parse_backs n (BACK c) s1 = Parsed x" by (auto simp: peek_eq)
      then show ?thesis
        by (rule Suc(2)) (use 2(2) suffix_order.trans [OF s1 2(3)] no_nul_suffix [OF s1 2(4)] in simp_all)
    next
      case False
      with 2 show ?thesis by (auto simp: peek_eq within_def intro: suffix_order.trans [OF suffix_skip_ws])
    qed
  next
    case 3
    then obtain c s where a: "parseexec n ps = Parsed (c, s)" by (auto simp: pbind_Parsed)
    have w: "within ps (c, s)" by (rule Suc(5) [OF a 3(2)])
    obtain ret q eq s2 where g: "gettoken (skip_ws s) = (ret, q, eq, s2)" by (cases "gettoken (skip_ws s)")
    show ?case
    proof (cases "fst (peek s ''|'')")
      case True
      with 3(1) a g obtain d s3 where d: "parsepipe n s2 = Parsed (d, s3)" "x = (PIPE c d, s3)"
        by (auto simp: pbind_Parsed peek_eq)
      have "0 \<notin> set s2" by (rule within_nul [OF w 3(2) gettoken_skip [OF g]])
      from Suc(3) [OF d(1) this] show ?thesis unfolding d(2) by (rule within_PIPE [OF w gettoken_skip [OF g]])
    next
      case False
      with 3(1) a have "x = (c, skip_ws s)" by (auto simp: peek_eq)
      with w show ?thesis by (auto intro: within_rest suffix_skip_ws)
    qed
  next
    case 4
    obtain ret q eq s1 where g: "gettoken (skip_ws ps) = (ret, q, eq, s1)" by (cases "gettoken (skip_ws ps)")
    from 4(1) g obtain c s2 where a: "parseline n s1 = Parsed (c, s2)" by (auto simp: pbind_Parsed peek_eq split: if_splits)
    obtain ret' q' eq' s4 where h: "gettoken (skip_ws s2) = (ret', q', eq', s4)" by (cases "gettoken (skip_ws s2)")
    from 4(1) g a h obtain rs s5 where r: "parseredirs s4 = Parsed (rs, s5)" "x = (add_redirs c rs, s5)"
      by (auto simp: pbind_Parsed peek_eq split: if_splits)
    have w: "within s1 (c, s2)" by (rule Suc(1) [OF a no_nul_suffix [OF gettoken_skip [OF g] 4(2)]])
    have w2: "within ps (c, s2)" by (rule within_mono [OF w gettoken_skip [OF g]])
    have s5: "suffix s5 s4 \<and> redirs_ok s4 rs"
      by (rule parseredirs_spans [OF r(1) within_nul [OF w2 4(2) gettoken_skip [OF h]]])
    have s4: "suffix s4 ps" using within_rest [OF w2 gettoken_skip [OF h]] by (simp add: within_def)
    show ?case unfolding r(2)
    proof (rule within_add_redirs)
      show "\<forall>w \<in> set_cmd c. span_ok ps w" using w2 by (simp add: within_def)
      show "redirs_ok ps rs" by (rule spans_mono [OF conjunct2 [OF s5] s4])
      show "suffix s5 ps" by (rule suffix_order.trans [OF conjunct1 [OF s5] s4])
    qed
  next
    case 5
    have z: "0 \<notin> set (skip_ws ps)" by (rule no_nul_suffix [OF suffix_skip_ws 5(2)])
    show ?case
    proof (cases "fst (peek ps ''('')")
      case True
      with 5(1) have "parseblock n (skip_ws ps) = Parsed x" by (auto simp: peek_eq)
      from Suc(4) [OF this z] show ?thesis by (rule within_mono [OF _ suffix_skip_ws])
    next
      case False
      with 5(1) obtain rs s1 ws rs' s2 where r: "parseredirs (skip_ws ps) = Parsed (rs, s1)"
          "parse_args 0 s1 = Parsed (ws, rs', s2)" "x = (add_redirs (EXEC ws) (rs @ rs'), s2)"
        by (auto simp: pbind_Parsed peek_eq)
      have a: "suffix s1 (skip_ws ps) \<and> redirs_ok (skip_ws ps) rs" by (rule parseredirs_spans [OF r(1) z])
      then have s1: "suffix s1 ps" using suffix_skip_ws suffix_order.trans by blast
      have b: "suffix s2 s1" "redirs_ok s1 rs'" "\<forall>w \<in> set ws. span_ok s1 w"
        using parse_args_spans [OF r(2) no_nul_suffix [OF s1 5(2)]] by blast+
      show ?thesis unfolding r(3)
      proof (rule within_add_redirs)
        show "\<forall>w \<in> set_cmd (EXEC ws). span_ok ps w" using spans_mono [OF b(3) s1] by simp
        show "redirs_ok ps (rs @ rs')"
          using spans_mono [OF conjunct2 [OF a] suffix_skip_ws] spans_mono [OF b(2) s1] by auto
        show "suffix s2 ps" using b(1) s1 by (rule suffix_order.trans)
      qed
    qed
  }
qed simp_all

section \<open>The parser returns\<close>

lemma peek_gettoken:
  assumes "fst (peek ps toks)" and "gettoken (skip_ws ps) = (ret, q, eq, s1)"
  shows "length s1 < length ps"
proof -
  have "ch (skip_ws ps) \<noteq> 0" using assms(1) by (simp add: peek_eq)
  then have "ret \<noteq> 0" using assms(2) by (auto simp: gettoken_def Let_def cstr_def split: if_splits)
  with gettoken_less [OF assms(2)] skip_ws_le [of ps] show ?thesis by simp
qed

lemma parseredirs_not_Deep: "parseredirs ps \<noteq> Deep"
proof (induction ps rule: parseredirs.induct)
  case (1 ps)
  then show ?case by (subst parseredirs.simps) (auto simp: pbind_Deep split: prod.splits)
qed

lemma parse_args_not_Deep: "parse_args argc ps \<noteq> Deep"
proof (induction argc ps rule: parse_args.induct)
  case (1 argc ps)
  then show ?case
    by (subst parse_args.simps) (auto simp: pbind_Deep parseredirs_not_Deep split: prod.splits)
qed

lemma within_le: "within ps (c, s) \<Longrightarrow> length s \<le> length ps"
  by (auto simp: within_def dest: suffix_length_le)

lemma parser_not_Deep:
  assumes "0 \<notin> set ps"
  shows "4 * length ps + 4 \<le> n \<Longrightarrow> parseline n ps \<noteq> Deep"
    and "4 * length ps + 1 \<le> n \<Longrightarrow> parse_backs n c ps \<noteq> Deep"
    and "4 * length ps + 3 \<le> n \<Longrightarrow> parsepipe n ps \<noteq> Deep"
    and "4 * length ps + 1 \<le> n \<Longrightarrow> parseblock n ps \<noteq> Deep"
    and "4 * length ps + 2 \<le> n \<Longrightarrow> parseexec n ps \<noteq> Deep"
  using assms
proof (induction n arbitrary: ps c)
  case (Suc n)
  {
    case 1
    show ?case
    proof
      assume "parseline (Suc n) ps = Deep"
      moreover have "parsepipe n ps \<noteq> Deep" by (rule Suc(3)) (use 1 in auto)
      ultimately obtain c s where a: "parsepipe n ps = Parsed (c, s)" and
        d: "pbind (parse_backs n c s) (\<lambda>(c', s1). case peek s1 '';'' of (p, s2) \<Rightarrow>
          if p then (case gettoken s2 of (_, _, _, s3) \<Rightarrow> pbind (parseline n s3) (\<lambda>(d, s4). Parsed (LIST c' d, s4)))
          else Parsed (c', s2)) = Deep" by (auto simp: pbind_Deep)
      have w: "within ps (c, s)" by (rule parser_within(3) [OF 1(2) a])
      have z: "0 \<notin> set s" using within_nul [OF w 1(2)] by simp
      have "parse_backs n c s \<noteq> Deep" by (rule Suc(2)) (use 1(1) within_le [OF w] z in auto)
      with d obtain c1 s1 where b: "parse_backs n c s = Parsed (c1, s1)" and
        e: "(case peek s1 '';'' of (p, s2) \<Rightarrow>
          if p then (case gettoken s2 of (_, _, _, s3) \<Rightarrow> pbind (parseline n s3) (\<lambda>(d, s4). Parsed (LIST c1 d, s4)))
          else Parsed (c1, s2)) = Deep" by (auto simp: pbind_Deep)
      have w1: "within ps (c1, s1)" by (rule parser_within(2) [OF z b]) (use w in \<open>auto simp: within_def\<close>)
      obtain ret q eq s3 where g: "gettoken (skip_ws s1) = (ret, q, eq, s3)" by (cases "gettoken (skip_ws s1)")
      with e have p: "fst (peek s1 '';'')" and "parseline n s3 = Deep" by (auto simp: peek_eq pbind_Deep split: if_splits)
      moreover have "parseline n s3 \<noteq> Deep"
        by (rule Suc(1)) (use 1(1) within_le [OF w1] peek_gettoken [OF p g] within_nul [OF w1 1(2) gettoken_skip [OF g]] in auto)
      ultimately show False by simp
    qed
  next
    case 2
    obtain ret q eq s1 where g: "gettoken (skip_ws ps) = (ret, q, eq, s1)" by (cases "gettoken (skip_ws ps)")
    show ?case
    proof
      assume "parse_backs (Suc n) c ps = Deep"
      with g have p: "fst (peek ps ''&'')" and "parse_backs n (BACK c) s1 = Deep" by (auto simp: peek_eq split: if_splits)
      moreover have "parse_backs n (BACK c) s1 \<noteq> Deep"
        by (rule Suc(2)) (use 2(1) peek_gettoken [OF p g] no_nul_suffix [OF gettoken_skip [OF g] 2(2)] in auto)
      ultimately show False by simp
    qed
  next
    case 3
    show ?case
    proof
      assume "parsepipe (Suc n) ps = Deep"
      moreover have "parseexec n ps \<noteq> Deep" by (rule Suc(5)) (use 3 in auto)
      ultimately obtain c s where a: "parseexec n ps = Parsed (c, s)" and
        e: "(case peek s ''|'' of (p, s1) \<Rightarrow>
          if p then (case gettoken s1 of (_, _, _, s2) \<Rightarrow> pbind (parsepipe n s2) (\<lambda>(d, s3). Parsed (PIPE c d, s3)))
          else Parsed (c, s1)) = Deep" by (auto simp: pbind_Deep)
      have w: "within ps (c, s)" by (rule parser_within(5) [OF 3(2) a])
      obtain ret q eq s2 where g: "gettoken (skip_ws s) = (ret, q, eq, s2)" by (cases "gettoken (skip_ws s)")
      with e have p: "fst (peek s ''|'')" and "parsepipe n s2 = Deep" by (auto simp: peek_eq pbind_Deep split: if_splits)
      moreover have "parsepipe n s2 \<noteq> Deep"
        by (rule Suc(3)) (use 3(1) within_le [OF w] peek_gettoken [OF p g] within_nul [OF w 3(2) gettoken_skip [OF g]] in auto)
      ultimately show False by simp
    qed
  next
    case 4
    obtain ret q eq s1 where g: "gettoken (skip_ws ps) = (ret, q, eq, s1)" by (cases "gettoken (skip_ws ps)")
    show ?case
    proof
      assume d: "parseblock (Suc n) ps = Deep"
      with g have p: "fst (peek ps ''('')" by (auto simp: peek_eq split: if_splits)
      have "parseline n s1 \<noteq> Deep"
        by (rule Suc(1)) (use 4(1) peek_gettoken [OF p g] no_nul_suffix [OF gettoken_skip [OF g] 4(2)] in auto)
      with d g p show False
        by (auto simp: peek_eq pbind_Deep parseredirs_not_Deep split: if_splits prod.splits)
    qed
  next
    case 5
    have "4 * length (skip_ws ps) + 1 \<le> n" using 5(1) skip_ws_le [of ps] by linarith
    then have "parseblock n (skip_ws ps) \<noteq> Deep" by (rule Suc(4)) (use no_nul_suffix [OF suffix_skip_ws 5(2)] in simp)
    then show ?case by (auto simp: peek_eq pbind_Deep parseredirs_not_Deep parse_args_not_Deep)
  }
qed simp_all

lemma nulterminate_length [simp]: "length (nulterminate n c b) = length b"
proof (induction n c b rule: nulterminate.induct)
  case (1 n ws b)
  show ?case by (induction ws arbitrary: b) (auto split: prod.splits)
qed simp_all

text \<open>\<^verbatim>\<open>nulterminate\<close> clears the bytes behind the words and no other.\<close>

lemma nth_clear: "i < length b \<Longrightarrow> b[k := 0] ! i = (if i = k then 0 else b ! i)" for b :: "byte list"
  by (cases "i = k") simp_all

lemma nulterminate_nth:
  "i < length b \<Longrightarrow> nulterminate n c b ! i = (if i \<in> (\<lambda>(q, eq). n - length eq) ` set_cmd c then 0 else b ! i)"
proof (induction n c b rule: nulterminate.induct)
  case (1 n ws b)
  then have "foldl (\<lambda>b (q, eq). b[n - length eq := 0]) b ws ! i = (if i \<in> (\<lambda>(q, eq). n - length eq) ` set ws then 0 else b ! i)"
  proof (induction ws arbitrary: b)
    case (Cons w ws)
    then show ?case by (cases w) (auto simp: nth_clear)
  qed simp
  then show ?case by simp
qed (auto simp: nth_clear)

text \<open>
  C34. The parser of the shell returns on every line, with a command or a complaint. Once \<^verbatim>\<open>nulterminate\<close> has
  cut the line up, each word of the command is a non-empty string without blanks and
  operators and is exactly what stands between its two pointers: no NUL falls into another word.
\<close>

theorem parsecmd_words:
  assumes "0 \<notin> set s"
  shows "parsecmd s \<noteq> Deep \<and>
    (\<forall>c. parsecmd s = Parsed c \<longrightarrow> (\<forall>(q, eq) \<in> set_cmd c.
       suffix q s \<and> word_of (q, eq) \<noteq> [] \<and> list_all in_word (word_of (q, eq)) \<and>
       takeWhile (\<lambda>x. x \<noteq> 0) (drop (length s - length q) (nulterminate (length s) c (s @ [0]))) = word_of (q, eq)))"
proof (intro conjI allI impI ballI)
  have "parseline (5 * length s + 5) s \<noteq> Deep" using assms by (intro parser_not_Deep) auto
  then show "parsecmd s \<noteq> Deep" by (auto simp: parsecmd_def pbind_Deep peek_eq split: if_splits)
next
  fix c w
  assume c: "parsecmd s = Parsed c" and w: "w \<in> set_cmd c"
  then obtain s1 where "parseline (5 * length s + 5) s = Parsed (c, s1)"
    by (auto simp: parsecmd_def pbind_Parsed peek_eq split: if_splits)
  then have ok: "\<forall>v \<in> set_cmd c. span_ok s v" using parser_within(1) [OF assms] by (force simp: within_def)
  obtain q eq where q: "w = (q, eq)" by (cases w)
  with ok w have qs: "suffix q s" and ne: "\<not> in_word (ch eq)" by (auto simp: span_ok_def)
  from ok w q obtain x where x: "q = x @ eq" "x \<noteq> []" "list_all in_word x" by (auto simp: span_ok_def)
  from qs obtain p where p: "s = p @ q" by (auto simp: suffix_def)
  define b where "b = nulterminate (length s) c (s @ [0])"
  have "b ! (length p + i) = x ! i" if i: "i < length x" for i
  proof -
    have "s ! (length p + i) = x ! i" using i by (simp add: p x nth_append)
    moreover have "length p + i \<noteq> length s - length eq'" if v: "(q', eq') \<in> set_cmd c" for q' eq'
    proof
      assume eq: "length p + i = length s - length eq'"
      have "suffix eq' s" using ok v by (force simp: span_ok_def suffix_def)
      then have "eq' = drop (length p + i) s" using eq by (auto simp: suffix_def)
      then have "ch eq' = x ! i" using i by (simp add: p x drop_append ch_def split: list.splits)
          (metis Cons_nth_drop_Suc append_Cons list.inject)
      moreover have "\<not> in_word (ch eq')" using ok v by (force simp: span_ok_def)
      ultimately show False using x(3) i by (simp add: list_all_length)
    qed
    ultimately show ?thesis using i unfolding b_def
      by (subst nulterminate_nth) (auto simp: p x nth_append)
  qed
  moreover have "b ! (length p + length x) = 0"
    using w q unfolding b_def by (subst nulterminate_nth) (auto simp: p x intro!: image_eqI [of _ _ "(q, eq)"])
  moreover have "length b = length s + 1" by (simp add: b_def)
  ultimately have "drop (length p) b = x @ 0 # drop (length p + length x + 1) b"
    by (intro nth_equalityI) (auto simp: p x nth_append nth_Cons')
  moreover have "\<forall>y \<in> set x. y \<noteq> 0" using x(3) by (auto simp: list_all_iff in_word_def)
  ultimately have "takeWhile (\<lambda>y. y \<noteq> 0) (drop (length p) b) = x" by (simp add: takeWhile_append2)
  then show "case w of (q, eq) \<Rightarrow> suffix q s \<and> word_of (q, eq) \<noteq> [] \<and> list_all in_word (word_of (q, eq)) \<and>
       takeWhile (\<lambda>x. x \<noteq> 0) (drop (length s - length q) (nulterminate (length s) c (s @ [0]))) = word_of (q, eq)"
    using q x qs by (simp add: b_def p)
qed

theorem parsecmd_words_witness:
  "takeWhile (\<lambda>x. x \<noteq> 0) (drop 2 (nulterminate 3 (LIST (EXEC [(cstr ''a;b'', cstr '';b'')]) (EXEC [(cstr ''b'', [])])) (cstr ''a;b'' @ [0]))) = cstr ''b''"
proof -
  have p: "parsecmd (cstr ''a;b'') = Parsed (LIST (EXEC [(cstr ''a;b'', cstr '';b'')]) (EXEC [(cstr ''b'', [])]))"
    by code_simp
  show ?thesis
    using parsecmd_words [of "cstr ''a;b''"] p by (simp add: cstr_def)
qed

end
