(* ===== verification/Sh_Syntax.thy ===== *)
theory Sh_Syntax
  imports Sh
begin

text \<open>
  The grammar of the shell. \<open>unparse\<close> writes a command down; the parser reads it back.
\<close>

unbundle bit_operations_syntax

section \<open>Every command can be written down\<close>

lemma pbind_fuel:
  assumes "pbind m f \<noteq> Deep" and "m \<noteq> Deep \<Longrightarrow> m' = m" and "\<And>x. m = Parsed x \<Longrightarrow> f x \<noteq> Deep \<Longrightarrow> f' x = f x"
  shows "pbind m' f' = pbind m f"
  using assms by (cases m) auto

lemma eq_step: "a = a' \<Longrightarrow> b = b' \<Longrightarrow> a' = b' \<Longrightarrow> a = b"
  by simp

text \<open>A deeper bound does not change the result.\<close>

lemma parser_fuel_Suc:
  "parseline n ps \<noteq> Deep \<Longrightarrow> parseline (Suc n) ps = parseline n ps"
  "parse_backs n c ps \<noteq> Deep \<Longrightarrow> parse_backs (Suc n) c ps = parse_backs n c ps"
  "parsepipe n ps \<noteq> Deep \<Longrightarrow> parsepipe (Suc n) ps = parsepipe n ps"
  "parseblock n ps \<noteq> Deep \<Longrightarrow> parseblock (Suc n) ps = parseblock n ps"
  "parseexec n ps \<noteq> Deep \<Longrightarrow> parseexec (Suc n) ps = parseexec n ps"
proof (induction n arbitrary: ps c)
  case (Suc n)
  {
    case 1
    then have d: "parseline (Suc n) ps \<noteq> Deep" .
    show ?case
    proof (rule eq_step [OF parseline.simps(2) parseline.simps(2)], rule pbind_fuel)
      fix x assume "parsepipe n ps = Parsed x"
      obtain c s where x: "x = (c, s)" by (cases x)
      assume "(case x of (c, s) \<Rightarrow> pbind (parse_backs n c s) (\<lambda>(c', s1). case peek s1 '';'' of (p, s2) \<Rightarrow>
          if p then (case gettoken s2 of (_, _, _, s3) \<Rightarrow> pbind (parseline n s3) (\<lambda>(d, s4). Parsed (LIST c' d, s4)))
          else Parsed (c', s2))) \<noteq> Deep"
      then show "(case x of (c, s) \<Rightarrow> pbind (parse_backs (Suc n) c s) (\<lambda>(c', s1). case peek s1 '';'' of (p, s2) \<Rightarrow>
          if p then (case gettoken s2 of (_, _, _, s3) \<Rightarrow> pbind (parseline (Suc n) s3) (\<lambda>(d, s4). Parsed (LIST c' d, s4)))
          else Parsed (c', s2))) =
        (case x of (c, s) \<Rightarrow> pbind (parse_backs n c s) (\<lambda>(c', s1). case peek s1 '';'' of (p, s2) \<Rightarrow>
          if p then (case gettoken s2 of (_, _, _, s3) \<Rightarrow> pbind (parseline n s3) (\<lambda>(d, s4). Parsed (LIST c' d, s4)))
          else Parsed (c', s2)))"
        unfolding x prod.case
      proof (rule pbind_fuel)
        show "parse_backs n c s \<noteq> Deep \<Longrightarrow> parse_backs (Suc n) c s = parse_backs n c s" by (rule Suc(2))
      qed (auto simp: peek_eq simp del: parseline.simps split: prod.splits if_splits elim!: pbind_fuel Suc(1))
    next
      show "parsepipe n ps \<noteq> Deep \<Longrightarrow> parsepipe (Suc n) ps = parsepipe n ps" by (rule Suc(3))
    qed (rule d [unfolded parseline.simps(2) [of n ps]])
  next
    case 2
    obtain ret q eq s1 where g: "gettoken (skip_ws ps) = (ret, q, eq, s1)" by (cases "gettoken (skip_ws ps)")
    have "parse_backs n (BACK c) s1 \<noteq> Deep" if "fst (peek ps ''&'')"
      using 2 g that by (simp add: peek_eq)
    then have "parse_backs (Suc n) (BACK c) s1 = parse_backs n (BACK c) s1" if "fst (peek ps ''&'')"
      using that by (intro Suc(2))
    with g show ?case
      by (intro eq_step [OF parse_backs.simps(2) parse_backs.simps(2)]) (simp add: peek_eq del: parse_backs.simps)
  next
    case 3
    then have d: "parsepipe (Suc n) ps \<noteq> Deep" .
    show ?case
    proof (rule eq_step [OF parsepipe.simps(2) parsepipe.simps(2)], rule pbind_fuel)
      show "parseexec n ps \<noteq> Deep \<Longrightarrow> parseexec (Suc n) ps = parseexec n ps" by (rule Suc(5))
    qed (rule d [unfolded parsepipe.simps(2) [of n ps]],
        auto simp: peek_eq simp del: parsepipe.simps split: prod.splits if_splits elim!: pbind_fuel Suc(3))
  next
    case 4
    then show ?case
      by (intro eq_step [OF parseblock.simps(2) parseblock.simps(2)])
        (auto simp: peek_eq simp del: parseline.simps split: prod.splits if_splits elim!: pbind_fuel Suc(1))
  next
    case 5
    then have "parseblock (Suc n) (skip_ws ps) = parseblock n (skip_ws ps)" if "fst (peek ps ''('')"
      using that by (intro Suc(4)) (simp add: peek_eq)
    then show ?case
      by (intro eq_step [OF parseexec.simps(2) parseexec.simps(2)]) (simp add: peek_eq del: parseblock.simps)
  }
qed simp_all

lemma parseline_fuel:
  assumes "parseline n ps \<noteq> Deep"
  shows "parseline (n + k) ps = parseline n ps"
proof (induction k)
  case (Suc k)
  with assms have "parseline (n + k) ps \<noteq> Deep" by simp
  from parser_fuel_Suc(1) [OF this] Suc show ?case by simp
qed simp

text \<open>How a command is written: words are followed by a blank; a command that binds less tightly than its
  place requires stands in parentheses.\<close>

fun tightness :: "'w cmd \<Rightarrow> nat" where
  "tightness (LIST l r) = 0"
| "tightness (BACK c) = 1"
| "tightness (PIPE l r) = 2"
| "tightness (EXEC ws) = 3"
| "tightness (REDIR c f mode fd) = 3"

definition paren :: "nat \<Rightarrow> 'w cmd \<Rightarrow> byte list \<Rightarrow> byte list" where
  "paren k c s = (if tightness c < k then 40 # s @ [41] else s)"

definition redir_text :: "byte list \<times> uint32 \<times> nat \<Rightarrow> byte list" where
  "redir_text = (\<lambda>(f, mode, fd). (if fd = 0 then 60 else 62) # f @ [32])"

fun unparse :: "byte list cmd \<Rightarrow> byte list" where
  "unparse (EXEC ws) = concat (map (\<lambda>w. w @ [32]) ws)"
| "unparse (REDIR c f mode fd) = paren 3 c (unparse c) @ redir_text (f, mode, fd)"
| "unparse (PIPE l r) = paren 3 l (unparse l) @ 124 # paren 2 r (unparse r)"
| "unparse (BACK c) = paren 1 c (unparse c) @ [38]"
| "unparse (LIST l r) = paren 1 l (unparse l) @ 59 # unparse r"

definition legal_word :: "byte list \<Rightarrow> bool" where
  "legal_word w \<longleftrightarrow> w \<noteq> [] \<and> list_all in_word w"

definition legal_redir :: "byte list \<times> uint32 \<times> nat \<Rightarrow> bool" where
  "legal_redir = (\<lambda>(f, mode, fd). legal_word f \<and> (mode, fd) \<in> {(O_RDONLY, 0), (O_WRONLY OR O_CREATE, 1)})"

fun legal :: "byte list cmd \<Rightarrow> bool" where
  "legal (EXEC ws) = (list_all legal_word ws \<and> length ws < MAXARGS)"
| "legal (REDIR c f mode fd) = (legal c \<and> legal_redir (f, mode, fd))"
| "legal (PIPE l r) = (legal l \<and> legal r)"
| "legal (BACK c) = legal c"
| "legal (LIST l r) = (legal l \<and> legal r)"

text \<open>What may follow.\<close>

definition follow :: "string \<Rightarrow> byte list \<Rightarrow> bool" where
  "follow X r \<longleftrightarrow> r = [] \<or> hd r \<in> set (cstr X)"

lemma skip_ws_head: "r = [] \<or> hd r \<notin> set whitespace \<Longrightarrow> skip_ws r = r"
  by (cases r) (auto simp: skip_ws_def)

lemma follow_skip: "follow X r \<Longrightarrow> set X \<subseteq> set ''|)&;'' \<Longrightarrow> skip_ws r = r"
  by (rule skip_ws_head) (auto simp: follow_def cstr_def whitespace_def)

lemma follow_mono: "follow X r \<Longrightarrow> set X \<subseteq> set Y \<Longrightarrow> follow Y r"
  by (auto simp: follow_def cstr_def)

lemma word_head: "legal_word w \<Longrightarrow> \<exists>x xs. w = x # xs \<and> in_word x"
  by (cases w) (auto simp: legal_word_def)

lemma in_wordD: "in_word x \<Longrightarrow> x \<noteq> 0 \<and> x \<notin> set whitespace \<and> x \<notin> set (cstr ''<|>&;()'')"
  by (simp add: in_word_def symbols_def)

lemma skip_ws_word: "legal_word w \<Longrightarrow> skip_ws (w @ r) = w @ r"
  by (rule skip_ws_head) (auto dest!: word_head in_wordD)

lemma gettoken_legal:
  assumes "legal_word w" and "skip_ws r = r"
  shows "gettoken (w @ 32 # r) = (97, w @ 32 # r, 32 # r, r)"
proof -
  obtain x xs where w: "w = x # xs" "in_word x" using word_head [OF assms(1)] by blast
  have s: "skip_ws (w @ 32 # r) = w @ 32 # r" by (rule skip_ws_word [OF assms(1)])
  have b: "skip_ws (32 # r) = r" using assms(2) by (simp add: skip_ws_def whitespace_def)
  have d: "dropWhile (\<lambda>y. y \<notin> set whitespace \<and> y \<notin> set symbols) (w @ 32 # r) = 32 # r"
    using assms(1) by (subst dropWhile_append2) (auto simp: legal_word_def list_all_iff in_word_def whitespace_def)
  have "ch (w @ 32 # r) = x" using w(1) by simp
  moreover have "x \<noteq> 0" "x \<noteq> 62" "x \<notin> set (cstr ''|();&<'')" using in_wordD [OF w(2)] by (auto simp: cstr_def)
  ultimately show ?thesis unfolding gettoken_def Let_def s by (simp add: d b)
qed

lemma word_of_legal: "word_of (w @ 32 # r, 32 # r) = w"
  by simp

lemma gettoken_symbol:
  assumes "c \<in> set (cstr ''|();&<'')" and "skip_ws r = r"
  shows "gettoken (c # r) = (c, c # r, r, r)"
proof -
  have "skip_ws (c # r) = c # r" using assms(1) by (intro skip_ws_head) (auto simp: cstr_def whitespace_def)
  moreover have "c \<noteq> 0" using assms(1) by (auto simp: cstr_def)
  ultimately show ?thesis using assms by (simp add: gettoken_def)
qed

lemma gettoken_great:
  assumes "ch r \<noteq> 62" and "skip_ws r = r"
  shows "gettoken (62 # r) = (62, 62 # r, r, r)"
proof -
  have "skip_ws (62 # r) = 62 # r" by (intro skip_ws_head) (simp add: whitespace_def)
  then show ?thesis using assms by (simp add: gettoken_def cstr_def)
qed

text \<open>Redirections.\<close>

lemma redir_text_skip: "skip_ws (redir_text x @ r) = redir_text x @ r"
  by (cases x) (auto simp: redir_text_def whitespace_def intro!: skip_ws_head)

lemma redirs_skip: "skip_ws r = r \<Longrightarrow> skip_ws (concat (map redir_text rs) @ r) = concat (map redir_text rs) @ r"
  by (cases rs) (simp_all add: redir_text_skip)

lemma parseredirs_none: "skip_ws s = s \<Longrightarrow> ch s \<noteq> 60 \<Longrightarrow> ch s \<noteq> 62 \<Longrightarrow> parseredirs s = Parsed ([], s)"
  by (subst parseredirs.simps) (simp add: peek_eq cstr_def)

abbreviation read_redir :: "redir \<Rightarrow> byte list \<times> uint32 \<times> nat" where
  "read_redir \<equiv> apfst word_of"

lemma parseredirs_text:
  assumes "list_all legal_redir rs" and "skip_ws r = r" and "ch r \<noteq> 60" and "ch r \<noteq> 62"
  shows "\<exists>rs'. parseredirs (concat (map redir_text rs) @ r) = Parsed (rs', r) \<and> map read_redir rs' = rs"
  using assms(1)
proof (induction rs)
  case Nil
  then show ?case using parseredirs_none assms(2-4) by auto
next
  case (Cons x rs)
  obtain f mode fd where x: "x = (f, mode, fd)" by (cases x)
  define t where "t = concat (map redir_text rs) @ r"
  have f: "legal_word f" and m: "(mode, fd) \<in> {(O_RDONLY, 0), (O_WRONLY OR O_CREATE, 1)}"
    using Cons.prems x by (auto simp: legal_redir_def)
  have t: "skip_ws t = t" unfolding t_def using assms(2) by (rule redirs_skip)
  obtain y ys where y: "f = y # ys" "in_word y" using word_head [OF f] by blast
  define c :: byte where "c = (if fd = 0 then 60 else 62)"
  have g: "gettoken (c # f @ 32 # t) = (c, c # f @ 32 # t, f @ 32 # t, f @ 32 # t)"
    using gettoken_symbol [of 60 "f @ 32 # t"] gettoken_great [of "f @ 32 # t"] skip_ws_word [OF f] in_wordD [OF y(2)] y(1)
    by (auto simp: c_def cstr_def)
  have s: "skip_ws (c # f @ 32 # t) = c # f @ 32 # t" by (rule skip_ws_head) (simp add: c_def whitespace_def)
  from Cons obtain rs' where "parseredirs t = Parsed (rs', r)" "map read_redir rs' = rs" by (auto simp: t_def)
  then have "parseredirs (c # f @ 32 # t) = Parsed (redir_of c (f @ 32 # t, 32 # t) @ rs', r)"
    by (subst parseredirs.simps) (simp add: peek_eq s g gettoken_legal [OF f t], simp add: c_def cstr_def)
  moreover have "map read_redir (redir_of c (f @ 32 # t, 32 # t)) = [x]" using m by (auto simp: c_def x)
  moreover have "concat (map redir_text (x # rs)) @ r = c # f @ 32 # t" by (simp add: redir_text_def x c_def t_def)
  ultimately show ?case using \<open>map read_redir rs' = rs\<close> by simp
qed

text \<open>Simple commands.\<close>

abbreviation words_text :: "byte list list \<Rightarrow> byte list" where
  "words_text ws \<equiv> concat (map (\<lambda>w. w @ [32]) ws)"

abbreviation redirs_text :: "(byte list \<times> uint32 \<times> nat) list \<Rightarrow> byte list" where
  "redirs_text rs \<equiv> concat (map redir_text rs)"

lemma map_add_redirs: "map_cmd word_of (add_redirs c rs) = add_redirs (map_cmd word_of c) (map read_redir rs)"
  unfolding add_redirs_def by (induction rs arbitrary: c) (auto split: prod.splits)

lemma words_skip: "list_all legal_word ws \<Longrightarrow> skip_ws r = r \<Longrightarrow> skip_ws (words_text ws @ r) = words_text ws @ r"
  by (cases ws) (simp_all add: skip_ws_word)

lemma ch_word: "legal_word w \<Longrightarrow> in_word (ch (w @ s))"
  by (auto dest!: word_head)

lemma follow_ch: "follow ''|)&;'' r \<Longrightarrow> ch r \<noteq> 60 \<and> ch r \<noteq> 62 \<and> ch r \<noteq> 40"
  by (cases r) (auto simp: follow_def cstr_def)

lemma parse_args_end:
  assumes "follow ''|)&;'' r"
  shows "parse_args argc r = Parsed ([], [], r)"
proof -
  have s: "skip_ws r = r" using assms by (rule follow_skip) simp
  show ?thesis
  proof (cases r)
    case Nil
    then show ?thesis by (subst parse_args.simps) (simp add: peek_eq gettoken_def skip_ws_def)
  next
    case (Cons x xs)
    then have "x \<in> set (cstr ''|)&;'')" using assms by (simp add: follow_def)
    moreover then have "x \<noteq> 0" by (auto simp: cstr_def)
    ultimately show ?thesis using s Cons by (subst parse_args.simps) (simp add: peek_eq)
  qed
qed

lemma parse_args_step:
  assumes "legal_word w" and "skip_ws s = s" and "argc + 1 < MAXARGS"
  shows "parse_args argc (w @ 32 # s) =
    pbind (parseredirs s) (\<lambda>(rs, s2). pbind (parse_args (argc + 1) s2) (\<lambda>(ws, rs', s3).
      Parsed ((w @ 32 # s, 32 # s) # ws, rs @ rs', s3)))"
proof -
  have "ch (w @ 32 # s) \<notin> set (cstr ''|)&;'')" using in_wordD [OF ch_word [OF assms(1)]] by (auto simp: cstr_def)
  then show ?thesis using assms(3)
    by (subst parse_args.simps) (simp add: peek_eq skip_ws_word [OF assms(1)] gettoken_legal [OF assms(1,2)])
qed

lemma parse_args_text:
  assumes "list_all legal_word ws" and "ws \<noteq> []" and "argc + length ws < MAXARGS"
    and "list_all legal_redir rs" and "follow ''|)&;'' r"
  shows "\<exists>ws' rs'. parse_args argc (words_text ws @ redirs_text rs @ r) = Parsed (ws', rs', r) \<and>
    map word_of ws' = ws \<and> map read_redir rs' = rs"
  using assms(1-3)
proof (induction ws arbitrary: argc)
  case (Cons w ws)
  have sr: "skip_ws (redirs_text rs @ r) = redirs_text rs @ r"
    by (rule redirs_skip, rule follow_skip [OF assms(5)]) simp
  define s where "s = words_text ws @ redirs_text rs @ r"
  have s: "skip_ws s = s" unfolding s_def using Cons.prems sr by (intro words_skip) auto
  note step = parse_args_step [OF _ s, of w argc]
  have eq: "words_text (w # ws) @ redirs_text rs @ r = w @ 32 # s" by (simp add: s_def)
  show ?case
  proof (cases "ws = []")
    case True
    then have "s = redirs_text rs @ r" by (simp add: s_def)
    with parseredirs_text [OF assms(4) follow_skip [OF assms(5)]] follow_ch [OF assms(5)] obtain rs' where
      "parseredirs s = Parsed (rs', r)" "map read_redir rs' = rs" by auto
    with step Cons.prems True show ?thesis unfolding eq by (simp add: parse_args_end [OF assms(5)])
  next
    case False
    then obtain v vs where v: "ws = v # vs" by (cases ws) auto
    have "in_word (ch s)" using Cons.prems v by (simp add: s_def ch_word)
    then have "parseredirs s = Parsed ([], s)" using s by (intro parseredirs_none) (auto dest: in_wordD simp: cstr_def)
    moreover obtain ws' rs' where "parse_args (argc + 1) s = Parsed (ws', rs', r)" "map word_of ws' = ws" "map read_redir rs' = rs"
      using Cons.IH [of "argc + 1"] Cons.prems False by (auto simp: s_def)
    ultimately show ?thesis unfolding eq using step Cons.prems by simp
  qed
qed simp

definition yields ::
  "(nat \<Rightarrow> byte list \<Rightarrow> (span cmd \<times> byte list) parse) \<Rightarrow> byte list \<Rightarrow> byte list cmd \<Rightarrow> byte list \<Rightarrow> bool" where
  "yields P s c r \<longleftrightarrow> (\<exists>n0. \<forall>n \<ge> n0. \<exists>c'. P n s = Parsed (c', r) \<and> map_cmd word_of c' = c)"

lemma yieldsI: "(\<And>n. \<exists>c'. P (Suc n) s = Parsed (c', r) \<and> map_cmd word_of c' = c) \<Longrightarrow> yields P s c r"
  unfolding yields_def by (rule exI [of _ 1]) (metis Suc_le_D One_nat_def)

lemma yields_Suc:
  assumes "yields P s c r" and "\<And>n c'. P n s = Parsed (c', r) \<Longrightarrow> map_cmd word_of c' = c \<Longrightarrow>
    \<exists>d'. Q (Suc n) t = Parsed (d', u) \<and> map_cmd word_of d' = d"
  shows "yields Q t d u"
proof -
  from assms(1) obtain n0 where n0: "\<forall>n \<ge> n0. \<exists>c'. P n s = Parsed (c', r) \<and> map_cmd word_of c' = c"
    by (auto simp: yields_def)
  show ?thesis unfolding yields_def
  proof (intro exI [of _ "Suc n0"] allI impI)
    fix n assume "Suc n0 \<le> n"
    then obtain m where m: "n = Suc m" "n0 \<le> m" by (cases n) auto
    with n0 assms(2) show "\<exists>d'. Q n t = Parsed (d', u) \<and> map_cmd word_of d' = d" by blast
  qed
qed

lemma yields_Suc2:
  assumes "yields P s c r" and "yields P2 s2 c2 r2"
    and "\<And>n c' c2'. P n s = Parsed (c', r) \<Longrightarrow> map_cmd word_of c' = c \<Longrightarrow>
      P2 n s2 = Parsed (c2', r2) \<Longrightarrow> map_cmd word_of c2' = c2 \<Longrightarrow>
      \<exists>d'. Q (Suc n) t = Parsed (d', u) \<and> map_cmd word_of d' = d"
  shows "yields Q t d u"
proof -
  from assms(1,2) obtain n0 m0 where
    n0: "\<forall>n \<ge> n0. \<exists>c'. P n s = Parsed (c', r) \<and> map_cmd word_of c' = c" and
    m0: "\<forall>n \<ge> m0. \<exists>c'. P2 n s2 = Parsed (c', r2) \<and> map_cmd word_of c' = c2"
    by (auto simp: yields_def)
  show ?thesis unfolding yields_def
  proof (intro exI [of _ "Suc (max n0 m0)"] allI impI)
    fix n assume "Suc (max n0 m0) \<le> n"
    then obtain m where m: "n = Suc m" "n0 \<le> m" "m0 \<le> m" by (cases n) auto
    with n0 m0 assms(3) show "\<exists>d'. Q n t = Parsed (d', u) \<and> map_cmd word_of d' = d" by blast
  qed
qed

lemma exec_yields:
  assumes "legal (EXEC ws)" and "list_all legal_redir rs" and "follow ''|)&;'' r"
  shows "yields parseexec (words_text ws @ redirs_text rs @ r) (add_redirs (EXEC ws) rs) r"
proof (rule yieldsI)
  fix n
  define s where "s = words_text ws @ redirs_text rs @ r"
  have sr: "skip_ws (redirs_text rs @ r) = redirs_text rs @ r"
    by (rule redirs_skip, rule follow_skip [OF assms(3)]) simp
  have s: "skip_ws s = s" unfolding s_def using assms(1) sr by (intro words_skip) auto
  have "ch s \<noteq> 40"
  proof (cases ws)
    case Nil
    then show ?thesis using follow_ch [OF assms(3)] by (cases rs) (auto simp: s_def redir_text_def split: prod.splits)
  next
    case (Cons w vs)
    then have "in_word (ch s)" using assms(1) by (simp add: s_def ch_word)
    then show ?thesis by (auto dest: in_wordD simp: cstr_def)
  qed
  then have np: "ch s \<notin> set (cstr ''('')" by (simp add: cstr_def)
  have "\<exists>rs1 s1 ws' rs2. parseredirs s = Parsed (rs1, s1) \<and> parse_args 0 s1 = Parsed (ws', rs2, r) \<and>
      map word_of ws' = ws \<and> map read_redir (rs1 @ rs2) = rs"
  proof (cases "ws = []")
    case True
    then have "s = redirs_text rs @ r" by (simp add: s_def)
    with parseredirs_text [OF assms(2) follow_skip [OF assms(3)]] follow_ch [OF assms(3)] obtain rs' where
      "parseredirs s = Parsed (rs', r)" "map read_redir rs' = rs" by auto
    with parse_args_end [OF assms(3), of 0] True show ?thesis by auto
  next
    case False
    then have "in_word (ch s)" using assms(1) by (cases ws) (auto simp: s_def ch_word)
    then have "parseredirs s = Parsed ([], s)" using s by (intro parseredirs_none) (auto dest: in_wordD simp: cstr_def)
    moreover have "\<exists>ws' rs'. parse_args 0 s = Parsed (ws', rs', r) \<and> map word_of ws' = ws \<and> map read_redir rs' = rs"
      unfolding s_def using assms False by (intro parse_args_text) auto
    ultimately show ?thesis by auto
  qed
  then obtain rs1 s1 ws' rs2 where "parseredirs s = Parsed (rs1, s1)" "parse_args 0 s1 = Parsed (ws', rs2, r)"
    "map word_of ws' = ws" "map read_redir (rs1 @ rs2) = rs" by blast
  with np show "\<exists>c'. parseexec (Suc n) (words_text ws @ redirs_text rs @ r) = Parsed (c', r) \<and>
      map_cmd word_of c' = add_redirs (EXEC ws) rs"
    unfolding s_def [symmetric] by (simp add: peek_eq s map_add_redirs)
qed

text \<open>The four places a command can stand in.\<close>

definition reads_exec :: "byte list cmd \<Rightarrow> bool" where
  "reads_exec c \<longleftrightarrow> (\<forall>rs r. list_all legal_redir rs \<longrightarrow> follow ''|)&;'' r \<longrightarrow>
     yields parseexec (paren 3 c (unparse c) @ redirs_text rs @ r) (add_redirs c rs) r)"

definition reads_pipe :: "byte list cmd \<Rightarrow> bool" where
  "reads_pipe c \<longleftrightarrow> (\<forall>r. follow '')&;'' r \<longrightarrow> yields parsepipe (paren 2 c (unparse c) @ r) c r)"

definition reads_back :: "byte list cmd \<Rightarrow> bool" where
  "reads_back c \<longleftrightarrow> (\<forall>r. follow '')&;'' r \<longrightarrow> (\<exists>n0 k. k < n0 \<and> (\<forall>n \<ge> n0. \<exists>c0 s0 c'.
     parsepipe n (paren 1 c (unparse c) @ r) = Parsed (c0, s0) \<and>
     parse_backs n c0 s0 = parse_backs (n - k) c' r \<and> map_cmd word_of c' = c)))"

definition reads_line :: "byte list cmd \<Rightarrow> bool" where
  "reads_line c \<longleftrightarrow> (\<forall>r. follow '')'' r \<longrightarrow> yields parseline (unparse c @ r) c r)"

lemma follow_skips [simp]:
  "follow ''|)&;'' r \<Longrightarrow> skip_ws r = r" "follow '')&;'' r \<Longrightarrow> skip_ws r = r" "follow '')'' r \<Longrightarrow> skip_ws r = r"
  by (rule follow_skip, assumption, simp)+

lemma paren_skip:
  "skip_ws (s @ r) = s @ r \<Longrightarrow> skip_ws (s @ 41 # r) = s @ 41 # r \<Longrightarrow> skip_ws (paren k c s @ r) = paren k c s @ r"
  by (auto simp: paren_def whitespace_def intro!: skip_ws_head)

lemma unparse_skip: "legal c \<Longrightarrow> skip_ws r = r \<Longrightarrow> skip_ws (unparse c @ r) = unparse c @ r"
proof (induction c arbitrary: r)
  case (EXEC ws)
  then show ?case by (simp add: words_skip)
next
  case (REDIR c f mode fd)
  then show ?case using paren_skip [of "unparse c" "redir_text (f, mode, fd) @ r" 3 c]
    by (simp add: redir_text_skip skip_ws_head whitespace_def)
next
  case (PIPE c d)
  then show ?case using paren_skip [of "unparse c" "124 # paren 2 d (unparse d) @ r" 3 c]
    by (simp add: skip_ws_head whitespace_def)
next
  case (LIST c d)
  then show ?case using paren_skip [of "unparse c" "59 # unparse d @ r" 1 c]
    by (simp add: skip_ws_head whitespace_def)
next
  case (BACK c)
  then show ?case using paren_skip [of "unparse c" "38 # r" 1 c]
    by (simp add: skip_ws_head whitespace_def)
qed

lemma unparse_paren_skip: "legal c \<Longrightarrow> skip_ws r = r \<Longrightarrow> skip_ws (paren k c (unparse c) @ r) = paren k c (unparse c) @ r"
  by (rule paren_skip) (simp_all add: unparse_skip skip_ws_head whitespace_def)

lemma exec_pipe:
  assumes "reads_exec c" and "tightness c \<noteq> 2"
  shows "reads_pipe c"
  unfolding reads_pipe_def
proof (intro allI impI)
  fix r assume r: "follow '')&;'' r"
  have p: "paren 2 c (unparse c) = paren 3 c (unparse c)" using assms(2) by (cases c) (auto simp: paren_def)
  have "yields parseexec (paren 3 c (unparse c) @ r) c r"
    using assms(1) [unfolded reads_exec_def, rule_format, of "[]" r] follow_mono [OF r] by (simp add: add_redirs_def)
  moreover have "ch r \<notin> set (cstr ''|'')" using r by (cases r) (auto simp: follow_def cstr_def)
  ultimately show "yields parsepipe (paren 2 c (unparse c) @ r) c r"
    unfolding p by (elim yields_Suc) (simp add: peek_eq r)
qed

lemma pipe_back:
  assumes "reads_pipe c" and "tightness c \<noteq> 1"
  shows "reads_back c"
  unfolding reads_back_def
proof (intro allI impI)
  fix r assume r: "follow '')&;'' r"
  have p: "paren 1 c (unparse c) = paren 2 c (unparse c)" using assms(2) by (cases c) (auto simp: paren_def)
  from assms(1) r obtain n0 where "\<forall>n \<ge> n0. \<exists>c'. parsepipe n (paren 1 c (unparse c) @ r) = Parsed (c', r) \<and> map_cmd word_of c' = c"
    unfolding p reads_pipe_def yields_def by blast
  then have "\<forall>n \<ge> Suc n0. \<exists>c0 s0 c'. parsepipe n (paren 1 c (unparse c) @ r) = Parsed (c0, s0) \<and>
     parse_backs n c0 s0 = parse_backs (n - 0) c' r \<and> map_cmd word_of c' = c"
    by (metis Suc_leD diff_zero)
  then show "\<exists>n0 k. k < n0 \<and> (\<forall>n \<ge> n0. \<exists>c0 s0 c'. parsepipe n (paren 1 c (unparse c) @ r) = Parsed (c0, s0) \<and>
     parse_backs n c0 s0 = parse_backs (n - k) c' r \<and> map_cmd word_of c' = c)"
    by (intro exI [of _ "Suc n0"] exI [of _ 0] conjI zero_less_Suc)
qed

text \<open>The end of the loop over \<^verbatim>\<open>&\<close>.\<close>

lemma backs_end:
  assumes "reads_back c" and "follow '');'' r"
  shows "\<exists>n0. \<forall>n \<ge> n0. \<exists>c0 s0 c'. parsepipe n (paren 1 c (unparse c) @ r) = Parsed (c0, s0) \<and>
    parse_backs n c0 s0 = Parsed (c', r) \<and> map_cmd word_of c' = c"
proof -
  have f: "follow '')&;'' r" by (rule follow_mono [OF assms(2)]) simp
  with assms(1) obtain n0 k where k: "k < n0" and b: "\<And>n. n \<ge> n0 \<Longrightarrow> \<exists>c0 s0 c'.
      parsepipe n (paren 1 c (unparse c) @ r) = Parsed (c0, s0) \<and>
      parse_backs n c0 s0 = parse_backs (n - k) c' r \<and> map_cmd word_of c' = c"
    unfolding reads_back_def by blast
  have "ch r \<notin> set (cstr ''&'')" using assms(2) by (cases r) (auto simp: follow_def cstr_def)
  then have e: "parse_backs (Suc m) c' r = Parsed (c', r)" for m c' by (simp add: peek_eq f)
  show ?thesis
  proof (intro exI [of _ n0] allI impI)
    fix n assume n: "n0 \<le> n"
    with k obtain m where "n - k = Suc m" by (cases "n - k") auto
    with b [OF n] e show "\<exists>c0 s0 c'. parsepipe n (paren 1 c (unparse c) @ r) = Parsed (c0, s0) \<and>
      parse_backs n c0 s0 = Parsed (c', r) \<and> map_cmd word_of c' = c" by metis
  qed
qed

lemma back_line:
  assumes "reads_back c" and "0 < tightness c"
  shows "reads_line c"
  unfolding reads_line_def
proof (intro allI impI)
  fix r assume r: "follow '')'' r"
  then obtain n0 where n0: "\<And>n. n \<ge> n0 \<Longrightarrow> \<exists>c0 s0 c'. parsepipe n (unparse c @ r) = Parsed (c0, s0) \<and>
      parse_backs n c0 s0 = Parsed (c', r) \<and> map_cmd word_of c' = c"
    using backs_end [OF assms(1), of r] assms(2) follow_mono [OF r, of "'');''"] by (auto simp: paren_def)
  have "ch r \<notin> set (cstr '';'')" using r by (cases r) (auto simp: follow_def cstr_def)
  show "yields parseline (unparse c @ r) c r" unfolding yields_def
  proof (intro exI [of _ "Suc n0"] allI impI)
    fix n assume "Suc n0 \<le> n"
    then obtain m where m: "n = Suc m" "n0 \<le> m" by (cases n) auto
    with n0 [OF m(2)] \<open>ch r \<notin> set (cstr '';'')\<close> show "\<exists>c'. parseline n (unparse c @ r) = Parsed (c', r) \<and> map_cmd word_of c' = c"
      by (auto simp: peek_eq r)
  qed
qed

lemma line_exec:
  assumes "reads_line c" and "legal c" and "tightness c < 3"
  shows "reads_exec c"
  unfolding reads_exec_def
proof (intro allI impI)
  fix rs r assume rs: "list_all legal_redir rs" and r: "follow ''|)&;'' r"
  define t where "t = redirs_text rs @ r"
  have t: "skip_ws t = t" unfolding t_def by (rule redirs_skip) (simp add: r)
  obtain rs' where p: "parseredirs t = Parsed (rs', r)" "map read_redir rs' = rs"
    using parseredirs_text [OF rs follow_skips(1) [OF r]] follow_ch [OF r] unfolding t_def by blast
  have close: "skip_ws (41 # t) = 41 # t" "gettoken (41 # t) = (41, 41 # t, t, t)"
    by (simp_all add: skip_ws_head whitespace_def gettoken_symbol t cstr_def)
  have u: "skip_ws (unparse c @ 41 # t) = unparse c @ 41 # t" by (rule unparse_skip [OF assms(2) close(1)])
  have opn: "skip_ws (40 # unparse c @ 41 # t) = 40 # unparse c @ 41 # t"
    "gettoken (40 # unparse c @ 41 # t) = (40, 40 # unparse c @ 41 # t, unparse c @ 41 # t, unparse c @ 41 # t)"
    by (simp_all add: skip_ws_head whitespace_def gettoken_symbol u cstr_def)
  have "yields parseline (unparse c @ 41 # t) c (41 # t)"
    using assms(1) by (simp add: reads_line_def follow_def cstr_def)
  then have "yields parseblock (40 # unparse c @ 41 # t) (add_redirs c rs) r"
    by (elim yields_Suc) (simp add: peek_eq opn close p map_add_redirs cstr_def)
  then have "yields parseexec (40 # unparse c @ 41 # t) (add_redirs c rs) r"
    by (elim yields_Suc) (simp add: peek_eq opn cstr_def)
  then show "yields parseexec (paren 3 c (unparse c) @ redirs_text rs @ r) (add_redirs c rs) r"
    using assms(3) by (simp add: paren_def t_def)
qed

lemma pipe_reads:
  assumes "reads_exec l" and "reads_pipe d" and "legal d"
  shows "reads_pipe (PIPE l d)"
  unfolding reads_pipe_def
proof (intro allI impI)
  fix r assume r: "follow '')&;'' r"
  define t where "t = paren 2 d (unparse d) @ r"
  have t: "skip_ws t = t" unfolding t_def using assms(3) r by (intro unparse_paren_skip) simp_all
  have bar: "skip_ws (124 # t) = 124 # t" "gettoken (124 # t) = (124, 124 # t, t, t)"
    by (simp_all add: skip_ws_head whitespace_def gettoken_symbol t cstr_def)
  have "yields parseexec (paren 3 l (unparse l) @ 124 # t) l (124 # t)"
    using assms(1) [unfolded reads_exec_def, rule_format, of "[]" "124 # t"] by (simp add: add_redirs_def follow_def cstr_def)
  moreover have "yields parsepipe t d r" using assms(2) r unfolding reads_pipe_def t_def by blast
  ultimately have "yields parsepipe (paren 3 l (unparse l) @ 124 # t) (PIPE l d) r"
    by (rule yields_Suc2) (simp add: peek_eq bar cstr_def)
  then show "yields parsepipe (paren 2 (PIPE l d) (unparse (PIPE l d)) @ r) (PIPE l d) r"
    by (simp add: paren_def [of 2 "PIPE l d"] t_def)
qed

lemma back_reads:
  assumes "reads_back c"
  shows "reads_back (BACK c)"
  unfolding reads_back_def
proof (intro allI impI)
  fix r assume r: "follow '')&;'' r"
  have amp: "skip_ws (38 # r) = 38 # r" "gettoken (38 # r) = (38, 38 # r, r, r)"
    by (simp_all add: skip_ws_head whitespace_def gettoken_symbol r cstr_def)
  have p: "paren 1 (BACK c) (unparse (BACK c)) @ r = paren 1 c (unparse c) @ 38 # r"
    by (simp add: paren_def [of _ "BACK c"])
  have "follow '')&;'' (38 # r)" by (simp add: follow_def cstr_def)
  with assms obtain n0 k where k: "k < n0" and b: "\<And>n. n \<ge> n0 \<Longrightarrow> \<exists>c0 s0 c'.
      parsepipe n (paren 1 c (unparse c) @ 38 # r) = Parsed (c0, s0) \<and>
      parse_backs n c0 s0 = parse_backs (n - k) c' (38 # r) \<and> map_cmd word_of c' = c"
    unfolding reads_back_def by blast
  have step: "parse_backs (Suc m) c' (38 # r) = parse_backs m (BACK c') r" for m c'
    by (simp add: peek_eq amp cstr_def)
  have "\<exists>c0 s0 c'. parsepipe n (paren 1 c (unparse c) @ 38 # r) = Parsed (c0, s0) \<and>
      parse_backs n c0 s0 = parse_backs (n - Suc k) c' r \<and> map_cmd word_of c' = BACK c" if n: "Suc n0 \<le> n" for n
  proof -
    from n k obtain m where m: "n - k = Suc m" "n - Suc k = m" by (cases "n - k") auto
    from b [of n] n obtain c0 s0 c' where "parsepipe n (paren 1 c (unparse c) @ 38 # r) = Parsed (c0, s0)"
      "parse_backs n c0 s0 = parse_backs (n - k) c' (38 # r)" "map_cmd word_of c' = c" by auto
    with m step show ?thesis by (intro exI [of _ c0] exI [of _ s0] exI [of _ "BACK c'"]) simp
  qed
  then show "\<exists>n0 k. k < n0 \<and> (\<forall>n \<ge> n0. \<exists>c0 s0 c'.
     parsepipe n (paren 1 (BACK c) (unparse (BACK c)) @ r) = Parsed (c0, s0) \<and>
     parse_backs n c0 s0 = parse_backs (n - k) c' r \<and> map_cmd word_of c' = BACK c)"
    unfolding p using k by (intro exI [of _ "Suc n0"] exI [of _ "Suc k"]) auto
qed

lemma list_reads:
  assumes "reads_back l" and "reads_line d" and "legal d"
  shows "reads_line (LIST l d)"
  unfolding reads_line_def
proof (intro allI impI)
  fix r assume r: "follow '')'' r"
  define t where "t = unparse d @ r"
  have t: "skip_ws t = t" unfolding t_def using assms(3) r by (intro unparse_skip) simp_all
  have semi: "skip_ws (59 # t) = 59 # t" "gettoken (59 # t) = (59, 59 # t, t, t)"
    by (simp_all add: skip_ws_head whitespace_def gettoken_symbol t cstr_def)
  have "follow '');'' (59 # t)" by (simp add: follow_def cstr_def)
  from backs_end [OF assms(1) this] obtain n0 where n0: "\<And>n. n \<ge> n0 \<Longrightarrow> \<exists>c0 s0 c'.
      parsepipe n (paren 1 l (unparse l) @ 59 # t) = Parsed (c0, s0) \<and>
      parse_backs n c0 s0 = Parsed (c', 59 # t) \<and> map_cmd word_of c' = l" by blast
  have "yields parseline t d r" using assms(2) r unfolding reads_line_def t_def by blast
  then obtain m0 where m0: "\<And>n. n \<ge> m0 \<Longrightarrow> \<exists>d'. parseline n t = Parsed (d', r) \<and> map_cmd word_of d' = d"
    unfolding yields_def by blast
  show "yields parseline (unparse (LIST l d) @ r) (LIST l d) r" unfolding yields_def
  proof (intro exI [of _ "Suc (max n0 m0)"] allI impI)
    fix n assume "Suc (max n0 m0) \<le> n"
    then obtain m where m: "n = Suc m" "n0 \<le> m" "m0 \<le> m" by (cases n) auto
    from n0 [OF m(2)] m0 [OF m(3)] obtain c0 s0 c' d' where
      "parsepipe m (paren 1 l (unparse l) @ 59 # t) = Parsed (c0, s0)" "parse_backs m c0 s0 = Parsed (c', 59 # t)"
      "map_cmd word_of c' = l" "parseline m t = Parsed (d', r)" "map_cmd word_of d' = d" by blast
    moreover have "unparse (LIST l d) @ r = paren 1 l (unparse l) @ 59 # t" by (simp add: t_def)
    ultimately show "\<exists>c'. parseline n (unparse (LIST l d) @ r) = Parsed (c', r) \<and> map_cmd word_of c' = LIST l d"
      unfolding m(1) by (simp add: peek_eq semi cstr_def)
  qed
qed

lemma legal_reads: "legal c \<Longrightarrow> reads_exec c \<and> reads_pipe c \<and> reads_back c \<and> reads_line c"
proof (induction c)
  case (EXEC ws)
  then have "reads_exec (EXEC ws)" by (auto simp: reads_exec_def paren_def intro: exec_yields)
  with exec_pipe pipe_back back_line show ?case by simp
next
  case (REDIR c f mode fd)
  have "reads_exec (REDIR c f mode fd)" unfolding reads_exec_def
  proof (intro allI impI)
    fix rs r assume rs: "list_all legal_redir rs" and r: "follow ''|)&;'' r"
    have "reads_exec c" and "list_all legal_redir ((f, mode, fd) # rs)" using REDIR rs by simp_all
    then have "yields parseexec (paren 3 c (unparse c) @ redirs_text ((f, mode, fd) # rs) @ r) (add_redirs c ((f, mode, fd) # rs)) r"
      using r unfolding reads_exec_def by blast
    then show "yields parseexec (paren 3 (REDIR c f mode fd) (unparse (REDIR c f mode fd)) @ redirs_text rs @ r)
        (add_redirs (REDIR c f mode fd) rs) r"
      by (simp add: paren_def [of 3 "REDIR c f mode fd"] add_redirs_def)
  qed
  with exec_pipe pipe_back back_line show ?case by simp
next
  case (PIPE l d)
  then have "reads_pipe (PIPE l d)" by (intro pipe_reads) auto
  moreover from pipe_back [OF this] have b: "reads_back (PIPE l d)" by simp
  moreover from back_line [OF b] have c: "reads_line (PIPE l d)" by simp
  moreover from line_exec [OF c] PIPE have "reads_exec (PIPE l d)" by simp
  ultimately show ?case by simp
next
  case (LIST l d)
  then have "reads_line (LIST l d)" by (intro list_reads) auto
  moreover from line_exec [OF this] LIST have a: "reads_exec (LIST l d)" by simp
  moreover from exec_pipe [OF a] have b: "reads_pipe (LIST l d)" by simp
  moreover from pipe_back [OF b] have "reads_back (LIST l d)" by simp
  ultimately show ?case by simp
next
  case (BACK c)
  then have "reads_back (BACK c)" by (intro back_reads) auto
  moreover from back_line [OF this] have l: "reads_line (BACK c)" by simp
  moreover from line_exec [OF l] BACK have a: "reads_exec (BACK c)" by simp
  moreover from exec_pipe [OF a] have "reads_pipe (BACK c)" by simp
  ultimately show ?case by simp
qed

lemma unparse_no_nul: "legal c \<Longrightarrow> 0 \<notin> set (unparse c)"
  by (induction c) (auto simp: paren_def redir_text_def legal_redir_def legal_word_def list_all_iff in_word_def)

text \<open>
  C33. Every command (with legal words, fewer than ten of them in a simple command, and the redirections the
  shell knows) has a text that the parser of the shell reads as that very command: lists, pipelines,
  background commands, redirections and parentheses nest as the grammar says.
\<close>

theorem parse_unparse:
  assumes "legal c"
  shows "\<exists>c'. parsecmd (unparse c) = Parsed c' \<and> map_cmd word_of c' = c"
proof -
  define s where "s = unparse c"
  have "yields parseline (unparse c @ []) c []"
    using legal_reads [OF assms] unfolding reads_line_def by (simp add: follow_def)
  then obtain n0 where n0: "\<forall>n \<ge> n0. \<exists>c'. parseline n s = Parsed (c', []) \<and> map_cmd word_of c' = c"
    by (auto simp: yields_def s_def)
  have "parseline (5 * length s + 5) s \<noteq> Deep"
    using unparse_no_nul [OF assms] by (intro parser_not_Deep) (auto simp: s_def)
  from parseline_fuel [OF this, of n0] have "parseline (5 * length s + 5) s = parseline (5 * length s + 5 + n0) s" by simp
  with n0 obtain c' where "parseline (5 * length s + 5) s = Parsed (c', [])" "map_cmd word_of c' = c"
    by (metis le_add2)
  then show ?thesis unfolding s_def [symmetric] by (simp add: parsecmd_def peek_eq skip_ws_def)
qed

theorem parse_unparse_witness:
  "\<exists>c'. parsecmd (cstr ''(ls ;)|wc >f &'') = Parsed c' \<and>
     map_cmd word_of c' = BACK (PIPE (LIST (EXEC [cstr ''ls'']) (EXEC [])) (REDIR (EXEC [cstr ''wc'']) (cstr ''f'') (O_WRONLY OR O_CREATE) 1))"
proof -
  define c where "c = BACK (PIPE (LIST (EXEC [cstr ''ls'']) (EXEC [])) (REDIR (EXEC [cstr ''wc'']) (cstr ''f'') (O_WRONLY OR O_CREATE) 1))"
  have "legal c"
    by (simp add: c_def legal_redir_def legal_word_def in_word_def whitespace_def symbols_def cstr_def)
  moreover have "unparse c = cstr ''(ls ;)|wc >f &''"
    by (simp add: c_def paren_def redir_text_def cstr_def)
  ultimately show ?thesis using parse_unparse [of c] unfolding c_def by simp
qed

end
