(* ===== verification/Spec2Isabelle.thy ===== *)
theory Spec2Isabelle
  imports Crash Content_Spec Dir Proc_Spec Fork_Spec Console Ide Mkfs_Spec Umalloc Sh_Syntax
begin

text \<open>
  Verification of the operating system in src/: an x86 kernel derived from xv6, with a file system of block groups
  (fs.c, mkfs.c), copy-on-write fork and a lottery scheduler as build options, and its user programs.

  \<^bold>\<open>The program.\<close> User programs enter the kernel by a trap (trap.c), which calls a handler through a table (syscall.c,
  sysproc.c, sysfile.c). The handlers work on the table of processes (proc.c), on address spaces (vm.c) made of pages
  (kalloc.c), and on open files (file.c), which are pipes (pipe.c), devices (console.c) or inodes (fs.c). Inodes
  live in blocks that are read through a cache (bio.c), changed in transactions (log.c) and stored by a disk driver
  (memide.c, ide.c). Spin locks (spinlock.c) protect all of it; the scheduler (proc.c) shares the processors.

  \<^bold>\<open>Build configuration.\<close> The Makefile defines \<^verbatim>\<open>original\<close> and \<^verbatim>\<open>lottery\<close> and not \<^verbatim>\<open>xv6ffs\<close>: block groups, no
  copy-on-write, round robin. Where the other branch of \<^verbatim>\<open>original\<close> or \<^verbatim>\<open>lottery\<close> is modelled too, its definitions
  have the suffix \<open>_cow\<close> or \<open>_lottery\<close>, or an argument \<open>lot\<close>.

  \<^bold>\<open>How code becomes definitions\<close> (theory Prelude). A kernel function is a function from a state to a result: \<open>Ok\<close> with
  a value and the new state, \<open>Panic\<close> where the code calls \<^verbatim>\<open>panic\<close> (or spins for ever), \<open>Sleep\<close> where it
  gives up the processor; \<open>bind\<close>, \<open>for_each\<close> and \<open>whenk\<close> compose them as the statements of the code are composed. The states are
  records that extend each other as the layers of the kernel do: \<open>bio\<close>, \<open>logst\<close>, \<open>fsst\<close>, \<open>filest\<close>, \<open>procst\<close>, \<open>kstate\<close>,
  \<open>consst\<close>. A critical section is one step; a function that sleeps inside one is cut there. \<^verbatim>\<open>uint\<close>s are 32-bit words
  where they may wrap around and natural numbers where the code keeps them small. \<open>wp\<close> is total correctness: no
  panic, no sleep, and the postcondition.

  \<^bold>\<open>The theories, bottom up.\<close>
  \<^item> Fs\_Layout: param.h, fs.h and the superblock of mkfs.c. Where bitmaps, inodes, statistics and data blocks lie, and
    that they are disjoint except where the macros make them overlap.
  \<^item> Bio, Bio\_Spec: bio.c over memide.c. The doubly linked list of buffers is a list of all buffers in order of use;
    the cache is transparent (\<open>view\<close>).
  \<^item> Ide: ide.c. The interrupt-driven driver has the effect of memide.c, in the order of the requests.
  \<^item> Log, Log\_Spec, Txn, Crash: log.c. The exact disk writes of every function; a crash at any point of a
    commit leaves all of the transaction or nothing of it, and recovery may itself be interrupted.
  \<^item> Fs, Ialloc, Dir, Inode\_Spec, Content\_Spec: fs.c. Inodes written and read back through the log, reference
    counts, and that a file whose blocks are allocated reads back what was written to it. The locale \<open>disk_slots\<close> is the contract of
    records of a fixed size in blocks, interpreted for inodes (as the kernel places them
    and as mkfs does) and for statistics records.
  \<^item> Boot: what \<^verbatim>\<open>main\<close> and the first process run of bio.c, fs.c and log.c before any system call. \<^verbatim>\<open>iinit\<close> changes the
    statistics records on the disk and nothing else.
  \<^item> Mkfs, Mkfs\_Spec: mkfs.c. Building an image is an operation on a list of files, and a kernel booted on the image reads
    these files. The places of an inode agree in the first block group only.
  \<^item> CString: string.c and the string functions of ulib.c, with overlapping arguments.
  \<^item> Ring, Pipe: the ring buffers of pipe.c and console.c share the locale \<open>ring\<close>. A pipe is a bounded queue, and a reader
    and a writer on two processors miss no wakeup unless the writer is killed.
  \<^item> Spinlock: spinlock.c on any number of processors, cut at the accesses to the lock word: mutual exclusion,
    the nesting of \<^verbatim>\<open>pushcli\<close>, and where it stores the seeds of the lottery.
  \<^item> Kalloc, Vm, Vm\_Spec, Fork\_Vm: kalloc.c and vm.c. Pages are handed out once; page tables, kept as bytes in memory,
    map what they were told to map; \<^verbatim>\<open>copyuvm\<close> copies an address space.
  \<^item> File, Proc, Lottery, Sched, Proc\_Spec, Fork\_Spec: file.c and proc.c. An invariant of the process table
    under any interleaving of its critical sections, \<^verbatim>\<open>fork\<close> as a whole, fairness of round robin, and the arithmetic of the
    lottery.
  \<^item> Syscall, Exec, Sysfile, Trap: syscall.c, exec.c, sysfile.c, sysproc.c, trap.c. Arguments of system calls stay
    inside the memory of the process; \<^verbatim>\<open>sleep\<close> lasts the number of ticks it is given, whatever interrupts, kills and the
    scheduler do meanwhile.
  \<^item> Kbd, Console: kbd.c, uart.c, console.c. The console stays well formed, never runs off the screen and is a line editor.
  \<^item> Printf, Grep, Utils, Sh, Sh\_Syntax: printf.c and the user programs. The matcher of grep decides the language
    of its pattern; the parser of the shell ends on every line and reads back every command.
  \<^item> Umalloc: umalloc.c. Unless the program gives back memory the allocator took, the blocks it holds never overlap, and the searches of \<^verbatim>\<open>malloc\<close> and \<^verbatim>\<open>free\<close> end.
  \<^item> Demo, Demo\_Kernel: the concrete states on which the properties are instantiated.

  \<^bold>\<open>Bounds and fuel.\<close> \<open>bwalk\<close> searches the ring of buffers with one round more than there are buffers; the invariant
  makes that enough. \<open>ide_last\<close> has as many rounds as there are buffers, and no buffer is queued twice. \<open>parsecmd\<close> gives
  its parsers a depth of five times the length of the line and five more; each call that does not consume a
  character goes down in a chain of at most five, and it is shown in Sh that the bound is never
  reached. \<open>kill_line\<close> starts with the number of characters it can remove. The endless loops of the schedulers are
  cut into passes; the fairness theorem is about each pass. The loops of umalloc.c are partial functions, and that they
  end is shown with the safety of the allocator.

  \<^bold>\<open>Parameters.\<close> What is not C code of the repository is an argument: \<^verbatim>\<open>swtch\<close> (the machine until a process switches
  back), whether \<^verbatim>\<open>sbrk\<close> is granted (\<open>grants\<close>), the addresses the linker decides (\<open>linkmap\<close>, \<open>kimage\<close>), bytes the compiler leaves
  uninitialised (\<open>junk\<close>), what the hardware delivers (scan codes, status registers, register CR2), and, for user programs, what \<^verbatim>\<open>read\<close> delivers.

  \<^bold>\<open>Not modelled.\<close> Assembly (bootasm.S, entry.S, entryother.S, swtch.S, trapasm.S, usys.S, initcode.S, vectors.pl) and what
  only sets up hardware: bootmain.c, main.c, mp.c, lapic.c, ioapic.c, picirq.c, timer.c, \<^verbatim>\<open>seginit\<close> of vm.c and \<^verbatim>\<open>tvinit\<close>
  of trap.c. Their effect is on registers no other code of the repository reads back. init.c is an endless loop of system
  calls that keeps a shell running. The test programs (usertests.c,
  forktest.c, stressfs.c, cowtest.c, nicetest.c, schedTest.c and others) exercise the kernel and have no function of their own.
  Timing, caches of the processor and the TLB are outside the model.
\<close>

end
